(* ===== verification/Prelude.thy ===== *)
theory Prelude
  imports Main "HOL-Library.Char_ord" "HOL-Library.List_Lexorder" "HOL-Library.Sublist"
    "HOL-Library.AList" "HOL-Library.Word" "HOL-Library.Code_Target_Nat"
begin

text \<open>
  Shared vocabulary of the development: the operations of Go's packages \<open>strings\<close>, \<open>strconv\<close>,
  \<open>sort\<close> and \<open>unicode\<close> that the winunitd sources call, result types for fallible functions, and
  the generic lemmas on lists and relations that the component theories share.

  A Go string is a sequence of bytes and is modelled as HOL's \<open>string\<close> (a list of 8-bit
  characters).  The loop \<open>for _, r := range s\<close> decodes UTF-8; \<open>runes\<close> gives the bytes of each rune it
  visits, a byte that does not decode standing for itself, and \<open>TrimSpace\<close> and \<open>Fields\<close> work on these
  runes with Unicode's white space.  \<open>ToLower\<close>, \<open>ToUpper\<close>, \<open>EqualFold\<close> and \<open>Quote\<close> are modelled on
  ASCII text: a byte from 128 upwards has no case and is printed as it is.  \<open>sort.Strings\<close> orders by
  bytes, which is the lexicographic order that \<open>List_Lexorder\<close> puts on lists of characters.
\<close>

named_theorems go_strings \<open>unfolding rules of the modelled string library\<close>

type_synonym name = string
type_synonym 'a res = "string + 'a"

section \<open>Characters\<close>

definition IsSpace :: "char \<Rightarrow> bool" where
  "IsSpace c \<longleftrightarrow> c \<in> {CHR 0x09, CHR 0x0A, CHR 0x0B, CHR 0x0C, CHR 0x0D, CHR 0x20}"

definition is_upper_ascii :: "char \<Rightarrow> bool" where
  "is_upper_ascii c \<longleftrightarrow> 65 \<le> (of_char c :: nat) \<and> (of_char c :: nat) \<le> 90"

definition is_lower_ascii :: "char \<Rightarrow> bool" where
  "is_lower_ascii c \<longleftrightarrow> 97 \<le> (of_char c :: nat) \<and> (of_char c :: nat) \<le> 122"

definition is_digit :: "char \<Rightarrow> bool" where
  "is_digit c \<longleftrightarrow> 48 \<le> (of_char c :: nat) \<and> (of_char c :: nat) \<le> 57"

definition digit_val :: "char \<Rightarrow> nat" where
  "digit_val c = of_char c - 48"

definition lower_char :: "char \<Rightarrow> char" where
  "lower_char c = (if is_upper_ascii c then char_of ((of_char c :: nat) + 32) else c)"

definition upper_char :: "char \<Rightarrow> char" where
  "upper_char c = (if is_lower_ascii c then char_of ((of_char c :: nat) - 32) else c)"

lemma IsSpace_code: "IsSpace c \<longleftrightarrow> (of_char c :: nat) \<in> {9, 10, 11, 12, 13, 32}"
proof -
  have "c = char_of (of_char c :: nat)" by simp
  show ?thesis
    unfolding IsSpace_def
    by (auto simp: of_char_eq_iff [where 'a = nat, symmetric] simp del: of_char_eq_iff)
qed

lemma of_lower_char: "(of_char (lower_char c) :: nat) = (if is_upper_ascii c then of_char c + 32 else of_char c)"
  by (simp add: lower_char_def is_upper_ascii_def)

lemma lower_char_not_upper [simp]: "\<not> is_upper_ascii (lower_char c)"
  using of_lower_char [of c] by (auto simp: is_upper_ascii_def split: if_splits)

lemma lower_char_idem [simp]: "lower_char (lower_char c) = lower_char c"
  by (simp add: lower_char_def [of "lower_char c"])

lemma IsSpace_lower_char [simp]: "IsSpace (lower_char c) = IsSpace c"
  by (auto simp: IsSpace_code of_lower_char is_upper_ascii_def split: if_splits)

definition backslash :: char where
  "backslash = CHR 0x5C"

definition dquote :: char where
  "dquote = CHR 0x22"

section \<open>Runes\<close>

text \<open>
  The ranges of the bytes that must follow a byte, as in package \<open>unicode/utf8\<close>: none for an ASCII byte
  and for a byte that begins no rune.
\<close>

definition is_ascii :: "char \<Rightarrow> bool" where
  "is_ascii c \<longleftrightarrow> (case c of Char _ _ _ _ _ _ _ b7 \<Rightarrow> \<not> b7)"

definition rune_tail :: "char \<Rightarrow> (nat \<times> nat) list" where
  "rune_tail c =
     (if is_ascii c then []
      else let b = (of_char c :: nat); t = (0x80, 0xBF) in
           if b < 0xC2 then []
           else if b \<le> 0xDF then [t]
           else if b = 0xE0 then [(0xA0, 0xBF), t]
           else if b = 0xED then [(0x80, 0x9F), t]
           else if b \<le> 0xEF then [t, t]
           else if b = 0xF0 then [(0x90, 0xBF), t, t]
           else if b \<le> 0xF3 then [t, t, t]
           else if b = 0xF4 then [(0x80, 0x8F), t, t]
           else [])"

fun accepts :: "(nat \<times> nat) list \<Rightarrow> string \<Rightarrow> bool" where
  "accepts [] s = True"
| "accepts (r # rs) [] = False"
| "accepts (r # rs) (c # s) = (fst r \<le> of_char c \<and> of_char c \<le> snd r \<and> accepts rs s)"

definition rune_more :: "char \<Rightarrow> string \<Rightarrow> nat" where
  "rune_more c s = (if accepts (rune_tail c) s then length (rune_tail c) else 0)"

function runes :: "string \<Rightarrow> string list" where
  "runes [] = []"
| "runes (c # s) = (let n = rune_more c s in (c # take n s) # runes (drop n s))"
  by pat_completeness auto
termination by (relation "measure length") auto

text \<open>\<open>unicode.IsSpace\<close> on the encoding of a rune: the characters with the property \<open>White_Space\<close>.\<close>

fun SpaceRune :: "string \<Rightarrow> bool" where
  "SpaceRune [a] = IsSpace a"
| "SpaceRune [a, b] = (a = CHR 0xC2 \<and> b \<in> {CHR 0x85, CHR 0xA0})"
| "SpaceRune [a, b, c] =
     (a = CHR 0xE1 \<and> b = CHR 0x9A \<and> c = CHR 0x80
      \<or> a = CHR 0xE2 \<and> b = CHR 0x80 \<and> ((of_char c :: nat) \<in> {0x80..0x8A} \<or> c \<in> {CHR 0xA8, CHR 0xA9, CHR 0xAF})
      \<or> a = CHR 0xE2 \<and> b = CHR 0x81 \<and> c = CHR 0x9F
      \<or> a = CHR 0xE3 \<and> b = CHR 0x80 \<and> c = CHR 0x80)"
| "SpaceRune _ = False"

text \<open>\<open>WriteRune\<close> of a rune read by such a loop: a byte that did not decode is written as U+FFFD.\<close>

definition write_rune :: "string \<Rightarrow> string" where
  "write_rune r = (case r of [c] \<Rightarrow> if is_ascii c then [c] else [CHR 0xEF, CHR 0xBF, CHR 0xBD] | _ \<Rightarrow> r)"

definition valid_utf8 :: "string \<Rightarrow> bool" where
  "valid_utf8 s \<longleftrightarrow> list_all (\<lambda>r. write_rune r = r) (runes s)"

lemma is_ascii_code: "is_ascii c \<longleftrightarrow> (of_char c :: nat) < 128"
  by (cases c) (simp add: is_ascii_def of_char_def)

lemma rune_tail_high: "r \<in> set (rune_tail c) \<Longrightarrow> 128 \<le> fst r"
  by (auto simp: rune_tail_def Let_def split: if_splits)

lemma rune_tail_ascii [simp]: "is_ascii c \<Longrightarrow> rune_tail c = []"
  by (simp add: rune_tail_def)

lemma accepts_length: "accepts rs s \<Longrightarrow> length rs \<le> length s"
  by (induction rs s rule: accepts.induct) auto

lemma accepts_append: "accepts rs s \<Longrightarrow> accepts rs (s @ t)"
  by (induction rs s rule: accepts.induct) auto

lemma accepts_take: "length rs \<le> n \<Longrightarrow> accepts rs (take n s @ t) \<longleftrightarrow> accepts rs s" if "accepts rs s"
  using that by (induction rs s arbitrary: n rule: accepts.induct) (auto simp: take_Cons' )

lemma accepts_before_ascii:
  "\<forall>r \<in> set rs. 128 \<le> fst r \<Longrightarrow> is_ascii c \<Longrightarrow> accepts rs (s @ c # t) \<longleftrightarrow> accepts rs s"
  by (induction rs s rule: accepts.induct) (auto simp: is_ascii_code neq_Nil_conv)

lemma rune_more_le: "rune_more c s \<le> length s"
  by (simp add: rune_more_def accepts_length)

lemma rune_more_ascii [simp]: "is_ascii c \<Longrightarrow> rune_more c s = 0"
  by (simp add: rune_more_def)

lemma rune_more_before_ascii: "is_ascii d \<Longrightarrow> rune_more c (s @ d # t) = rune_more c s"
  using rune_tail_high accepts_before_ascii [of "rune_tail c" d s t] by (simp add: rune_more_def)

lemma concat_runes [simp]: "concat (runes s) = s"
  by (induction s rule: runes.induct) (simp_all add: Let_def)

lemma runes_Nil [simp]: "runes s = [] \<longleftrightarrow> s = []"
  by (cases s) (simp_all add: Let_def)

lemma runes_not_Nil: "r \<in> set (runes s) \<Longrightarrow> r \<noteq> []"
  by (induction s rule: runes.induct) (auto simp: Let_def)

text \<open>An ASCII byte is a rune wherever it stands, and does not change how its neighbours are decoded.\<close>

lemma runes_ascii: "is_ascii d \<Longrightarrow> runes (s @ d # t) = runes s @ [d] # runes t"
proof (induction s rule: runes.induct)
  case (2 c s)
  have "drop (rune_more c s) (s @ d # t) = drop (rune_more c s) s @ d # t"
    "take (rune_more c s) (s @ d # t) = take (rune_more c s) s"
    using rune_more_le [of c s] by simp_all
  then show ?case using 2 by (simp add: Let_def rune_more_before_ascii)
qed (simp add: Let_def)

lemma runes_ascii_hd [simp]: "is_ascii d \<Longrightarrow> runes (d # t) = [d] # runes t"
  using runes_ascii [of d "[]" t] by simp

lemma runes_ascii_last: "is_ascii d \<Longrightarrow> runes (s @ [d]) = runes s @ [[d]]"
  using runes_ascii [of d s "[]"] by simp

text \<open>A run of the runes of a string decodes to itself.\<close>

lemma runes_split: "runes s = xs @ ys \<Longrightarrow> runes (concat xs) = xs \<and> runes (concat ys) = ys"
proof (induction s arbitrary: xs rule: runes.induct)
  case (2 c s)
  let ?n = "rune_more c s"
  show ?case
  proof (cases xs)
    case Nil
    then have "ys = runes (c # s)" using "2.prems" by simp
    then show ?thesis by (simp only: Nil concat_runes concat.simps runes.simps(1) simp_thms)
  next
    case (Cons r xs')
    have r: "r = c # take ?n s" "runes (drop ?n s) = xs' @ ys" using "2.prems" by (simp_all add: Cons Let_def)
    have IH: "runes (concat xs') = xs'" "runes (concat ys) = ys" using "2.IH" [OF refl r(2)] by simp_all
    have d: "drop ?n s = concat xs' @ concat ys" using arg_cong [OF r(2), of concat] by simp
    have "rune_more c (take ?n s @ concat xs') = ?n"
    proof (cases "accepts (rune_tail c) s")
      case True
      then show ?thesis using accepts_take [OF True, of ?n "concat xs'"] by (simp add: rune_more_def)
    next
      case False
      then have "s = concat xs' @ concat ys" using d by (simp add: rune_more_def)
      then have "\<not> accepts (rune_tail c) (concat xs')" using False accepts_append by metis
      then show ?thesis using False by (simp add: rune_more_def)
    qed
    moreover have "length (take ?n s) = ?n" using rune_more_le [of c s] by simp
    ultimately show ?thesis using IH by (simp add: Cons r(1) Let_def)
  qed
qed simp

section \<open>Package strings\<close>

definition TrimLeft :: "('a \<Rightarrow> bool) \<Rightarrow> 'a list \<Rightarrow> 'a list" where
  "TrimLeft p s = dropWhile p s"

definition TrimRight :: "('a \<Rightarrow> bool) \<Rightarrow> 'a list \<Rightarrow> 'a list" where
  "TrimRight p s = rev (dropWhile p (rev s))"

definition TrimSpace :: "string \<Rightarrow> string" where
  "TrimSpace s = concat (TrimRight SpaceRune (TrimLeft SpaceRune (runes s)))"

definition ToLower :: "string \<Rightarrow> string" where
  "ToLower s = map lower_char s"

definition ToUpper :: "string \<Rightarrow> string" where
  "ToUpper s = map upper_char s"

definition EqualFold :: "string \<Rightarrow> string \<Rightarrow> bool" where
  "EqualFold s t \<longleftrightarrow> ToLower s = ToLower t"

definition HasPrefix :: "string \<Rightarrow> string \<Rightarrow> bool" where
  "HasPrefix s p \<longleftrightarrow> prefix p s"

definition HasSuffix :: "string \<Rightarrow> string \<Rightarrow> bool" where
  "HasSuffix s p \<longleftrightarrow> suffix p s"

definition TrimPrefix :: "string \<Rightarrow> string \<Rightarrow> string" where
  "TrimPrefix s p = (if HasPrefix s p then drop (length p) s else s)"

definition TrimSuffix :: "string \<Rightarrow> string \<Rightarrow> string" where
  "TrimSuffix s p = (if HasSuffix s p then take (length s - length p) s else s)"

text \<open>The first position at which \<open>sep\<close> occurs, as \<open>strings.Index\<close>; None stands for -1.\<close>

fun Index :: "string \<Rightarrow> string \<Rightarrow> nat option" where
  "Index s sep =
     (if prefix sep s then Some 0
      else (case s of [] \<Rightarrow> None | _ # t \<Rightarrow> map_option Suc (Index t sep)))"

declare Index.simps [simp del]

definition Contains :: "string \<Rightarrow> string \<Rightarrow> bool" where
  "Contains s sep \<longleftrightarrow> Index s sep \<noteq> None"

text \<open>\<open>strings.LastIndex\<close>: the last position at which \<open>sep\<close> occurs.\<close>

fun LastIndex :: "string \<Rightarrow> string \<Rightarrow> nat option" where
  "LastIndex [] sep = (if sep = [] then Some 0 else None)"
| "LastIndex (c # t) sep =
     (case LastIndex t sep of
        Some i \<Rightarrow> Some (Suc i)
      | None \<Rightarrow> (if prefix sep (c # t) then Some 0 else None))"

text \<open>\<open>strings.LastIndexAny\<close> for a set of ASCII characters.\<close>

fun LastIndexAny :: "string \<Rightarrow> string \<Rightarrow> nat option" where
  "LastIndexAny [] cs = None"
| "LastIndexAny (c # t) cs =
     (case LastIndexAny t cs of
        Some i \<Rightarrow> Some (Suc i)
      | None \<Rightarrow> (if c \<in> set cs then Some 0 else None))"

text \<open>\<open>strings.Cut\<close>: the text before and after the first \<open>sep\<close>, and whether \<open>sep\<close> was found.\<close>

definition Cut :: "string \<Rightarrow> string \<Rightarrow> string \<times> string \<times> bool" where
  "Cut s sep =
     (case Index s sep of
        Some i \<Rightarrow> (take i s, drop (i + length sep) s, True)
      | None \<Rightarrow> (s, [], False))"

text \<open>\<open>strings.Split\<close> with a one-byte separator.\<close>

fun Split :: "string \<Rightarrow> char \<Rightarrow> string list" where
  "Split [] sep = [[]]"
| "Split (c # t) sep =
     (if c = sep then [] # Split t sep
      else (case Split t sep of [] \<Rightarrow> [[c]] | w # ws \<Rightarrow> (c # w) # ws))"

text \<open>\<open>strings.Fields\<close>: the maximal runs of runes that are not white space.\<close>

fun field_runes :: "string list \<Rightarrow> string \<Rightarrow> string list" where
  "field_runes [] cur = (if cur = [] then [] else [cur])"
| "field_runes (r # rs) cur =
     (if SpaceRune r then (if cur = [] then [] else [cur]) @ field_runes rs []
      else field_runes rs (cur @ r))"

definition Fields :: "string \<Rightarrow> string list" where
  "Fields s = field_runes (runes s) []"

text \<open>Words separated by one space.\<close>

fun spaced :: "string list \<Rightarrow> string" where
  "spaced [] = []"
| "spaced [w] = w"
| "spaced (w # ws) = w @ [CHR '' ''] @ spaced ws"

text \<open>\<open>strings.ReplaceAll(s, "\r\n", "\n")\<close> and \<open>strings.ReplaceAll(s, "\r", "\n")\<close>.\<close>

fun replace_crlf :: "string \<Rightarrow> string" where
  "replace_crlf (a # b # t) =
     (if a = CHR 0x0D \<and> b = CHR 0x0A then CHR 0x0A # replace_crlf t else a # replace_crlf (b # t))"
| "replace_crlf s = s"

definition replace_cr :: "string \<Rightarrow> string" where
  "replace_cr s = map (\<lambda>c. if c = CHR 0x0D then CHR 0x0A else c) s"

lemmas go_string_defs [go_strings] =
  TrimSpace_def TrimLeft_def TrimRight_def ToLower_def ToUpper_def EqualFold_def HasPrefix_def
  HasSuffix_def TrimPrefix_def TrimSuffix_def Contains_def Cut_def

subsection \<open>Trimming and folding\<close>

lemma TrimRight_id: "(s = [] \<or> \<not> p (last s)) \<Longrightarrow> TrimRight p s = s"
  by (cases s rule: rev_cases) (auto simp: TrimRight_def)

lemma TrimLeft_id: "(s = [] \<or> \<not> p (hd s)) \<Longrightarrow> TrimLeft p s = s"
  by (cases s) (auto simp: TrimLeft_def)

lemma TrimRight_last: "TrimRight p s \<noteq> [] \<Longrightarrow> \<not> p (last (TrimRight p s))"
  using hd_dropWhile [of p "rev s"] by (simp add: TrimRight_def last_rev)

lemma TrimRight_prefix: "prefix (TrimRight p s) s"
  unfolding TrimRight_def using suffix_dropWhile [of p "rev s"]
  by (metis rev_rev_ident suffix_to_prefix)

abbreviation trimmed_runes :: "string \<Rightarrow> string list" where
  "trimmed_runes s \<equiv> TrimRight SpaceRune (TrimLeft SpaceRune (runes s))"

lemma runes_TrimSpace: "runes (TrimSpace s) = trimmed_runes s"
proof -
  let ?l = "TrimLeft SpaceRune (runes s)"
  have "runes s = takeWhile SpaceRune (runes s) @ ?l" by (simp add: TrimLeft_def)
  then have "runes (concat ?l) = ?l" using runes_split by blast
  moreover obtain zs where "?l = trimmed_runes s @ zs" using TrimRight_prefix prefixE by metis
  ultimately show ?thesis unfolding TrimSpace_def using runes_split by metis
qed

lemma trimmed_runes_ends:
  assumes "trimmed_runes s \<noteq> []"
  shows "\<not> SpaceRune (hd (trimmed_runes s))" "\<not> SpaceRune (last (trimmed_runes s))"
proof -
  let ?l = "TrimLeft SpaceRune (runes s)"
  have "?l \<noteq> []" using assms by (auto simp: TrimRight_def)
  then have "\<not> SpaceRune (hd ?l)" by (simp add: TrimLeft_def hd_dropWhile)
  moreover have "hd (trimmed_runes s) = hd ?l"
    using TrimRight_prefix [of SpaceRune ?l] assms by (metis hd_append2 prefixE)
  ultimately show "\<not> SpaceRune (hd (trimmed_runes s))" by simp
  show "\<not> SpaceRune (last (trimmed_runes s))" using assms by (rule TrimRight_last)
qed

text \<open>Trimmed text is text that neither begins nor ends with a white-space rune.\<close>

lemma TrimSpace_fix:
  "TrimSpace s = s \<longleftrightarrow> s = [] \<or> \<not> SpaceRune (hd (runes s)) \<and> \<not> SpaceRune (last (runes s))"
proof
  assume "TrimSpace s = s"
  then have eq: "trimmed_runes s = runes s" using runes_TrimSpace [of s] by simp
  show "s = [] \<or> \<not> SpaceRune (hd (runes s)) \<and> \<not> SpaceRune (last (runes s))"
    using trimmed_runes_ends [of s] unfolding eq by auto
next
  assume "s = [] \<or> \<not> SpaceRune (hd (runes s)) \<and> \<not> SpaceRune (last (runes s))"
  then have "trimmed_runes s = runes s" by (auto simp: TrimLeft_id TrimRight_id)
  then show "TrimSpace s = s" by (simp add: TrimSpace_def)
qed

lemma TrimSpace_idem [simp]: "TrimSpace (TrimSpace s) = TrimSpace s"
proof -
  have "TrimSpace s = [] \<or> trimmed_runes s \<noteq> []" unfolding runes_TrimSpace [symmetric] by simp
  then show ?thesis unfolding TrimSpace_fix runes_TrimSpace using trimmed_runes_ends [of s] by blast
qed

lemma TrimSpace_Nil [simp]: "TrimSpace [] = []"
  by (simp add: TrimSpace_fix)

text \<open>The two ends of a text are judged separately, and an ASCII byte decides for its own end.\<close>

definition left_trimmed :: "string \<Rightarrow> bool" where
  "left_trimmed s \<longleftrightarrow> s \<noteq> [] \<and> \<not> SpaceRune (hd (runes s))"

definition right_trimmed :: "string \<Rightarrow> bool" where
  "right_trimmed s \<longleftrightarrow> s \<noteq> [] \<and> \<not> SpaceRune (last (runes s))"

lemma TrimSpace_id: "s = [] \<or> left_trimmed s \<and> right_trimmed s \<Longrightarrow> TrimSpace s = s"
  by (auto simp: TrimSpace_fix left_trimmed_def right_trimmed_def)

lemma TrimSpace_ends:
  assumes "TrimSpace s \<noteq> []"
  shows "left_trimmed (TrimSpace s)" "right_trimmed (TrimSpace s)"
  using assms TrimSpace_idem [of s] unfolding TrimSpace_fix by (auto simp: left_trimmed_def right_trimmed_def)

lemma left_trimmed_Cons: "is_ascii c \<Longrightarrow> left_trimmed (c # s) \<longleftrightarrow> \<not> IsSpace c"
  by (simp add: left_trimmed_def)

lemma left_trimmed_append: "is_ascii c \<Longrightarrow> left_trimmed s \<Longrightarrow> left_trimmed (s @ c # t)"
  by (simp add: left_trimmed_def runes_ascii)

lemma right_trimmed_snoc: "is_ascii c \<Longrightarrow> right_trimmed (s @ [c]) \<longleftrightarrow> \<not> IsSpace c"
  by (simp add: right_trimmed_def runes_ascii_last)

lemma right_trimmed_last: "s \<noteq> [] \<Longrightarrow> is_ascii (last s) \<Longrightarrow> right_trimmed s \<longleftrightarrow> \<not> IsSpace (last s)"
  using right_trimmed_snoc [of "last s" "butlast s"] by simp

lemma left_trimmed_hd: "s \<noteq> [] \<Longrightarrow> is_ascii (hd s) \<Longrightarrow> left_trimmed s \<longleftrightarrow> \<not> IsSpace (hd s)"
  using left_trimmed_Cons [of "hd s" "tl s"] by simp

text \<open>An ASCII character that is not white space.\<close>

definition visible :: "char \<Rightarrow> bool" where
  "visible c \<longleftrightarrow> is_ascii c \<and> \<not> IsSpace c"

lemma visible_digit [simp]: "is_digit c \<Longrightarrow> visible c"
  by (auto simp: visible_def is_digit_def is_ascii_code IsSpace_code)

lemma TrimSpace_visible: "s = [] \<or> visible (hd s) \<and> visible (last s) \<Longrightarrow> TrimSpace s = s"
  by (rule TrimSpace_id) (auto simp: visible_def left_trimmed_hd right_trimmed_last)

lemma SpaceRune_ascii: "SpaceRune r \<Longrightarrow> c \<in> set r \<Longrightarrow> is_ascii c \<Longrightarrow> IsSpace c"
  by (cases r rule: SpaceRune.cases) (auto simp: is_ascii_code)

lemma TrimSpace_blank: "TrimSpace s = [] \<Longrightarrow> c \<in> set s \<Longrightarrow> is_ascii c \<Longrightarrow> IsSpace c"
proof -
  assume t: "TrimSpace s = []" and c: "c \<in> set s" "is_ascii c"
  have "trimmed_runes s = []" using runes_TrimSpace [of s] t by simp
  then have "\<forall>r \<in> set (dropWhile SpaceRune (runes s)). SpaceRune r" by (simp add: TrimLeft_def TrimRight_def dropWhile_eq_Nil_conv)
  then have "dropWhile SpaceRune (runes s) = []" using hd_dropWhile [of SpaceRune "runes s"] hd_in_set by blast
  then have sp: "\<forall>r \<in> set (runes s). SpaceRune r" unfolding dropWhile_eq_Nil_conv .
  have "c \<in> set (concat (runes s))" using c(1) by simp
  then obtain r where "r \<in> set (runes s)" "c \<in> set r" unfolding set_concat by blast
  then show "IsSpace c" using sp SpaceRune_ascii c(2) by blast
qed

lemma right_trimmed_append: "is_ascii c \<Longrightarrow> right_trimmed s \<Longrightarrow> right_trimmed (t @ c # s)"
  by (simp add: right_trimmed_def runes_ascii)

lemma ToLower_Nil [simp]: "ToLower s = [] \<longleftrightarrow> s = []"
  by (simp add: ToLower_def)

lemma ToLower_idem [simp]: "ToLower (ToLower s) = ToLower s"
  by (simp add: ToLower_def)

lemma ToLower_append [simp]: "ToLower (s @ t) = ToLower s @ ToLower t"
  by (simp add: ToLower_def)

lemma is_ascii_lower [simp]: "is_ascii (lower_char c) = is_ascii c"
  by (auto simp: is_ascii_code of_lower_char is_upper_ascii_def)

lemma lower_char_high: "\<not> is_ascii c \<Longrightarrow> lower_char c = c"
  by (simp add: lower_char_def is_upper_ascii_def is_ascii_code)

lemma rune_tail_lower: "rune_tail (lower_char c) = rune_tail c"
  by (cases "is_ascii c") (simp_all add: lower_char_high)

lemma accepts_lower: "\<forall>r \<in> set rs. 128 \<le> fst r \<Longrightarrow> accepts rs (map lower_char s) = accepts rs s"
proof (induction rs s rule: accepts.induct)
  case (3 r rs c s)
  then show ?case
    using is_ascii_lower [of c] by (cases "is_ascii c") (auto simp: lower_char_high is_ascii_code simp del: is_ascii_lower)
qed simp_all

lemma rune_more_lower: "rune_more (lower_char c) (map lower_char s) = rune_more c s"
  using accepts_lower [of "rune_tail c" s] rune_tail_high by (simp add: rune_more_def rune_tail_lower)

lemma runes_ToLower: "runes (map lower_char s) = map (map lower_char) (runes s)"
  by (induction s rule: runes.induct) (simp_all add: Let_def rune_more_lower take_map drop_map)

lemma lower_char_eq: "\<not> is_ascii b \<Longrightarrow> lower_char c = b \<longleftrightarrow> c = b"
  by (metis is_ascii_lower lower_char_high)

lemma SpaceRune_lower: "SpaceRune (map lower_char r) = SpaceRune r"
proof (induction r rule: SpaceRune.induct)
  case (3 a b c)
  have "(of_char (lower_char c) :: nat) \<in> {0x80..0x8A} \<longleftrightarrow> (of_char c :: nat) \<in> {0x80..0x8A}"
    by (auto simp: of_lower_char is_upper_ascii_def)
  then show ?case by (simp add: lower_char_eq is_ascii_def)
qed (simp_all add: lower_char_eq is_ascii_def)

lemma TrimSpace_ToLower: "TrimSpace (ToLower s) = ToLower (TrimSpace s)"
  by (simp add: TrimSpace_def TrimLeft_def TrimRight_def ToLower_def runes_ToLower dropWhile_map rev_map map_concat
      o_def SpaceRune_lower)

lemma Cut_eq: "CHR ''='' \<notin> set k \<Longrightarrow> Cut (k @ ''='' @ v) ''='' = (k, v, True)"
proof -
  assume "CHR ''='' \<notin> set k"
  then have "Index (k @ ''='' @ v) ''='' = Some (length k)"
    by (induction k) (simp_all add: Index.simps)
  then show ?thesis by (simp add: Cut_def)
qed

lemma Split_no_sep: "sep \<notin> set l \<Longrightarrow> Split l sep = [l]"
  by (induction l) auto

lemma Split_append: "sep \<notin> set l \<Longrightarrow> Split (l @ sep # t) sep = l # Split t sep"
  by (induction l) auto

section \<open>Package strconv\<close>

fun digits_val :: "nat \<Rightarrow> string \<Rightarrow> nat option" where
  "digits_val acc [] = Some acc"
| "digits_val acc (c # t) = (if is_digit c then digits_val (10 * acc + digit_val c) t else None)"

text \<open>\<open>strconv.ParseUint(s, 10, bits)\<close>: an empty string, a non-digit or an overflow is an error.\<close>

definition ParseUint :: "nat \<Rightarrow> string \<Rightarrow> nat option" where
  "ParseUint bits s =
     (if s = [] then None
      else (case digits_val 0 s of
              None \<Rightarrow> None
            | Some n \<Rightarrow> (if n < 2 ^ bits then Some n else None)))"

text \<open>\<open>strconv.ParseInt(s, 10, bits)\<close>: an optional sign, then digits.\<close>

definition ParseInt :: "nat \<Rightarrow> string \<Rightarrow> int option" where
  "ParseInt bits s =
     (let neg = (s \<noteq> [] \<and> hd s = CHR ''-'');
          body = (if s \<noteq> [] \<and> (hd s = CHR ''+'' \<or> hd s = CHR ''-'') then tl s else s)
      in if body = [] then None
         else (case digits_val 0 body of
                 None \<Rightarrow> None
               | Some n \<Rightarrow>
                   (if neg then (if n \<le> 2 ^ (bits - 1) then Some (- int n) else None)
                    else (if n < 2 ^ (bits - 1) then Some (int n) else None))))"

definition Atoi :: "string \<Rightarrow> int option" where
  "Atoi s = ParseInt 64 s"

text \<open>\<open>strconv.Itoa\<close> on natural numbers.\<close>

fun Itoa :: "nat \<Rightarrow> string" where
  "Itoa n = (if n < 10 then [char_of (n + 48)] else Itoa (n div 10) @ [char_of (n mod 10 + 48)])"

declare Itoa.simps [simp del]

text \<open>\<open>strconv.Quote\<close>, the \<open>%q\<close> verb of \<open>fmt\<close>, on ASCII text.\<close>

definition hex_digit :: "nat \<Rightarrow> char" where
  "hex_digit n = (if n < 10 then char_of (n + 48) else char_of (n + 87))"

definition quote_char :: "char \<Rightarrow> string" where
  "quote_char c =
     (let n = (of_char c :: nat) in
      if c = dquote \<or> c = backslash then [backslash, c]
      else if n = 7 then [backslash, CHR ''a'']
      else if n = 8 then [backslash, CHR ''b'']
      else if n = 9 then [backslash, CHR ''t'']
      else if n = 10 then [backslash, CHR ''n'']
      else if n = 11 then [backslash, CHR ''v'']
      else if n = 12 then [backslash, CHR ''f'']
      else if n = 13 then [backslash, CHR ''r'']
      else if n < 32 \<or> n = 127 then [backslash, CHR ''x'', hex_digit (n div 16), hex_digit (n mod 16)]
      else [c])"

definition Quote :: "string \<Rightarrow> string" where
  "Quote s = dquote # concat (map quote_char s) @ [dquote]"

lemma digits_val_append:
  "digits_val acc (s @ t) = (case digits_val acc s of None \<Rightarrow> None | Some a \<Rightarrow> digits_val a t)"
  by (induction s arbitrary: acc) auto

lemma digit_char: "n < 10 \<Longrightarrow> is_digit (char_of (n + 48)) \<and> digit_val (char_of (n + 48)) = n"
  for n :: nat
  by (simp add: is_digit_def digit_val_def)

lemma digits_val_Itoa: "digits_val 0 (Itoa n) = Some n"
proof (induction n rule: Itoa.induct)
  case (1 n)
  show ?case
  proof (cases "n < 10")
    case True
    then show ?thesis by (simp add: Itoa.simps [of n] digit_char)
  next
    case False
    with 1 show ?thesis
      by (simp add: Itoa.simps [of n] digits_val_append digit_char)
  qed
qed

lemma Itoa_not_Nil [simp]: "Itoa n \<noteq> []"
  by (subst Itoa.simps) simp

lemma ParseUint_Itoa: "n < 2 ^ bits \<Longrightarrow> ParseUint bits (Itoa n) = Some n"
  by (simp add: ParseUint_def digits_val_Itoa)

lemma ParseUint_bound: "ParseUint bits s = Some n \<Longrightarrow> n < 2 ^ bits"
  by (auto simp: ParseUint_def split: if_splits option.splits)

section \<open>Signed 64-bit integers\<close>

text \<open>The value an \<open>int64\<close> (or \<open>time.Duration\<close>) holds after an operation that may wrap around.\<close>

definition i64 :: "int \<Rightarrow> int" where
  "i64 x = (x + 2 ^ 63) mod 2 ^ 64 - 2 ^ 63"

definition maxInt64 :: int where
  "maxInt64 = 2 ^ 63 - 1"

lemma i64_id: "- (2 ^ 63) \<le> x \<Longrightarrow> x < 2 ^ 63 \<Longrightarrow> i64 x = x"
  by (simp add: i64_def)

lemma i64_range: "- (2 ^ 63) \<le> i64 x \<and> i64 x \<le> maxInt64"
  by (simp add: i64_def maxInt64_def)

section \<open>Lists, association lists and relations\<close>

text \<open>\<open>sort.Strings\<close> and the key list of a Go map in sorted order.\<close>

definition sort_strings :: "string list \<Rightarrow> string list" where
  "sort_strings xs = sort xs"

lemma set_sort_strings [simp]: "set (sort_strings xs) = set xs"
  by (simp add: sort_strings_def)

lemma distinct_sort_strings [simp]: "distinct (sort_strings xs) = distinct xs"
  by (simp add: sort_strings_def)

lemma length_sort_strings [simp]: "length (sort_strings xs) = length xs"
  by (simp add: sort_strings_def)

lemma sort_strings_Nil [simp]: "sort_strings xs = [] \<longleftrightarrow> xs = []"
  by (metis length_0_conv length_sort_strings)

lemma map_of_mem_keys: "map_of xs k \<noteq> None \<longleftrightarrow> k \<in> fst ` set xs"
  by (auto simp: map_of_eq_None_iff)

text \<open>A relation with no infinite descent through a set that grows by one last element.\<close>

lemma acyclic_insert_sink:
  assumes acyc: "acyclic {(a, b). a \<in> B \<and> b \<in> B \<and> R a b}"
    and closed: "\<And>a b. a \<in> B \<Longrightarrow> R a b \<Longrightarrow> b \<in> V \<Longrightarrow> b \<in> B"
    and "u \<in> V" "u \<notin> B" "\<not> R u u"
  shows "acyclic {(a, b). a \<in> insert u B \<and> b \<in> insert u B \<and> R a b}"
proof -
  let ?r = "{(a, b). a \<in> B \<and> b \<in> B \<and> R a b}"
  let ?s = "{(a, b). a \<in> insert u B \<and> b \<in> insert u B \<and> R a b}"
  have step: "(a, b) \<in> ?s \<Longrightarrow> a \<in> B \<Longrightarrow> b \<in> B \<and> (a, b) \<in> ?r" for a b
    using closed assms(3,4) by auto
  have stay: "(a, b) \<in> ?s\<^sup>+ \<Longrightarrow> a \<in> B \<Longrightarrow> b \<in> B \<and> (a, b) \<in> ?r\<^sup>+" for a b
  proof (induction rule: trancl_induct)
    case (base y)
    then show ?case using step by blast
  next
    case (step y z)
    then have "y \<in> B" "(a, y) \<in> ?r\<^sup>+" by auto
    with step.hyps(2) \<open>\<And>a b. (a, b) \<in> ?s \<Longrightarrow> a \<in> B \<Longrightarrow> b \<in> B \<and> (a, b) \<in> ?r\<close>
    show ?case by (meson trancl_into_trancl)
  qed
  show ?thesis
    unfolding acyclic_def
  proof (intro allI notI)
    fix x assume xx: "(x, x) \<in> ?s\<^sup>+"
    show False
    proof (cases "x \<in> B")
      case True
      then show False using stay [OF xx True] acyc by (auto simp: acyclic_def)
    next
      case False
      from xx obtain y where "(x, y) \<in> ?s" "(y, x) \<in> ?s\<^sup>*" by (meson tranclD)
      then have x: "x = u" using False by auto
      with \<open>(x, y) \<in> ?s\<close> assms(5) have "y \<in> B" by auto
      moreover have "(y, x) \<in> ?s\<^sup>+"
        using \<open>(y, x) \<in> ?s\<^sup>*\<close> \<open>y \<in> B\<close> False by (metis rtranclD)
      ultimately show False using stay False by blast
    qed
  qed
qed

section \<open>Transition systems with an invariant\<close>

text \<open>
  The interface of a component that changes state by steps: what holds initially and is kept by
  every step holds in every reachable state.
\<close>

locale invariant_system =
  fixes init :: "'s \<Rightarrow> bool" and step :: "'s \<Rightarrow> 's \<Rightarrow> bool" and inv :: "'s \<Rightarrow> bool"
  assumes inv_init: "init s \<Longrightarrow> inv s"
    and inv_step: "step s t \<Longrightarrow> inv s \<Longrightarrow> inv t"
begin

lemma inv_steps: "step\<^sup>*\<^sup>* s t \<Longrightarrow> inv s \<Longrightarrow> inv t"
  by (induction rule: rtranclp_induct) (auto intro: inv_step)

lemma inv_reachable: "init s \<Longrightarrow> step\<^sup>*\<^sup>* s t \<Longrightarrow> inv t"
  by (blast intro: inv_init inv_steps)

end

end
