(* ===== verification/Watch_Specs.thy ===== *)
theory Watch_Specs
  imports Prelude
begin

text \<open>
  The values of \<open>RegistryChanged=\<close>, \<open>EventLogTrigger=\<close>, \<open>PathChanged=\<close> and \<open>PathExists=\<close>:
  \<open>internal/registry/parse.go\<close>, \<open>internal/eventlog/parse.go\<close> and \<open>internal/pathwatch/parse.go\<close>.
  Each parser returns \<open>Inl\<close> with the message of the Go error or \<open>Inr\<close> with the parsed value.
\<close>

section \<open>Registry keys\<close>

datatype Hive = HKLM | HKCU

record Key =
  KHive :: Hive
  KPath :: string
  KRaw :: string

definition Hive_String :: "Hive \<Rightarrow> string" where
  "Hive_String h = (case h of HKLM \<Rightarrow> ''HKLM'' | HKCU \<Rightarrow> ''HKCU'')"

definition hasHivePrefix :: "string \<Rightarrow> string \<Rightarrow> bool" where
  "hasHivePrefix s hive \<longleftrightarrow> length hive \<le> length s \<and> EqualFold (take (length hive) s) hive"

definition hiveMessage :: string where
  "hiveMessage = ''hive must be HKLM'' @ [backslash] @ '' or HKCU'' @ [backslash]"

definition driveMessage :: string where
  "driveMessage =
     ''PowerShell drive syntax is not allowed (use HKLM'' @ [backslash] @ ''... or HKCU'' @ [backslash] @ ''...)''"

definition key_after_hive :: "string \<Rightarrow> Hive \<Rightarrow> string \<Rightarrow> Key res" where
  "key_after_hive raw hive s =
     (if \<not> HasPrefix s [backslash] then Inl hiveMessage
      else let path = TrimRight (\<lambda>c. c = backslash) (TrimLeft (\<lambda>c. c = backslash) s)
           in if path = [] then Inl ''empty registry path''
              else Inr \<lparr>KHive = hive, KPath = path, KRaw = TrimSpace raw\<rparr>)"

definition ParseKey :: "string \<Rightarrow> Key res" where
  "ParseKey raw =
     (let s = TrimSpace raw in
      if s = [] then Inl ''empty registry path''
      else if Contains s '':'' then Inl driveMessage
      else if hasHivePrefix s ''HKLM'' then key_after_hive raw HKLM (drop 4 s)
      else if hasHivePrefix s ''HKCU'' then key_after_hive raw HKCU (drop 4 s)
      else Inl hiveMessage)"

fun AllowedInScope :: "Key \<Rightarrow> bool \<Rightarrow> bool" where
  "AllowedInScope k userScope = (case KHive k of HKLM \<Rightarrow> True | HKCU \<Rightarrow> userScope)"

section \<open>Event log triggers\<close>

record Trigger =
  Channel :: string
  EventID :: "16 word"
  TrigRaw :: string

definition triggerSep :: string where
  "triggerSep = '':EventID=''"

definition ParseTrigger :: "string \<Rightarrow> Trigger res" where
  "ParseTrigger raw =
     (let s = TrimSpace raw in
      if s = [] then Inl ''empty EventLogTrigger''
      else (case LastIndex s triggerSep of
              None \<Rightarrow> Inl ''EventLogTrigger must be <Channel>:EventID=<uint16>''
            | Some i \<Rightarrow>
                (let channel = TrimSpace (take i s);
                     idStr = TrimSpace (drop (i + length triggerSep) s)
                 in if channel = [] then Inl ''empty channel''
                    else if idStr = [] then Inl ''EventID must be a number''
                    else (case ParseUint 16 idStr of
                            None \<Rightarrow> Inl ''EventID must be a number''
                          | Some n \<Rightarrow>
                              (if n = 0 then Inl ''EventID=0 is not allowed''
                               else Inr \<lparr>Channel = channel, EventID = of_nat n,
                                         TrigRaw = TrimSpace raw\<rparr>)))))"

definition RestrictedInUserScope :: "Trigger \<Rightarrow> bool" where
  "RestrictedInUserScope t \<longleftrightarrow>
     EqualFold (Channel t) ''System'' \<or> EqualFold (Channel t) ''Security''"

definition Query :: "Trigger \<Rightarrow> string" where
  "Query t =
     (if EventID t = 0 then []
      else ''*[System[(EventID='' @ Itoa (unat (EventID t)) @ '')]]'')"

section \<open>Watched paths\<close>

record PSpec =
  PRaw :: string

definition isDriveLetter :: "char \<Rightarrow> bool" where
  "isDriveLetter b \<longleftrightarrow> is_upper_ascii b \<or> is_lower_ascii b"

definition isSlash :: "char \<Rightarrow> bool" where
  "isSlash b \<longleftrightarrow> b = backslash \<or> b = CHR ''/''"

definition windowsAbs :: "string \<Rightarrow> bool" where
  "windowsAbs p0 =
     (let p = TrimSpace p0 in
      if p = [] then False
      else if HasPrefix p [backslash, backslash] \<or> HasPrefix p ''//'' then length p > 2
      else if length p \<ge> 3 \<and> isDriveLetter (p ! 0) \<and> p ! 1 = CHR '':'' \<and> isSlash (p ! 2) then True
      else False)"

definition parseAbs :: "string \<Rightarrow> string \<Rightarrow> PSpec res" where
  "parseAbs raw directive =
     (let s = TrimSpace raw in
      if s = [] then Inl ''empty path''
      else if \<not> windowsAbs s then Inl (directive @ '' must be an absolute Windows path'')
      else Inr \<lparr>PRaw = s\<rparr>)"

definition PathParse :: "string \<Rightarrow> PSpec res" where
  "PathParse raw = parseAbs raw ''PathChanged''"

definition ParseExists :: "string \<Rightarrow> PSpec res" where
  "ParseExists raw = parseAbs raw ''PathExists''"

definition SplitDirName :: "string \<Rightarrow> string \<times> string" where
  "SplitDirName p0 =
     (let p = TrimRight isSlash (TrimSpace p0) in
      if p = [] then ([], [])
      else (case LastIndexAny p [CHR ''/'', backslash] of
              None \<Rightarrow> (p, [])
            | Some i \<Rightarrow>
                (let dir = take i p; nm = drop (i + 1) p;
                     dir1 = (if length dir = 2 \<and> dir ! 1 = CHR '':'' then dir @ [backslash] else dir);
                     dir2 = (if dir1 = [] then [backslash] else dir1)
                 in (dir2, nm))))"

section \<open>Properties\<close>

lemma prefix_sep_shift:
  assumes "CHR '':'' \<notin> set d"
  shows "LastIndex d triggerSep = None"
  using assms by (induction d) (auto simp: triggerSep_def)

lemma LastIndex_append_sep:
  assumes d: "LastIndex d triggerSep = None" and nd: "CHR '':'' \<notin> set d"
  shows "LastIndex (c @ triggerSep @ d) triggerSep = Some (length c)"
proof (induction c)
  case Nil
  have "LastIndex (''EventID='' @ d) triggerSep = None"
    by (rule prefix_sep_shift) (use nd in simp)
  then show ?case by (simp add: triggerSep_def)
next
  case (Cons a c)
  then show ?case by simp
qed

lemma digits_no_colon: "digits_val acc s = Some n \<Longrightarrow> CHR '':'' \<notin> set s \<and> (\<forall>c \<in> set s. visible c)"
proof (induction s arbitrary: acc)
  case (Cons a s)
  then have "is_digit a" "CHR '':'' \<notin> set s \<and> (\<forall>c \<in> set s. visible c)"
    by (auto split: if_splits)
  then show ?case by (auto simp: is_digit_def)
qed simp

text \<open>
  The printed form of an event trigger parses back: for a channel with no surrounding blanks
  and an event number from 1 to 65535, \<open>ParseTrigger\<close> of \<open>channel:EventID=n\<close> is exactly that
  channel and that number, even when the channel itself contains the separator.
\<close>

theorem ParseTrigger_roundtrip:
  assumes "TrimSpace channel = channel" and "channel \<noteq> []" and "0 < n" and "n < 65536"
  shows "ParseTrigger (channel @ triggerSep @ Itoa n) =
           Inr \<lparr>Channel = channel, EventID = of_nat n, TrigRaw = channel @ triggerSep @ Itoa n\<rparr>"
proof -
  let ?d = "Itoa n" let ?s = "channel @ triggerSep @ ?d"
  have d: "CHR '':'' \<notin> set ?d" "\<forall>c \<in> set ?d. visible c"
    using digits_no_colon [OF digits_val_Itoa] by auto
  have "left_trimmed ?s"
    using TrimSpace_ends(1) [of channel] assms(1,2) left_trimmed_append [of "CHR '':''" channel]
    by (simp add: triggerSep_def is_ascii_def)
  moreover have "right_trimmed ?s" using d(2) by (subst right_trimmed_last) (simp_all add: visible_def)
  ultimately have s: "TrimSpace ?s = ?s" by (intro TrimSpace_id) simp
  have dd: "TrimSpace ?d = ?d" using d(2) by (intro TrimSpace_visible) simp
  have "LastIndex ?s triggerSep = Some (length channel)"
    by (rule LastIndex_append_sep [OF prefix_sep_shift]) (use d in auto)
  moreover have "ParseUint 16 ?d = Some n" using assms(4) by (simp add: ParseUint_Itoa)
  ultimately show ?thesis
    using assms(1,2,3) by (simp add: ParseTrigger_def s dd Let_def)
qed

theorem ParseTrigger_roundtrip_witness:
  "ParseTrigger (''Application'' @ triggerSep @ Itoa 1000) =
     Inr \<lparr>Channel = ''Application'', EventID = of_nat 1000,
          TrigRaw = ''Application'' @ triggerSep @ Itoa 1000\<rparr>"
  by (rule ParseTrigger_roundtrip) (simp_all add: TrimSpace_visible visible_def is_ascii_def IsSpace_def)

lemma parseAbs_ok: "parseAbs raw d = Inr p \<Longrightarrow> PRaw p = TrimSpace raw \<and> windowsAbs (PRaw p)"
  by (auto simp: parseAbs_def Let_def split: if_splits)

lemma ParseKey_ok:
  assumes "ParseKey raw = Inr k"
  shows "KPath k \<noteq> [] \<and> hd (KPath k) \<noteq> backslash \<and> last (KPath k) \<noteq> backslash \<and> KRaw k = TrimSpace raw"
proof -
  obtain hive s where "key_after_hive raw hive s = Inr k"
    using assms by (auto simp: ParseKey_def Let_def split: if_splits)
  then have k: "KRaw k = TrimSpace raw"
      "KPath k = TrimRight (\<lambda>c. c = backslash) (TrimLeft (\<lambda>c. c = backslash) s)" "KPath k \<noteq> []"
    by (auto simp: key_after_hive_def Let_def split: if_splits)
  let ?l = "TrimLeft (\<lambda>c. c = backslash) s"
  from k(2,3) have "?l \<noteq> []" by (auto simp: TrimRight_def)
  then have "hd ?l \<noteq> backslash" using hd_dropWhile [of "\<lambda>c. c = backslash" s] by (simp add: TrimLeft_def)
  moreover have "hd (KPath k) = hd ?l"
    using TrimRight_prefix [of "\<lambda>c. c = backslash" ?l] k(2,3) by (metis hd_append2 prefixE)
  moreover have "last (KPath k) \<noteq> backslash"
    using TrimRight_last [of "\<lambda>c. c = backslash" ?l] k(2,3) by simp
  ultimately show ?thesis using k by simp
qed

end
