(* ===== verification/Calendar_Parse.thy ===== *)
theory Calendar_Parse
  imports Prelude
begin

text \<open>
  \<open>OnCalendar=\<close> expressions: the type \<open>Calendar\<close> and the parser of
  \<open>internal/timers/calendar.go\<close>.  The array \<open>Weekdays [7]bool\<close> is a list of seven booleans indexed
  by \<open>time.Weekday\<close>, where Sunday is 0; the test hook \<open>visit\<close> is not part of the model.
\<close>

datatype Weekday = Sunday | Monday | Tuesday | Wednesday | Thursday | Friday | Saturday

primrec weekday_index :: "Weekday \<Rightarrow> nat" where
  "weekday_index Sunday = 0"
| "weekday_index Monday = 1"
| "weekday_index Tuesday = 2"
| "weekday_index Wednesday = 3"
| "weekday_index Thursday = 4"
| "weekday_index Friday = 5"
| "weekday_index Saturday = 6"

primrec weekday_succ :: "Weekday \<Rightarrow> Weekday" where
  "weekday_succ Sunday = Monday"
| "weekday_succ Monday = Tuesday"
| "weekday_succ Tuesday = Wednesday"
| "weekday_succ Wednesday = Thursday"
| "weekday_succ Thursday = Friday"
| "weekday_succ Friday = Saturday"
| "weekday_succ Saturday = Sunday"

instantiation Weekday :: linorder
begin
definition less_eq_Weekday :: "Weekday \<Rightarrow> Weekday \<Rightarrow> bool" where
  "less_eq_Weekday a b \<longleftrightarrow> weekday_index a \<le> weekday_index b"
definition less_Weekday :: "Weekday \<Rightarrow> Weekday \<Rightarrow> bool" where
  "less_Weekday a b \<longleftrightarrow> weekday_index a < weekday_index b"
instance
proof
  fix x y :: Weekday
  show "x \<le> y \<Longrightarrow> y \<le> x \<Longrightarrow> x = y"
    by (cases x; cases y) (simp_all add: less_eq_Weekday_def)
qed (auto simp: less_eq_Weekday_def less_Weekday_def)
end

record Calendar =
  CalRaw :: string
  RestrictWeekdays :: bool
  Weekdays :: "bool list"
  Year :: int
  Month :: int
  Day :: int
  Hour :: int
  Minute :: int
  Second :: int

definition no_weekdays :: "bool list" where
  "no_weekdays = replicate 7 False"

definition AllowsWeekday :: "Calendar \<Rightarrow> Weekday \<Rightarrow> bool" where
  "AllowsWeekday c d = (if \<not> RestrictWeekdays c then True else Weekdays c ! weekday_index d)"

section \<open>Fields of an expression\<close>

definition parseBounded :: "string \<Rightarrow> int \<Rightarrow> int \<Rightarrow> int option" where
  "parseBounded s lo hi =
     (if s = [] then None
      else if \<not> list_all is_digit s then None
      else (case Atoi s of
              None \<Rightarrow> None
            | Some n \<Rightarrow> (if n < lo \<or> n > hi then None else Some n)))"

definition parseWildcardInt :: "string \<Rightarrow> int \<Rightarrow> int \<Rightarrow> int option" where
  "parseWildcardInt s lo hi = (if s = ''*'' then Some (-1) else parseBounded s lo hi)"

definition parseTimeOfDay :: "string \<Rightarrow> (int \<times> int \<times> int) res" where
  "parseTimeOfDay s =
     (let parts = Split s (CHR '':'') in
      if length parts \<noteq> 2 \<and> length parts \<noteq> 3 then Inl (''invalid time of day '' @ Quote s)
      else (case parseBounded (parts ! 0) 0 23 of
              None \<Rightarrow> Inl (''invalid hour in '' @ Quote s)
            | Some hour \<Rightarrow>
                (case parseBounded (parts ! 1) 0 59 of
                   None \<Rightarrow> Inl (''invalid minute in '' @ Quote s)
                 | Some minute \<Rightarrow>
                     (if length parts = 3 then
                        (case parseBounded (parts ! 2) 0 59 of
                           None \<Rightarrow> Inl (''invalid second in '' @ Quote s)
                         | Some second \<Rightarrow> Inr (hour, minute, second))
                      else Inr (hour, minute, 0)))))"

definition isDatePattern :: "string \<Rightarrow> bool" where
  "isDatePattern s \<longleftrightarrow> length (Split s (CHR ''-'')) = 3"

definition parseDatePattern :: "string \<Rightarrow> (int \<times> int \<times> int) res" where
  "parseDatePattern s =
     (let parts = Split s (CHR ''-'') in
      if length parts \<noteq> 3 then Inl (''invalid date pattern '' @ Quote s)
      else (case parseWildcardInt (parts ! 0) 1 9999 of
              None \<Rightarrow> Inl (''invalid year in '' @ Quote s)
            | Some year \<Rightarrow>
                (case parseWildcardInt (parts ! 1) 1 12 of
                   None \<Rightarrow> Inl (''invalid month in '' @ Quote s)
                 | Some month \<Rightarrow>
                     (case parseWildcardInt (parts ! 2) 1 31 of
                        None \<Rightarrow> Inl (''invalid day in '' @ Quote s)
                      | Some day \<Rightarrow> Inr (year, month, day)))))"

definition weekdayName :: "string \<Rightarrow> Weekday option" where
  "weekdayName s0 =
     (let s = ToLower (TrimSpace s0) in
      if s \<in> set [''sun'', ''sunday''] then Some Sunday
      else if s \<in> set [''mon'', ''monday''] then Some Monday
      else if s \<in> set [''tue'', ''tues'', ''tuesday''] then Some Tuesday
      else if s \<in> set [''wed'', ''wednesday''] then Some Wednesday
      else if s \<in> set [''thu'', ''thur'', ''thurs'', ''thursday''] then Some Thursday
      else if s \<in> set [''fri'', ''friday''] then Some Friday
      else if s \<in> set [''sat'', ''saturday''] then Some Saturday
      else None)"

definition looksLikeWeekdays :: "string \<Rightarrow> bool" where
  "looksLikeWeekdays s \<longleftrightarrow> weekdayName (takeWhile (\<lambda>c. c \<noteq> CHR ''.'' \<and> c \<noteq> CHR '','') s) \<noteq> None"

type_synonym day_acc = "Weekday list \<times> bool list"

definition add_weekday :: "Weekday \<Rightarrow> day_acc \<Rightarrow> day_acc" where
  "add_weekday d acc =
     (case acc of (days, seen) \<Rightarrow>
        if \<not> seen ! weekday_index d then (days @ [d], seen[weekday_index d := True]) else (days, seen))"

text \<open>The inner loop of \<open>parseWeekdays\<close>: from \<open>d\<close> forward, wrapping after Saturday, up to \<open>b\<close>.\<close>

function weekday_range :: "Weekday \<Rightarrow> Weekday \<Rightarrow> day_acc \<Rightarrow> day_acc" where
  "weekday_range d b acc =
     (let acc' = add_weekday d acc in
      if d = b then acc' else weekday_range (weekday_succ d) b acc')"
  by pat_completeness auto
termination
proof (relation "measure (\<lambda>(d, b, acc). (weekday_index b + 7 - weekday_index d) mod 7)", simp)
  fix d b :: Weekday and acc acc' :: day_acc
  assume "d \<noteq> b"
  then show "((weekday_succ d, b, acc'), (d, b, acc)) \<in>
    measure (\<lambda>(d, b, acc). (weekday_index b + 7 - weekday_index d) mod 7)"
    by (cases d; cases b) simp_all
qed

declare weekday_range.simps [simp del]

definition weekday_part :: "string \<Rightarrow> day_acc \<Rightarrow> day_acc res" where
  "weekday_part part0 acc =
     (let part = TrimSpace part0 in
      if part = [] then Inl ''empty weekday list''
      else (case Cut part ''..'' of (from, to, ok) \<Rightarrow>
              if ok then
                (case weekdayName from of
                   None \<Rightarrow> Inl (''invalid weekday '' @ Quote from)
                 | Some a \<Rightarrow>
                     (case weekdayName to of
                        None \<Rightarrow> Inl (''invalid weekday '' @ Quote to)
                      | Some b \<Rightarrow> Inr (weekday_range a b acc)))
              else
                (case weekdayName part of
                   None \<Rightarrow> Inl (''invalid weekday '' @ Quote part)
                 | Some wd \<Rightarrow> Inr (add_weekday wd acc))))"

fun weekday_parts :: "string list \<Rightarrow> day_acc \<Rightarrow> day_acc res" where
  "weekday_parts [] acc = Inr acc"
| "weekday_parts (p # ps) acc =
     (case weekday_part p acc of Inl e \<Rightarrow> Inl e | Inr acc' \<Rightarrow> weekday_parts ps acc')"

definition parseWeekdays :: "string \<Rightarrow> Weekday list res" where
  "parseWeekdays s =
     (case weekday_parts (Split s (CHR '','')) ([], no_weekdays) of
        Inl e \<Rightarrow> Inl e
      | Inr (days, _) \<Rightarrow> (if days = [] then Inl ''empty weekday list'' else Inr days))"

section \<open>ParseCalendar\<close>

definition set_weekdays :: "Weekday list \<Rightarrow> bool list \<Rightarrow> bool list" where
  "set_weekdays days ws = fold (\<lambda>wd ws. ws[weekday_index wd := True]) days ws"

definition invalid_calendar :: "string \<Rightarrow> string" where
  "invalid_calendar raw = ''invalid calendar expression '' @ Quote raw"

fun calendar_fields ::
    "string \<Rightarrow> string list \<Rightarrow> Calendar \<Rightarrow> bool \<Rightarrow> bool \<Rightarrow> (Calendar \<times> bool \<times> bool) res" where
  "calendar_fields raw [] cal sawDate sawWeekday = Inr (cal, sawDate, sawWeekday)"
| "calendar_fields raw (f # fs) cal sawDate sawWeekday =
     (if isDatePattern f then
        (if sawDate then Inl (invalid_calendar raw)
         else (case parseDatePattern f of
                 Inl e \<Rightarrow> Inl (invalid_calendar raw @ '': '' @ e)
               | Inr (y, m, d) \<Rightarrow>
                   calendar_fields raw fs (cal\<lparr>Year := y, Month := m, Day := d\<rparr>) True sawWeekday))
      else if looksLikeWeekdays f then
        (case parseWeekdays f of
           Inl e \<Rightarrow> Inl (invalid_calendar raw @ '': '' @ e)
         | Inr days \<Rightarrow>
             calendar_fields raw fs
               (cal\<lparr>RestrictWeekdays := True, Weekdays := set_weekdays days (Weekdays cal)\<rparr>) sawDate True)
      else Inl (invalid_calendar raw))"

definition ParseCalendar :: "string \<Rightarrow> Calendar res" where
  "ParseCalendar s =
     (let raw = TrimSpace s in
      if raw = [] then Inl ''empty calendar expression''
      else if EqualFold raw ''daily'' then
        Inr \<lparr>CalRaw = raw, RestrictWeekdays = False, Weekdays = no_weekdays,
             Year = -1, Month = -1, Day = -1, Hour = 0, Minute = 0, Second = 0\<rparr>
      else
        (let fields = Fields raw in
         case parseTimeOfDay (last fields) of
           Inl e \<Rightarrow> Inl (invalid_calendar raw)
         | Inr (hour, minute, second) \<Rightarrow>
             (let rest = butlast fields in
              if rest = [] then Inl (invalid_calendar raw)
              else
                (case calendar_fields raw rest
                        \<lparr>CalRaw = raw, RestrictWeekdays = False, Weekdays = no_weekdays,
                         Year = -1, Month = -1, Day = -1,
                         Hour = hour, Minute = minute, Second = second\<rparr> False False of
                   Inl e \<Rightarrow> Inl e
                 | Inr (cal, sawDate, sawWeekday) \<Rightarrow>
                     (if \<not> sawDate \<and> \<not> sawWeekday then Inl (invalid_calendar raw) else Inr cal)))))"

section \<open>Well-formed calendars\<close>

definition wf_calendar :: "Calendar \<Rightarrow> bool" where
  "wf_calendar c \<longleftrightarrow>
     length (Weekdays c) = 7
     \<and> (RestrictWeekdays c \<longrightarrow> True \<in> set (Weekdays c))
     \<and> (Year c = -1 \<or> (1 \<le> Year c \<and> Year c \<le> 9999))
     \<and> (Month c = -1 \<or> (1 \<le> Month c \<and> Month c \<le> 12))
     \<and> (Day c = -1 \<or> (1 \<le> Day c \<and> Day c \<le> 31))
     \<and> 0 \<le> Hour c \<and> Hour c \<le> 23
     \<and> 0 \<le> Minute c \<and> Minute c \<le> 59
     \<and> 0 \<le> Second c \<and> Second c \<le> 59"

lemma parseBounded_range: "parseBounded s lo hi = Some n \<Longrightarrow> lo \<le> n \<and> n \<le> hi"
  by (auto simp: parseBounded_def split: if_splits option.splits)

lemma parseWildcardInt_range: "parseWildcardInt s lo hi = Some n \<Longrightarrow> n = -1 \<or> (lo \<le> n \<and> n \<le> hi)"
  by (auto simp: parseWildcardInt_def split: if_splits dest: parseBounded_range)

lemma parseTimeOfDay_range:
  "parseTimeOfDay s = Inr (h, m, sec) \<Longrightarrow>
     0 \<le> h \<and> h \<le> 23 \<and> 0 \<le> m \<and> m \<le> 59 \<and> 0 \<le> sec \<and> sec \<le> 59"
  by (auto simp: parseTimeOfDay_def Let_def split: if_splits option.splits dest!: parseBounded_range)

lemma parseDatePattern_range:
  "parseDatePattern s = Inr (y, m, d) \<Longrightarrow>
     (y = -1 \<or> (1 \<le> y \<and> y \<le> 9999)) \<and> (m = -1 \<or> (1 \<le> m \<and> m \<le> 12)) \<and> (d = -1 \<or> (1 \<le> d \<and> d \<le> 31))"
  by (auto simp: parseDatePattern_def Let_def split: if_splits option.splits dest!: parseWildcardInt_range)

lemma weekday_index_lt [simp]: "weekday_index d < 7"
  by (cases d) simp_all

lemma set_weekdays_length [simp]: "length (set_weekdays days ws) = length ws"
  unfolding set_weekdays_def by (induction days arbitrary: ws) simp_all

lemma set_weekdays_Cons: "set_weekdays (d # days) ws = set_weekdays days (ws[weekday_index d := True])"
  by (simp add: set_weekdays_def)

lemma set_weekdays_nth:
  "length ws = 7 \<Longrightarrow>
     set_weekdays days ws ! weekday_index d = (d \<in> set days \<or> ws ! weekday_index d)"
proof (induction days arbitrary: ws)
  case Nil
  then show ?case by (simp add: set_weekdays_def)
next
  case (Cons x days)
  have "weekday_index x = weekday_index d \<longleftrightarrow> x = d" by (cases x; cases d) simp_all
  then show ?case using Cons by (auto simp: set_weekdays_Cons nth_list_update)
qed

lemma set_weekdays_restricts:
  "length ws = 7 \<Longrightarrow> days \<noteq> [] \<Longrightarrow> True \<in> set (set_weekdays days ws)"
  using set_weekdays_nth [of ws days "hd days"]
  by (metis (full_types) hd_in_set nth_mem set_weekdays_length weekday_index_lt)

lemma parseWeekdays_not_Nil: "parseWeekdays s = Inr days \<Longrightarrow> days \<noteq> []"
  by (auto simp: parseWeekdays_def split: sum.splits prod.splits if_splits)

lemma calendar_fields_wf:
  "calendar_fields raw fs cal a b = Inr (cal', a', b') \<Longrightarrow> wf_calendar cal \<Longrightarrow>
     wf_calendar cal' \<and> CalRaw cal' = CalRaw cal"
proof (induction raw fs cal a b rule: calendar_fields.induct)
  case (1 raw cal sawDate sawWeekday)
  then show ?case by simp
next
  case (2 raw f fs cal sawDate sawWeekday)
  show ?case
  proof (cases "isDatePattern f")
    case True
    with "2.prems"(1) obtain y m d where p: "parseDatePattern f = Inr (y, m, d)" "\<not> sawDate"
      and r: "calendar_fields raw fs (cal\<lparr>Year := y, Month := m, Day := d\<rparr>) True sawWeekday = Inr (cal', a', b')"
      by (auto split: if_splits sum.splits)
    have "wf_calendar (cal\<lparr>Year := y, Month := m, Day := d\<rparr>)"
      using "2.prems"(2) parseDatePattern_range [OF p(1)] by (simp add: wf_calendar_def)
    with "2.IH"(1) [OF True p(2) p(1) _ _ r] show ?thesis by simp
  next
    case False
    with "2.prems"(1) obtain days where l: "looksLikeWeekdays f" and p: "parseWeekdays f = Inr days"
      and r: "calendar_fields raw fs
        (cal\<lparr>RestrictWeekdays := True, Weekdays := set_weekdays days (Weekdays cal)\<rparr>) sawDate True = Inr (cal', a', b')"
      by (auto split: if_splits sum.splits)
    have "wf_calendar (cal\<lparr>RestrictWeekdays := True, Weekdays := set_weekdays days (Weekdays cal)\<rparr>)"
      using "2.prems"(2) set_weekdays_restricts [OF _ parseWeekdays_not_Nil [OF p]]
      by (simp add: wf_calendar_def)
    with "2.IH"(2) [OF False l p r] show ?thesis by simp
  qed
qed

lemma ParseCalendar_accepted:
  assumes "ParseCalendar s = Inr cal"
  shows "wf_calendar cal \<and> CalRaw cal = TrimSpace s"
proof (cases "EqualFold (TrimSpace s) ''daily''")
  case True
  with assms show ?thesis
    by (auto simp: ParseCalendar_def Let_def wf_calendar_def no_weekdays_def split: if_splits)
next
  case False
  let ?raw = "TrimSpace s"
  from assms False obtain h m sec where t: "parseTimeOfDay (last (Fields ?raw)) = Inr (h, m, sec)"
    by (auto simp: ParseCalendar_def Let_def split: if_splits sum.splits)
  let ?c = "\<lparr>CalRaw = ?raw, RestrictWeekdays = False, Weekdays = no_weekdays,
             Year = -1, Month = -1, Day = -1, Hour = h, Minute = m, Second = sec\<rparr>"
  from assms False t obtain a b where
    "calendar_fields ?raw (butlast (Fields ?raw)) ?c False False = Inr (cal, a, b)"
    by (auto simp: ParseCalendar_def Let_def split: if_splits sum.splits)
  moreover have "wf_calendar ?c"
    using parseTimeOfDay_range [OF t] by (simp add: wf_calendar_def no_weekdays_def)
  ultimately show ?thesis using calendar_fields_wf by fastforce
qed

text \<open>
  Every calendar that \<open>ParseCalendar\<close> accepts is well-formed: hour, minute and second are in
  the range of a clock, the date fields are the wildcard -1 or in the range of a civil date, and an
  expression that restricts weekdays admits at least one weekday.
\<close>

theorem ParseCalendar_wf:
  assumes "ParseCalendar s = Inr cal"
  shows "wf_calendar cal \<and> CalRaw cal = TrimSpace s"
  using assms by (rule ParseCalendar_accepted)

theorem ParseCalendar_wf_witness:
  "\<exists>cal. ParseCalendar ''Mon..Fri 03:00'' = Inr cal \<and> wf_calendar cal
     \<and> CalRaw cal = TrimSpace ''Mon..Fri 03:00''"
proof -
  let ?cal = "\<lparr>CalRaw = ''Mon..Fri 03:00'', RestrictWeekdays = True,
    Weekdays = [False, True, True, True, True, True, False],
    Year = -1, Month = -1, Day = -1, Hour = 3, Minute = 0, Second = 0\<rparr>"
  have "ParseCalendar ''Mon..Fri 03:00'' = Inr ?cal" by code_simp
  with ParseCalendar_wf [OF this] show ?thesis by blast
qed

end
