(* ===== verification/Unit_Types.thy ===== *)
theory Unit_Types
  imports Watch_Specs Calendar_Parse
begin

text \<open>
  The parsed unit file: the types of \<open>internal/unit/types.go\<close> and the functions on them.
  A Go type \<open>string\<close> with a fixed list of constants is a datatype; where the zero value "" or a
  rejected spelling can be stored, the datatype has a constructor for it.  \<open>time.Duration\<close> is an
  \<open>int\<close> counting nanoseconds, \<open>uint32\<close> and \<open>uint64\<close> are words, a pointer that may be nil is an
  option.
\<close>

datatype Kind = KindService | KindTimer | KindTarget | KindRegistry | KindEventLog | KindPath

primrec Kind_string :: "Kind \<Rightarrow> string" where
  "Kind_string KindService = ''service''"
| "Kind_string KindTimer = ''timer''"
| "Kind_string KindTarget = ''target''"
| "Kind_string KindRegistry = ''registry''"
| "Kind_string KindEventLog = ''eventlog''"
| "Kind_string KindPath = ''path''"

datatype ServiceType = TypeSimple | TypeOneshot | TypeNotify | TypeSCM | TypeScheduledTask

primrec ServiceType_string :: "ServiceType \<Rightarrow> string" where
  "ServiceType_string TypeSimple = ''simple''"
| "ServiceType_string TypeOneshot = ''oneshot''"
| "ServiceType_string TypeNotify = ''notify''"
| "ServiceType_string TypeSCM = ''scm''"
| "ServiceType_string TypeScheduledTask = ''scheduled-task''"

definition ServiceType_IsExternalProxy :: "ServiceType \<Rightarrow> bool" where
  "ServiceType_IsExternalProxy t \<longleftrightarrow> t = TypeSCM \<or> t = TypeScheduledTask"

datatype RestartPolicy = RestartNo | RestartAlways | RestartOnFailure | RestartOnWatchdog

primrec RestartPolicy_string :: "RestartPolicy \<Rightarrow> string" where
  "RestartPolicy_string RestartNo = ''no''"
| "RestartPolicy_string RestartAlways = ''always''"
| "RestartPolicy_string RestartOnFailure = ''on-failure''"
| "RestartPolicy_string RestartOnWatchdog = ''on-watchdog''"

datatype NotifyAccess = NotifyAccessUnset | NotifyAccessMain

datatype WatchdogMode =
  WatchdogModeUnset | WatchdogModeNotify | WatchdogModeTCP | WatchdogModeHTTP | WatchdogModeOther string

definition WatchdogMode_of :: "string \<Rightarrow> WatchdogMode" where
  "WatchdogMode_of s =
     (if s = [] then WatchdogModeUnset
      else if s = ''notify'' then WatchdogModeNotify
      else if s = ''tcp'' then WatchdogModeTCP
      else if s = ''http'' then WatchdogModeHTTP
      else WatchdogModeOther s)"

primrec WatchdogMode_string :: "WatchdogMode \<Rightarrow> string" where
  "WatchdogMode_string WatchdogModeUnset = []"
| "WatchdogMode_string WatchdogModeNotify = ''notify''"
| "WatchdogMode_string WatchdogModeTCP = ''tcp''"
| "WatchdogMode_string WatchdogModeHTTP = ''http''"
| "WatchdogMode_string (WatchdogModeOther s) = s"

datatype PriorityClass =
  PriorityUnset | PriorityIdle | PriorityBelowNormal | PriorityNormal | PriorityAboveNormal | PriorityHigh

primrec WindowsPriorityClass :: "PriorityClass \<Rightarrow> 32 word" where
  "WindowsPriorityClass PriorityIdle = 0x00000040"
| "WindowsPriorityClass PriorityBelowNormal = 0x00004000"
| "WindowsPriorityClass PriorityNormal = 0x00000020"
| "WindowsPriorityClass PriorityAboveNormal = 0x00008000"
| "WindowsPriorityClass PriorityHigh = 0x00000080"
| "WindowsPriorityClass PriorityUnset = 0"

datatype IoPriority = IoUnset | IoIdle | IoLow | IoNormal | IoHigh

primrec WindowsIoPriority :: "IoPriority \<Rightarrow> 32 word" where
  "WindowsIoPriority IoIdle = 0"
| "WindowsIoPriority IoLow = 1"
| "WindowsIoPriority IoNormal = 2"
| "WindowsIoPriority IoHigh = 3"
| "WindowsIoPriority IoUnset = 0"

definition WindowsCPUWeight_of :: "32 word \<Rightarrow> 32 word" where
  "WindowsCPUWeight_of n =
     (let w = (n + 1110) div 1111 in
      if w < 1 then 1 else if w > 9 then 9 else w)"

definition WindowsCPURate :: "32 word \<Rightarrow> 32 word" where
  "WindowsCPURate percent = percent * 100"

record EnvVar =
  EnvName :: string
  EnvValue :: string

section \<open>Sections of a unit\<close>

record ServiceSpec =
  ReadinessMode :: WatchdogMode
  ReadinessEndpoint :: string
  ReadinessAddr :: string
  ReadinessURL :: string
  ReadinessExpectedStatus :: int
  ReadinessIntervalSec :: int
  ReadinessTimeoutSec :: int
  SType :: ServiceType
  RemainAfterExit :: bool
  ServiceName :: string
  TaskName :: string
  ExecStart :: "string list"
  ExecStop :: "string list"
  WorkingDirectory :: string
  User :: string
  UserDeclared :: bool
  Environment :: "EnvVar list"
  Restart :: RestartPolicy
  RestartSec :: int
  RestartBackoff :: string
  RestartMaxDelaySec :: int
  TimeoutStartSec :: int
  TimeoutStopSec :: int
  NotifyAccessOf :: NotifyAccess
  WatchdogSec :: int
  WatchdogModeOf :: WatchdogMode
  WatchdogEndpoint :: string
  WatchdogExpectedStatus :: int
  WatchdogAddr :: string
  WatchdogURL :: string
  WatchdogGraceSec :: int
  WatchdogTimeoutSec :: int
  WatchdogFailureThreshold :: int
  MemoryMax :: "64 word"
  ProcessLimit :: "32 word"
  PriorityClassOf :: PriorityClass
  CPUWeight :: "32 word"
  WindowsCPUWeight :: "32 word"
  WindowsCPUQuota :: "32 word"
  CPUQuota :: "32 word"
  IoPriorityOf :: IoPriority
  RestartSecSet :: bool
  TimeoutStartSecSet :: bool
  TimeoutStopSecSet :: bool
  WatchdogSecSet :: bool
  WatchdogEndpointSet :: bool
  WatchdogExpectedStatusSet :: bool
  MemoryMaxSet :: bool
  ProcessLimitSet :: bool
  PriorityClassSet :: bool
  CPUWeightSet :: bool
  CPUQuotaSet :: bool
  IoPrioritySet :: bool

text \<open>The zero value of \<open>ServiceSpec\<close> with \<open>Type: TypeSimple\<close> and \<open>Restart: RestartNo\<close>.\<close>

definition new_ServiceSpec :: ServiceSpec where
  "new_ServiceSpec = \<lparr>
     ReadinessMode = WatchdogModeUnset, ReadinessEndpoint = [], ReadinessAddr = [], ReadinessURL = [],
     ReadinessExpectedStatus = 0, ReadinessIntervalSec = 0, ReadinessTimeoutSec = 0,
     SType = TypeSimple, RemainAfterExit = False, ServiceName = [], TaskName = [],
     ExecStart = [], ExecStop = [], WorkingDirectory = [], User = [], UserDeclared = False,
     Environment = [], Restart = RestartNo, RestartSec = 0, RestartBackoff = [],
     RestartMaxDelaySec = 0, TimeoutStartSec = 0, TimeoutStopSec = 0,
     NotifyAccessOf = NotifyAccessUnset, WatchdogSec = 0, WatchdogModeOf = WatchdogModeUnset,
     WatchdogEndpoint = [], WatchdogExpectedStatus = 0, WatchdogAddr = [], WatchdogURL = [],
     WatchdogGraceSec = 0, WatchdogTimeoutSec = 0, WatchdogFailureThreshold = 0,
     MemoryMax = 0, ProcessLimit = 0, PriorityClassOf = PriorityUnset, CPUWeight = 0,
     WindowsCPUWeight = 0, WindowsCPUQuota = 0, CPUQuota = 0, IoPriorityOf = IoUnset,
     RestartSecSet = False, TimeoutStartSecSet = False, TimeoutStopSecSet = False,
     WatchdogSecSet = False, WatchdogEndpointSet = False, WatchdogExpectedStatusSet = False,
     MemoryMaxSet = False, ProcessLimitSet = False, PriorityClassSet = False,
     CPUWeightSet = False, CPUQuotaSet = False, IoPrioritySet = False\<rparr>"

definition HasJobResourceLimits :: "ServiceSpec option \<Rightarrow> bool" where
  "HasJobResourceLimits so =
     (case so of None \<Rightarrow> False | Some s \<Rightarrow> MemoryMaxSet s \<or> ProcessLimitSet s)"

definition IsSCM :: "ServiceSpec option \<Rightarrow> bool" where
  "IsSCM so = (case so of None \<Rightarrow> False | Some s \<Rightarrow> SType s = TypeSCM)"

definition IsScheduledTask :: "ServiceSpec option \<Rightarrow> bool" where
  "IsScheduledTask so = (case so of None \<Rightarrow> False | Some s \<Rightarrow> SType s = TypeScheduledTask)"

definition IsExternalProxy :: "ServiceSpec option \<Rightarrow> bool" where
  "IsExternalProxy so \<longleftrightarrow> IsSCM so \<or> IsScheduledTask so"

definition WatchdogEnabled :: "ServiceSpec option \<Rightarrow> bool" where
  "WatchdogEnabled so =
     (case so of None \<Rightarrow> False
      | Some s \<Rightarrow> (if IsExternalProxy so then False else WatchdogSecSet s \<and> WatchdogSec s > 0))"

definition NeedsNotifyPipe :: "ServiceSpec option \<Rightarrow> bool" where
  "NeedsNotifyPipe so =
     (case so of None \<Rightarrow> False
      | Some s \<Rightarrow>
          (if IsExternalProxy so then False
           else if SType s = TypeNotify then True
           else WatchdogEnabled so \<and> WatchdogModeOf s = WatchdogModeNotify))"

definition WatchdogProbeMode :: "ServiceSpec option \<Rightarrow> bool" where
  "WatchdogProbeMode so =
     (case so of None \<Rightarrow> False
      | Some s \<Rightarrow> WatchdogModeOf s = WatchdogModeTCP \<or> WatchdogModeOf s = WatchdogModeHTTP)"

record TimerSpec =
  OnBootSec :: int
  OnStartupSec :: int
  OnUnitActiveSec :: int
  OnCalendar :: "Calendar list"
  Persistent :: bool
  TimerUnit :: name
  OnBootSecSet :: bool
  OnStartupSecSet :: bool
  OnUnitActiveSecSet :: bool

definition new_TimerSpec :: TimerSpec where
  "new_TimerSpec = \<lparr>OnBootSec = 0, OnStartupSec = 0, OnUnitActiveSec = 0, OnCalendar = [],
     Persistent = False, TimerUnit = [], OnBootSecSet = False, OnStartupSecSet = False,
     OnUnitActiveSecSet = False\<rparr>"

record RegistrySpec =
  RegChanged :: "Key list"
  RegUnit :: name

record EventLogSpec =
  Triggers :: "Trigger list"
  EvtUnit :: name

record PathSpec =
  ExistsAny :: bool
  PathChanged :: "PSpec list"
  PathExists :: "PSpec list"
  PathUnit :: name

record Unit =
  FormatVersion :: int
  Name :: name
  UPath :: string
  UKind :: Kind
  Description :: string
  Requires :: "name list"
  Wants :: "name list"
  BindsTo :: "name list"
  PartOf :: "name list"
  After :: "name list"
  Before :: "name list"
  RequiresInteractiveSession :: bool
  StartLimitInterval :: int
  StartLimitBurst :: int
  Service :: "ServiceSpec option"
  Timer :: "TimerSpec option"
  Registry :: "RegistrySpec option"
  EventLog :: "EventLogSpec option"
  PathWatch :: "PathSpec option"
  WantedBy :: "name list"

text \<open>A unit with a name, path and kind and every other field at its zero value.\<close>

definition new_Unit :: "int \<Rightarrow> name \<Rightarrow> string \<Rightarrow> Kind \<Rightarrow> Unit" where
  "new_Unit version nm path kind = \<lparr>FormatVersion = version, Name = nm, UPath = path, UKind = kind,
     Description = [], Requires = [], Wants = [], BindsTo = [], PartOf = [], After = [], Before = [],
     RequiresInteractiveSession = False, StartLimitInterval = 0, StartLimitBurst = 0,
     Service = None, Timer = None, Registry = None, EventLog = None, PathWatch = None, WantedBy = []\<rparr>"

section \<open>Diagnostics\<close>

datatype Severity = SeverityError | SeverityWarning

primrec Severity_string :: "Severity \<Rightarrow> string" where
  "Severity_string SeverityError = ''error''"
| "Severity_string SeverityWarning = ''warning''"

record Issue =
  IssuePath :: string
  Line :: nat
  Sev :: Severity
  Message :: string

definition Issue_String :: "Issue \<Rightarrow> string" where
  "Issue_String i =
     (let loc = (if IssuePath i = [] then ''unit'' else IssuePath i) in
      if Line i > 0 then
        loc @ '':'' @ Itoa (Line i) @ '': '' @ Severity_string (Sev i) @ '': '' @ Message i
      else loc @ '': '' @ Severity_string (Sev i) @ '': '' @ Message i)"

record Report =
  RUnit :: "Unit option"
  Issues :: "Issue list"

fun has_error :: "Issue list \<Rightarrow> bool" where
  "has_error [] = False"
| "has_error (i # is) = (if Sev i = SeverityError then True else has_error is)"

definition HasError :: "Report \<Rightarrow> bool" where
  "HasError r = has_error (Issues r)"

definition Errors :: "Report \<Rightarrow> Issue list" where
  "Errors r = filter (\<lambda>i. Sev i = SeverityError) (Issues r)"

definition Warnings :: "Report \<Rightarrow> Issue list" where
  "Warnings r = filter (\<lambda>i. Sev i = SeverityWarning) (Issues r)"

lemma has_error_iff: "has_error is \<longleftrightarrow> (\<exists>i \<in> set is. Sev i = SeverityError)"
  by (induction "is") auto

lemma has_error_append [simp]: "has_error (is @ js) \<longleftrightarrow> has_error is \<or> has_error js"
  by (auto simp: has_error_iff)

lemma Errors_Warnings_partition:
  "length (Errors r) + length (Warnings r) = length (Issues r)
   \<and> (HasError r \<longleftrightarrow> Errors r \<noteq> [])"
proof
  have "Warnings r = filter (\<lambda>i. \<not> Sev i = SeverityError) (Issues r)"
    unfolding Warnings_def by (rule filter_cong [OF refl]) (metis Severity.distinct(1) Severity.exhaust)
  then show "length (Errors r) + length (Warnings r) = length (Issues r)"
    unfolding Errors_def by (simp only: sum_length_filter_compl)
  show "HasError r \<longleftrightarrow> Errors r \<noteq> []"
    by (simp add: Errors_def HasError_def has_error_iff filter_empty_conv)
qed

section \<open>Windows CPU weights\<close>

lemma WindowsCPUWeight_nat:
  assumes "unat n \<le> 10000"
  shows "unat (WindowsCPUWeight_of n) = max 1 (min 9 ((unat n + 1110) div 1111))"
proof -
  have a: "unat (n + 1110) = unat n + 1110"
    using assms by (subst unat_add_lem [THEN iffD1]) simp_all
  have w: "unat ((n + 1110) div 1111) = (unat n + 1110) div 1111"
    by (simp add: unat_div a)
  let ?w = "(n + 1110) div 1111"
  have "unat (if ?w < 1 then 1 else if ?w > 9 then 9 else ?w) = max 1 (min 9 (unat ?w))"
    by (simp add: word_less_nat_alt max_def min_def)
  then show ?thesis
    unfolding WindowsCPUWeight_of_def Let_def w by simp
qed

text \<open>
  For every \<open>CPUWeight=\<close> the parser can accept (1 to 10000) the native job weight is between 1
  and 9, the mapping is monotone, and both ends of the native range are reached.
\<close>

theorem WindowsCPUWeight_range:
  assumes "1 \<le> unat m" and "unat m \<le> unat n" and "unat n \<le> 10000"
  shows "1 \<le> unat (WindowsCPUWeight_of m) \<and> unat (WindowsCPUWeight_of n) \<le> 9
       \<and> unat (WindowsCPUWeight_of m) \<le> unat (WindowsCPUWeight_of n)
       \<and> unat (WindowsCPUWeight_of 1) = 1 \<and> unat (WindowsCPUWeight_of 10000) = 9"
proof -
  let ?f = "\<lambda>k. max 1 (min 9 ((k + 1110) div 1111)) :: nat"
  have "(unat m + 1110) div 1111 \<le> (unat n + 1110) div 1111"
    using assms(2) by (simp add: div_le_mono)
  then have "?f (unat m) \<le> ?f (unat n)" by linarith
  then show ?thesis
    using assms by (simp add: WindowsCPUWeight_nat)
qed

theorem WindowsCPUWeight_range_witness:
  "1 \<le> unat (WindowsCPUWeight_of 100) \<and> unat (WindowsCPUWeight_of 5000) \<le> 9
       \<and> unat (WindowsCPUWeight_of 100) \<le> unat (WindowsCPUWeight_of 5000)
       \<and> unat (WindowsCPUWeight_of 1) = 1 \<and> unat (WindowsCPUWeight_of 10000) = 9"
  using WindowsCPUWeight_range [of 100 5000] by simp

end
