(* ===== verification/Unit_Names.thy ===== *)
theory Unit_Names
  imports Unit_Types
begin

text \<open>
  Unit names: \<open>internal/unit/path.go\<close>, \<open>CompanionService\<close> of \<open>internal/unit/types.go\<close> and the name
  lists of \<open>internal/core/names.go\<close>.  A stored name is canonical, that is a fixed point of
  \<open>NormalizeName\<close>; the lemmas of this theory are the facts about canonical names that the graph,
  the planner and the executors rest on.
\<close>

definition KindFromName :: "string \<Rightarrow> Kind res" where
  "KindFromName nm =
     (let n = ToLower nm in
      if HasSuffix n ''.service'' then Inr KindService
      else if HasSuffix n ''.timer'' then Inr KindTimer
      else if HasSuffix n ''.target'' then Inr KindTarget
      else if HasSuffix n ''.registry'' then Inr KindRegistry
      else if HasSuffix n ''.eventlog'' then Inr KindEventLog
      else if HasSuffix n ''.path'' then Inr KindPath
      else (case LastIndex nm ''.'' of
              Some i \<Rightarrow> Inl (''unsupported unit type '' @ Quote (drop i nm))
            | None \<Rightarrow> Inl (''unit name '' @ Quote nm @ '' has no type suffix'')))"

definition NormalizeName :: "string \<Rightarrow> name" where
  "NormalizeName nm0 =
     (let nm = ToLower (TrimSpace nm0) in
      if nm = [] then []
      else (case KindFromName nm of Inr _ \<Rightarrow> nm | Inl _ \<Rightarrow> nm @ ''.service''))"

definition link_forbidden :: string where
  "link_forbidden = [CHR ''/'', backslash, CHR '':'', CHR ''*'', CHR ''?'', dquote, CHR ''<'', CHR ''>'', CHR ''|'']"

definition quote_rune :: "char \<Rightarrow> string" where
  "quote_rune r = [CHR 0x27] @ (if r = backslash then [backslash, backslash] else [r]) @ [CHR 0x27]"

fun link_chars :: "string \<Rightarrow> string \<Rightarrow> unit res" where
  "link_chars nm [] = Inr ()"
| "link_chars nm (r # rs) =
     (if (of_char r :: nat) < 0x20 \<or> (of_char r :: nat) = 0x7f
      then Inl (''unit name '' @ Quote nm @ '' contains a control character'')
      else if r \<in> set link_forbidden
      then Inl (''unit name '' @ Quote nm @ '' must be a single name without '' @ quote_rune r)
      else link_chars nm rs)"

definition CheckLinkName :: "string \<Rightarrow> unit res" where
  "CheckLinkName nm =
     (if nm = [] then Inl ''empty unit name''
      else if nm = ''.'' \<or> nm = ''..'' then Inl (''unit name '' @ Quote nm @ '' is not a file name'')
      else link_chars nm nm)"

definition UnitNameFromPath :: "string \<Rightarrow> string" where
  "UnitNameFromPath path =
     (let p = TrimRight isSlash path in
      if p = [] then path
      else (case LastIndexAny p [CHR ''/'', backslash] of
              Some i \<Rightarrow> drop (i + 1) p
            | None \<Rightarrow> p))"

definition WindowsAbs :: "string \<Rightarrow> bool" where
  "WindowsAbs p0 =
     (let p = TrimSpace p0 in
      if p = [] then False
      else if HasPrefix p [backslash, backslash] \<or> HasPrefix p ''//'' then length p > 2
      else if length p \<ge> 3 \<and> isDriveLetter (p ! 0) \<and> p ! 1 = CHR '':'' \<and> isSlash (p ! 2) then True
      else False)"

definition CompanionService :: "string \<Rightarrow> name" where
  "CompanionService nm0 =
     (let nm = NormalizeName nm0;
          base = (case LastIndex nm ''.'' of Some i \<Rightarrow> take i nm | None \<Rightarrow> nm)
      in NormalizeName (base @ ''.service''))"

fun uniqueStable_loop :: "name list \<Rightarrow> name list \<Rightarrow> name list" where
  "uniqueStable_loop [] out = out"
| "uniqueStable_loop (s # ss) out =
     (let s' = NormalizeName s in
      if s' = [] then uniqueStable_loop ss out
      else if s' \<in> set out then uniqueStable_loop ss out
      else uniqueStable_loop ss (out @ [s']))"

definition uniqueStable :: "name list \<Rightarrow> name list" where
  "uniqueStable xs = uniqueStable_loop xs []"

fun containsName :: "name list \<Rightarrow> name \<Rightarrow> bool" where
  "containsName [] nm = False"
| "containsName (s # ss) nm = (if s = nm then True else containsName ss nm)"

definition cloneNames :: "name list \<Rightarrow> name list" where
  "cloneNames xs = xs"

section \<open>Canonical names\<close>

definition canonical :: "name \<Rightarrow> bool" where
  "canonical nm \<longleftrightarrow> NormalizeName nm = nm"

lemma containsName_iff [simp]: "containsName ss nm \<longleftrightarrow> nm \<in> set ss"
  by (induction ss) auto

lemma suffix_service: "HasSuffix (s @ ''.service'') ''.service''"
  by (simp add: HasSuffix_def suffix_def)

lemma ToLower_service [simp]: "ToLower ''.service'' = ''.service''"
  by code_simp

lemma TrimSpace_add_service:
  assumes "TrimSpace s = s" "s \<noteq> []"
  shows "TrimSpace (s @ ''.service'') = s @ ''.service''"
proof (rule TrimSpace_id)
  have a: "is_ascii (CHR ''.'')" "visible (CHR ''e'')" by (simp_all add: is_ascii_def visible_def IsSpace_def)
  have "left_trimmed (s @ ''.service'')"
    using left_trimmed_append [OF a(1), of s] TrimSpace_ends(1) [of s] assms by simp
  moreover have "right_trimmed (s @ ''.service'')" using a(2) by (simp add: right_trimmed_last visible_def)
  ultimately show "s @ ''.service'' = [] \<or> left_trimmed (s @ ''.service'') \<and> right_trimmed (s @ ''.service'')" by simp
qed

lemma KindFromName_service: "KindFromName (ToLower s @ ''.service'') = Inr KindService"
  by (simp add: KindFromName_def suffix_service)

lemma NormalizeName_fixpoint:
  "NormalizeName (NormalizeName nm) = NormalizeName nm \<and> (NormalizeName nm = [] \<longleftrightarrow> TrimSpace nm = [])"
proof -
  let ?n = "ToLower (TrimSpace nm)"
  have t: "TrimSpace ?n = ?n" by (simp add: TrimSpace_ToLower)
  have l: "ToLower ?n = ?n" by simp
  show ?thesis
  proof (cases "?n = []")
    case True
    then show ?thesis by (simp add: NormalizeName_def Let_def)
  next
    case ne: False
    show ?thesis
    proof (cases "KindFromName ?n")
      case (Inr k)
      then have "NormalizeName nm = ?n" using ne by (simp add: NormalizeName_def Let_def)
      with ne Inr t l show ?thesis by (simp add: NormalizeName_def Let_def)
    next
      case (Inl e)
      then have n: "NormalizeName nm = ?n @ ''.service''" using ne by (simp add: NormalizeName_def Let_def)
      have "NormalizeName (?n @ ''.service'') = ?n @ ''.service''"
        using TrimSpace_add_service [OF t ne] KindFromName_service [of "TrimSpace nm"]
        by (simp add: NormalizeName_def Let_def)
      with n ne show ?thesis by simp
    qed
  qed
qed

text \<open>
  Normalising a unit name is idempotent, and the result is empty only for a blank name.
\<close>

theorem NormalizeName_idem:
  "NormalizeName (NormalizeName nm) = NormalizeName nm \<and> (NormalizeName nm = [] \<longleftrightarrow> TrimSpace nm = [])"
  by (rule NormalizeName_fixpoint)

lemma canonical_NormalizeName [simp]: "canonical (NormalizeName nm)"
  using NormalizeName_fixpoint by (simp add: canonical_def)

lemma NormalizeName_canonical [simp]: "canonical nm \<Longrightarrow> NormalizeName nm = nm"
  by (simp add: canonical_def)

section \<open>Name lists\<close>

lemma uniqueStable_loop_props:
  "distinct out \<Longrightarrow>
     set (uniqueStable_loop xs out) = set out \<union> (NormalizeName ` set xs - {[]})
     \<and> distinct (uniqueStable_loop xs out)"
  by (induction xs arbitrary: out) (auto simp: Let_def)

lemma set_uniqueStable [simp]: "set (uniqueStable xs) = NormalizeName ` set xs - {[]}"
  by (simp add: uniqueStable_def uniqueStable_loop_props)

lemma distinct_uniqueStable [simp]: "distinct (uniqueStable xs)"
  by (simp add: uniqueStable_def uniqueStable_loop_props)

definition canonical_names :: "name list \<Rightarrow> bool" where
  "canonical_names xs \<longleftrightarrow> distinct xs \<and> (\<forall>x \<in> set xs. canonical x \<and> x \<noteq> [])"

lemma canonical_names_uniqueStable [simp]: "canonical_names (uniqueStable xs)"
  by (auto simp: canonical_names_def)

lemma set_uniqueStable_canonical:
  assumes "\<And>x. x \<in> set xs \<Longrightarrow> canonical x \<and> x \<noteq> []"
  shows "set (uniqueStable xs) = set xs"
  using assms by force

lemma uniqueStable_loop_canonical:
  "canonical_names (out @ xs) \<Longrightarrow> uniqueStable_loop xs out = out @ xs"
proof (induction xs arbitrary: out)
  case (Cons x xs)
  then have "NormalizeName x = x" "x \<noteq> []" "x \<notin> set out" by (auto simp: canonical_names_def)
  with Cons show ?case by simp
qed simp

lemma uniqueStable_id: "canonical_names xs \<Longrightarrow> uniqueStable xs = xs"
  using uniqueStable_loop_canonical [of "[]"] by (simp add: uniqueStable_def)

lemma length_uniqueStable_empty: "uniqueStable [] = []"
  by (simp add: uniqueStable_def)

section \<open>Link names\<close>

lemma link_chars_ok:
  "link_chars nm s = Inr () \<longleftrightarrow>
     (\<forall>r \<in> set s. 0x20 \<le> (of_char r :: nat) \<and> (of_char r :: nat) \<noteq> 0x7f \<and> r \<notin> set link_forbidden)"
  by (induction s) auto

text \<open>
  A name that \<open>CheckLinkName\<close> accepts is a single file-name component: it is not empty, not a
  dot component, and holds no path separator, no drive or stream colon and no control character, so
  the link \<open>enabled/<target>/<unit>\<close> never leaves its parent directory.
\<close>

theorem CheckLinkName_component:
  "CheckLinkName nm = Inr () \<longleftrightarrow>
     nm \<noteq> [] \<and> nm \<noteq> ''.'' \<and> nm \<noteq> ''..''
     \<and> (\<forall>r \<in> set nm. \<not> isSlash r \<and> r \<noteq> CHR '':'' \<and> r \<notin> set [CHR ''*'', CHR ''?'', dquote, CHR ''<'', CHR ''>'', CHR ''|'']
          \<and> 0x20 \<le> (of_char r :: nat) \<and> (of_char r :: nat) \<noteq> 0x7f)"
  by (auto simp: CheckLinkName_def link_chars_ok link_forbidden_def isSlash_def)

theorem CheckLinkName_component_witness: "CheckLinkName ''web.target'' = Inr ()"
  by (rule CheckLinkName_component [THEN iffD2]) (simp add: isSlash_def backslash_def dquote_def)

end
