(* ===== verification/Lifecycle.thy ===== *)
theory Lifecycle
  imports Unit_Types
begin

text \<open>
  The unit lifecycle of \<open>internal/core/state.go\<close> (states, substates, events and the closed allowlist
  behind \<open>Step\<close>) and the restart decision of \<open>internal/core/restart.go\<close>.  The code's enumerations are
  integer types whose \<open>String\<close> methods also print numbers outside the declared constants; no code makes
  such a number, and the datatypes have only the declared ones.
\<close>

section \<open>States, substates and events\<close>

datatype State = Inactive | Activating | Active | Deactivating | Failed

primrec State_String :: "State \<Rightarrow> string" where
  "State_String Inactive = ''inactive''"
| "State_String Activating = ''activating''"
| "State_String Active = ''active''"
| "State_String Deactivating = ''deactivating''"
| "State_String Failed = ''failed''"

datatype Substate =
  SubNone | SubStartPre | SubStart | SubStartPost | SubRunning | SubStop | SubStopPost
  | SubAutoRestart | SubWatchdog

primrec Substate_String :: "Substate \<Rightarrow> string" where
  "Substate_String SubNone = []"
| "Substate_String SubStartPre = ''start-pre''"
| "Substate_String SubStart = ''start''"
| "Substate_String SubStartPost = ''start-post''"
| "Substate_String SubRunning = ''running''"
| "Substate_String SubStop = ''stop''"
| "Substate_String SubStopPost = ''stop-post''"
| "Substate_String SubAutoRestart = ''auto-restart''"
| "Substate_String SubWatchdog = ''watchdog''"

datatype Event =
  EventStartRequested | EventStartSucceeded | EventStartFailed | EventStopRequested
  | EventStopFinished | EventMainExited | EventAutoRestart | EventRestartCancelled
  | EventWatchdogFailed

primrec Event_String :: "Event \<Rightarrow> string" where
  "Event_String EventStartRequested = ''start-requested''"
| "Event_String EventStartSucceeded = ''start-succeeded''"
| "Event_String EventStartFailed = ''start-failed''"
| "Event_String EventStopRequested = ''stop-requested''"
| "Event_String EventStopFinished = ''stop-finished''"
| "Event_String EventMainExited = ''main-exited''"
| "Event_String EventAutoRestart = ''auto-restart''"
| "Event_String EventRestartCancelled = ''restart-cancelled''"
| "Event_String EventWatchdogFailed = ''watchdog-failed''"

record TransitionError =
  TEFrom :: State
  TEFromSub :: Substate
  TEEvent :: Event

definition TransitionError_Error :: "TransitionError option \<Rightarrow> string" where
  "TransitionError_Error eo =
     (case eo of
        None \<Rightarrow> ''illegal lifecycle transition''
      | Some e \<Rightarrow>
          (let sub = Substate_String (TEFromSub e) in
           if sub \<noteq> [] then
             ''illegal transition: '' @ State_String (TEFrom e) @ ''/'' @ sub @ '' + '' @ Event_String (TEEvent e)
           else ''illegal transition: '' @ State_String (TEFrom e) @ '' + '' @ Event_String (TEEvent e)))"

fun allowedStep :: "State \<Rightarrow> Substate \<Rightarrow> Event \<Rightarrow> State \<times> Substate \<times> bool" where
  "allowedStep from fromSub EventStartRequested =
     (if from \<in> {Inactive, Failed, Activating, Active} then (Activating, SubStart, True)
      else (from, fromSub, False))"
| "allowedStep from fromSub EventStartSucceeded =
     (if from = Activating then (Active, SubRunning, True) else (from, fromSub, False))"
| "allowedStep from fromSub EventStartFailed =
     (if from \<in> {Activating, Active, Deactivating} then (Failed, SubNone, True)
      else (from, fromSub, False))"
| "allowedStep from fromSub EventStopRequested =
     (if from \<in> {Inactive, Active, Activating, Failed, Deactivating} then (Deactivating, SubStop, True)
      else (from, fromSub, False))"
| "allowedStep from fromSub EventStopFinished =
     (if from = Deactivating then (Inactive, SubNone, True) else (from, fromSub, False))"
| "allowedStep from fromSub EventMainExited =
     (if from \<in> {Active, Activating, Inactive} then (Failed, SubNone, True)
      else (from, fromSub, False))"
| "allowedStep from fromSub EventAutoRestart =
     (if from \<in> {Inactive, Active, Failed} then (Activating, SubAutoRestart, True)
      else (from, fromSub, False))"
| "allowedStep from fromSub EventRestartCancelled =
     (if from = Activating \<and> fromSub = SubAutoRestart then (Inactive, SubNone, True)
      else (from, fromSub, False))"
| "allowedStep from fromSub EventWatchdogFailed =
     (if from \<in> {Active, Activating} then (Failed, SubWatchdog, True)
      else (from, fromSub, False))"

definition Step :: "State \<Rightarrow> Substate \<Rightarrow> Event \<Rightarrow> State \<times> Substate \<times> TransitionError option" where
  "Step from fromSub ev =
     (case allowedStep from fromSub ev of (to, toSub, ok) \<Rightarrow>
        if \<not> ok then (from, fromSub, Some \<lparr>TEFrom = from, TEFromSub = fromSub, TEEvent = ev\<rparr>)
        else (to, toSub, None))"

section \<open>Reachable lifecycle states\<close>

type_synonym life = "State \<times> Substate"

inductive life_step :: "life \<Rightarrow> life \<Rightarrow> bool" where
  accepted: "Step from fromSub ev = (to, toSub, None) \<Longrightarrow> life_step (from, fromSub) (to, toSub)"
| rejected: "Step from fromSub ev = (to, toSub, Some e) \<Longrightarrow> life_step (from, fromSub) (to, toSub)"

inductive_cases life_stepE: "life_step (a, b) (c, d)"

definition life_init :: "life \<Rightarrow> bool" where
  "life_init s \<longleftrightarrow> s = (Inactive, SubNone)"

definition life_consistent :: "life \<Rightarrow> bool" where
  "life_consistent s \<longleftrightarrow>
     s \<in> {(Inactive, SubNone), (Activating, SubStart), (Activating, SubAutoRestart),
           (Active, SubRunning), (Deactivating, SubStop), (Failed, SubNone), (Failed, SubWatchdog)}"

lemma Step_cases:
  "Step from fromSub ev = (to, toSub, e) \<Longrightarrow>
     (e = None \<and> allowedStep from fromSub ev = (to, toSub, True))
     \<or> (e = Some \<lparr>TEFrom = from, TEFromSub = fromSub, TEEvent = ev\<rparr> \<and> to = from \<and> toSub = fromSub
        \<and> \<not> snd (snd (allowedStep from fromSub ev)))"
  by (auto simp: Step_def split: prod.splits if_splits)

lemma allowedStep_consistent:
  "allowedStep from fromSub ev = (to, toSub, True) \<Longrightarrow> life_consistent (to, toSub)"
  by (cases ev) (auto simp: life_consistent_def split: if_splits)

interpretation life: invariant_system life_init life_step life_consistent
proof
  fix s t
  show "life_init s \<Longrightarrow> life_consistent s" by (simp add: life_init_def life_consistent_def)
  assume "life_step s t" "life_consistent s"
  then show "life_consistent t"
    by (induction rule: life_step.induct) (auto dest!: Step_cases intro: allowedStep_consistent)
qed

text \<open>
  Whatever events arrive, in whatever order, a unit that starts inactive is always in one of the
  seven meaningful pairs of state and substate; a rejected event changes nothing.
\<close>

theorem lifecycle_reachable_consistent:
  assumes "life_step\<^sup>*\<^sup>* (Inactive, SubNone) s"
  shows "life_consistent s"
  using life.inv_reachable [OF _ assms] by (simp add: life_init_def)

theorem lifecycle_reachable_consistent_witness: "life_consistent (Failed, SubWatchdog)"
proof (rule lifecycle_reachable_consistent)
  have "life_step (Inactive, SubNone) (Activating, SubStart)"
    by (rule life_step.accepted [of _ _ EventStartRequested]) (simp add: Step_def)
  moreover have "life_step (Activating, SubStart) (Failed, SubWatchdog)"
    by (rule life_step.accepted [of _ _ EventWatchdogFailed]) (simp add: Step_def)
  ultimately show "life_step\<^sup>*\<^sup>* (Inactive, SubNone) (Failed, SubWatchdog)" by auto
qed

text \<open>
  \<open>Step\<close> fails closed and enters each state only through its own events.  A rejected triple
  returns the input state and an error that names the triple.  An accepted one enters Active only
  from Activating on start-succeeded, Inactive only from Deactivating on stop-finished or from a
  pending auto-restart that is cancelled, and Deactivating only on stop-requested.
\<close>

theorem Step_fail_closed:
  "case Step from fromSub ev of
     (to, toSub, Some e) \<Rightarrow>
       (to, toSub) = (from, fromSub) \<and> e = \<lparr>TEFrom = from, TEFromSub = fromSub, TEEvent = ev\<rparr>
   | (to, toSub, None) \<Rightarrow>
       (to = Active) = (from = Activating \<and> ev = EventStartSucceeded)
       \<and> (to = Inactive) = ((from = Deactivating \<and> ev = EventStopFinished)
            \<or> (from = Activating \<and> fromSub = SubAutoRestart \<and> ev = EventRestartCancelled))
       \<and> (to = Deactivating) = (ev = EventStopRequested)"
  by (cases ev; cases "from") (auto simp: Step_def)

text \<open>
  Stopping always works: from every lifecycle state a stop request is accepted and its
  completion returns the unit to inactive, from where a start request is accepted again.
\<close>

theorem stop_always_reaches_inactive:
  "\<exists>s1 s2. Step from fromSub EventStopRequested = (Deactivating, s1, None)
     \<and> Step Deactivating s1 EventStopFinished = (Inactive, s2, None)
     \<and> Step Inactive s2 EventStartRequested = (Activating, SubStart, None)
     \<and> Step Activating SubStart EventStartSucceeded = (Active, SubRunning, None)"
  by (cases "from") (auto simp: Step_def)

section \<open>Exit kinds and restart policy\<close>

datatype ExitKind = ExitSuccess | ExitFailure | ExitAbnormal | ExitWatchdog | ExitResourceLimit

primrec ExitKind_String :: "ExitKind \<Rightarrow> string" where
  "ExitKind_String ExitSuccess = ''success''"
| "ExitKind_String ExitFailure = ''failure''"
| "ExitKind_String ExitAbnormal = ''abnormal''"
| "ExitKind_String ExitWatchdog = ''watchdog''"
| "ExitKind_String ExitResourceLimit = ''resource-limit''"

definition ReasonResourceLimit :: string where "ReasonResourceLimit = ''resource-limit''"
definition ReasonSignalEquivalent :: string where "ReasonSignalEquivalent = ''signal-equivalent''"
definition ReasonConfiguration :: string where "ReasonConfiguration = ''configuration''"
definition ReasonStartLimit :: string where "ReasonStartLimit = ''start-limit''"

definition signalEquivalentExitStatus :: "string \<Rightarrow> bool" where
  "signalEquivalentExitStatus err =
     (let pfx = ''exit status '' in
      if \<not> HasPrefix err pfx then False
      else (case ParseUint 32 (TrimSpace (drop (length pfx) err)) of
              None \<Rightarrow> False
            | Some n \<Rightarrow> (word_of_nat n :: 32 word) \<ge> 0xC0000000))"

definition StatusReason :: "string \<Rightarrow> string" where
  "StatusReason err =
     (if err = ReasonResourceLimit then ReasonResourceLimit
      else if err = ReasonSignalEquivalent \<or> HasPrefix err (ReasonSignalEquivalent @ '':'')
              \<or> HasPrefix err (ReasonSignalEquivalent @ '' '') \<or> signalEquivalentExitStatus err
           then ReasonSignalEquivalent
      else if err = ReasonStartLimit then ReasonStartLimit
      else if err = ReasonConfiguration \<or> HasPrefix err (ReasonConfiguration @ '':'')
              \<or> HasPrefix err (ReasonConfiguration @ '' '')
           then ReasonConfiguration
      else [])"

fun ShouldRestart :: "RestartPolicy \<Rightarrow> ExitKind \<Rightarrow> bool" where
  "ShouldRestart RestartAlways kind = True"
| "ShouldRestart RestartOnFailure kind = (kind \<noteq> ExitSuccess)"
| "ShouldRestart RestartOnWatchdog kind = (kind = ExitWatchdog)"
| "ShouldRestart RestartNo kind = False"

lemma prefix_exit_status:
  "TrimSpace (drop (length ''exit status '') (''exit status '' @ Itoa n)) = Itoa n"
proof -
  have "\<forall>c \<in> set (Itoa n). visible c" using digits_no_colon [OF digits_val_Itoa] by auto
  then have "TrimSpace (Itoa n) = Itoa n" by (intro TrimSpace_visible) simp
  then show ?thesis by simp
qed

text \<open>
  An \<open>exit status n\<close> message is reported as a signal-equivalent failure exactly when \<open>n\<close> is a
  32-bit exit code in the NTSTATUS error range (from 0xC0000000); a larger number is not an exit
  code and has no reason.
\<close>

theorem StatusReason_exit_status:
  "StatusReason (''exit status '' @ Itoa n) =
     (if 0xC0000000 \<le> n \<and> n < 2 ^ 32 then ReasonSignalEquivalent else [])"
proof -
  let ?e = "''exit status '' @ Itoa n"
  have p: "HasPrefix ?e ''exit status ''" by (simp add: HasPrefix_def)
  have se: "signalEquivalentExitStatus ?e \<longleftrightarrow> 0xC0000000 \<le> n \<and> n < 2 ^ 32"
  proof (cases "n < 2 ^ 32")
    case True
    then have "ParseUint 32 (Itoa n) = Some n" by (rule ParseUint_Itoa)
    moreover have "unat (word_of_nat n :: 32 word) = n"
      using True by (simp add: unat_of_nat)
    ultimately show ?thesis
      using p True prefix_exit_status [of n]
      by (simp add: signalEquivalentExitStatus_def Let_def word_le_nat_alt)
  next
    case False
    then have "ParseUint 32 (Itoa n) = None"
      by (simp add: ParseUint_def digits_val_Itoa)
    then show ?thesis
      using p False prefix_exit_status [of n] by (simp add: signalEquivalentExitStatus_def Let_def)
  qed
  show ?thesis
    unfolding StatusReason_def se
    by (simp add: ReasonResourceLimit_def ReasonSignalEquivalent_def ReasonStartLimit_def
        ReasonConfiguration_def HasPrefix_def)
qed

end
