(* ===== verification/Start_Limit.thy ===== *)
theory Start_Limit
  imports Lifecycle
begin

text \<open>
  Start rate limiting (\<open>internal/core/startlimit.go\<close>) and the restart delay of
  \<open>internal/manager/restart_backoff.go\<close>.  Instants and durations are integers counting nanoseconds.
  \<open>RecordStart\<close> compacts its argument in place; the model returns the resulting slice.
\<close>

section \<open>The window of recent starts\<close>

definition StartLimitDisabled :: "int \<Rightarrow> int \<Rightarrow> bool" where
  "StartLimitDisabled interval burst \<longleftrightarrow> burst \<le> 0 \<or> interval \<le> 0"

fun count_from :: "int list \<Rightarrow> int \<Rightarrow> int" where
  "count_from [] cutoff = 0"
| "count_from (t # ts) cutoff = (if \<not> t < cutoff then count_from ts cutoff + 1 else count_from ts cutoff)"

definition countStartsInWindow :: "int list \<Rightarrow> int \<Rightarrow> int \<Rightarrow> int" where
  "countStartsInWindow starts now interval = count_from starts (now - interval)"

definition StartLimitHit :: "int list \<Rightarrow> int \<Rightarrow> int \<Rightarrow> int \<Rightarrow> bool" where
  "StartLimitHit starts now interval burst =
     (if StartLimitDisabled interval burst then False
      else countStartsInWindow starts now interval \<ge> burst)"

definition RecordStart :: "int list \<Rightarrow> int \<Rightarrow> int \<Rightarrow> int \<Rightarrow> int list" where
  "RecordStart starts now interval burst =
     (if StartLimitDisabled interval burst then []
      else filter (\<lambda>t. \<not> t < now - interval) starts @ [now])"

definition StartsInWindow :: "int list \<Rightarrow> int \<Rightarrow> int \<Rightarrow> int" where
  "StartsInWindow starts now interval =
     (if interval \<le> 0 then 0 else countStartsInWindow starts now interval)"

lemma count_from_eq: "count_from ts c = int (length (filter (\<lambda>t. c \<le> t) ts))"
  by (induction ts) auto

lemma count_from_append [simp]: "count_from (xs @ ys) c = count_from xs c + count_from ys c"
  by (simp add: count_from_eq)

lemma count_from_filter:
  "c \<le> c' \<Longrightarrow> count_from (filter (\<lambda>t. \<not> t < c) ts) c' = count_from ts c'"
  by (induction ts) auto

section \<open>Pruning does not change a decision\<close>

definition record_all :: "int \<Rightarrow> int \<Rightarrow> int list \<Rightarrow> int list \<Rightarrow> int list" where
  "record_all interval burst ts starts = fold (\<lambda>t s. RecordStart s t interval burst) ts starts"

lemma record_all_count:
  assumes "\<not> StartLimitDisabled interval burst" and "sorted (ts @ [now])"
  shows "count_from (record_all interval burst ts starts) (now - interval)
         = count_from (starts @ ts) (now - interval)"
  using assms(2)
proof (induction ts arbitrary: starts)
  case Nil
  then show ?case by (simp add: record_all_def)
next
  case (Cons t ts)
  then have "t \<le> now" by (simp add: sorted_append)
  then have "count_from (filter (\<lambda>x. \<not> x < t - interval) starts) (now - interval) = count_from starts (now - interval)"
    by (intro count_from_filter) simp
  with Cons assms(1) show ?case
    by (simp add: record_all_def RecordStart_def)
qed

text \<open>
  C36: dropping old timestamps never changes a later decision.  After recording any sequence of
  starts in time order, \<open>StartLimitHit\<close> on the pruned list gives the same answer as counting the
  complete history.
\<close>

theorem StartLimitHit_pruned_equiv:
  assumes "sorted (ts @ [now])"
  shows "StartLimitHit (record_all interval burst ts []) now interval burst =
         (0 < interval \<and> 0 < burst
          \<and> burst \<le> int (length (filter (\<lambda>t. now - interval \<le> t) ts)))"
proof (cases "StartLimitDisabled interval burst")
  case True
  then show ?thesis by (auto simp: StartLimitHit_def StartLimitDisabled_def)
next
  case False
  then show ?thesis
    using record_all_count [OF False assms, of "[]"]
    by (auto simp: StartLimitHit_def countStartsInWindow_def count_from_eq StartLimitDisabled_def)
qed

theorem StartLimitHit_pruned_equiv_witness:
  "StartLimitHit (record_all 10 2 [0, 5, 20, 21] []) 25 10 2"
  using StartLimitHit_pruned_equiv [of "[0, 5, 20, 21]" 25 10 2] by simp

section \<open>The rate bound\<close>

text \<open>
  If every start finds fewer than \<open>b\<close> earlier ones in its own window, no window holds more than \<open>b\<close>.
\<close>

definition window :: "int \<Rightarrow> int \<Rightarrow> int list \<Rightarrow> int list" where
  "window interval now ts = filter (\<lambda>t. now - interval \<le> t \<and> t \<le> now) ts"

lemma window_bound:
  assumes srt: "sorted xs"
    and guard: "\<And>as x bs. xs = as @ x # bs \<Longrightarrow> count_from as (x - i) < b"
    and "0 < b"
  shows "int (length (window i now xs)) \<le> b"
proof (cases "window i now xs = []")
  case True
  then show ?thesis using assms(3) by simp
next
  case False
  let ?P = "\<lambda>t. now - i \<le> t \<and> t \<le> now"
  obtain as x bs where xs: "xs = as @ x # bs" "?P x" "\<forall>y \<in> set bs. \<not> ?P y"
    using False split_list_last_prop [of xs ?P] by (auto simp: window_def filter_empty_conv)
  have sub: "filter ?P as = filter (\<lambda>t. ?P t \<and> x - i \<le> t) as"
    using xs(2) by (intro filter_cong) auto
  have "length (filter (\<lambda>t. ?P t \<and> x - i \<le> t) as) \<le> length (filter (\<lambda>t. x - i \<le> t) as)"
    by (induction as) auto
  then have "int (length (filter ?P as)) \<le> count_from as (x - i)"
    by (simp add: sub count_from_eq)
  moreover have "count_from as (x - i) < b" using guard xs(1) .
  moreover have "window i now xs = filter ?P as @ [x]"
    using xs by (simp add: window_def filter_empty_conv)
  ultimately show ?thesis by simp
qed

section \<open>Restart delay\<close>

text \<open>\<open>base *= 2\<close> is written with its wrap-around at 64 bits.\<close>

fun capped_delay_loop :: "int \<Rightarrow> int \<Rightarrow> nat \<Rightarrow> int" where
  "capped_delay_loop base cap 0 = min base cap"
| "capped_delay_loop base cap (Suc attempt) =
     (if base < cap then
        (if base > cap div 2 then cap
         else capped_delay_loop (i64 (base * 2)) cap attempt)
      else min base cap)"

definition cappedRestartDelay :: "int \<Rightarrow> int \<Rightarrow> 32 word \<Rightarrow> int" where
  "cappedRestartDelay base cap attempt =
     (if base \<le> 0 \<or> cap \<le> 0 then base else capped_delay_loop base cap (unat attempt))"

lemma capped_delay_loop_eq:
  assumes "0 < base" "0 < cap" "cap \<le> maxInt64"
  shows "capped_delay_loop base cap n = min cap (base * 2 ^ n)"
  using assms(1)
proof (induction n arbitrary: base)
  case 0
  then show ?case by (simp add: min.commute)
next
  case (Suc n)
  have big: "base * 2 ^ Suc n \<ge> base * 2"
    using Suc.prems by (simp add: mult_le_cancel_left)
  show ?case
  proof (cases "base < cap \<and> base \<le> cap div 2")
    case True
    then have "base * 2 \<le> cap" by linarith
    then have "i64 (base * 2) = base * 2"
      using Suc.prems assms(3) by (intro i64_id) (auto simp: maxInt64_def)
    then show ?thesis
      using True Suc.IH [of "base * 2"] Suc.prems by (simp add: mult.assoc)
  next
    case False
    then have "cap \<le> base * 2" using Suc.prems by linarith
    with big have "min cap (base * 2 ^ Suc n) = cap" by simp
    with False show ?thesis by (auto simp: min_def)
  qed
qed

text \<open>
  the exponential restart delay is exactly \<open>min(cap, base * 2^attempt)\<close> for every attempt
  number, computed without overflow of the 64-bit duration, and it never exceeds the cap.
\<close>

theorem cappedRestartDelay_exact:
  assumes "0 < base" and "0 < cap" and "cap \<le> maxInt64"
  shows "cappedRestartDelay base cap attempt = min cap (base * 2 ^ unat attempt)
       \<and> cappedRestartDelay base cap attempt \<le> cap"
  using assms by (simp add: cappedRestartDelay_def capped_delay_loop_eq)

theorem cappedRestartDelay_exact_witness:
  "cappedRestartDelay 100 maxInt64 64 = min maxInt64 (100 * 2 ^ unat (64 :: 32 word))
       \<and> cappedRestartDelay 100 maxInt64 64 \<le> maxInt64"
  by (rule cappedRestartDelay_exact) (simp_all add: maxInt64_def)

end
