(* ===== verification/Walk.thy ===== *)
theory Walk
  imports Prelude
begin

text \<open>
  Depth-first walks over a finite set of nodes, as an interface.  The planner has three of them: the
  jobs pulled in by a start (\<open>plan\<close>'s \<open>add\<close>), the units that must stop with a unit
  (\<open>reverseRequirementClosure\<close>) and the units ordered after a root (\<open>afterClosure\<close>).  The locale fixes
  a walk by its recursion equations; its lemmas say what a walk computes, whatever the order in
  which it visits the nodes.
\<close>

text \<open>
  An item is what the walk is called with; its key is the node it names.  \<open>item_reach\<close> are the items
  a walk from \<open>as\<close> can be called with.
\<close>

inductive item_reach :: "('k \<Rightarrow> 'a list) \<Rightarrow> ('a \<Rightarrow> 'k) \<Rightarrow> 'k set \<Rightarrow> 'a set \<Rightarrow> 'a \<Rightarrow> bool"
  for nexts key V A where
  start: "a \<in> A \<Longrightarrow> item_reach nexts key V A a"
| follow: "item_reach nexts key V A a \<Longrightarrow> key a \<in> V \<Longrightarrow> b \<in> set (nexts (key a)) \<Longrightarrow> item_reach nexts key V A b"

lemma item_reach_mono: "item_reach nexts key V A b \<Longrightarrow> A \<subseteq> B \<Longrightarrow> item_reach nexts key V B b"
  by (induction rule: item_reach.induct) (auto intro: item_reach.intros)

lemma item_reach_nexts:
  assumes "item_reach nexts key V (set (nexts (key a))) b" "a \<in> A" "key a \<in> V"
  shows "item_reach nexts key V A b"
  using assms(1)
proof (induction rule: item_reach.induct)
  case (start c)
  then show ?case using assms(2,3) item_reach.follow [OF item_reach.start] by metis
qed (auto intro: item_reach.follow)

locale dfs_walk =
  fixes walks :: "'a list \<Rightarrow> 's \<Rightarrow> 'e + 's"
    and keys :: "'s \<Rightarrow> 'k list"
    and ins :: "'k \<Rightarrow> 's \<Rightarrow> 's"
    and key :: "'a \<Rightarrow> 'k"
    and V :: "'k set"
    and nexts :: "'k \<Rightarrow> 'a list"
    and fails :: "'a \<Rightarrow> 'e option"
  assumes finite_V: "finite V"
    and keys_ins: "keys (ins k s) = keys s @ [k]"
    and walks_Nil: "walks [] s = Inr s"
    and walks_seen: "key a \<in> V \<Longrightarrow> key a \<in> set (keys s) \<Longrightarrow> walks (a # as) s = walks as s"
    and walks_out: "key a \<notin> V \<Longrightarrow> key a \<notin> set (keys s) \<Longrightarrow>
          walks (a # as) s = (case fails a of Some e \<Rightarrow> Inl e | None \<Rightarrow> walks as s)"
    and walks_new: "key a \<in> V \<Longrightarrow> key a \<notin> set (keys s) \<Longrightarrow>
          walks (a # as) s = (case walks (nexts (key a)) (ins (key a) s) of Inl e \<Rightarrow> Inl e | Inr s' \<Rightarrow> walks as s')"
begin

definition reached :: "'a set \<Rightarrow> 'k set" where
  "reached A = key ` Collect (item_reach nexts key V A) \<inter> V"

definition settled :: "'s \<Rightarrow> 'a \<Rightarrow> bool" where
  "settled s a \<longleftrightarrow> key a \<in> set (keys s) \<or> (key a \<notin> V \<and> fails a = None)"

text \<open>What one call of the walk guarantees, on success and on error.\<close>

definition walked :: "'a list \<Rightarrow> 's \<Rightarrow> 'e + 's \<Rightarrow> bool" where
  "walked as s r = (case r of
      Inr s' \<Rightarrow> set (keys s) \<subseteq> set (keys s') \<and> set (keys s') \<subseteq> set (keys s) \<union> reached (set as)
        \<and> distinct (keys s') \<and> (\<forall>a \<in> set as. settled s' a)
        \<and> (\<forall>k \<in> set (keys s') - set (keys s). \<forall>b \<in> set (nexts k). settled s' b)
    | Inl e \<Rightarrow> (\<exists>b. item_reach nexts key V (set as) b \<and> key b \<notin> V \<and> fails b = Some e))"

lemma reached_mono: "A \<subseteq> B \<Longrightarrow> reached A \<subseteq> reached B"
  by (auto simp: reached_def intro: item_reach_mono)

lemma reached_nexts: "a \<in> A \<Longrightarrow> key a \<in> V \<Longrightarrow> reached (set (nexts (key a))) \<subseteq> reached A"
  by (auto simp: reached_def intro: item_reach_nexts)

lemma reached_start: "a \<in> A \<Longrightarrow> key a \<in> V \<Longrightarrow> key a \<in> reached A"
  by (auto simp: reached_def intro: item_reach.start)

lemma settled_mono: "settled s a \<Longrightarrow> set (keys s) \<subseteq> set (keys s') \<Longrightarrow> settled s' a"
  by (auto simp: settled_def)

lemma walked_skip:
  assumes "walked as s r" "settled s a"
  shows "walked (a # as) s r"
proof (cases r)
  case (Inl e)
  then show ?thesis using assms(1) by (auto simp: walked_def intro: item_reach_mono)
next
  case (Inr s')
  moreover have "reached (set as) \<subseteq> reached (set (a # as))" by (rule reached_mono) auto
  ultimately show ?thesis using assms settled_mono [OF assms(2), of s'] by (auto simp: walked_def)
qed

lemma walked_call:
  assumes a: "key a \<in> V" "key a \<notin> set (keys s)"
    and first: "walked (nexts (key a)) (ins (key a) s) (Inr s1)"
    and second: "walked as s1 r"
  shows "walked (a # as) s r"
proof (cases r)
  case (Inl e)
  then show ?thesis using second by (auto simp: walked_def intro: item_reach_mono)
next
  case (Inr s')
  have sub: "set (keys s) \<union> {key a} \<subseteq> set (keys s1)" "set (keys s1) \<subseteq> set (keys s')"
    using first second by (auto simp: walked_def Inr keys_ins)
  have up: "set (keys s1) \<subseteq> set (keys s) \<union> {key a} \<union> reached (set (nexts (key a)))"
    "set (keys s') \<subseteq> set (keys s1) \<union> reached (set as)"
    using first second by (auto simp: walked_def Inr keys_ins)
  have "reached (set (nexts (key a))) \<union> reached (set as) \<union> {key a} \<subseteq> reached (set (a # as))"
    using reached_nexts [of a "set (a # as)"] reached_mono [of "set as" "set (a # as)"]
      reached_start [of a "set (a # as)"] a by auto
  then have ub: "set (keys s') \<subseteq> set (keys s) \<union> reached (set (a # as))" using up by blast
  have cl: "settled s' b" if "k \<in> set (keys s') - set (keys s)" "b \<in> set (nexts k)" for k b
  proof (cases "k \<in> set (keys s1)")
    case True
    then have "settled s1 b" using that first by (cases "k = key a") (auto simp: walked_def keys_ins)
    then show ?thesis using sub(2) by (rule settled_mono)
  next
    case False
    then show ?thesis using that second by (auto simp: walked_def Inr)
  qed
  have "settled s' a" using sub by (auto simp: settled_def)
  then show ?thesis using sub ub cl second by (auto simp: walked_def Inr)
qed

lemma walks_spec:
  "set (keys s) \<subseteq> V \<Longrightarrow> distinct (keys s) \<Longrightarrow> walked as s (walks as s)"
proof (induction "(card (V - set (keys s)), length as)" arbitrary: as s
    rule: wf_induct_rule [OF wf_lex_prod [OF wf_less_than wf_less_than]])
  case 1
  have IH: "walked bs t (walks bs t)"
    if "card (V - set (keys t)) < card (V - set (keys s)) \<or>
        card (V - set (keys t)) \<le> card (V - set (keys s)) \<and> length bs < length as"
      "set (keys t) \<subseteq> V" "distinct (keys t)" for bs t
    using 1(1) [of t bs] that by (auto simp: le_less)
  show ?case
  proof (cases as)
    case Nil
    then show ?thesis using 1(3) by (simp add: walks_Nil walked_def)
  next
    case (Cons a bs)
    have rest: "walked bs t (walks bs t)"
      if "set (keys s) \<subseteq> set (keys t)" "set (keys t) \<subseteq> V" "distinct (keys t)" for t
      using that Cons finite_V by (intro IH) (auto intro!: card_mono)
    show ?thesis
    proof (cases "key a \<in> set (keys s) \<or> key a \<notin> V")
      case True
      have "key a \<in> V \<and> key a \<in> set (keys s) \<or> key a \<notin> V \<and> key a \<notin> set (keys s)" using True 1(2) by blast
      then have "settled s a \<Longrightarrow> walks as s = walks bs s"
        using Cons by (auto simp: settled_def walks_seen walks_out)
      then have "settled s a \<Longrightarrow> ?thesis"
        using walked_skip [OF rest [OF subset_refl 1(2,3)]] Cons by simp
      moreover have "\<not> settled s a \<Longrightarrow> ?thesis"
        using True Cons
        by (auto simp: settled_def walks_out walked_def intro!: exI [of _ a] item_reach.start)
      ultimately show ?thesis by blast
    next
      case False
      let ?t = "ins (key a) s"
      have "V - set (keys ?t) \<subset> V - set (keys s)" using False by (auto simp: keys_ins)
      then have "card (V - set (keys ?t)) < card (V - set (keys s))"
        using finite_V by (simp add: psubset_card_mono)
      then have first: "walked (nexts (key a)) ?t (walks (nexts (key a)) ?t)"
        using 1(2,3) False by (intro IH) (auto simp: keys_ins)
      show ?thesis
      proof (cases "walks (nexts (key a)) ?t")
        case (Inl e)
        then show ?thesis
          using first False Cons by (auto simp: walks_new walked_def intro!: item_reach_nexts)
      next
        case (Inr s1)
        have "set (keys s) \<subseteq> set (keys s1)" "set (keys s1) \<subseteq> V" "distinct (keys s1)"
          using first Inr 1(2) False by (auto simp: walked_def keys_ins reached_def)
        then have "walked bs s1 (walks bs s1)" by (rule rest)
        then show ?thesis
          using walked_call [of a s s1 bs] first False Inr Cons by (simp add: walks_new)
      qed
    qed
  qed
qed

text \<open>A walk from an empty state that succeeds has visited exactly the reachable nodes.\<close>

lemma walks_reached:
  assumes "keys s = []" "walks as s = Inr s'"
  shows "set (keys s') = reached (set as)" "distinct (keys s')"
    "item_reach nexts key V (set as) b \<Longrightarrow> settled s' b"
proof -
  have w: "walked as s (Inr s')" using walks_spec [of s as] assms by simp
  then show "distinct (keys s')" by (simp add: walked_def)
  have set: "settled s' b" if "item_reach nexts key V (set as) b" for b
    using that
  proof (induction rule: item_reach.induct)
    case (start a)
    then show ?case using w by (simp add: walked_def)
  next
    case (follow a b)
    then have "key a \<in> set (keys s')" by (auto simp: settled_def)
    then show ?case using follow.hyps(3) w assms(1) by (auto simp: walked_def)
  qed
  then show "item_reach nexts key V (set as) b \<Longrightarrow> settled s' b" .
  show "set (keys s') = reached (set as)"
    using w set assms(1) by (auto simp: walked_def reached_def settled_def)
qed

text \<open>It fails exactly when an item that must not be missing is missing.\<close>

lemma walks_error:
  assumes "keys s = []" "walks as s = Inl e"
  shows "\<exists>b. item_reach nexts key V (set as) b \<and> key b \<notin> V \<and> fails b = Some e"
  using walks_spec [of s as] assms by (simp add: walked_def)

lemma walks_ok_iff:
  assumes "keys s = []"
  shows "(\<exists>s'. walks as s = Inr s') \<longleftrightarrow>
     (\<forall>b. item_reach nexts key V (set as) b \<longrightarrow> key b \<in> V \<or> fails b = None)"
proof
  assume "\<exists>s'. walks as s = Inr s'"
  then obtain s' where s': "walks as s = Inr s'" by blast
  then have "set (keys s') \<subseteq> V" using walks_reached(1) [OF assms s'] by (auto simp: reached_def)
  then show "\<forall>b. item_reach nexts key V (set as) b \<longrightarrow> key b \<in> V \<or> fails b = None"
    using walks_reached(3) [OF assms s'] unfolding settled_def by (meson subsetD)
next
  assume h: "\<forall>b. item_reach nexts key V (set as) b \<longrightarrow> key b \<in> V \<or> fails b = None"
  show "\<exists>s'. walks as s = Inr s'"
    using walks_error [OF assms] h by (cases "walks as s") fastforce+
qed

end

end
