(* ===== verification/Dep_Graph.thy ===== *)
theory Dep_Graph
  imports Unit_Names
begin

text \<open>
  The static dependency graph: \<open>Graph\<close>, \<open>node\<close>, \<open>Build\<close> and the accessors of
  \<open>internal/core/graph.go\<close>.  The Go map from names to nodes is an association list with distinct
  keys; iterating over it visits the entries in list order, one of the orders Go may choose, and
  the results that depend on the order are characterised as sets.  A nil \<open>*Graph\<close> or \<open>*Unit\<close> is
  \<open>None\<close>.
\<close>

record node =
  nname :: name
  nunit :: Unit
  requires :: "name list"
  wants :: "name list"
  bindsTo :: "name list"
  partOf :: "name list"
  after :: "name list"
  before :: "name list"
  waitsFor :: "name list"

type_synonym nodes = "(name \<times> node) list"

record Graph =
  nodes :: nodes

definition gnode :: "Graph \<Rightarrow> name \<Rightarrow> node option" where
  "gnode g nm = map_of (nodes g) nm"

section \<open>Build\<close>

definition new_node :: "name \<Rightarrow> Unit \<Rightarrow> node" where
  "new_node nm u = \<lparr>nname = nm, nunit = u,
     requires = uniqueStable (Requires u), wants = uniqueStable (Wants u),
     bindsTo = uniqueStable (BindsTo u), partOf = uniqueStable (PartOf u),
     after = uniqueStable (After u), before = uniqueStable (Before u), waitsFor = []\<rparr>"

fun build_nodes :: "nat \<Rightarrow> Unit option list \<Rightarrow> nodes \<Rightarrow> nodes res" where
  "build_nodes i [] ns = Inr ns"
| "build_nodes i (None # us) ns = Inl (''unit '' @ Itoa i @ '' is nil'')"
| "build_nodes i (Some u # us) ns =
     (let nm = NormalizeName (Name u) in
      if nm = [] then Inl (''unit '' @ Itoa i @ '' has an empty name'')
      else if map_of ns nm \<noteq> None then Inl (''duplicate unit '' @ Quote nm)
      else build_nodes (Suc i) us (ns @ [(nm, new_node nm u)]))"

definition after_waits :: "nodes \<Rightarrow> nodes" where
  "after_waits ns =
     map (\<lambda>(k, n). (k, n\<lparr>waitsFor := uniqueStable (filter (\<lambda>dep. map_of ns dep \<noteq> None) (after n))\<rparr>)) ns"

definition add_wait :: "name \<Rightarrow> node \<Rightarrow> node" where
  "add_wait nm o1 =
     (if \<not> containsName (waitsFor o1) nm then o1\<lparr>waitsFor := waitsFor o1 @ [nm]\<rparr> else o1)"

definition before_waits_of :: "name \<Rightarrow> node \<Rightarrow> nodes \<Rightarrow> nodes" where
  "before_waits_of k n ns =
     fold (\<lambda>later ns. if map_of ns later = None then ns
                     else AList.map_entry later (add_wait (nname n)) ns) (before n) ns"

definition before_waits :: "nodes \<Rightarrow> nodes" where
  "before_waits ns = fold (\<lambda>(k, n) acc. before_waits_of k n acc) ns ns"

definition Build :: "Unit option list \<Rightarrow> Graph res" where
  "Build units =
     (case build_nodes 0 units [] of
        Inl e \<Rightarrow> Inl e
      | Inr ns \<Rightarrow> Inr \<lparr>nodes = before_waits (after_waits ns)\<rparr>)"

section \<open>Accessors\<close>

definition names_of :: "Graph \<Rightarrow> name list" where
  "names_of g = sort_strings (map fst (nodes g))"

definition Names :: "Graph option \<Rightarrow> name list" where
  "Names go = (case go of None \<Rightarrow> [] | Some g \<Rightarrow> names_of g)"

definition node_of :: "Graph option \<Rightarrow> name \<Rightarrow> node option" where
  "node_of go nm = (case go of None \<Rightarrow> None | Some g \<Rightarrow> gnode g (NormalizeName nm))"

definition Unit_of :: "Graph option \<Rightarrow> name \<Rightarrow> Unit option" where
  "Unit_of go nm = (case node_of go nm of None \<Rightarrow> None | Some n \<Rightarrow> Some (nunit n))"

definition names_field :: "(node \<Rightarrow> name list) \<Rightarrow> Graph option \<Rightarrow> name \<Rightarrow> name list" where
  "names_field f go nm = (case node_of go nm of None \<Rightarrow> [] | Some n \<Rightarrow> cloneNames (f n))"

definition Requires_of :: "Graph option \<Rightarrow> name \<Rightarrow> name list" where
  "Requires_of = names_field requires"

definition Wants_of :: "Graph option \<Rightarrow> name \<Rightarrow> name list" where
  "Wants_of = names_field wants"

definition BindsTo_of :: "Graph option \<Rightarrow> name \<Rightarrow> name list" where
  "BindsTo_of = names_field bindsTo"

definition PartOf_of :: "Graph option \<Rightarrow> name \<Rightarrow> name list" where
  "PartOf_of = names_field partOf"

definition After_of :: "Graph option \<Rightarrow> name \<Rightarrow> name list" where
  "After_of = names_field after"

definition WaitsFor_of :: "Graph option \<Rightarrow> name \<Rightarrow> name list" where
  "WaitsFor_of = names_field waitsFor"

definition startRequireNames :: "node option \<Rightarrow> name list" where
  "startRequireNames no =
     (case no of None \<Rightarrow> [] | Some n \<Rightarrow> uniqueStable (requires n @ bindsTo n))"

definition startRequiresName :: "node option \<Rightarrow> name \<Rightarrow> bool" where
  "startRequiresName no nm =
     (case no of None \<Rightarrow> False | Some n \<Rightarrow> containsName (requires n) nm \<or> containsName (bindsTo n) nm)"

definition stopRequiresName :: "node option \<Rightarrow> name \<Rightarrow> bool" where
  "stopRequiresName no nm =
     (case no of None \<Rightarrow> False
      | Some n \<Rightarrow> containsName (requires n) nm \<or> containsName (bindsTo n) nm \<or> containsName (partOf n) nm)"

definition stopDepNames :: "node option \<Rightarrow> name list" where
  "stopDepNames no =
     (case no of None \<Rightarrow> [] | Some n \<Rightarrow> uniqueStable (requires n @ bindsTo n @ partOf n))"

definition reverseRequirersOf :: "Graph \<Rightarrow> name \<Rightarrow> name list" where
  "reverseRequirersOf g nm0 =
     (let nm = NormalizeName nm0 in filter (\<lambda>other. stopRequiresName (gnode g other) nm) (names_of g))"

section \<open>Well-formed graphs\<close>

definition loaded :: "Graph \<Rightarrow> name set" where
  "loaded g = fst ` set (nodes g)"

definition wf_node :: "name \<Rightarrow> node \<Rightarrow> bool" where
  "wf_node k n \<longleftrightarrow> nname n = k \<and> canonical k \<and> k \<noteq> []
     \<and> canonical_names (requires n) \<and> canonical_names (wants n) \<and> canonical_names (bindsTo n)
     \<and> canonical_names (partOf n) \<and> canonical_names (after n) \<and> canonical_names (before n)
     \<and> canonical_names (waitsFor n)"

definition wf_nodes :: "nodes \<Rightarrow> bool" where
  "wf_nodes ns \<longleftrightarrow> distinct (map fst ns) \<and> (\<forall>(k, n) \<in> set ns. wf_node k n \<and> set (waitsFor n) \<subseteq> fst ` set ns)"

definition wf_graph :: "Graph \<Rightarrow> bool" where
  "wf_graph g \<longleftrightarrow> wf_nodes (nodes g)"

lemma finite_loaded [simp]: "finite (loaded g)"
  by (simp add: loaded_def)

lemma gnode_loaded: "gnode g nm \<noteq> None \<longleftrightarrow> nm \<in> loaded g"
  by (auto simp: gnode_def loaded_def map_of_eq_None_iff)

lemma gnode_None: "gnode g nm = None \<longleftrightarrow> nm \<notin> loaded g"
  using gnode_loaded by blast

lemma set_names_of [simp]: "set (names_of g) = loaded g"
  by (simp add: names_of_def loaded_def)

lemma gnode_in: "wf_graph g \<Longrightarrow> gnode g k = Some n \<longleftrightarrow> (k, n) \<in> set (nodes g)"
  by (simp add: gnode_def wf_graph_def wf_nodes_def)

lemma wf_graph_node:
  assumes "wf_graph g" "gnode g k = Some n"
  shows "wf_node k n" "set (waitsFor n) \<subseteq> loaded g"
proof -
  have "(k, n) \<in> set (nodes g)" using assms gnode_in by simp
  then show "wf_node k n" "set (waitsFor n) \<subseteq> loaded g"
    using assms(1) unfolding wf_graph_def wf_nodes_def loaded_def by fast+
qed

lemma loaded_canonical:
  assumes "wf_graph g" "k \<in> loaded g"
  shows "canonical k" "k \<noteq> []"
proof -
  obtain n where "gnode g k = Some n" using assms gnode_loaded by blast
  then show "canonical k" "k \<noteq> []" using wf_graph_node(1) [OF assms(1)] by (auto simp: wf_node_def)
qed

lemma distinct_names_of: "wf_graph g \<Longrightarrow> distinct (names_of g)"
  by (simp add: names_of_def wf_graph_def wf_nodes_def)

lemma stopRequiresName_iff:
  "stopRequiresName no nm \<longleftrightarrow> (\<exists>n. no = Some n \<and> nm \<in> set (requires n) \<union> set (bindsTo n) \<union> set (partOf n))"
  by (auto simp: stopRequiresName_def split: option.splits)

lemma startRequiresName_iff:
  "startRequiresName no nm \<longleftrightarrow> (\<exists>n. no = Some n \<and> nm \<in> set (requires n) \<union> set (bindsTo n))"
  by (auto simp: startRequiresName_def split: option.splits)

lemma set_startRequireNames:
  assumes "wf_node k n"
  shows "set (startRequireNames (Some n)) = set (requires n) \<union> set (bindsTo n)"
proof -
  have "set (uniqueStable (requires n @ bindsTo n)) = set (requires n @ bindsTo n)"
    by (rule set_uniqueStable_canonical) (use assms in \<open>auto simp: wf_node_def canonical_names_def\<close>)
  then show ?thesis by (simp add: startRequireNames_def del: set_uniqueStable)
qed

lemma set_stopDepNames:
  assumes "wf_node k n"
  shows "set (stopDepNames (Some n)) = set (requires n) \<union> set (bindsTo n) \<union> set (partOf n)"
proof -
  have "set (uniqueStable (requires n @ bindsTo n @ partOf n)) = set (requires n @ bindsTo n @ partOf n)"
    by (rule set_uniqueStable_canonical) (use assms in \<open>auto simp: wf_node_def canonical_names_def\<close>)
  then show ?thesis by (simp add: stopDepNames_def Un_assoc del: set_uniqueStable)
qed

section \<open>Build is correct\<close>

definition built :: "Unit option list \<Rightarrow> name list" where
  "built units = map (\<lambda>u. NormalizeName (Name (the u))) units"

text \<open>The list of nodes after the first loop, for units that pass the checks.\<close>

definition first_nodes :: "Unit option list \<Rightarrow> nodes" where
  "first_nodes units = map (\<lambda>u. (NormalizeName (Name (the u)), new_node (NormalizeName (Name (the u))) (the u))) units"

lemma set_built: "None \<notin> set us \<Longrightarrow> set (built us) = {NormalizeName (Name u) | u. Some u \<in> set us}"
proof (induction us)
  case (Cons a us)
  then show ?case by (cases a) (auto simp: built_def)
qed (simp add: built_def)

lemma fst_first_nodes [simp]: "map fst (first_nodes us) = built us"
  by (simp add: first_nodes_def built_def)

lemma build_nodes_Inr:
  "build_nodes i us ns = Inr ns' \<longleftrightarrow>
     None \<notin> set us \<and> [] \<notin> set (built us) \<and> distinct (built us)
     \<and> set (built us) \<inter> fst ` set ns = {} \<and> ns' = ns @ first_nodes us"
proof (induction i us ns rule: build_nodes.induct)
  case (3 i u us ns)
  let ?nm = "NormalizeName (Name u)"
  show ?case
  proof (cases "?nm = [] \<or> map_of ns ?nm \<noteq> None")
    case True
    then show ?thesis by (auto simp: Let_def built_def map_of_eq_None_iff dest: map_of_SomeD)
  next
    case False
    then have n: "?nm \<notin> fst ` set ns" by (auto simp: map_of_eq_None_iff)
    with False "3.IH" [OF refl] show ?thesis
      by (auto simp: Let_def built_def first_nodes_def)
  qed
qed (auto simp: built_def first_nodes_def)

text \<open>One edge of the third loop: \<open>later\<close> waits for \<open>nm\<close>.\<close>

definition add_edge :: "name \<times> name \<Rightarrow> nodes \<Rightarrow> nodes" where
  "add_edge e ns = AList.map_entry (fst e) (add_wait (snd e)) ns"

definition before_edges :: "nodes \<Rightarrow> (name \<times> name) list" where
  "before_edges ns = concat (map (\<lambda>(k, n). map (\<lambda>later. (later, nname n)) (before n)) ns)"

lemma map_entry_missing: "map_of ns k = None \<Longrightarrow> AList.map_entry k f ns = ns"
  by (induction ns) (auto split: if_splits)

lemma before_waits_of_edges:
  "before_waits_of k n ns = fold add_edge (map (\<lambda>later. (later, nname n)) (before n)) ns"
proof -
  have "(if map_of ns later = None then ns else AList.map_entry later (add_wait (nname n)) ns)
        = add_edge (later, nname n) ns" for later ns
    by (simp add: add_edge_def map_entry_missing)
  then show ?thesis by (simp add: before_waits_of_def fold_map o_def)
qed

lemma before_waits_edges_aux:
  "fold (\<lambda>(k, n) acc. before_waits_of k n acc) xs acc = fold add_edge (before_edges xs) acc"
  by (induction xs arbitrary: acc) (auto simp: before_edges_def before_waits_of_edges)

lemma before_waits_edges: "before_waits ns = fold add_edge (before_edges ns) ns"
  by (simp add: before_waits_def before_waits_edges_aux)

lemma keys_add_edge [simp]: "map fst (add_edge e ns) = map fst ns"
  by (induction ns) (auto simp: add_edge_def)

lemma keys_fold_add_edge [simp]: "map fst (fold add_edge es ns) = map fst ns"
  by (induction es arbitrary: ns) simp_all

text \<open>What an edge changes of a node, as a relation between the entry before and after.\<close>

definition node_ext :: "(name \<times> name) set \<Rightarrow> name \<Rightarrow> node \<Rightarrow> node \<Rightarrow> bool" where
  "node_ext E k n n' \<longleftrightarrow>
     n' = n\<lparr>waitsFor := waitsFor n'\<rparr>
     \<and> (distinct (waitsFor n) \<longrightarrow> distinct (waitsFor n'))
     \<and> set (waitsFor n') = set (waitsFor n) \<union> {x. (k, x) \<in> E}"

lemma map_of_add_edge:
  "map_of (add_edge (k, x) ns) k' =
     (if k' = k then map_option (add_wait x) (map_of ns k) else map_of ns k')"
  by (induction ns) (auto simp: add_edge_def)

lemma fold_add_edge:
  "map_of ns k = Some n \<Longrightarrow> \<exists>n'. map_of (fold add_edge es ns) k = Some n' \<and> node_ext (set es) k n n'"
proof (induction es arbitrary: ns n)
  case Nil
  then show ?case by (simp add: node_ext_def)
next
  case (Cons e es)
  obtain l x where e: "e = (l, x)" by fastforce
  let ?n1 = "if k = l then add_wait x n else n"
  have "map_of (add_edge e ns) k = Some ?n1" using Cons.prems by (auto simp: e map_of_add_edge)
  then obtain n' where n': "map_of (fold add_edge es (add_edge e ns)) k = Some n'" "node_ext (set es) k ?n1 n'"
    using Cons.IH by blast
  have "node_ext (set (e # es)) k n n'"
    using n'(2) by (auto simp: node_ext_def e add_wait_def split: if_splits)
  with n'(1) show ?case by auto
qed

lemma before_edges_in: "(l, x) \<in> set (before_edges ns) \<longleftrightarrow> (\<exists>k n. (k, n) \<in> set ns \<and> l \<in> set (before n) \<and> x = nname n)"
  by (auto simp: before_edges_def)

lemma Build_nodes:
  assumes "Build units = Inr g"
  shows "None \<notin> set units" "[] \<notin> set (built units)" "distinct (built units)"
    "nodes g = before_waits (after_waits (first_nodes units))"
proof -
  from assms obtain ns where ns: "build_nodes 0 units [] = Inr ns" "g = \<lparr>nodes = before_waits (after_waits ns)\<rparr>"
    by (auto simp: Build_def split: sum.splits)
  then show "None \<notin> set units" "[] \<notin> set (built units)" "distinct (built units)"
    "nodes g = before_waits (after_waits (first_nodes units))"
    by (auto simp: build_nodes_Inr)
qed

lemma Build_keys: "Build units = Inr g \<Longrightarrow> map fst (nodes g) = built units"
proof -
  assume "Build units = Inr g"
  then have "nodes g = before_waits (after_waits (first_nodes units))" by (rule Build_nodes)
  moreover have "map fst (after_waits ns) = map fst ns" for ns
    by (simp add: after_waits_def case_prod_beta o_def)
  ultimately show ?thesis by (simp add: before_waits_edges)
qed

lemma map_of_after_waits:
  "map_of (after_waits ns) k =
     map_option (\<lambda>n. n\<lparr>waitsFor := uniqueStable (filter (\<lambda>dep. map_of ns dep \<noteq> None) (after n))\<rparr>) (map_of ns k)"
proof -
  have "map_of (map (\<lambda>(k, n). (k, f n)) xs) k = map_option f (map_of xs k)" for f xs
    by (induction xs) auto
  then show ?thesis by (simp add: after_waits_def)
qed

lemma before_edges_after_waits: "before_edges (after_waits ns) = before_edges ns"
  by (induction ns) (auto simp: before_edges_def after_waits_def case_prod_beta o_def intro!: arg_cong [of _ _ concat])

lemma before_edges_first:
  assumes "None \<notin> set us"
  shows "(l, x) \<in> set (before_edges (after_waits (first_nodes us))) \<longleftrightarrow>
     (\<exists>v. x = NormalizeName (Name v) \<and> Some v \<in> set us \<and> l \<in> set (uniqueStable (Before v)))"
  unfolding before_edges_after_waits using assms
proof (induction us)
  case (Cons a us)
  then obtain u where "a = Some u" by (cases a) auto
  with Cons show ?case
    by (auto simp: before_edges_def first_nodes_def new_node_def simp del: set_uniqueStable)
qed (simp add: before_edges_def first_nodes_def)

text \<open>The node that \<open>Build\<close> stores for a unit of the list.\<close>

lemma Build_node:
  assumes b: "Build units = Inr g" and u: "Some u \<in> set units" and nm: "nm = NormalizeName (Name u)"
  shows "\<exists>n. gnode g nm = Some n \<and> n = (new_node nm u)\<lparr>waitsFor := waitsFor n\<rparr>
     \<and> distinct (waitsFor n)
     \<and> set (waitsFor n) = {d \<in> set (uniqueStable (After u)). d \<in> loaded g}
         \<union> {NormalizeName (Name v) | v. Some v \<in> set units \<and> nm \<in> set (uniqueStable (Before v))}"
proof -
  let ?f = "first_nodes units"
  have keys: "map fst ?f = map fst (nodes g)" using Build_keys [OF b] by simp
  have keyset: "fst ` set ?f = loaded g"
    using arg_cong [OF keys, of set] by (simp add: loaded_def del: fst_first_nodes)
  have "(nm, new_node nm u) \<in> set ?f"
    using u by (force simp: first_nodes_def nm)
  then have m: "map_of ?f nm = Some (new_node nm u)"
    using Build_nodes(3) [OF b] by simp
  let ?n1 = "(new_node nm u)\<lparr>waitsFor := uniqueStable (filter (\<lambda>dep. map_of ?f dep \<noteq> None) (uniqueStable (After u)))\<rparr>"
  have n1: "map_of (after_waits ?f) nm = Some ?n1"
    by (simp add: map_of_after_waits m new_node_def)
  obtain n where n: "gnode g nm = Some n" "node_ext (set (before_edges (after_waits ?f))) nm ?n1 n"
    using fold_add_edge [OF n1] Build_nodes(4) [OF b] by (auto simp: gnode_def before_waits_edges)
  have w1: "set (waitsFor ?n1) = {d \<in> set (uniqueStable (After u)). d \<in> loaded g}"
  proof -
    have "set (uniqueStable (filter (\<lambda>dep. map_of ?f dep \<noteq> None) (uniqueStable (After u))))
      = set (filter (\<lambda>dep. map_of ?f dep \<noteq> None) (uniqueStable (After u)))"
      by (rule set_uniqueStable_canonical) auto
    moreover have "map_of ?f d \<noteq> None \<longleftrightarrow> d \<in> loaded g" for d
      using keyset by (metis map_of_eq_None_iff)
    ultimately show ?thesis by (simp del: set_uniqueStable not_None_eq)
  qed
  have e: "{x. (nm, x) \<in> set (before_edges (after_waits ?f))}
     = {NormalizeName (Name v) | v. Some v \<in> set units \<and> nm \<in> set (uniqueStable (Before v))}"
    using before_edges_first [OF Build_nodes(1) [OF b]] by blast
  from n(2) have "n = ?n1\<lparr>waitsFor := waitsFor n\<rparr>" "distinct (waitsFor n)"
    "set (waitsFor n) = set (waitsFor ?n1) \<union> {x. (nm, x) \<in> set (before_edges (after_waits ?f))}"
    by (simp_all add: node_ext_def)
  with n(1) w1 e show ?thesis by (intro exI [of _ n]) simp
qed

lemma Build_loaded: "Build units = Inr g \<Longrightarrow> loaded g = {NormalizeName (Name u) | u. Some u \<in> set units}"
proof -
  assume b: "Build units = Inr g"
  have "loaded g = set (built units)"
    using arg_cong [OF Build_keys [OF b], of set] by (simp add: loaded_def)
  also have "\<dots> = {NormalizeName (Name u) | u. Some u \<in> set units}"
    using Build_nodes(1) [OF b] by (rule set_built)
  finally show ?thesis .
qed

lemma Build_wf: "Build units = Inr g \<Longrightarrow> wf_graph g"
proof -
  assume b: "Build units = Inr g"
  have d: "distinct (map fst (nodes g))" using Build_keys [OF b] Build_nodes(3) [OF b] by simp
  have "wf_node k n \<and> set (waitsFor n) \<subseteq> fst ` set (nodes g)" if kn: "(k, n) \<in> set (nodes g)" for k n
  proof -
    have "k \<in> loaded g" using kn by (force simp: loaded_def)
    then obtain u where u: "Some u \<in> set units" "k = NormalizeName (Name u)" using Build_loaded [OF b] by auto
    have g: "gnode g k = Some n" using kn d by (simp add: gnode_def)
    have n: "n = (new_node k u)\<lparr>waitsFor := waitsFor n\<rparr>" "distinct (waitsFor n)"
      "set (waitsFor n) = {d \<in> set (uniqueStable (After u)). d \<in> loaded g}
         \<union> {NormalizeName (Name v) | v. Some v \<in> set units \<and> k \<in> set (uniqueStable (Before v))}"
      using Build_node [OF b u] g by auto
    have sub: "set (waitsFor n) \<subseteq> loaded g"
      unfolding n(3) Build_loaded [OF b] by blast
    have ne: "x \<noteq> []" if "x \<in> loaded g" for x
      using that arg_cong [OF Build_keys [OF b], of set] Build_nodes(2) [OF b] by (auto simp: loaded_def)
    have can: "canonical x" if "x \<in> loaded g" for x
      using that Build_loaded [OF b] by auto
    have "canonical_names (waitsFor n)"
      using n(2) sub ne can by (auto simp: canonical_names_def)
    moreover have "canonical k" "k \<noteq> []" using can ne \<open>k \<in> loaded g\<close> by auto
    moreover have "nname n = k" "requires n = uniqueStable (Requires u)" "wants n = uniqueStable (Wants u)"
      "bindsTo n = uniqueStable (BindsTo u)" "partOf n = uniqueStable (PartOf u)"
      "after n = uniqueStable (After u)" "before n = uniqueStable (Before u)"
      by (subst n(1), simp add: new_node_def)+
    ultimately have "wf_node k n" by (simp add: wf_node_def)
    with sub show ?thesis by (simp add: loaded_def)
  qed
  with d show "wf_graph g" by (auto simp: wf_graph_def wf_nodes_def)
qed

text \<open>
  C34: \<open>Build\<close> succeeds exactly when no unit is nil, no name is blank and no two names are equal
  after normalisation.  Whenever it succeeds, the loaded names are the normalised unit names and the
  graph satisfies the representation invariant (distinct canonical keys, canonical duplicate-free
  dependency lists, ordering edges only to loaded units).
\<close>

theorem Build_ok_iff:
  "((\<exists>g. Build units = Inr g) \<longleftrightarrow> None \<notin> set units \<and> [] \<notin> set (built units) \<and> distinct (built units))
   \<and> (\<forall>g. Build units = Inr g \<longrightarrow> wf_graph g \<and> loaded g = {NormalizeName (Name u) | u. Some u \<in> set units})"
proof (intro conjI iffI allI impI)
  assume "\<exists>g. Build units = Inr g"
  then show "None \<notin> set units" "[] \<notin> set (built units)" "distinct (built units)" using Build_nodes by blast+
next
  assume "None \<notin> set units \<and> [] \<notin> set (built units) \<and> distinct (built units)"
  then have "build_nodes 0 units [] = Inr (first_nodes units)" by (simp add: build_nodes_Inr)
  then show "\<exists>g. Build units = Inr g" by (simp add: Build_def)
next
  fix g assume "Build units = Inr g"
  then show "wf_graph g" "loaded g = {NormalizeName (Name u) | u. Some u \<in> set units}" by (rule Build_wf, rule Build_loaded)
qed

text \<open>
  C35: the ordering edges are exactly the declared ones.  In a built graph a unit waits for a loaded
  unit if and only if it declares it in \<open>After=\<close> or is declared by it in \<open>Before=\<close>; the result does
  not depend on the order in which units are loaded or the map is iterated.
\<close>

theorem Build_waitsFor:
  assumes "Build units = Inr g" and "Some u \<in> set units" and "Some v \<in> set units"
  shows "NormalizeName (Name v) \<in> set (WaitsFor_of (Some g) (Name u)) \<longleftrightarrow>
           NormalizeName (Name v) \<in> set (uniqueStable (After u))
           \<or> NormalizeName (Name u) \<in> set (uniqueStable (Before v))"
proof -
  let ?u = "NormalizeName (Name u)" let ?v = "NormalizeName (Name v)"
  obtain n where n: "gnode g ?u = Some n"
    "set (waitsFor n) = {d \<in> set (uniqueStable (After u)). d \<in> loaded g}
         \<union> {NormalizeName (Name v) | v. Some v \<in> set units \<and> ?u \<in> set (uniqueStable (Before v))}"
    using Build_node [OF assms(1,2) refl] by blast
  have lv: "?v \<in> loaded g" using Build_loaded [OF assms(1)] assms(3) by auto
  have inj: "w = v" if "Some w \<in> set units" "NormalizeName (Name w) = ?v" for w
  proof -
    have "inj_on (\<lambda>u. NormalizeName (Name (the u))) (set units)"
      using Build_nodes(3) [OF assms(1)] by (simp add: built_def distinct_map)
    then show ?thesis using that assms(3) by (auto dest: inj_onD [of _ _ "Some w" "Some v"])
  qed
  have "set (WaitsFor_of (Some g) (Name u)) = set (waitsFor n)"
    by (simp add: WaitsFor_of_def names_field_def node_of_def cloneNames_def n(1))
  then have "?v \<in> set (WaitsFor_of (Some g) (Name u)) \<longleftrightarrow>
      ?v \<in> set (uniqueStable (After u)) \<or> (\<exists>w. ?v = NormalizeName (Name w) \<and> Some w \<in> set units \<and> ?u \<in> set (uniqueStable (Before w)))"
    using n(2) lv by (simp del: set_uniqueStable)
  moreover have "(\<exists>w. ?v = NormalizeName (Name w) \<and> Some w \<in> set units \<and> ?u \<in> set (uniqueStable (Before w)))
      \<longleftrightarrow> ?u \<in> set (uniqueStable (Before v))"
    using inj assms(3) by metis
  ultimately show ?thesis by simp
qed

definition sample_units :: "Unit option list" where
  "sample_units =
     [Some ((new_Unit 1 ''web.service'' ''C:/units/web.service'' KindService)\<lparr>After := [''DB.service'']\<rparr>),
      Some (new_Unit 1 ''db.service'' ''C:/units/db.service'' KindService)]"

theorem Build_ok_iff_witness:
  "wf_graph (projr (Build sample_units)) \<and> (\<exists>g. Build sample_units = Inr g)"
proof -
  have "\<not> isl (Build sample_units)" by code_simp
  then have "Build sample_units = Inr (projr (Build sample_units))" by (simp add: sum.collapse(2))
  with Build_ok_iff [of sample_units] show ?thesis by blast
qed

theorem Build_waitsFor_witness:
  "''db.service'' \<in> set (WaitsFor_of (Some (projr (Build sample_units))) ''web.service'')"
proof -
  have "isl (Build sample_units) = False" by code_simp
  then have b: "Build sample_units = Inr (projr (Build sample_units))" by (simp add: sum.collapse(2))
  have n: "NormalizeName ''db.service'' = ''db.service''"
    "''db.service'' \<in> set (uniqueStable [''DB.service''])" by code_simp+
  show ?thesis
    using Build_waitsFor [OF b, of "the (sample_units ! 0)" "the (sample_units ! 1)"] n
    by (simp add: sample_units_def new_Unit_def del: set_uniqueStable)
qed

end
