(* ===== verification/Cycle.thy ===== *)
theory Cycle
  imports Dep_Graph
begin

text \<open>
  Ordering cycles: \<open>CycleError\<close>, \<open>findCycle\<close>, \<open>reconstructCycle\<close> and \<open>OrderingCycle\<close> of
  \<open>internal/core/graph.go\<close>.  The search is the three-colour depth-first search of the code; its
  recursion decreases the number of white names.  The theorems say that a reported path is a closed
  walk along the ordering edges and that no report means that the edges are acyclic.
\<close>

record CycleError =
  Path :: "name list"

definition CycleError_Error :: "CycleError option \<Rightarrow> string" where
  "CycleError_Error eo = (case eo of None \<Rightarrow> ''ordering cycle''
     | Some e \<Rightarrow> if length (Path e) < 2 then ''ordering cycle''
        else concat (map (\<lambda>(i, nm). (if 0 < i then '' After '' else []) @ nm) (enumerate 0 (Path e))))"

fun detail_lines :: "name list \<Rightarrow> string list" where
  "detail_lines (a # b # rest) = (a @ ''\<newline>  After='' @ b @ ''\<newline>'') # detail_lines (b # rest)"
| "detail_lines _ = []"

definition Detail :: "CycleError option \<Rightarrow> string" where
  "Detail eo = (case eo of None \<Rightarrow> []
     | Some e \<Rightarrow> if length (Path e) < 2 then []
        else TrimSuffix (concat (map (\<lambda>(i, l). (if 0 < i then ''\<newline>'' else []) @ l)
               (enumerate 0 (detail_lines (Path e))))) ''\<newline>'')"

section \<open>The search\<close>

datatype Color = white | gray | black

type_synonym waits = "name \<Rightarrow> name list"
type_synonym parents = "(name \<times> name) list"
type_synonym marks = "(name \<Rightarrow> Color) \<times> parents"

definition parent_of :: "parents \<Rightarrow> name \<Rightarrow> name" where
  "parent_of parent x = (case map_of parent x of None \<Rightarrow> [] | Some y \<Rightarrow> y)"

function climb :: "parents \<Rightarrow> name \<Rightarrow> name \<Rightarrow> name \<Rightarrow> name list \<Rightarrow> name list" where
  "climb parent u v x stack =
     (if x = v then [v] @ rev stack @ [v]
      else if x = [] then [v, u, v]
      else let stack = stack @ [x] in
           if length parent + 1 < length stack then [v, u, v]
           else climb parent u v (parent_of parent x) stack)"
  by pat_completeness auto

termination
  by (relation "measure (\<lambda>(parent, u, v, x, stack). length parent + 2 - length stack)") auto

declare climb.simps [simp del]

definition reconstructCycle :: "parents \<Rightarrow> name \<Rightarrow> name \<Rightarrow> name list" where
  "reconstructCycle parent u v = (if u = v then [v, v] else climb parent u v u [])"

text \<open>
  \<open>dfs_succ u vs\<close> is the loop of \<open>dfs(u)\<close> over the remaining successors \<open>vs\<close>.  The result is the
  cycle found or the marks left behind.
\<close>

function dfs_succ :: "name list \<Rightarrow> waits \<Rightarrow> name \<Rightarrow> name list \<Rightarrow> marks \<Rightarrow> CycleError + marks" where
  "dfs_succ inGraph w u [] (color, parent) = Inr (color(u := black), parent)"
| "dfs_succ inGraph w u (v # vs) (color, parent) =
     (if v \<notin> set inGraph then dfs_succ inGraph w u vs (color, parent)
      else case color v of
        gray \<Rightarrow> Inl \<lparr>Path = reconstructCycle parent u v\<rparr>
      | white \<Rightarrow>
          (case dfs_succ inGraph w v (sort_strings (cloneNames (w v))) (color(v := gray), AList.update v u parent) of
             Inl c \<Rightarrow> Inl c
           | Inr m \<Rightarrow> dfs_succ inGraph w u vs m)
      | black \<Rightarrow> dfs_succ inGraph w u vs (color, parent))"
  by pat_completeness auto

definition whites :: "name list \<Rightarrow> (name \<Rightarrow> Color) \<Rightarrow> name set" where
  "whites ns color = {n \<in> set ns. color n = white}"

lemma finite_whites [simp]: "finite (whites ns c)"
  by (simp add: whites_def)

lemma dfs_succ_whites:
  "dfs_succ_dom (ns, w, u, vs, m) \<Longrightarrow> dfs_succ ns w u vs m = Inr m' \<Longrightarrow> whites ns (fst m') \<subseteq> whites ns (fst m)"
proof (induction ns w u vs m arbitrary: m' rule: dfs_succ.pinduct)
  case (1 inGraph w u color parent)
  then show ?case by (auto simp: dfs_succ.psimps whites_def split: if_splits)
next
  case (2 inGraph w u v vs color parent)
  show ?case
  proof (cases "v \<in> set inGraph \<and> color v = white")
    case False
    then show ?thesis
      using "2.prems" "2.IH"(1,4) by (cases m'; cases "v \<in> set inGraph") (auto simp: dfs_succ.psimps(2) [OF "2.hyps"] split: Color.splits if_splits)
  next
    case True
    let ?m = "(color(v := gray), AList.update v u parent)"
    from True "2.prems" obtain m1 where m1:
      "dfs_succ inGraph w v (sort_strings (cloneNames (w v))) ?m = Inr m1" "dfs_succ inGraph w u vs m1 = Inr m'"
      by (auto simp: dfs_succ.psimps(2) [OF "2.hyps"] split: sum.splits)
    have "whites inGraph (fst m1) \<subseteq> whites inGraph (fst ?m)" using "2.IH"(2) [of m1] True m1(1) by metis
    moreover have "whites inGraph (fst m') \<subseteq> whites inGraph (fst m1)" using "2.IH"(3) True m1 by simp
    moreover have "whites inGraph (fst ?m) \<subseteq> whites inGraph color" by (auto simp: whites_def)
    ultimately show ?thesis by auto
  qed
qed

termination dfs_succ
proof (relation "inv_image (less_than <*lex*> less_than)
    (\<lambda>(ns, w, u, vs, m). (card (whites ns (fst m)), length vs))", goal_cases)
  case (3 ns w u v vs color parent)
  then have "whites ns (color(v := gray)) \<subset> whites ns color" by (auto simp: whites_def)
  then show ?case by (simp add: psubset_card_mono)
next
  case (4 ns w u v vs color parent m)
  then have "whites ns (fst m) \<subseteq> whites ns (color(v := gray))" using dfs_succ_whites by fastforce
  also have "\<dots> \<subseteq> whites ns color" by (auto simp: whites_def)
  finally have "card (whites ns (fst m)) \<le> card (whites ns color)" by (simp add: card_mono)
  then show ?case by auto
qed auto

definition dfs :: "name list \<Rightarrow> waits \<Rightarrow> name \<Rightarrow> marks \<Rightarrow> CycleError + marks" where
  "dfs inGraph w u m = (case m of (color, parent) \<Rightarrow>
     dfs_succ inGraph w u (sort_strings (cloneNames (w u))) (color(u := gray), parent))"

fun dfs_roots :: "name list \<Rightarrow> waits \<Rightarrow> name list \<Rightarrow> marks \<Rightarrow> CycleError option" where
  "dfs_roots inGraph w [] m = None"
| "dfs_roots inGraph w (n # ns) m =
     (if fst m n = white
      then (case dfs inGraph w n m of Inl c \<Rightarrow> Some c | Inr m' \<Rightarrow> dfs_roots inGraph w ns m')
      else dfs_roots inGraph w ns m)"

definition findCycle :: "name list \<Rightarrow> waits \<Rightarrow> CycleError option" where
  "findCycle names w =
     (if names = [] then None
      else let sorted = sort_strings (cloneNames names) in dfs_roots sorted w sorted (\<lambda>_. white, []))"

definition graph_waits :: "Graph \<Rightarrow> waits" where
  "graph_waits g nm = (case gnode g nm of None \<Rightarrow> [] | Some n \<Rightarrow> waitsFor n)"

definition OrderingCycle :: "Graph option \<Rightarrow> CycleError option" where
  "OrderingCycle go = (case go of None \<Rightarrow> None | Some g \<Rightarrow> findCycle (names_of g) (graph_waits g))"

section \<open>A reported path is a closed walk\<close>

definition closed_walk :: "name set \<Rightarrow> waits \<Rightarrow> name list \<Rightarrow> bool" where
  "closed_walk V w path \<longleftrightarrow> 2 \<le> length path \<and> hd path = last path \<and> set path \<subseteq> V
     \<and> distinct (tl path) \<and> successively (\<lambda>a b. b \<in> set (w a)) path"

text \<open>The chain of gray names, from the name being expanded up to the root.\<close>

fun linked :: "parents \<Rightarrow> waits \<Rightarrow> name list \<Rightarrow> bool" where
  "linked p w (x # y # r) \<longleftrightarrow> map_of p x = Some y \<and> x \<in> set (w y) \<and> linked p w (y # r)"
| "linked p w _ \<longleftrightarrow> True"

lemma linked_tl: "linked p w (x # r) \<Longrightarrow> linked p w r"
  by (cases r) auto

lemma linked_cong:
  "linked p w ch \<Longrightarrow> (\<And>x. x \<in> set ch \<Longrightarrow> map_of p' x = map_of p x) \<Longrightarrow> linked p' w ch"
  by (induction p w ch rule: linked.induct) auto

lemma linked_prefix_keys: "linked p w (pre @ v # rest) \<Longrightarrow> set pre \<subseteq> fst ` set p"
proof (induction pre)
  case (Cons x pre)
  have "\<exists>y. map_of p x = Some y" using Cons.prems by (cases pre) auto
  then have "x \<in> fst ` set p" by (metis map_of_eq_None_iff option.distinct(1))
  moreover have "linked p w (pre @ v # rest)" using Cons.prems linked_tl by force
  ultimately show ?case using Cons.IH by simp
qed simp

lemma climb_linked:
  "linked p w (pre @ v # rest) \<Longrightarrow> v \<notin> set pre \<Longrightarrow> [] \<notin> set pre \<Longrightarrow>
   length stack + length pre \<le> length p \<Longrightarrow>
   climb p u v (hd (pre @ [v])) stack = [v] @ rev (stack @ pre) @ [v]"
proof (induction pre arbitrary: stack)
  case Nil
  then show ?case by (simp add: climb.simps)
next
  case (Cons x pre)
  have "map_of p x = Some (hd (pre @ [v]))" using Cons.prems(1) by (cases pre) auto
  then have "parent_of p x = hd (pre @ [v])" by (simp add: parent_of_def)
  moreover have "linked p w (pre @ v # rest)" using Cons.prems(1) linked_tl by force
  ultimately show ?case
    using Cons.prems Cons.IH [of "stack @ [x]"] by (subst climb.simps) (auto simp: Let_def)
qed

lemma linked_successively:
  "linked p w ch \<Longrightarrow> successively (\<lambda>a b. b \<in> set (w a)) (rev ch)"
proof -
  have "linked p w ch \<Longrightarrow> successively (\<lambda>a b. a \<in> set (w b)) ch"
    by (induction p w ch rule: linked.induct) (auto simp: successively_Cons)
  then show "linked p w ch \<Longrightarrow> ?thesis" by simp
qed

lemma linked_prefix: "linked p w (pre @ v # rest) \<Longrightarrow> linked p w (pre @ [v])"
proof (induction pre)
  case (Cons x pre)
  then show ?case by (cases pre) auto
qed simp

lemma reconstructCycle_closed:
  assumes l: "linked p w (u # ch)" and d: "distinct (u # ch)" and v: "v \<in> set (u # ch)" "v \<in> set (w u)"
    and V: "set (u # ch) \<subseteq> V" "[] \<notin> V"
  shows "closed_walk V w (reconstructCycle p u v)"
proof (cases "u = v")
  case True
  then show ?thesis using v V by (auto simp: closed_walk_def reconstructCycle_def)
next
  case False
  obtain pre rest where s: "u # ch = pre @ v # rest" "v \<notin> set pre" using split_list_first [OF v(1)] by metis
  then obtain pre' where pre: "pre = u # pre'" using False by (cases pre) auto
  have dp: "distinct pre" using d unfolding s(1) by simp
  have "card (set pre) \<le> card (fst ` set p)"
    using linked_prefix_keys [OF l [unfolded s(1)]] by (simp add: card_mono)
  then have len: "length pre \<le> length p"
    using dp by (metis distinct_card le_trans card_length length_map set_map)
  have sub: "set pre \<subseteq> V" using V(1) unfolding s(1) by simp
  have "climb p u v (hd (pre @ [v])) [] = [v] @ rev ([] @ pre) @ [v]"
    using l s len sub V(2) by (intro climb_linked [of p w _ _ rest]) auto
  then have r: "reconstructCycle p u v = v # rev pre @ [v]"
    using False pre by (simp add: reconstructCycle_def)
  have "successively (\<lambda>a b. b \<in> set (w a)) (v # rev pre)"
    using linked_successively [OF linked_prefix [OF l [unfolded s(1)]]] by simp
  then have "successively (\<lambda>a b. b \<in> set (w a)) ((v # rev pre) @ [v])"
    using v(2) pre by (simp add: successively_append_iff del: append_Cons)
  moreover have "v \<in> V" using v V by auto
  ultimately show ?thesis using r dp s(2) sub by (auto simp: closed_walk_def)
qed

section \<open>No report means no cycle\<close>

definition edges :: "name set \<Rightarrow> waits \<Rightarrow> (name \<times> name) set" where
  "edges V w = {(a, b). a \<in> V \<and> b \<in> V \<and> b \<in> set (w a)}"

definition marked :: "name set \<Rightarrow> Color \<Rightarrow> (name \<Rightarrow> Color) \<Rightarrow> name set" where
  "marked V k c = {n \<in> V. c n = k}"

definition explored :: "name set \<Rightarrow> waits \<Rightarrow> (name \<Rightarrow> Color) \<Rightarrow> bool" where
  "explored V w c \<longleftrightarrow> acyclic (edges (marked V black c) w)
     \<and> (\<forall>a \<in> marked V black c. \<forall>b \<in> set (w a) \<inter> V. c b = black)"

text \<open>The marks while the search expands \<open>u\<close>, with \<open>ch\<close> the gray names above it.\<close>

definition searching :: "name set \<Rightarrow> waits \<Rightarrow> name \<Rightarrow> name list \<Rightarrow> name list \<Rightarrow> marks \<Rightarrow> bool" where
  "searching V w u ch vs m \<longleftrightarrow> distinct (u # ch) \<and> marked V gray (fst m) = set (u # ch)
     \<and> linked (snd m) w (u # ch) \<and> explored V w (fst m) \<and> set vs \<subseteq> set (w u)
     \<and> (\<forall>v \<in> set (w u) \<inter> V. v \<in> set vs \<or> fst m v = black)"

text \<open>The marks when it has finished with \<open>u\<close>.\<close>

definition searched :: "name set \<Rightarrow> waits \<Rightarrow> name \<Rightarrow> marks \<Rightarrow> marks \<Rightarrow> bool" where
  "searched V w u m m' \<longleftrightarrow> explored V w (fst m') \<and> fst m' u = black
     \<and> marked V gray (fst m') = marked V gray (fst m) - {u}
     \<and> marked V black (fst m) \<subseteq> marked V black (fst m')
     \<and> (\<forall>x. x \<noteq> u \<longrightarrow> x \<in> marked V gray (fst m) \<longrightarrow> map_of (snd m') x = map_of (snd m) x)"

lemma searching_finish:
  assumes "searching V w u ch [] (c, p)"
  shows "searched V w u (c, p) (c(u := black), p)"
proof -
  let ?B = "marked V black c"
  have u: "u \<in> V" "c u = gray" using assms by (auto simp: searching_def marked_def)
  have ex: "explored V w c" using assms by (simp add: searching_def)
  have suc: "\<And>v. v \<in> set (w u) \<Longrightarrow> v \<in> V \<Longrightarrow> c v = black" using assms by (auto simp: searching_def)
  have B: "marked V black (c(u := black)) = insert u ?B" using u by (auto simp: marked_def)
  have "acyclic {(a, b). a \<in> insert u ?B \<and> b \<in> insert u ?B \<and> b \<in> set (w a)}"
  proof (rule acyclic_insert_sink [where V = V])
    show "acyclic {(a, b). a \<in> ?B \<and> b \<in> ?B \<and> b \<in> set (w a)}"
      using ex by (simp add: explored_def edges_def)
    show "u \<in> V" by (rule u)
    show "u \<notin> ?B" using u by (simp add: marked_def)
    show "\<not> u \<in> set (w u)" using suc u by auto
  qed (use ex in \<open>auto simp: explored_def marked_def\<close>)
  then have "explored V w (c(u := black))"
    using ex suc B by (auto simp: explored_def edges_def marked_def)
  then show ?thesis using B u by (auto simp: searched_def marked_def)
qed

lemma searching_skip:
  "searching V w u ch (v # vs) m \<Longrightarrow> v \<notin> V \<or> fst m v = black \<Longrightarrow> searching V w u ch vs m"
  by (auto simp: searching_def)

lemma searching_gray: "searching V w u ch vs m \<Longrightarrow> x \<in> set (u # ch) \<longleftrightarrow> x \<in> V \<and> fst m x = gray"
  by (simp add: searching_def marked_def set_eq_iff)

lemma searching_enter:
  assumes s: "searching V w u ch (v # vs) (c, p)" and v: "v \<in> V" "c v = white"
  shows "searching V w v (u # ch) (sort_strings (cloneNames (w v))) (c(v := gray), AList.update v u p)"
proof -
  have g: "marked V gray (c(v := gray)) = insert v (marked V gray c)"
    using v by (auto simp: marked_def)
  have n: "v \<notin> set (u # ch)" using searching_gray [OF s, of v] v by simp
  have "linked (AList.update v u p) w (v # u # ch)"
    using s n by (auto simp: searching_def update_conv' intro: linked_cong [where p = p])
  moreover have b: "marked V black (c(v := gray)) = marked V black c" using v by (auto simp: marked_def)
  moreover have "explored V w (c(v := gray))"
    using s v b by (auto simp: searching_def explored_def marked_def)
  ultimately show ?thesis using s g n by (auto simp: searching_def cloneNames_def)
qed

lemma searching_return:
  assumes s: "searching V w u ch (v # vs) (c, p)" and v: "v \<in> V" "c v = white"
    and r: "searched V w v (c(v := gray), AList.update v u p) m1"
  shows "searching V w u ch vs m1" and "searched V w u m1 m' \<Longrightarrow> searched V w u (c, p) m'"
proof -
  have b: "marked V black c \<subseteq> marked V black (fst m1)" using r v by (auto simp: searched_def marked_def)
  have "marked V gray (fst m1) = marked V gray (c(v := gray)) - {v}" using r by (simp add: searched_def)
  also have "\<dots> = marked V gray c" using v by (auto simp: marked_def)
  finally have g: "marked V gray (fst m1) = marked V gray c" .
  have p: "map_of (snd m1) x = map_of p x" if "x \<in> marked V gray c" for x
  proof -
    have "x \<noteq> v" "x \<in> marked V gray (c(v := gray))" using that v by (auto simp: marked_def)
    then show ?thesis using r by (simp add: searched_def update_conv')
  qed
  have S: "distinct (u # ch)" "marked V gray c = set (u # ch)" "linked p w (u # ch)" "set vs \<subseteq> set (w u)"
    "\<And>x. x \<in> set (w u) \<Longrightarrow> x \<in> V \<Longrightarrow> x = v \<or> x \<in> set vs \<or> c x = black"
    using s by (simp_all add: searching_def)
  have "linked (snd m1) w (u # ch)" using linked_cong [OF S(3)] p S(2) by simp
  moreover have "x \<in> set vs \<or> fst m1 x = black" if "x \<in> set (w u)" "x \<in> V" for x
    using S(5) [OF that] b r that(2) by (auto simp: searched_def marked_def)
  ultimately show "searching V w u ch vs m1"
    using S(1,2,4) g r by (simp add: searching_def searched_def)
  show "searched V w u m1 m' \<Longrightarrow> searched V w u (c, p) m'"
    using order_trans [OF b] p by (simp add: searched_def g)
qed

lemma dfs_succ_correct:
  "searching (set ns) w u ch vs m \<Longrightarrow> [] \<notin> set ns \<Longrightarrow>
     (case dfs_succ ns w u vs m of
        Inl c \<Rightarrow> closed_walk (set ns) w (Path c)
      | Inr m' \<Rightarrow> searched (set ns) w u m m')"
proof (induction ns w u vs m arbitrary: ch rule: dfs_succ.induct)
  case (1 ns w u color parent)
  then show ?case using searching_finish by simp
next
  case (2 ns w u v vs color parent)
  consider "v \<notin> set ns \<or> color v = black" | "v \<in> set ns" "color v = gray" | "v \<in> set ns" "color v = white"
    by (cases "color v") auto
  then show ?case
  proof cases
    case 1
    then have "searching (set ns) w u ch vs (color, parent)" using searching_skip [OF "2.prems"(1)] by auto
    then show ?thesis using "2.IH"(1,4) "2.prems"(2) 1 by (cases "v \<in> set ns") auto
  next
    case 2
    then have "v \<in> set (u # ch)" "v \<in> set (w u)" "set (u # ch) \<subseteq> set ns"
      using "2.prems"(1) by (auto simp: searching_def marked_def)
    then have "closed_walk (set ns) w (reconstructCycle parent u v)"
      using "2.prems" by (intro reconstructCycle_closed [where ch = ch]) (auto simp: searching_def)
    then show ?thesis using 2 by simp
  next
    case 3
    let ?m = "(color(v := gray), AList.update v u parent)"
    let ?r = "dfs_succ ns w v (sort_strings (cloneNames (w v))) ?m"
    have IH: "case ?r of Inl c \<Rightarrow> closed_walk (set ns) w (Path c) | Inr m' \<Rightarrow> searched (set ns) w v ?m m'"
      using "2.IH"(2) [OF _ 3(2) searching_enter [OF "2.prems"(1) 3] "2.prems"(2)] 3 by simp
    show ?thesis
    proof (cases ?r)
      case (Inl c)
      then show ?thesis using IH 3 by simp
    next
      case (Inr m1)
      then have s1: "searched (set ns) w v ?m m1" using IH by simp
      have "case dfs_succ ns w u vs m1 of Inl c \<Rightarrow> closed_walk (set ns) w (Path c)
            | Inr m' \<Rightarrow> searched (set ns) w u m1 m'"
        using "2.IH"(3) [OF _ 3(2) Inr searching_return(1) [OF "2.prems"(1) 3 s1] "2.prems"(2)] 3 by simp
      then show ?thesis
        using Inr 3 searching_return(2) [OF "2.prems"(1) 3 s1] by (auto split: sum.splits)
    qed
  qed
qed

lemma dfs_correct:
  assumes "n \<in> set ns" "fst m n = white" "marked (set ns) gray (fst m) = {}" "explored (set ns) w (fst m)" "[] \<notin> set ns"
  shows "case dfs ns w n m of
      Inl c \<Rightarrow> closed_walk (set ns) w (Path c)
    | Inr m' \<Rightarrow> marked (set ns) gray (fst m') = {} \<and> explored (set ns) w (fst m')
        \<and> insert n (marked (set ns) black (fst m)) \<subseteq> marked (set ns) black (fst m')"
proof -
  obtain c p where m: "m = (c, p)" by fastforce
  let ?m = "(c(n := gray), p)"
  have g: "marked (set ns) gray (c(n := gray)) = {n}" using assms(1,3) by (auto simp: marked_def m)
  have b: "marked (set ns) black (c(n := gray)) = marked (set ns) black c"
    using assms(2) by (auto simp: marked_def m)
  have "explored (set ns) w (c(n := gray))"
    using assms(2,4) b by (auto simp: m explored_def marked_def)
  then have "searching (set ns) w n [] (sort_strings (cloneNames (w n))) ?m"
    using g by (simp add: searching_def cloneNames_def)
  from dfs_succ_correct [OF this assms(5)] show ?thesis
    using g b assms(1) by (auto simp: dfs_def m searched_def marked_def split: sum.splits)
qed

lemma dfs_roots_correct:
  assumes "set rs \<subseteq> set ns" "[] \<notin> set ns" "marked (set ns) gray (fst m) = {}" "explored (set ns) w (fst m)"
    "set ns - set rs \<subseteq> marked (set ns) black (fst m)"
  shows "case dfs_roots ns w rs m of None \<Rightarrow> acyclic (edges (set ns) w) | Some c \<Rightarrow> closed_walk (set ns) w (Path c)"
  using assms
proof (induction rs arbitrary: m)
  case Nil
  then have "marked (set ns) black (fst m) = set ns" by (auto simp: marked_def)
  then show ?case using Nil by (simp add: explored_def)
next
  case (Cons n rs)
  show ?case
  proof (cases "fst m n = white")
    case False
    then have "fst m n = black" using Cons.prems by (cases "fst m n") (auto simp: marked_def)
    then show ?thesis using Cons.prems False by (auto intro!: Cons.IH simp: marked_def)
  next
    case True
    then have d: "case dfs ns w n m of
      Inl c \<Rightarrow> closed_walk (set ns) w (Path c)
    | Inr m' \<Rightarrow> marked (set ns) gray (fst m') = {} \<and> explored (set ns) w (fst m')
        \<and> insert n (marked (set ns) black (fst m)) \<subseteq> marked (set ns) black (fst m')"
      using dfs_correct [of n ns m w] Cons.prems by simp
    show ?thesis
    proof (cases "dfs ns w n m")
      case (Inl c)
      then show ?thesis using d True by simp
    next
      case (Inr m')
      then have m': "marked (set ns) gray (fst m') = {}" "explored (set ns) w (fst m')"
        "insert n (marked (set ns) black (fst m)) \<subseteq> marked (set ns) black (fst m')" using d by simp_all
      have "set ns - set rs \<subseteq> marked (set ns) black (fst m')"
        using m'(3) Cons.prems(5) by auto
      then show ?thesis using Cons.IH [of m'] Cons.prems(1,2) m' Inr True by simp
    qed
  qed
qed

lemma findCycle_spec:
  assumes "[] \<notin> set names"
  shows "case findCycle names w of
      None \<Rightarrow> acyclic (edges (set names) w)
    | Some c \<Rightarrow> closed_walk (set names) w (Path c)"
proof (cases "names = []")
  case True
  then show ?thesis by (simp add: findCycle_def edges_def acyclic_def)
next
  case False
  let ?s = "sort_strings (cloneNames names)"
  have s: "set ?s = set names" by (simp add: cloneNames_def)
  have "case dfs_roots ?s w ?s (\<lambda>_. white, []) of None \<Rightarrow> acyclic (edges (set ?s) w)
      | Some c \<Rightarrow> closed_walk (set ?s) w (Path c)"
    using assms by (intro dfs_roots_correct) (auto simp: marked_def explored_def edges_def acyclic_def cloneNames_def)
  then show ?thesis using False unfolding s by (simp add: findCycle_def Let_def)
qed

lemma successively_trancl:
  "successively (\<lambda>a b. (a, b) \<in> r) (x # xs) \<Longrightarrow> xs \<noteq> [] \<Longrightarrow> (x, last xs) \<in> r\<^sup>+"
proof (induction xs arbitrary: x)
  case (Cons y ys)
  then show ?case by (cases ys) (auto intro: trancl_into_trancl2)
qed simp

lemma closed_walk_cyclic:
  assumes "closed_walk V w path"
  shows "\<not> acyclic (edges V w)"
proof -
  obtain x xs where p: "path = x # xs" "xs \<noteq> []" using assms by (cases path; cases "tl path") (auto simp: closed_walk_def)
  have "successively (\<lambda>a b. (a, b) \<in> edges V w) path"
    using assms by (auto simp: closed_walk_def edges_def intro: successively_mono)
  then have "(x, x) \<in> (edges V w)\<^sup>+"
    using successively_trancl [of "edges V w" x xs] assms p by (auto simp: closed_walk_def)
  then show ?thesis by (auto simp: acyclic_def)
qed

lemma findCycle_None_iff: "[] \<notin> set names \<Longrightarrow> findCycle names w = None \<longleftrightarrow> acyclic (edges (set names) w)"
  using findCycle_spec [of names w] closed_walk_cyclic by (auto split: option.splits)

lemma findCycle_Some: "[] \<notin> set names \<Longrightarrow> findCycle names w = Some c \<Longrightarrow> closed_walk (set names) w (Path c)"
  using findCycle_spec [of names w] by simp

text \<open>
  C4: the ordering-cycle check is exact.  On every graph \<open>Build\<close> returns, \<open>OrderingCycle\<close> reports
  nothing if and only if the ordering edges between loaded units are acyclic, and what it reports is
  a simple closed walk of loaded units, each ordered after the next.
\<close>

theorem OrderingCycle_exact:
  assumes "Build units = Inr g"
  shows "(OrderingCycle (Some g) = None \<longleftrightarrow> acyclic (edges (loaded g) (graph_waits g)))
    \<and> (\<forall>c. OrderingCycle (Some g) = Some c \<longrightarrow> closed_walk (loaded g) (graph_waits g) (Path c))"
proof -
  have "[] \<notin> set (names_of g)" using loaded_canonical(2) [OF Build_wf [OF assms]] by auto
  then show ?thesis
    using findCycle_None_iff [of "names_of g"] findCycle_Some [of "names_of g"]
    by (simp add: OrderingCycle_def)
qed

definition cyclic_units :: "Unit option list" where
  "cyclic_units =
     [Some ((new_Unit 1 ''a.service'' [] KindService)\<lparr>After := [''b.service'']\<rparr>),
      Some ((new_Unit 1 ''b.service'' [] KindService)\<lparr>After := [''c.service'']\<rparr>),
      Some ((new_Unit 1 ''c.service'' [] KindService)\<lparr>Before := [''b.service''], After := [''a'']\<rparr>)]"

definition cyclic_graph :: Graph where
  "cyclic_graph = projr (Build cyclic_units)"

theorem OrderingCycle_exact_witness:
  "closed_walk (loaded cyclic_graph) (graph_waits cyclic_graph)
     (Path (the (OrderingCycle (Some cyclic_graph))))
   \<and> CycleError_Error (OrderingCycle (Some cyclic_graph)) =
       ''a.service After b.service After c.service After a.service''"
proof -
  have "\<not> isl (Build cyclic_units)" by code_simp
  then have b: "Build cyclic_units = Inr cyclic_graph" by (simp add: cyclic_graph_def)
  have "\<not> Option.is_none (OrderingCycle (Some cyclic_graph))" by code_simp
  then have "OrderingCycle (Some cyclic_graph) = Some (the (OrderingCycle (Some cyclic_graph)))"
    by (simp add: Option.is_none_def)
  moreover have "CycleError_Error (OrderingCycle (Some cyclic_graph)) =
       ''a.service After b.service After c.service After a.service''" by code_simp
  ultimately show ?thesis using OrderingCycle_exact [OF b] by blast
qed

end
