(* ===== verification/Closures.thy ===== *)
theory Closures
  imports Dep_Graph Walk
begin

text \<open>
  The two closures the stop planners compute: \<open>reverseRequirementClosure\<close> of
  \<open>internal/core/graph.go\<close> and \<open>afterSuccessors\<close> and \<open>afterClosure\<close> of
  \<open>internal/core/transaction.go\<close>.  Each recursive \<open>walk\<close> of the code is a function on the list of
  names it still has to walk and the set it has seen, in insertion order; both are instances of the
  walk interface, so they return exactly the reachable units.
\<close>

section \<open>Units that require a unit\<close>

function rr_walk :: "Graph \<Rightarrow> name list \<Rightarrow> name list \<Rightarrow> name list" where
  "rr_walk g [] seen = seen"
| "rr_walk g (nm0 # rest) seen =
     (let nm = NormalizeName nm0 in
      if nm = [] then rr_walk g rest seen
      else if nm \<in> set seen then rr_walk g rest seen
      else if gnode g nm = None then rr_walk g rest seen
      else rr_walk g rest (rr_walk g (reverseRequirersOf g nm) (seen @ [nm])))"
  by pat_completeness auto

lemma rr_walk_seen: "rr_walk_dom (g, xs, seen) \<Longrightarrow> set seen \<subseteq> set (rr_walk g xs seen)"
  by (induction g xs seen rule: rr_walk.pinduct) (force simp: rr_walk.psimps Let_def)+

lemma card_Diff_insert_less:
  assumes "finite A" "x \<in> A" "x \<notin> B"
  shows "card (A - insert x B) < card (A - B)"
proof -
  have "A - insert x B \<subset> A - B" using assms by blast
  then show ?thesis using assms(1) by (simp add: psubset_card_mono)
qed

lemma card_Diff_le: "finite A \<Longrightarrow> set s \<subseteq> set t \<Longrightarrow> card (A - set t) \<le> card (A - set s)"
  by (auto intro!: card_mono)

termination rr_walk
proof (relation "inv_image (less_than <*lex*> less_than) (\<lambda>(g, xs, seen). (card (loaded g - set seen), length xs))", goal_cases)
  case (5 g nm0 rest seen nm)
  then have "nm \<in> loaded g" "nm \<notin> set seen" by (simp_all add: gnode_None)
  then show ?case using card_Diff_insert_less [of "loaded g" nm "set seen"] by simp
next
  case (6 g nm0 rest seen nm)
  then have "set seen \<subseteq> set (rr_walk g (reverseRequirersOf g nm) (seen @ [nm]))"
    using rr_walk_seen [OF 6(5)] by auto
  then have "card (loaded g - set (rr_walk g (reverseRequirersOf g nm) (seen @ [nm]))) \<le> card (loaded g - set seen)"
    by (simp add: card_Diff_le)
  then show ?case by auto
qed auto

definition reverseRequirementClosure :: "Graph option \<Rightarrow> name list \<Rightarrow> name list" where
  "reverseRequirementClosure go roots =
     (case go of None \<Rightarrow> [] | Some g \<Rightarrow> sort_strings (rr_walk g roots []))"

text \<open>The requirement relation a stop follows: \<open>b\<close> requires, binds to or is part of \<open>a\<close>.\<close>

definition stop_pulls :: "Graph \<Rightarrow> (name \<times> name) set" where
  "stop_pulls g = {(a, b). stopRequiresName (gnode g b) a}"

lemma set_reverseRequirersOf:
  "set (reverseRequirersOf g nm) = {b. (NormalizeName nm, b) \<in> stop_pulls g}"
proof -
  have "stopRequiresName (gnode g b) a \<Longrightarrow> b \<in> loaded g" for a b
    by (auto simp: stopRequiresName_iff gnode_loaded [symmetric])
  then show ?thesis by (auto simp: reverseRequirersOf_def stop_pulls_def Let_def)
qed

lemma wf_norm_loaded: "wf_graph g \<Longrightarrow> x \<in> loaded g \<Longrightarrow> NormalizeName x = x"
  using loaded_canonical(1) by (simp add: canonical_def)

definition named :: "Graph \<Rightarrow> name set" where
  "named g = loaded g - {[]}"

lemma finite_named [simp]: "finite (named g)"
  by (simp add: named_def)

lemma named_wf: "wf_graph g \<Longrightarrow> named g = loaded g"
  using loaded_canonical(2) by (auto simp: named_def)

interpretation rr: dfs_walk "\<lambda>as s. Inr (rr_walk g as s) :: unit + name list" id "\<lambda>k s. s @ [k]"
  NormalizeName "named g" "reverseRequirersOf g" "\<lambda>_. None" for g
  by unfold_locales (auto simp: Let_def named_def gnode_None)

lemma item_reach_rr:
  assumes "wf_graph g" "item_reach (reverseRequirersOf g) NormalizeName (loaded g) A b"
  shows "\<exists>r \<in> A. (NormalizeName b \<in> loaded g \<longrightarrow> NormalizeName r \<in> loaded g) \<and> (NormalizeName r, NormalizeName b) \<in> (stop_pulls g)\<^sup>*"
  using assms(2)
proof (induction rule: item_reach.induct)
  case (follow a b)
  have bl: "b \<in> loaded g" using follow.hyps(3) by (auto simp: reverseRequirersOf_def Let_def)
  have "(NormalizeName a, NormalizeName b) \<in> stop_pulls g"
    using follow.hyps(3) wf_norm_loaded [OF assms(1) bl] by (auto simp: set_reverseRequirersOf)
  then show ?case using follow.IH follow.hyps(2) by (meson rtrancl_into_rtrancl)
qed auto

lemma stop_pulls_loaded: "(a, b) \<in> stop_pulls g \<Longrightarrow> b \<in> loaded g"
  by (auto simp: stop_pulls_def stopRequiresName_iff gnode_loaded [symmetric])

lemma rr_item_reach:
  assumes "wf_graph g" "(NormalizeName r, b) \<in> (stop_pulls g)\<^sup>*" "r \<in> A" "NormalizeName r \<in> loaded g"
  shows "\<exists>c. NormalizeName c = b \<and> b \<in> loaded g \<and> item_reach (reverseRequirersOf g) NormalizeName (loaded g) A c"
  using assms(2)
proof (induction rule: rtrancl_induct)
  case base
  then show ?case using assms(3,4) item_reach.start by metis
next
  case (step y z)
  then obtain c where c: "NormalizeName c = y" "y \<in> loaded g"
    "item_reach (reverseRequirersOf g) NormalizeName (loaded g) A c" by blast
  have z: "z \<in> loaded g" "NormalizeName z = z"
    using stop_pulls_loaded [OF step.hyps(2)] wf_norm_loaded [OF assms(1)] by auto
  have "z \<in> set (reverseRequirersOf g (NormalizeName c))"
    using step.hyps(2) c(1,2) wf_norm_loaded [OF assms(1) c(2)] by (simp add: set_reverseRequirersOf)
  then show ?case using item_reach.follow [OF c(3)] c(1,2) z by metis
qed

lemma set_reverseRequirementClosure:
  assumes wf: "wf_graph g"
  shows "set (reverseRequirementClosure (Some g) roots) =
     {b. \<exists>r \<in> set roots. NormalizeName r \<in> loaded g \<and> (NormalizeName r, b) \<in> (stop_pulls g)\<^sup>*}"
    and "distinct (reverseRequirementClosure (Some g) roots)"
proof -
  note w = rr.walks_reached [where s = "[]" and g = g and as = roots and s' = "rr_walk g roots []", simplified]
  show "distinct (reverseRequirementClosure (Some g) roots)"
    using w(2) by (simp add: reverseRequirementClosure_def)
  have "set (rr_walk g roots []) =
    NormalizeName ` Collect (item_reach (reverseRequirersOf g) NormalizeName (loaded g) (set roots)) \<inter> loaded g"
    using w(1) rr.reached_def [of g "set roots"] by (simp add: named_wf [OF wf])
  also have "\<dots> = {b. \<exists>r \<in> set roots. NormalizeName r \<in> loaded g \<and> (NormalizeName r, b) \<in> (stop_pulls g)\<^sup>*}"
    using item_reach_rr [OF wf] rr_item_reach [OF wf] by fast
  finally show "set (reverseRequirementClosure (Some g) roots) =
     {b. \<exists>r \<in> set roots. NormalizeName r \<in> loaded g \<and> (NormalizeName r, b) \<in> (stop_pulls g)\<^sup>*}"
    by (simp add: reverseRequirementClosure_def)
qed

section \<open>Units ordered after a unit\<close>

definition afterSuccessors :: "Graph \<Rightarrow> name \<Rightarrow> name list" where
  "afterSuccessors g nm0 =
     (let nm = NormalizeName nm0 in
      filter (\<lambda>other. case gnode g other of None \<Rightarrow> False | Some n \<Rightarrow> containsName (waitsFor n) nm) (names_of g))"

function after_walk :: "Graph \<Rightarrow> name list \<Rightarrow> name list \<Rightarrow> name list" where
  "after_walk g [] seen = seen"
| "after_walk g (later # rest) seen =
     (if later \<in> set seen then after_walk g rest seen
      else after_walk g rest (after_walk g (afterSuccessors g later) (seen @ [later])))"
  by pat_completeness auto

lemma after_walk_seen: "after_walk_dom (g, xs, seen) \<Longrightarrow> set seen \<subseteq> set (after_walk g xs seen)"
  by (induction g xs seen rule: after_walk.pinduct) (force simp: after_walk.psimps)+

lemma afterSuccessors_loaded: "set (afterSuccessors g nm) \<subseteq> loaded g"
  by (auto simp: afterSuccessors_def Let_def)

termination after_walk
proof (relation "inv_image (less_than <*lex*> less_than)
    (\<lambda>(g, xs, seen). (card ((loaded g \<union> set xs) - set seen), length xs))", goal_cases)
  case (2 g later rest seen)
  have "card (loaded g \<union> set rest - set seen) \<le> card (loaded g \<union> set (later # rest) - set seen)"
    by (auto intro!: card_mono)
  then show ?case by auto
next
  case (3 g later rest seen)
  have "loaded g \<union> set (afterSuccessors g later) - set (seen @ [later]) \<subset> loaded g \<union> set (later # rest) - set seen"
    using 3 afterSuccessors_loaded [of g later] by auto
  then have "card (loaded g \<union> set (afterSuccessors g later) - set (seen @ [later]))
      < card (loaded g \<union> set (later # rest) - set seen)"
    by (intro psubset_card_mono) auto
  then show ?case by simp
next
  case (4 g later rest seen)
  have "loaded g \<union> set rest - set (after_walk g (afterSuccessors g later) (seen @ [later]))
      \<subseteq> loaded g \<union> set (later # rest) - set seen"
    using after_walk_seen [OF 4(2)] by auto
  then have "card (loaded g \<union> set rest - set (after_walk g (afterSuccessors g later) (seen @ [later])))
      \<le> card (loaded g \<union> set (later # rest) - set seen)"
    by (intro card_mono) auto
  then show ?case by auto
qed auto

definition afterClosure :: "Graph \<Rightarrow> name list \<Rightarrow> name list" where
  "afterClosure g roots =
     sort_strings (fold (\<lambda>r seen. after_walk g (afterSuccessors g (NormalizeName r)) seen) roots [])"

text \<open>\<open>(a, b)\<close>: \<open>b\<close> is ordered after \<open>a\<close>.\<close>

definition order_after :: "Graph \<Rightarrow> (name \<times> name) set" where
  "order_after g = {(a, b). \<exists>n. gnode g b = Some n \<and> a \<in> set (waitsFor n)}"

lemma set_afterSuccessors: "set (afterSuccessors g nm) = {b. (NormalizeName nm, b) \<in> order_after g}"
proof -
  have "gnode g b = Some n \<Longrightarrow> b \<in> loaded g" for b n by (simp add: gnode_loaded [symmetric])
  then show ?thesis by (auto simp: afterSuccessors_def order_after_def Let_def split: option.splits)
qed

lemma filter_afterSuccessors [simp]: "filter (\<lambda>x. x \<in> loaded g) (afterSuccessors g nm) = afterSuccessors g nm"
  using afterSuccessors_loaded [of g nm] by (simp add: filter_id_conv subset_code(1))

interpretation aw: dfs_walk "\<lambda>as s. Inr (after_walk g (filter (\<lambda>x. x \<in> loaded g) as) s) :: unit + name list"
  id "\<lambda>k s. s @ [k]" id "loaded g" "afterSuccessors g" "\<lambda>_. None" for g
  by unfold_locales auto

lemma after_walk_append: "after_walk g (xs @ ys) s = after_walk g ys (after_walk g xs s)"
  by (induction g xs s rule: after_walk.induct) simp_all

lemma after_walk_fold:
  "fold (\<lambda>r s. after_walk g (f r) s) rs s = after_walk g (concat (map f rs)) s"
  by (induction rs arbitrary: s) (simp_all add: after_walk_append)

lemma order_after_loaded: "(a, b) \<in> order_after g \<Longrightarrow> b \<in> loaded g"
  by (auto simp: order_after_def gnode_loaded [symmetric])

lemma item_reach_aw:
  assumes wf: "wf_graph g"
  shows "Collect (item_reach (afterSuccessors g) id (loaded g) A) \<inter> loaded g =
    {b \<in> loaded g. \<exists>a \<in> A. a \<in> loaded g \<and> (a, b) \<in> (order_after g)\<^sup>*}" (is "?L = ?R")
proof
  have "item_reach (afterSuccessors g) id (loaded g) A b \<Longrightarrow> b \<in> loaded g \<Longrightarrow>
      \<exists>a \<in> A. a \<in> loaded g \<and> (a, b) \<in> (order_after g)\<^sup>*" for b
  proof (induction rule: item_reach.induct)
    case (follow a b)
    have "(a, b) \<in> order_after g"
      using follow.hyps(2,3) wf_norm_loaded [OF wf] by (auto simp: set_afterSuccessors)
    then show ?case using follow.IH follow.hyps(2) by (metis id_apply rtrancl_into_rtrancl)
  qed auto
  then show "?L \<subseteq> ?R" by auto
  have "(a, b) \<in> (order_after g)\<^sup>* \<Longrightarrow> a \<in> A \<Longrightarrow> a \<in> loaded g \<Longrightarrow>
      b \<in> loaded g \<and> item_reach (afterSuccessors g) id (loaded g) A b" for a b
  proof (induction rule: rtrancl_induct)
    case (step y z)
    have "z \<in> set (afterSuccessors g (id y))"
      using step wf_norm_loaded [OF wf] by (auto simp: set_afterSuccessors)
    then show ?case using step order_after_loaded by (auto intro: item_reach.follow [of _ _ _ _ y])
  qed (auto intro: item_reach.start)
  then show "?R \<subseteq> ?L" by auto
qed

lemma set_afterClosure:
  assumes wf: "wf_graph g"
  shows "set (afterClosure g roots) = {b. \<exists>r \<in> set roots. (NormalizeName r, b) \<in> (order_after g)\<^sup>+}"
    and "distinct (afterClosure g roots)"
proof -
  let ?as = "concat (map (\<lambda>r. afterSuccessors g (NormalizeName r)) roots)"
  have f: "filter (\<lambda>x. x \<in> loaded g) ?as = ?as"
    using afterSuccessors_loaded by (fastforce simp: filter_id_conv)
  note w = aw.walks_reached [where s = "[]" and g = g and as = ?as and s' = "after_walk g ?as []", simplified f, simplified]
  show "distinct (afterClosure g roots)"
    using w(2) by (simp add: afterClosure_def after_walk_fold)
  have "set (after_walk g ?as []) = {b \<in> loaded g. \<exists>a \<in> set ?as. a \<in> loaded g \<and> (a, b) \<in> (order_after g)\<^sup>*}"
    using w(1) item_reach_aw [OF wf, of "set ?as"] by (simp add: aw.reached_def)
  also have "\<dots> = {b. \<exists>r \<in> set roots. (NormalizeName r, b) \<in> (order_after g)\<^sup>+}"
  proof -
    have "(x, b) \<in> (order_after g)\<^sup>+ \<longleftrightarrow> (\<exists>a. a \<in> loaded g \<and> (x, a) \<in> order_after g \<and> b \<in> loaded g \<and> (a, b) \<in> (order_after g)\<^sup>*)" for x b
      by (metis order_after_loaded rtrancl_into_trancl2 tranclD tranclD2)
    then show ?thesis by (auto simp: set_afterSuccessors)
  qed
  finally show "set (afterClosure g roots) = {b. \<exists>r \<in> set roots. (NormalizeName r, b) \<in> (order_after g)\<^sup>+}"
    by (simp add: afterClosure_def after_walk_fold)
qed

end
