(* ===== verification/Transaction.thy ===== *)
theory Transaction
  imports Cycle Closures
begin

text \<open>
  Transactions: \<open>Job\<close>, \<open>Transaction\<close>, \<open>MissingUnitError\<close>, the planners \<open>PlanStart\<close>, \<open>PlanStop\<close>,
  \<open>PlanShutdown\<close> and \<open>plan\<close>, and the accessors of \<open>internal/core/transaction.go\<close>.  The jobs map is an
  association list in insertion order; the ordering map is a function that is \<open>[]\<close> where the Go map
  has no entry.  \<open>plan\<close>'s recursive \<open>add\<close> is \<open>add_all\<close> on the list of calls still to make.  Job kinds are the two
  declared constants; the number that \<open>JobKind.String\<close> prints for any other value has no counterpart.
\<close>

datatype JobKind = JobStart | JobStop

primrec JobKind_String :: "JobKind \<Rightarrow> string" where
  "JobKind_String JobStart = ''start''"
| "JobKind_String JobStop = ''stop''"

record Job =
  JobName :: name
  JobKindOf :: JobKind

type_synonym jobs_map = "(name \<times> Job) list"

record Transaction =
  txGraph :: Graph
  roots :: "name list"
  jobs :: jobs_map
  txWaits :: waits

record MissingUnitError =
  MissingUnit :: name
  RequiredBy :: name

definition MissingUnitError_Error :: "MissingUnitError option \<Rightarrow> string" where
  "MissingUnitError_Error eo = (case eo of None \<Rightarrow> ''missing unit''
     | Some e \<Rightarrow> if RequiredBy e = [] then ''unit '' @ Quote (MissingUnit e) @ '' is not loaded''
        else ''unit '' @ Quote (MissingUnit e) @ '' required by '' @ Quote (RequiredBy e) @ '' is not loaded'')"

datatype PlanError = PlanMsg string | PlanMissing MissingUnitError | PlanCycle CycleError

section \<open>The jobs of a plan\<close>

text \<open>A call of \<open>add\<close>: the name, who requires it, and whether it is required.\<close>

type_synonym add_call = "name \<times> name \<times> bool"

definition job_deps :: "name \<Rightarrow> node \<Rightarrow> add_call list" where
  "job_deps nm n = map (\<lambda>dep. (dep, nm, True)) (requires n)
     @ map (\<lambda>dep. (dep, nm, True)) (bindsTo n) @ map (\<lambda>dep. (dep, nm, False)) (wants n)"

function add_all :: "Graph \<Rightarrow> JobKind \<Rightarrow> add_call list \<Rightarrow> jobs_map \<Rightarrow> MissingUnitError + jobs_map" where
  "add_all g kind [] js = Inr js"
| "add_all g kind ((nm0, requiredBy, required) # rest) js =
     (let nm = NormalizeName nm0 in
      if nm = [] then
        if required \<and> kind = JobStart then Inl \<lparr>MissingUnit = nm, RequiredBy = requiredBy\<rparr>
        else add_all g kind rest js
      else if map_of js nm \<noteq> None then add_all g kind rest js
      else case gnode g nm of
        None \<Rightarrow>
          if required \<and> (kind = JobStart \<or> requiredBy = [])
          then Inl \<lparr>MissingUnit = nm, RequiredBy = requiredBy\<rparr>
          else add_all g kind rest js
      | Some n \<Rightarrow>
          (case add_all g kind (job_deps nm n) (js @ [(nm, \<lparr>JobName = nm, JobKindOf = kind\<rparr>)]) of
             Inl e \<Rightarrow> Inl e
           | Inr js' \<Rightarrow> add_all g kind rest js'))"
  by pat_completeness auto

definition job_keys :: "jobs_map \<Rightarrow> name list" where
  "job_keys js = map fst js"

lemma map_of_job_keys: "map_of js nm = None \<longleftrightarrow> nm \<notin> set (job_keys js)"
  by (simp add: job_keys_def map_of_eq_None_iff)

lemma job_keys_snoc [simp]: "job_keys (js @ [(nm, j)]) = job_keys js @ [nm]"
  by (simp add: job_keys_def)

lemma add_all_keys:
  "add_all_dom (g, kind, cs, js) \<Longrightarrow> add_all g kind cs js = Inr js' \<Longrightarrow> set (job_keys js) \<subseteq> set (job_keys js')"
proof (induction g kind cs js arbitrary: js' rule: add_all.pinduct)
  case (1 g kind js)
  then show ?case by (simp add: add_all.psimps)
next
  case (2 g kind nm0 requiredBy required rest js)
  let ?nm = "NormalizeName nm0"
  let ?js = "js @ [(?nm, \<lparr>JobName = ?nm, JobKindOf = kind\<rparr>)]"
  note eq = add_all.psimps(2) [OF "2.hyps"]
  show ?case
  proof (cases "?nm \<noteq> [] \<and> map_of js ?nm = None \<and> gnode g ?nm \<noteq> None")
    case False
    then consider "?nm = []" | "?nm \<noteq> []" "map_of js ?nm \<noteq> None" | "?nm \<noteq> []" "map_of js ?nm = None" "gnode g ?nm = None"
      by metis
    then show ?thesis
    proof cases
      case 1
      then show ?thesis using "2.prems" "2.IH"(1) [OF refl 1] unfolding eq by (simp add: Let_def split: if_splits)
    next
      case 2
      then show ?thesis using "2.prems" "2.IH"(2) [OF refl 2] unfolding eq by (simp add: Let_def)
    next
      case 3
      then show ?thesis
        using "2.prems" "2.IH"(3) [OF refl 3(1) _ 3(3)] unfolding eq by (simp add: Let_def split: if_splits)
    qed
  next
    case True
    then obtain n where n: "gnode g ?nm = Some n" by auto
    obtain js1 where js1: "add_all g kind (job_deps ?nm n) ?js = Inr js1" "add_all g kind rest js1 = Inr js'"
      using "2.prems" True n unfolding eq by (auto simp: Let_def split: sum.splits)
    have "set (job_keys ?js) \<subseteq> set (job_keys js1)" using "2.IH"(4) [OF refl _ _ n] True js1(1) by auto
    moreover have "set (job_keys js1) \<subseteq> set (job_keys js')" using "2.IH"(5) [OF refl _ _ n js1(1)] True js1(2) by auto
    ultimately show ?thesis by auto
  qed
qed

termination add_all
proof (relation "inv_image (less_than <*lex*> less_than)
    (\<lambda>(g, kind, cs, js). (card (loaded g - set (job_keys js)), length cs))", goal_cases)
  case (5 g kind nm0 rb rq rest js nm n)
  then have "nm \<in> loaded g" "nm \<notin> set (job_keys js)"
    using gnode_None [of g nm] by (auto simp: map_of_job_keys)
  then show ?case using card_Diff_insert_less [of "loaded g" nm "set (job_keys js)"] by simp
next
  case (6 g kind nm0 rb rq rest js nm n js')
  then have "set (job_keys js) \<subseteq> set (job_keys js')" using add_all_keys [of g kind _ _ js'] by fastforce
  then have "card (loaded g - set (job_keys js')) \<le> card (loaded g - set (job_keys js))"
    by (simp add: card_Diff_le)
  then show ?case by auto
qed auto

text \<open>The two loops over the names given to a planner.\<close>

fun plan_roots :: "Graph \<Rightarrow> JobKind \<Rightarrow> name list \<Rightarrow> name list \<Rightarrow> jobs_map \<Rightarrow> PlanError + (name list \<times> jobs_map)" where
  "plan_roots g kind [] rs js = Inr (rs, js)"
| "plan_roots g kind (nm0 # names) rs js =
     (let nm = NormalizeName nm0 in
      if nm = [] then Inl (PlanMsg ''empty unit name'')
      else if nm \<in> set rs then plan_roots g kind names rs js
      else case add_all g kind [(nm, [], True)] js of
          Inl e \<Rightarrow> Inl (PlanMissing e)
        | Inr js' \<Rightarrow> plan_roots g kind names (rs @ [nm]) js')"

fun stop_roots :: "Graph \<Rightarrow> name list \<Rightarrow> name list \<Rightarrow> PlanError + name list" where
  "stop_roots g [] rs = Inr rs"
| "stop_roots g (nm0 # names) rs =
     (let nm = NormalizeName nm0 in
      if nm = [] then Inl (PlanMsg ''empty unit name'')
      else if nm \<in> set rs then stop_roots g names rs
      else if gnode g nm = None then Inl (PlanMissing \<lparr>MissingUnit = nm, RequiredBy = []\<rparr>)
      else stop_roots g names (rs @ [nm]))"

section \<open>The ordering of a plan\<close>

definition push_waits :: "(node \<Rightarrow> name list) \<Rightarrow> jobs_map \<Rightarrow> Graph \<Rightarrow> waits" where
  "push_waits deps js g =
     fold (\<lambda>nm out. case gnode g nm of
             None \<Rightarrow> out
           | Some n \<Rightarrow> fold (\<lambda>pred out. if map_of js pred = None then out
                                     else out(pred := out pred @ [nm])) (deps n) out)
       (job_keys js) (\<lambda>_. [])"

definition reverseWaits :: "jobs_map \<Rightarrow> Graph \<Rightarrow> waits" where
  "reverseWaits js g = (\<lambda>nm. uniqueStable (push_waits waitsFor js g nm))"

definition reverseRequirementWaits :: "jobs_map \<Rightarrow> Graph \<Rightarrow> waits" where
  "reverseRequirementWaits js g = (\<lambda>nm. uniqueStable (push_waits (\<lambda>n. stopDepNames (Some n)) js g nm))"

definition mergeWaits :: "waits \<Rightarrow> waits \<Rightarrow> waits" where
  "mergeWaits a b = (\<lambda>nm. uniqueStable (a nm @ b nm))"

definition start_waits :: "jobs_map \<Rightarrow> Graph \<Rightarrow> waits" where
  "start_waits js g =
     (\<lambda>nm. if map_of js nm = None then []
           else case gnode g nm of None \<Rightarrow> []
             | Some n \<Rightarrow> uniqueStable (filter (\<lambda>dep. map_of js dep \<noteq> None) (waitsFor n)))"

section \<open>Planning\<close>

definition jobNames :: "Transaction \<Rightarrow> name list" where
  "jobNames tx = sort_strings (job_keys (jobs tx))"

definition validate :: "Transaction option \<Rightarrow> PlanError + unit" where
  "validate txo = (case txo of None \<Rightarrow> Inl (PlanMsg ''empty transaction'')
     | Some tx \<Rightarrow>
         if jobs tx = [] then Inl (PlanMsg ''empty transaction'')
         else case findCycle (jobNames tx) (txWaits tx) of
            Some c \<Rightarrow> Inl (PlanCycle c)
          | None \<Rightarrow> Inr ())"

definition validated :: "Transaction \<Rightarrow> PlanError + Transaction" where
  "validated tx = (case validate (Some tx) of Inl e \<Rightarrow> Inl e | Inr _ \<Rightarrow> Inr tx)"

definition plan :: "Graph option \<Rightarrow> JobKind \<Rightarrow> name list \<Rightarrow> PlanError + Transaction" where
  "plan go kind names = (case go of None \<Rightarrow> Inl (PlanMsg ''nil graph'')
     | Some g \<Rightarrow>
         if names = [] then
           Inl (PlanMsg (if kind = JobStop then ''no unit to stop'' else ''no unit to start''))
         else case plan_roots g kind names [] [] of
            Inl e \<Rightarrow> Inl e
          | Inr (rs, js) \<Rightarrow>
              (case (if kind = JobStop
                     then add_all g kind (map (\<lambda>later. (later, [], False)) (afterClosure g rs)) js
                     else Inr js) of
                 Inl e \<Rightarrow> Inl (PlanMissing e)
               | Inr js' \<Rightarrow>
                   validated \<lparr>txGraph = g, roots = rs, jobs = js',
                     txWaits = (if kind = JobStop then reverseWaits js' g else start_waits js' g)\<rparr>))"

definition PlanStart :: "Graph option \<Rightarrow> name list \<Rightarrow> PlanError + Transaction" where
  "PlanStart go names = plan go JobStart names"

definition PlanShutdown :: "Graph option \<Rightarrow> name list \<Rightarrow> PlanError + Transaction" where
  "PlanShutdown go names = plan go JobStop names"

definition PlanStop :: "Graph option \<Rightarrow> name list \<Rightarrow> PlanError + Transaction" where
  "PlanStop go names = (case go of None \<Rightarrow> Inl (PlanMsg ''nil graph'')
     | Some g \<Rightarrow>
         if names = [] then Inl (PlanMsg ''no unit to stop'')
         else case stop_roots g names [] of
            Inl e \<Rightarrow> Inl e
          | Inr rs \<Rightarrow>
              let js = map (\<lambda>nm. (nm, \<lparr>JobName = nm, JobKindOf = JobStop\<rparr>)) (reverseRequirementClosure (Some g) rs)
              in validated \<lparr>txGraph = g, roots = rs, jobs = js,
                   txWaits = mergeWaits (reverseWaits js g) (reverseRequirementWaits js g)\<rparr>)"

section \<open>Accessors\<close>

definition Units :: "Transaction option \<Rightarrow> name list" where
  "Units txo = (case txo of None \<Rightarrow> [] | Some tx \<Rightarrow> jobNames tx)"

definition Jobs :: "Transaction option \<Rightarrow> Job list" where
  "Jobs txo = (case txo of None \<Rightarrow> [] | Some tx \<Rightarrow> map (\<lambda>nm. the (map_of (jobs tx) nm)) (jobNames tx))"

definition Ready :: "Transaction option \<Rightarrow> name list" where
  "Ready txo = (case txo of None \<Rightarrow> [] | Some tx \<Rightarrow> filter (\<lambda>nm. txWaits tx nm = []) (jobNames tx))"

definition Contains_job :: "Transaction option \<Rightarrow> name \<Rightarrow> bool" where
  "Contains_job txo nm = (case txo of None \<Rightarrow> False | Some tx \<Rightarrow> map_of (jobs tx) (NormalizeName nm) \<noteq> None)"

section \<open>What \<open>add\<close> computes\<close>

fun call_name :: "add_call \<Rightarrow> name" where
  "call_name (nm, requiredBy, required) = NormalizeName nm"

definition call_fails :: "JobKind \<Rightarrow> add_call \<Rightarrow> MissingUnitError option" where
  "call_fails kind c = (case c of (nm, requiredBy, required) \<Rightarrow>
     if required \<and> (kind = JobStart \<or> requiredBy = [] \<and> NormalizeName nm \<noteq> [])
     then Some \<lparr>MissingUnit = NormalizeName nm, RequiredBy = requiredBy\<rparr> else None)"

definition deps_of :: "Graph \<Rightarrow> name \<Rightarrow> add_call list" where
  "deps_of g nm = (case gnode g nm of None \<Rightarrow> [] | Some n \<Rightarrow> job_deps nm n)"

definition add_job :: "JobKind \<Rightarrow> name \<Rightarrow> jobs_map \<Rightarrow> jobs_map" where
  "add_job kind nm js = js @ [(nm, \<lparr>JobName = nm, JobKindOf = kind\<rparr>)]"

interpretation ad: dfs_walk "add_all g kind" job_keys "add_job kind" call_name "named g" "deps_of g" "call_fails kind"
  for g kind
proof unfold_locales
  fix a :: add_call and as js
  obtain nm rb rq where a: "a = (nm, rb, rq)" by (cases a)
  show "add_all g kind (a # as) js = add_all g kind as js"
    if "call_name a \<in> named g" "call_name a \<in> set (job_keys js)"
    using that by (auto simp: a named_def Let_def map_of_job_keys)
  show "add_all g kind (a # as) js =
      (case call_fails kind a of None \<Rightarrow> add_all g kind as js | Some e \<Rightarrow> Inl e)"
    if "call_name a \<notin> named g" "call_name a \<notin> set (job_keys js)"
  proof -
    have "NormalizeName nm = [] \<or> NormalizeName nm \<noteq> [] \<and> gnode g (NormalizeName nm) = None \<and> map_of js (NormalizeName nm) = None"
      using that by (auto simp: a named_def gnode_None map_of_job_keys)
    then show ?thesis by (auto simp: a Let_def call_fails_def)
  qed
  show "add_all g kind (a # as) js =
      (case add_all g kind (deps_of g (call_name a)) (add_job kind (call_name a) js) of
         Inl e \<Rightarrow> Inl e | Inr js' \<Rightarrow> add_all g kind as js')"
    if "call_name a \<in> named g" "call_name a \<notin> set (job_keys js)"
  proof -
    have "gnode g (NormalizeName nm) \<noteq> None" using that(1) by (simp add: a named_def gnode_None)
    then obtain n where "gnode g (NormalizeName nm) = Some n" by blast
    then show ?thesis using that by (simp add: a named_def Let_def map_of_job_keys deps_of_def add_job_def)
  qed
qed (simp_all add: add_job_def)

lemma add_all_append:
  "add_all g kind (xs @ ys) js = (case add_all g kind xs js of Inl e \<Rightarrow> Inl e | Inr js' \<Rightarrow> add_all g kind ys js')"
proof (induction xs arbitrary: js)
  case (Cons c xs)
  obtain nm rb rq where c: "c = (nm, rb, rq)" by (cases c)
  let ?n = "NormalizeName nm"
  consider "?n = []" | "?n \<noteq> []" "map_of js ?n \<noteq> None" | "?n \<noteq> []" "map_of js ?n = None" "gnode g ?n = None"
    | n where "?n \<noteq> []" "map_of js ?n = None" "gnode g ?n = Some n" by (cases "gnode g ?n") metis+
  then show ?case
  proof cases
    case 1
    then show ?thesis by (simp add: c Let_def Cons.IH)
  next
    case 2
    then show ?thesis by (simp add: c Let_def Cons.IH)
  next
    case 3
    then show ?thesis by (auto simp: c Let_def Cons.IH)
  next
    case 4
    then show ?thesis by (simp add: c Let_def Cons.IH split: sum.split)
  qed
qed simp

lemma add_all_kinds:
  "add_all g kind cs js = Inr js' \<Longrightarrow> \<forall>(nm, j) \<in> set js. j = \<lparr>JobName = nm, JobKindOf = kind\<rparr> \<Longrightarrow>
     \<forall>(nm, j) \<in> set js'. j = \<lparr>JobName = nm, JobKindOf = kind\<rparr>"
proof (induction g kind cs js arbitrary: js' rule: add_all.induct)
  case (2 g kind nm0 requiredBy required rest js)
  show ?case
  proof (cases "gnode g (NormalizeName nm0)")
    case None
    then show ?thesis using "2.IH"(1,2,3) "2.prems" by (simp add: Let_def split: if_splits)
  next
    case (Some n)
    then show ?thesis
      using "2.IH"(1,2) "2.IH"(4,5) [OF refl _ _ Some] "2.prems" by (simp add: Let_def split: if_splits sum.splits)
  qed
qed simp

declare add_all.simps [simp del]

section \<open>Reachability in the graph\<close>

text \<open>\<open>start_pulls\<close> is what a start pulls in, \<open>start_needs\<close> the part it cannot do without.\<close>

definition start_needs :: "Graph \<Rightarrow> name \<Rightarrow> name set" where
  "start_needs g a = (case gnode g a of None \<Rightarrow> {} | Some n \<Rightarrow> set (requires n) \<union> set (bindsTo n))"

definition start_pulls :: "Graph \<Rightarrow> (name \<times> name) set" where
  "start_pulls g = {(a, b). \<exists>n. gnode g a = Some n \<and> b \<in> set (requires n) \<union> set (bindsTo n) \<union> set (wants n)}"

definition pulled :: "Graph \<Rightarrow> name list \<Rightarrow> name set" where
  "pulled g names = {b \<in> loaded g. \<exists>r \<in> set names. (NormalizeName r, b) \<in> (start_pulls g)\<^sup>*}"

lemma set_deps_of:
  "(b, by, rq) \<in> set (deps_of g a) \<longleftrightarrow> by = a \<and>
     (if rq then b \<in> start_needs g a else \<exists>n. gnode g a = Some n \<and> b \<in> set (wants n))"
proof (cases "gnode g a")
  case (Some n)
  have "(b, by, rq) \<in> set (job_deps a n) \<longleftrightarrow> by = a \<and> (if rq then b \<in> set (requires n) \<union> set (bindsTo n) else b \<in> set (wants n))"
    unfolding job_deps_def set_append set_map Un_iff image_iff by auto
  then show ?thesis by (simp add: deps_of_def start_needs_def Some)
qed (simp add: deps_of_def start_needs_def)

lemma start_pulls_canonical:
  assumes "wf_graph g" "(a, b) \<in> start_pulls g"
  shows "NormalizeName b = b" "a \<in> loaded g"
proof -
  obtain n where n: "gnode g a = Some n" "b \<in> set (requires n) \<union> set (bindsTo n) \<union> set (wants n)"
    using assms(2) by (auto simp: start_pulls_def)
  then show "NormalizeName b = b"
    using wf_graph_node(1) [OF assms(1) n(1)] by (auto simp: wf_node_def canonical_names_def canonical_def)
  show "a \<in> loaded g" using n(1) by (simp add: gnode_loaded [symmetric])
qed

lemma deps_pulls: "(b, by, rq) \<in> set (deps_of g a) \<Longrightarrow> (a, b) \<in> start_pulls g"
  by (auto simp: set_deps_of start_pulls_def start_needs_def split: if_splits option.splits)

lemma pulls_deps: "(a, b) \<in> start_pulls g \<Longrightarrow> \<exists>rq. (b, a, rq) \<in> set (deps_of g a)"
proof -
  assume "(a, b) \<in> start_pulls g"
  then obtain n where n: "gnode g a = Some n" "b \<in> set (requires n) \<union> set (bindsTo n) \<or> b \<in> set (wants n)"
    by (auto simp: start_pulls_def)
  from n(2) have "(b, a, True) \<in> set (deps_of g a) \<or> (b, a, False) \<in> set (deps_of g a)"
    by (auto simp: set_deps_of start_needs_def n(1))
  then show ?thesis by blast
qed

lemma call_name_dep:
  assumes "wf_graph g" "c \<in> set (deps_of g x)"
  shows "(x, call_name c) \<in> start_pulls g" "x \<in> loaded g"
proof -
  obtain b rb rq where c: "c = (b, rb, rq)" by (cases c)
  have p: "(x, b) \<in> start_pulls g" using assms(2) unfolding c by (rule deps_pulls)
  then show "(x, call_name c) \<in> start_pulls g" "x \<in> loaded g"
    using start_pulls_canonical [OF assms(1) p] by (simp_all add: c)
qed

lemma call_reach:
  assumes wf: "wf_graph g"
  shows "item_reach (deps_of g) call_name (named g) A c \<longleftrightarrow>
    c \<in> A \<or> (\<exists>c0 \<in> A. \<exists>x. (call_name c0, x) \<in> (start_pulls g)\<^sup>* \<and> c \<in> set (deps_of g x))" (is "?L c \<longleftrightarrow> ?R c")
proof
  show "?L c \<Longrightarrow> ?R c"
  proof (induction rule: item_reach.induct)
    case (follow a b)
    from follow.IH have "\<exists>c0 \<in> A. (call_name c0, call_name a) \<in> (start_pulls g)\<^sup>*"
      using call_name_dep(1) [OF wf] by (meson rtrancl.rtrancl_refl rtrancl_into_rtrancl)
    then show ?case using follow.hyps(3) by blast
  qed blast
  have step: "\<exists>c. call_name c = y \<and> ?L c"
    if "(call_name c0, y) \<in> (start_pulls g)\<^sup>*" "c0 \<in> A" for c0 y
    using that(1)
  proof (induction rule: rtrancl_induct)
    case base
    then show ?case using that(2) item_reach.start by metis
  next
    case (step y z)
    then obtain c where c: "call_name c = y" "?L c" by blast
    obtain rq where d: "(z, y, rq) \<in> set (deps_of g y)" using pulls_deps [OF step.hyps(2)] by blast
    have "y \<in> named g" using start_pulls_canonical(2) [OF wf step.hyps(2)] named_wf [OF wf] by simp
    then have "?L (z, y, rq)" using item_reach.follow [OF c(2)] c(1) d by simp
    moreover have "call_name (z, y, rq) = z" using start_pulls_canonical(1) [OF wf step.hyps(2)] by simp
    ultimately show ?case by blast
  qed
  show "?R c \<Longrightarrow> ?L c"
  proof (elim disjE bexE exE conjE)
    fix c0 x assume c0: "c0 \<in> A" "(call_name c0, x) \<in> (start_pulls g)\<^sup>*" "c \<in> set (deps_of g x)"
    then obtain c' where c': "call_name c' = x" "?L c'" using step by blast
    have "x \<in> named g" using call_name_dep(2) [OF wf c0(3)] named_wf [OF wf] by simp
    then show "?L c" using item_reach.follow [OF c'(2)] c'(1) c0(3) by simp
  qed (rule item_reach.start)
qed

lemma add_reached:
  assumes wf: "wf_graph g"
  shows "ad.reached g A = {b \<in> loaded g. \<exists>c \<in> A. (call_name c, b) \<in> (start_pulls g)\<^sup>*}" (is "_ = ?R")
proof
  have R: "ad.reached g A = call_name ` {c. item_reach (deps_of g) call_name (named g) A c} \<inter> loaded g"
    unfolding ad.reached_def by (simp only: named_wf [OF wf])
  show "ad.reached g A \<subseteq> ?R"
  proof
    fix b assume "b \<in> ad.reached g A"
    then obtain c where c: "b = call_name c" "b \<in> loaded g"
      "c \<in> A \<or> (\<exists>c0 \<in> A. \<exists>x. (call_name c0, x) \<in> (start_pulls g)\<^sup>* \<and> c \<in> set (deps_of g x))"
      unfolding R call_reach [OF wf] by blast
    then show "b \<in> ?R" using call_name_dep(1) [OF wf] by (blast intro: rtrancl_into_rtrancl)
  qed
  show "?R \<subseteq> ad.reached g A"
  proof safe
    fix b c assume b: "b \<in> loaded g" "c \<in> A" "(call_name c, b) \<in> (start_pulls g)\<^sup>*"
    from b(3) show "b \<in> ad.reached g A"
    proof (cases rule: rtrancl.cases)
      case rtrancl_refl
      then show ?thesis using b unfolding R by (auto intro: item_reach.start)
    next
      case (rtrancl_into_rtrancl y)
      then obtain rq where d: "(b, y, rq) \<in> set (deps_of g y)" using pulls_deps by blast
      have "call_name (b, y, rq) = b" using start_pulls_canonical(1) [OF wf rtrancl_into_rtrancl(2)] by simp
      moreover have "item_reach (deps_of g) call_name (named g) A (b, y, rq)"
        using call_reach [OF wf] b(2) rtrancl_into_rtrancl(1) d by blast
      ultimately show ?thesis using b(1) unfolding R by force
    qed
  qed
qed

section \<open>The roots of a plan\<close>

definition root_call :: "name \<Rightarrow> add_call" where
  "root_call r = (r, [], True)"

definition new_roots :: "name list \<Rightarrow> name list \<Rightarrow> name list" where
  "new_roots names rs = drop (length rs) (uniqueStable_loop names rs)"

lemma uniqueStable_loop_prefix: "uniqueStable_loop names rs = rs @ new_roots names rs"
proof -
  have "\<exists>ys. uniqueStable_loop names rs = rs @ ys"
  proof (induction names arbitrary: rs)
    case (Cons a names)
    then show ?case
      by (simp add: Let_def) (metis append_assoc)
  qed simp
  then show ?thesis by (auto simp: new_roots_def)
qed

lemma new_roots_Cons:
  "NormalizeName a \<noteq> [] \<Longrightarrow> NormalizeName a \<notin> set rs \<Longrightarrow>
   new_roots (a # names) rs = NormalizeName a # new_roots names (rs @ [NormalizeName a])"
proof -
  assume a: "NormalizeName a \<noteq> []" "NormalizeName a \<notin> set rs"
  then have "uniqueStable_loop (a # names) rs = uniqueStable_loop names (rs @ [NormalizeName a])"
    by (simp add: Let_def)
  then show ?thesis using uniqueStable_loop_prefix by (metis append_Cons append_Nil append_assoc same_append_eq)
qed

lemma plan_roots_eq:
  "[] \<notin> NormalizeName ` set names \<Longrightarrow>
   plan_roots g kind names rs js =
     (case add_all g kind (map root_call (new_roots names rs)) js of
        Inl e \<Rightarrow> Inl (PlanMissing e) | Inr js' \<Rightarrow> Inr (uniqueStable_loop names rs, js'))"
proof (induction names arbitrary: rs js)
  case (Cons a names)
  then have a: "NormalizeName a \<noteq> []" "[] \<notin> NormalizeName ` set names" by auto
  show ?case
  proof (cases "NormalizeName a \<in> set rs")
    case True
    then show ?thesis using a Cons.IH by (simp add: Let_def new_roots_def split: sum.split)
  next
    case False
    let ?c = "[(NormalizeName a, [], True)]" and ?r = "map root_call (new_roots names (rs @ [NormalizeName a]))"
    have "map root_call (new_roots (a # names) rs) = ?c @ ?r"
      using a False by (simp add: new_roots_Cons root_call_def)
    then have "add_all g kind (map root_call (new_roots (a # names) rs)) js =
        (case add_all g kind ?c js of Inl e \<Rightarrow> Inl e | Inr js' \<Rightarrow> add_all g kind ?r js')"
      by (simp only: add_all_append)
    then show ?thesis
      using a False Cons.IH by (simp add: Let_def del: add_all.simps split: sum.split)
  qed
qed (simp add: new_roots_def add_all.simps)

lemma plan_roots_empty: "[] \<in> NormalizeName ` set names \<Longrightarrow> \<exists>e. plan_roots g kind names rs js = Inl e"
proof (induction names arbitrary: rs js)
  case (Cons a names)
  show ?case
  proof (cases "NormalizeName a = []")
    case False
    then have "[] \<in> NormalizeName ` set names" using Cons.prems by auto
    then show ?thesis using False Cons.IH by (simp add: Let_def split: sum.split)
  qed simp
qed simp

lemma new_roots_Nil: "new_roots names [] = uniqueStable names"
  by (simp add: new_roots_def uniqueStable_def)

lemma plan_roots_start:
  "plan_roots g kind names [] [] = Inr (rs, js) \<longleftrightarrow>
     [] \<notin> NormalizeName ` set names \<and> rs = uniqueStable names
     \<and> add_all g kind (map root_call (uniqueStable names)) [] = Inr js"
proof (cases "[] \<in> NormalizeName ` set names")
  case True
  then show ?thesis using plan_roots_empty [OF True, of g kind "[]" "[]"] by auto
next
  case False
  then show ?thesis
    by (auto simp: plan_roots_eq new_roots_Nil uniqueStable_def [symmetric] split: sum.splits)
qed

section \<open>The ordering of a plan is the ordering of the graph\<close>

lemma set_push_inner:
  "set (fold (\<lambda>pred out. if map_of js pred = None then out else out(pred := out pred @ [nm])) ds out p) =
     set (out p) \<union> (if p \<in> set (job_keys js) \<and> p \<in> set ds then {nm} else {})"
  by (induction ds arbitrary: out) (auto simp: map_of_job_keys)

lemma set_push_outer:
  "set (fold (\<lambda>nm out. case gnode g nm of None \<Rightarrow> out
           | Some n \<Rightarrow> fold (\<lambda>pred out. if map_of js pred = None then out
                                     else out(pred := out pred @ [nm])) (deps n) out) nms out p) =
     set (out p) \<union> {nm \<in> set nms. p \<in> set (job_keys js) \<and> (\<exists>n. gnode g nm = Some n \<and> p \<in> set (deps n))}"
proof (induction nms arbitrary: out)
  case (Cons a nms)
  show ?case
  proof (cases "gnode g a")
    case None
    then show ?thesis using Cons by auto
  next
    case (Some n)
    then show ?thesis using Cons by (auto simp: set_push_inner)
  qed
qed simp

lemma set_push_waits:
  "set (push_waits deps js g p) =
     {nm \<in> set (job_keys js). p \<in> set (job_keys js) \<and> (\<exists>n. gnode g nm = Some n \<and> p \<in> set (deps n))}"
  by (simp add: push_waits_def set_push_outer)

lemma set_uniqueStable_loaded: "wf_graph g \<Longrightarrow> set xs \<subseteq> loaded g \<Longrightarrow> set (uniqueStable xs) = set xs"
  using loaded_canonical by (intro set_uniqueStable_canonical) blast

lemma in_graph_waits: "b \<in> set (graph_waits g a) \<longleftrightarrow> (\<exists>n. gnode g a = Some n \<and> b \<in> set (waitsFor n))"
  by (cases "gnode g a") (simp_all add: graph_waits_def)

lemma set_reverseWaits:
  assumes "wf_graph g" "set (job_keys js) \<subseteq> loaded g"
  shows "set (reverseWaits js g p) = {nm \<in> set (job_keys js). p \<in> set (job_keys js) \<and> p \<in> set (graph_waits g nm)}"
proof -
  have "set (reverseWaits js g p) = set (push_waits waitsFor js g p)"
    unfolding reverseWaits_def using assms by (intro set_uniqueStable_loaded) (auto simp: set_push_waits)
  also have "\<dots> = {nm \<in> set (job_keys js). p \<in> set (job_keys js) \<and> p \<in> set (graph_waits g nm)}"
    by (simp add: set_push_waits in_graph_waits)
  finally show ?thesis .
qed

lemma set_reverseRequirementWaits:
  assumes "wf_graph g" "set (job_keys js) \<subseteq> loaded g"
  shows "set (reverseRequirementWaits js g p) = {nm \<in> set (job_keys js). p \<in> set (job_keys js) \<and> (p, nm) \<in> stop_pulls g}"
proof -
  have "set (reverseRequirementWaits js g p) = set (push_waits (\<lambda>n. stopDepNames (Some n)) js g p)"
    unfolding reverseRequirementWaits_def using assms by (intro set_uniqueStable_loaded) (auto simp: set_push_waits)
  also have "\<dots> = {nm \<in> set (job_keys js). p \<in> set (job_keys js) \<and> (p, nm) \<in> stop_pulls g}"
  proof -
    have "p \<in> set (stopDepNames (Some n)) \<longleftrightarrow> p \<in> set (requires n) \<union> set (bindsTo n) \<union> set (partOf n)"
      if "gnode g nm = Some n" for nm n
      using set_stopDepNames [OF wf_graph_node(1) [OF assms(1) that]] by simp
    then show ?thesis unfolding set_push_waits stop_pulls_def stopRequiresName_iff by auto
  qed
  finally show ?thesis .
qed

lemma set_mergeWaits:
  assumes "wf_graph g" "set (a nm) \<union> set (b nm) \<subseteq> loaded g"
  shows "set (mergeWaits a b nm) = set (a nm) \<union> set (b nm)"
  unfolding mergeWaits_def using assms set_uniqueStable_loaded [of g "a nm @ b nm"] by simp

lemma set_start_waits:
  assumes "wf_graph g" "set (job_keys js) \<subseteq> loaded g"
  shows "set (start_waits js g a) = {b \<in> set (job_keys js). a \<in> set (job_keys js) \<and> b \<in> set (graph_waits g a)}"
proof (cases "gnode g a")
  case None
  then show ?thesis by (simp add: start_waits_def graph_waits_def)
next
  case (Some n)
  have k: "map_of js dep \<noteq> None \<longleftrightarrow> dep \<in> set (job_keys js)" for dep by (simp add: map_of_job_keys)
  have "set (uniqueStable (filter (\<lambda>dep. map_of js dep \<noteq> None) (waitsFor n)))
      = set (filter (\<lambda>dep. map_of js dep \<noteq> None) (waitsFor n))"
    by (rule set_uniqueStable_loaded [OF assms(1)]) (use wf_graph_node(2) [OF assms(1) Some] in auto)
  then have "set (start_waits js g a) = {b. a \<in> set (job_keys js) \<and> b \<in> set (waitsFor n) \<and> b \<in> set (job_keys js)}"
    by (simp add: start_waits_def Some map_of_job_keys k del: set_uniqueStable not_None_eq)
  then show ?thesis by (auto simp: in_graph_waits Some)
qed

section \<open>Well-formed transactions\<close>

definition wf_tx :: "Transaction \<Rightarrow> bool" where
  "wf_tx tx \<longleftrightarrow> wf_graph (txGraph tx) \<and> jobs tx \<noteq> [] \<and> distinct (job_keys (jobs tx)) \<and> set (job_keys (jobs tx)) \<subseteq> loaded (txGraph tx)
     \<and> (\<forall>nm. distinct (txWaits tx nm) \<and> set (txWaits tx nm) \<subseteq> set (job_keys (jobs tx)))
     \<and> acyclic (edges (set (job_keys (jobs tx))) (txWaits tx))"

lemma validated_Inr:
  assumes "wf_graph (txGraph tx)" "set (job_keys (jobs tx)) \<subseteq> loaded (txGraph tx)"
  shows "validated tx = Inr tx' \<longleftrightarrow> tx' = tx \<and> jobs tx \<noteq> [] \<and> acyclic (edges (set (job_keys (jobs tx))) (txWaits tx))"
proof -
  have "[] \<notin> set (jobNames tx)" "set (jobNames tx) = set (job_keys (jobs tx))"
    using assms loaded_canonical(2) by (auto simp: jobNames_def)
  then show ?thesis
    using findCycle_None_iff [of "jobNames tx" "txWaits tx"]
    by (auto simp: validated_def validate_def split: option.splits if_splits)
qed

lemma edges_start_waits:
  assumes "wf_graph g" "set (job_keys js) \<subseteq> loaded g"
  shows "edges (set (job_keys js)) (start_waits js g) = edges (set (job_keys js)) (graph_waits g)"
  by (auto simp: edges_def set_start_waits [OF assms])

lemma edges_reverseWaits:
  assumes "wf_graph g" "set (job_keys js) \<subseteq> loaded g"
  shows "edges (set (job_keys js)) (reverseWaits js g) = (edges (set (job_keys js)) (graph_waits g))\<inverse>"
  by (auto simp: edges_def set_reverseWaits [OF assms])

section \<open>Start plans\<close>

lemma add_all_start:
  assumes wf: "wf_graph g"
  shows "(\<exists>js. add_all g JobStart (map root_call rs) [] = Inr js) \<longleftrightarrow>
     (\<forall>r \<in> set rs. NormalizeName r \<in> loaded g) \<and> (\<forall>a \<in> pulled g rs. start_needs g a \<subseteq> loaded g)" (is "?L \<longleftrightarrow> ?R")
proof -
  have L: "?L \<longleftrightarrow> (\<forall>c. item_reach (deps_of g) call_name (named g) (root_call ` set rs) c
      \<longrightarrow> call_name c \<in> loaded g \<or> call_fails JobStart c = None)"
    using ad.walks_ok_iff [of "[]" g JobStart "map root_call rs"] named_wf [OF wf] by (simp add: job_keys_def)
  have cf: "call_fails JobStart (b, x, rq) = None \<longleftrightarrow> \<not> rq" for b x rq by (simp add: call_fails_def)
  show ?thesis
  proof
    assume ?L
    then have h: "item_reach (deps_of g) call_name (named g) (root_call ` set rs) c
      \<Longrightarrow> call_name c \<in> loaded g \<or> call_fails JobStart c = None" for c unfolding L by (rule allE) (erule mp)
    have "NormalizeName r \<in> loaded g" if "r \<in> set rs" for r
      using h [of "root_call r"] that by (auto simp: call_reach [OF wf] root_call_def cf)
    moreover have "b \<in> loaded g" if a: "a \<in> pulled g rs" and b: "b \<in> start_needs g a" for a b
    proof -
      have d: "(b, a, True) \<in> set (deps_of g a)" using b by (simp add: set_deps_of)
      obtain r where "r \<in> set rs" "(call_name (root_call r), a) \<in> (start_pulls g)\<^sup>*"
        using a by (auto simp: pulled_def root_call_def)
      then have "item_reach (deps_of g) call_name (named g) (root_call ` set rs) (b, a, True)"
        using d unfolding call_reach [OF wf] by blast
      from h [OF this] show ?thesis
        using start_pulls_canonical(1) [OF wf deps_pulls [OF d]] by (simp add: cf)
    qed
    ultimately show ?R by blast
  next
    assume R: ?R
    show ?L unfolding L call_reach [OF wf]
    proof (intro allI impI, elim disjE bexE exE conjE)
      fix c assume "c \<in> root_call ` set rs"
      then show "call_name c \<in> loaded g \<or> call_fails JobStart c = None" using R by (auto simp: root_call_def)
    next
      fix c c0 x assume c: "c0 \<in> root_call ` set rs" "(call_name c0, x) \<in> (start_pulls g)\<^sup>*" "c \<in> set (deps_of g x)"
      have "x \<in> pulled g rs"
        using c call_name_dep(2) [OF wf c(3)] by (auto simp: pulled_def root_call_def)
      then have n: "start_needs g x \<subseteq> loaded g" using R by blast
      obtain b rb rq where cc: "c = (b, rb, rq)" by (cases c)
      then show "call_name c \<in> loaded g \<or> call_fails JobStart c = None"
        using c(3) n start_pulls_canonical(1) [OF wf deps_pulls [OF c(3) [unfolded cc]]]
        by (cases rq) (auto simp: cf set_deps_of)
    qed
  qed
qed

lemma add_all_jobs:
  assumes "wf_graph g" "add_all g kind cs [] = Inr js"
  shows "set (job_keys js) = {b \<in> loaded g. \<exists>c \<in> set cs. (call_name c, b) \<in> (start_pulls g)\<^sup>*}"
    "distinct (job_keys js)" "\<forall>(nm, j) \<in> set js. j = \<lparr>JobName = nm, JobKindOf = kind\<rparr>"
proof -
  have "job_keys [] = []" by (simp add: job_keys_def)
  note w = ad.walks_reached [OF this assms(2)]
  show "distinct (job_keys js)" by (rule w(2))
  show "set (job_keys js) = {b \<in> loaded g. \<exists>c \<in> set cs. (call_name c, b) \<in> (start_pulls g)\<^sup>*}"
    using w(1) by (simp only: add_reached [OF assms(1)])
  show "\<forall>(nm, j) \<in> set js. j = \<lparr>JobName = nm, JobKindOf = kind\<rparr>"
    using add_all_kinds [OF assms(2)] by simp
qed

lemma pulled_root_calls:
  "{b \<in> loaded g. \<exists>c \<in> set (map root_call rs). (call_name c, b) \<in> (start_pulls g)\<^sup>*} = pulled g rs"
  by (auto simp: pulled_def root_call_def)

lemma norm_uniqueStable: "[] \<notin> NormalizeName ` set names \<Longrightarrow> NormalizeName ` set (uniqueStable names) = NormalizeName ` set names"
  by (force simp: image_iff)

lemma pulled_uniqueStable:
  assumes "[] \<notin> NormalizeName ` set names"
  shows "pulled g (uniqueStable names) = pulled g names"
proof -
  have "pulled g ns = {b \<in> loaded g. \<exists>x \<in> NormalizeName ` set ns. (x, b) \<in> (start_pulls g)\<^sup>*}" for ns
    by (auto simp: pulled_def)
  then show ?thesis by (simp only: norm_uniqueStable [OF assms])
qed

lemma root_job_keys:
  assumes "wf_graph g" "add_all g kind (map root_call (uniqueStable names)) [] = Inr js" "[] \<notin> NormalizeName ` set names"
  shows "set (job_keys js) = pulled g names"
  by (simp only: add_all_jobs(1) [OF assms(1,2)] pulled_root_calls pulled_uniqueStable [OF assms(3)])

lemma PlanStart_Inr:
  assumes wf: "wf_graph g"
  shows "PlanStart (Some g) names = Inr tx \<longleftrightarrow>
     names \<noteq> [] \<and> [] \<notin> NormalizeName ` set names
     \<and> acyclic (edges (pulled g names) (graph_waits g))
     \<and> (\<exists>js. add_all g JobStart (map root_call (uniqueStable names)) [] = Inr js \<and> js \<noteq> []
          \<and> tx = \<lparr>txGraph = g, roots = uniqueStable names, jobs = js, txWaits = start_waits js g\<rparr>)"
proof -
  have k: "set (job_keys js) = pulled g names"
    if "add_all g JobStart (map root_call (uniqueStable names)) [] = Inr js" "[] \<notin> NormalizeName ` set names" for js
    by (rule root_job_keys [OF wf that])
  have v: "validated \<lparr>txGraph = g, roots = rs, jobs = js, txWaits = start_waits js g\<rparr> = Inr tx \<longleftrightarrow>
     tx = \<lparr>txGraph = g, roots = rs, jobs = js, txWaits = start_waits js g\<rparr> \<and> js \<noteq> []
     \<and> acyclic (edges (set (job_keys js)) (graph_waits g))"
    if "set (job_keys js) \<subseteq> loaded g" for js rs
    using validated_Inr [of "\<lparr>txGraph = g, roots = rs, jobs = js, txWaits = start_waits js g\<rparr>" tx] wf that
    by (simp add: edges_start_waits)
  have sub: "pulled g names \<subseteq> loaded g" by (auto simp: pulled_def)
  show ?thesis
  proof (cases "plan_roots g JobStart names [] []")
    case (Inl e)
    then have "\<not> ([] \<notin> NormalizeName ` set names \<and> (\<exists>js. add_all g JobStart (map root_call (uniqueStable names)) [] = Inr js))"
      using plan_roots_start [of g JobStart names] by fastforce
    then show ?thesis using Inl by (auto simp: PlanStart_def plan_def)
  next
    case (Inr p)
    obtain rs js where p: "p = (rs, js)" by fastforce
    have r: "[] \<notin> NormalizeName ` set names" "rs = uniqueStable names"
      "add_all g JobStart (map root_call (uniqueStable names)) [] = Inr js"
      using Inr plan_roots_start [of g JobStart names rs js] unfolding p by blast+
    have "PlanStart (Some g) names = Inr tx \<longleftrightarrow> names \<noteq> [] \<and>
        validated \<lparr>txGraph = g, roots = rs, jobs = js, txWaits = start_waits js g\<rparr> = Inr tx"
      using Inr by (simp add: PlanStart_def plan_def p)
    then show ?thesis using v [of js rs] k [OF r(3,1)] sub r by auto
  qed
qed

text \<open>
  C5: start plans are exact.  On a graph returned by \<open>Build\<close>, \<open>PlanStart\<close> succeeds if and only if at
  least one unit is named, every named unit is loaded, every unit that \<open>Requires=\<close> or \<open>BindsTo=\<close> of a
  pulled-in unit names is loaded, and the ordering among the pulled-in units has no cycle.
\<close>

theorem PlanStart_ok_iff:
  assumes "Build units = Inr g"
  shows "(\<exists>tx. PlanStart (Some g) names = Inr tx) \<longleftrightarrow>
     names \<noteq> [] \<and> NormalizeName ` set names \<subseteq> loaded g
     \<and> (\<Union>a \<in> pulled g names. start_needs g a) \<subseteq> loaded g
     \<and> acyclic (edges (pulled g names) (graph_waits g))" (is "?L \<longleftrightarrow> ?R")
proof -
  have wf: "wf_graph g" by (rule Build_wf [OF assms])
  have ne: "[] \<notin> loaded g" using loaded_canonical(2) [OF wf] by blast
  let ?A = "\<lambda>js. add_all g JobStart (map root_call (uniqueStable names)) [] = Inr js"
  have A: "(\<exists>js. ?A js) \<longleftrightarrow> NormalizeName ` set names \<subseteq> loaded g \<and> (\<Union>a \<in> pulled g names. start_needs g a) \<subseteq> loaded g"
    if "[] \<notin> NormalizeName ` set names"
    using add_all_start [OF wf, of "uniqueStable names"] norm_uniqueStable [OF that] pulled_uniqueStable [OF that]
    by (simp add: image_subset_iff [symmetric] UN_subset_iff del: set_uniqueStable)
  have N: "js \<noteq> []" if js: "?A js" "names \<noteq> []" "[] \<notin> NormalizeName ` set names" for js
  proof -
    have "NormalizeName (hd names) \<in> pulled g names"
      using A [OF js(3)] js(1,2) by (auto simp: pulled_def)
    then show ?thesis using root_job_keys [OF wf js(1,3)] by (auto simp: job_keys_def)
  qed
  show ?thesis
  proof
    assume ?L
    then show ?R using A unfolding PlanStart_Inr [OF wf] by blast
  next
    assume ?R
    then have R: "names \<noteq> []" "NormalizeName ` set names \<subseteq> loaded g"
      "(\<Union>a \<in> pulled g names. start_needs g a) \<subseteq> loaded g" "acyclic (edges (pulled g names) (graph_waits g))" by simp_all
    have e: "[] \<notin> NormalizeName ` set names" using R(2) ne by auto
    have "\<exists>js. ?A js" using A [OF e] R(2,3) by simp
    then obtain js where js: "?A js" by (elim exE)
    have "js \<noteq> []" by (rule N [OF js R(1) e])
    then have "PlanStart (Some g) names = Inr \<lparr>txGraph = g, roots = uniqueStable names, jobs = js, txWaits = start_waits js g\<rparr>"
      unfolding PlanStart_Inr [OF wf] using R e js by (intro conjI exI [of _ js]) simp_all
    then show ?L by blast
  qed
qed

text \<open>Facts about the transaction a successful start plan returns.\<close>

lemma JobKindOf_all:
  assumes "\<forall>(nm, j) \<in> set js. j = \<lparr>JobName = nm, JobKindOf = kind\<rparr>" "jobs tx = js"
  shows "JobKindOf ` set (Jobs (Some tx)) \<subseteq> {kind}"
proof -
  have "JobKindOf (the (map_of js a)) = kind" if "a \<in> set (job_keys js)" for a
  proof -
    have "map_of js a \<noteq> None" using that by (simp add: map_of_job_keys del: not_None_eq)
    then obtain j where j: "map_of js a = Some j" by auto
    then have "(a, j) \<in> set js" by (rule map_of_SomeD)
    then have "j = \<lparr>JobName = a, JobKindOf = kind\<rparr>" using assms(1) by blast
    then show ?thesis using j by simp
  qed
  then show ?thesis
    using assms(2) by (simp add: Jobs_def jobNames_def image_subset_iff)
qed

lemma pulled_needs:
  assumes wf: "wf_graph g" and "[] \<notin> NormalizeName ` set names"
    and "add_all g JobStart (map root_call (uniqueStable names)) [] = Inr js" and a: "a \<in> pulled g names"
  shows "start_needs g a \<subseteq> pulled g names"
proof
  fix b assume b: "b \<in> start_needs g a"
  then have "(a, b) \<in> start_pulls g" by (intro deps_pulls [of b a True]) (simp add: set_deps_of)
  moreover have "\<forall>a \<in> pulled g (uniqueStable names). start_needs g a \<subseteq> loaded g"
    using add_all_start [OF wf, of "uniqueStable names"] assms(3) by blast
  then have "b \<in> loaded g" using a b pulled_uniqueStable [OF assms(2)] by auto
  ultimately show "b \<in> pulled g names" using a by (auto simp: pulled_def intro: rtrancl_into_rtrancl)
qed

lemma WaitsFor_of_graph_waits:
  "wf_graph g \<Longrightarrow> a \<in> loaded g \<Longrightarrow> WaitsFor_of (Some g) a = graph_waits g a"
  by (cases "gnode g a")
    (simp_all add: WaitsFor_of_def names_field_def node_of_def graph_waits_def cloneNames_def wf_norm_loaded)

lemma wf_tx_start:
  assumes "wf_graph g" "set (job_keys js) \<subseteq> loaded g" "distinct (job_keys js)" "js \<noteq> []"
    "acyclic (edges (set (job_keys js)) (graph_waits g))"
  shows "wf_tx \<lparr>txGraph = g, roots = rs, jobs = js, txWaits = start_waits js g\<rparr>"
proof -
  have "distinct (start_waits js g nm)" for nm by (simp add: start_waits_def split: option.splits)
  moreover have "set (start_waits js g nm) \<subseteq> set (job_keys js)" for nm
    by (auto simp: set_start_waits [OF assms(1,2)])
  ultimately show ?thesis using assms by (simp add: wf_tx_def edges_start_waits)
qed

lemma PlanStart_shape:
  assumes wf: "wf_graph g" and "PlanStart (Some g) names = Inr tx"
  obtains js where "add_all g JobStart (map root_call (uniqueStable names)) [] = Inr js"
    "[] \<notin> NormalizeName ` set names" "set (job_keys js) = pulled g names" "set (job_keys js) \<subseteq> loaded g"
    "tx = \<lparr>txGraph = g, roots = uniqueStable names, jobs = js, txWaits = start_waits js g\<rparr>" "wf_tx tx"
proof -
  obtain js where js: "add_all g JobStart (map root_call (uniqueStable names)) [] = Inr js" "js \<noteq> []"
    "[] \<notin> NormalizeName ` set names" "acyclic (edges (pulled g names) (graph_waits g))"
    "tx = \<lparr>txGraph = g, roots = uniqueStable names, jobs = js, txWaits = start_waits js g\<rparr>"
    using assms(2) unfolding PlanStart_Inr [OF wf] by blast
  have k: "set (job_keys js) = pulled g names" by (rule root_job_keys [OF wf js(1,3)])
  have ks: "set (job_keys js) \<subseteq> loaded g" unfolding k by (auto simp: pulled_def)
  have "wf_tx tx"
    unfolding js(5) using js(2,4) k ks add_all_jobs(2) [OF wf js(1)] by (intro wf_tx_start [OF wf]) simp_all
  then show thesis using that js(1,3,5) k ks by blast
qed

lemma PlanStart_wf_tx: "Build units = Inr g \<Longrightarrow> PlanStart (Some g) names = Inr tx \<Longrightarrow> wf_tx tx"
  using PlanStart_shape [OF Build_wf] by metis

text \<open>
  C6: what a start plan holds.  The jobs of a plan are exactly the loaded units reachable from the
  named ones through \<open>Requires=\<close>, \<open>BindsTo=\<close> and \<open>Wants=\<close>, each a start job; they contain every unit
  that a job requires; a job waits for exactly the jobs it is ordered after; and the plan satisfies
  the invariant the executor relies on (distinct jobs, ordering among jobs only, acyclic).
\<close>

theorem PlanStart_jobs:
  assumes "Build units = Inr g" and "PlanStart (Some g) names = Inr tx"
  shows "wf_tx tx \<and> set (Units (Some tx)) = pulled g names
     \<and> JobKindOf ` set (Jobs (Some tx)) \<subseteq> {JobStart}
     \<and> (\<Union>a \<in> set (Units (Some tx)). start_needs g a) \<subseteq> set (Units (Some tx))
     \<and> (\<forall>a \<in> set (Units (Some tx)). set (txWaits tx a) = set (WaitsFor_of (Some g) a) \<inter> set (Units (Some tx)))"
proof -
  have wf: "wf_graph g" by (rule Build_wf [OF assms(1)])
  obtain js where js: "add_all g JobStart (map root_call (uniqueStable names)) [] = Inr js" "[] \<notin> NormalizeName ` set names"
    and k: "set (job_keys js) = pulled g names" and ks: "set (job_keys js) \<subseteq> loaded g"
    and tx: "tx = \<lparr>txGraph = g, roots = uniqueStable names, jobs = js, txWaits = start_waits js g\<rparr>" "wf_tx tx"
    by (rule PlanStart_shape [OF wf assms(2)])
  have sub: "pulled g names \<subseteq> loaded g" using k ks by simp
  have u: "set (Units (Some tx)) = pulled g names" by (simp add: Units_def jobNames_def tx(1) k)
  note tx(2)
  moreover have "JobKindOf ` set (Jobs (Some tx)) \<subseteq> {JobStart}"
    by (rule JobKindOf_all [OF add_all_jobs(3) [OF wf js(1)]]) (simp add: tx(1))
  moreover have "(\<Union>a \<in> pulled g names. start_needs g a) \<subseteq> pulled g names"
    using pulled_needs [OF wf js(2,1)] by (rule UN_least)
  moreover have "set (txWaits tx a) = set (WaitsFor_of (Some g) a) \<inter> pulled g names" if "a \<in> pulled g names" for a
    using that sub k WaitsFor_of_graph_waits [OF wf, of a] by (auto simp: tx(1) set_start_waits [OF wf ks])
  ultimately show ?thesis unfolding u by blast
qed

section \<open>Stop plans\<close>

definition stop_set :: "Graph \<Rightarrow> name list \<Rightarrow> name set" where
  "stop_set g names = {b. \<exists>r \<in> set names. (NormalizeName r, b) \<in> (stop_pulls g)\<^sup>*}"

text \<open>\<open>stop_order\<close> relates a unit to those that must stop before it.\<close>

definition stop_order :: "Graph \<Rightarrow> name \<Rightarrow> name set" where
  "stop_order g a = {b. a \<in> set (graph_waits g b) \<or> (a, b) \<in> stop_pulls g}"

lemma stop_roots_Inr:
  "stop_roots g names rs = Inr rs' \<longleftrightarrow>
     [] \<notin> NormalizeName ` set names \<and> NormalizeName ` set names \<subseteq> loaded g \<union> set rs \<and> rs' = uniqueStable_loop names rs"
proof (induction names arbitrary: rs)
  case (Cons a names)
  consider "NormalizeName a = []" | "NormalizeName a \<noteq> []" "NormalizeName a \<in> set rs"
    | "NormalizeName a \<noteq> []" "NormalizeName a \<notin> set rs" "NormalizeName a \<notin> loaded g"
    | "NormalizeName a \<noteq> []" "NormalizeName a \<notin> set rs" "NormalizeName a \<in> loaded g" by blast
  then show ?case
  proof cases
    case 4
    then show ?thesis using Cons.IH [of "rs @ [NormalizeName a]"] by (auto simp: Let_def gnode_None)
  qed (auto simp: Let_def gnode_None Cons.IH)
qed auto

lemma stop_set_loaded: "NormalizeName ` set names \<subseteq> loaded g \<Longrightarrow> stop_set g names \<subseteq> loaded g"
proof
  fix b assume n: "NormalizeName ` set names \<subseteq> loaded g" and "b \<in> stop_set g names"
  then obtain r where "r \<in> set names" "(NormalizeName r, b) \<in> (stop_pulls g)\<^sup>*" by (auto simp: stop_set_def)
  then show "b \<in> loaded g" using n stop_pulls_loaded by (metis image_subset_iff rtranclE)
qed

lemma set_closure_stop_set:
  assumes wf: "wf_graph g" and "NormalizeName ` set names \<subseteq> loaded g"
  shows "set (reverseRequirementClosure (Some g) (uniqueStable names)) = stop_set g names"
proof -
  have e: "[] \<notin> NormalizeName ` set names" using assms(2) loaded_canonical(2) [OF wf] by blast
  have "set (reverseRequirementClosure (Some g) (uniqueStable names)) =
     {b. \<exists>x \<in> NormalizeName ` set (uniqueStable names). x \<in> loaded g \<and> (x, b) \<in> (stop_pulls g)\<^sup>*}"
    by (simp add: set_reverseRequirementClosure(1) [OF wf] del: set_uniqueStable)
  also have "\<dots> = {b. \<exists>x \<in> NormalizeName ` set names. x \<in> loaded g \<and> (x, b) \<in> (stop_pulls g)\<^sup>*}"
    by (simp only: norm_uniqueStable [OF e])
  also have "\<dots> = stop_set g names" using assms(2) by (auto simp: stop_set_def)
  finally show ?thesis .
qed

definition stop_jobs :: "Graph \<Rightarrow> name list \<Rightarrow> jobs_map" where
  "stop_jobs g rs = map (\<lambda>nm. (nm, \<lparr>JobName = nm, JobKindOf = JobStop\<rparr>)) (reverseRequirementClosure (Some g) rs)"

definition stop_waits :: "jobs_map \<Rightarrow> Graph \<Rightarrow> waits" where
  "stop_waits js g = mergeWaits (reverseWaits js g) (reverseRequirementWaits js g)"

lemma job_keys_stop_jobs [simp]: "job_keys (stop_jobs g rs) = reverseRequirementClosure (Some g) rs"
  by (simp add: job_keys_def stop_jobs_def o_def)

lemma set_stop_waits:
  assumes wf: "wf_graph g" and sub: "set (job_keys js) \<subseteq> loaded g"
  shows "set (stop_waits js g a) = {b \<in> set (job_keys js). a \<in> set (job_keys js) \<and> b \<in> stop_order g a}"
proof -
  have "set (stop_waits js g a) = set (reverseWaits js g a) \<union> set (reverseRequirementWaits js g a)"
    unfolding stop_waits_def using sub
    by (intro set_mergeWaits [OF wf]) (auto simp: set_reverseWaits [OF wf sub] set_reverseRequirementWaits [OF wf sub])
  then show ?thesis
    by (auto simp: set_reverseWaits [OF wf sub] set_reverseRequirementWaits [OF wf sub] stop_order_def)
qed

definition stop_edges :: "Graph \<Rightarrow> name set \<Rightarrow> (name \<times> name) set" where
  "stop_edges g J = {(a, b). a \<in> J \<and> b \<in> J \<and> b \<in> stop_order g a}"

lemma edges_stop_waits:
  assumes "wf_graph g" "set (job_keys js) \<subseteq> loaded g"
  shows "edges (set (job_keys js)) (stop_waits js g) = stop_edges g (set (job_keys js))"
  by (auto simp: edges_def stop_edges_def set_stop_waits [OF assms])

lemma PlanStop_Inr:
  assumes wf: "wf_graph g"
  shows "PlanStop (Some g) names = Inr tx \<longleftrightarrow>
     names \<noteq> [] \<and> NormalizeName ` set names \<subseteq> loaded g \<and> acyclic (stop_edges g (stop_set g names))
     \<and> tx = \<lparr>txGraph = g, roots = uniqueStable names, jobs = stop_jobs g (uniqueStable names),
           txWaits = stop_waits (stop_jobs g (uniqueStable names)) g\<rparr>"
proof (cases "names \<noteq> [] \<and> NormalizeName ` set names \<subseteq> loaded g")
  case False
  then show ?thesis using stop_roots_Inr [of g names "[]"] by (auto simp: PlanStop_def split: sum.splits)
next
  case True
  let ?js = "stop_jobs g (uniqueStable names)"
  let ?tx = "\<lparr>txGraph = g, roots = uniqueStable names, jobs = ?js, txWaits = stop_waits ?js g\<rparr>"
  have r: "stop_roots g names [] = Inr (uniqueStable names)"
    using True loaded_canonical(2) [OF wf] by (auto simp: stop_roots_Inr uniqueStable_def)
  have k: "set (job_keys ?js) = stop_set g names" using set_closure_stop_set [OF wf] True by simp
  have sub: "set (job_keys ?js) \<subseteq> loaded g" using k stop_set_loaded True by metis
  have "NormalizeName (hd names) \<in> stop_set g names" using True by (auto simp: stop_set_def)
  then have ne: "?js \<noteq> []" using k by (auto simp: job_keys_def)
  have "PlanStop (Some g) names = validated ?tx"
    using True by (simp add: PlanStop_def r Let_def stop_jobs_def stop_waits_def)
  then show ?thesis
    using validated_Inr [of ?tx tx] wf sub ne True k edges_stop_waits [OF wf sub] by auto
qed

lemma PlanStop_shape:
  fixes names g
  assumes wf: "wf_graph g" and "PlanStop (Some g) names = Inr tx"
  defines "js \<equiv> stop_jobs g (uniqueStable names)"
  shows "tx = \<lparr>txGraph = g, roots = uniqueStable names, jobs = js, txWaits = stop_waits js g\<rparr>"
    "set (job_keys js) = stop_set g names" "set (job_keys js) \<subseteq> loaded g" "wf_tx tx"
proof -
  have p: "NormalizeName ` set names \<subseteq> loaded g" "acyclic (stop_edges g (stop_set g names))" "names \<noteq> []"
    and tx: "tx = \<lparr>txGraph = g, roots = uniqueStable names, jobs = js, txWaits = stop_waits js g\<rparr>"
    using assms(2) unfolding PlanStop_Inr [OF wf] js_def by simp_all
  have k: "set (job_keys js) = stop_set g names" using set_closure_stop_set [OF wf p(1)] by (simp add: js_def)
  have sub: "set (job_keys js) \<subseteq> loaded g" using k stop_set_loaded [OF p(1)] by simp
  have "NormalizeName (hd names) \<in> stop_set g names" using p(3) by (auto simp: stop_set_def)
  then have "js \<noteq> []" using k by (auto simp: job_keys_def)
  moreover have "distinct (stop_waits js g nm)" for nm by (simp add: stop_waits_def mergeWaits_def)
  moreover have "set (stop_waits js g nm) \<subseteq> set (job_keys js)" for nm by (auto simp: set_stop_waits [OF wf sub])
  moreover have "distinct (job_keys js)" using set_reverseRequirementClosure(2) [OF wf] by (simp add: js_def)
  ultimately have "wf_tx tx" using wf p(2) k sub edges_stop_waits [OF wf sub] by (simp add: wf_tx_def tx)
  then show "tx = \<lparr>txGraph = g, roots = uniqueStable names, jobs = js, txWaits = stop_waits js g\<rparr>"
    "set (job_keys js) = stop_set g names" "set (job_keys js) \<subseteq> loaded g" "wf_tx tx" using tx k sub by simp_all
qed

text \<open>
  C7: stopping a unit.  A stop plan exists exactly when the named units are loaded and the combined
  stop order has no cycle.  It then stops exactly the named units and the units that require, bind to
  or are part of one of them, transitively; every dependent stops before the unit it depends on and
  a unit ordered after another stops before it; and the plan satisfies the executor's invariant.
\<close>

theorem PlanStop_jobs:
  assumes "Build units = Inr g" and "PlanStop (Some g) names = Inr tx"
  shows "wf_tx tx \<and> set (Units (Some tx)) = stop_set g names
     \<and> JobKindOf ` set (Jobs (Some tx)) \<subseteq> {JobStop}
     \<and> (\<forall>a \<in> set (Units (Some tx)). set (txWaits tx a) =
          {b \<in> set (Units (Some tx)). a \<in> set (WaitsFor_of (Some g) b) \<or> stopRequiresName (gnode g b) a})"
proof -
  have wf: "wf_graph g" by (rule Build_wf [OF assms(1)])
  let ?js = "stop_jobs g (uniqueStable names)"
  note tx = PlanStop_shape(1) [OF wf assms(2)] and k = PlanStop_shape(2) [OF wf assms(2)]
    and sub = PlanStop_shape(3) [OF wf assms(2)]
  have u: "set (Units (Some tx)) = stop_set g names" using k by (simp add: Units_def jobNames_def tx)
  have "wf_tx tx" by (rule PlanStop_shape(4) [OF wf assms(2)])
  moreover have "JobKindOf ` set (Jobs (Some tx)) \<subseteq> {JobStop}"
    by (rule JobKindOf_all [of ?js]) (auto simp: stop_jobs_def tx)
  moreover have "set (txWaits tx a) = {b \<in> stop_set g names. a \<in> set (WaitsFor_of (Some g) b) \<or> stopRequiresName (gnode g b) a}"
    if "a \<in> stop_set g names" for a
    using that k sub WaitsFor_of_graph_waits [OF wf]
    by (auto simp: tx set_stop_waits [OF wf sub] stop_order_def stop_pulls_def)
  ultimately show ?thesis unfolding u by blast
qed

section \<open>Shutdown plans\<close>

text \<open>
  A shutdown pulls what a start pulls, from the named units and from every unit ordered after one of
  them.
\<close>

definition shutdown_set :: "Graph \<Rightarrow> name list \<Rightarrow> name set" where
  "shutdown_set g names =
     {b \<in> loaded g. \<exists>r \<in> set names. \<exists>x. (NormalizeName r, x) \<in> (order_after g)\<^sup>* \<and> (x, b) \<in> (start_pulls g)\<^sup>*}"

definition later_call :: "name \<Rightarrow> add_call" where
  "later_call x = (x, [], False)"

lemma call_fails_stop: "call_fails JobStop (nm, rb, rq) = None \<longleftrightarrow> \<not> rq \<or> rb \<noteq> [] \<or> NormalizeName nm = []"
  by (auto simp: call_fails_def)

lemma add_all_stop:
  assumes wf: "wf_graph g"
  shows "(\<exists>js. add_all g JobStop (map root_call rs @ map later_call ls) [] = Inr js) \<longleftrightarrow>
     (\<forall>r \<in> set rs. NormalizeName r = [] \<or> NormalizeName r \<in> loaded g)" (is "?L \<longleftrightarrow> ?R")
proof -
  let ?A = "set (map root_call rs @ map later_call ls)"
  have L: "?L \<longleftrightarrow> (\<forall>c. item_reach (deps_of g) call_name (named g) ?A c
      \<longrightarrow> call_name c \<in> loaded g \<or> call_fails JobStop c = None)"
    using ad.walks_ok_iff [of "[]" g JobStop] named_wf [OF wf] by (simp add: job_keys_def)
  have dep: "call_fails JobStop c = None" if "c \<in> set (deps_of g x)" for c x
  proof -
    obtain b rb rq where c: "c = (b, rb, rq)" by (cases c)
    then have "rb = x" using that by (simp add: set_deps_of)
    moreover have "x \<noteq> []" using call_name_dep(2) [OF wf that] loaded_canonical(2) [OF wf] by blast
    ultimately show ?thesis by (simp add: c call_fails_stop)
  qed
  have "?L \<longleftrightarrow> (\<forall>c \<in> ?A. call_name c \<in> loaded g \<or> call_fails JobStop c = None)"
    unfolding L call_reach [OF wf] Ball_def using dep by (intro iff_allI) metis
  also have "\<dots> \<longleftrightarrow> ?R"
    by (auto simp: root_call_def later_call_def call_fails_stop ball_Un)
  finally show ?thesis .
qed

definition shutdown_calls :: "Graph \<Rightarrow> name list \<Rightarrow> add_call list" where
  "shutdown_calls g names =
     map root_call (uniqueStable names) @ map later_call (afterClosure g (uniqueStable names))"

lemma shutdown_job_keys:
  assumes wf: "wf_graph g" and "NormalizeName ` set names \<subseteq> loaded g"
    and "add_all g JobStop (shutdown_calls g names) [] = Inr js"
  shows "set (job_keys js) = shutdown_set g names"
proof -
  have e: "[] \<notin> NormalizeName ` set names" using assms(2) loaded_canonical(2) [OF wf] by blast
  have c: "call_name ` set (shutdown_calls g names) = {x. \<exists>r \<in> set names. (NormalizeName r, x) \<in> (order_after g)\<^sup>*}"
  proof -
    let ?U = "NormalizeName ` set (uniqueStable names)"
    have n: "NormalizeName b = b" if "(a, b) \<in> (order_after g)\<^sup>+" for a b
      using that order_after_loaded wf_norm_loaded [OF wf] by (metis tranclD2)
    have "set (afterClosure g (uniqueStable names)) = {b. \<exists>x \<in> ?U. (x, b) \<in> (order_after g)\<^sup>+}"
      by (simp add: set_afterClosure(1) [OF wf] del: set_uniqueStable)
    then have "call_name ` set (shutdown_calls g names) = ?U \<union> NormalizeName ` {b. \<exists>x \<in> ?U. (x, b) \<in> (order_after g)\<^sup>+}"
      by (simp add: shutdown_calls_def image_Un image_image root_call_def later_call_def del: set_uniqueStable)
    also have "\<dots> = ?U \<union> {b. \<exists>x \<in> ?U. (x, b) \<in> (order_after g)\<^sup>+}"
      using n by (force simp del: set_uniqueStable)
    finally show ?thesis
      unfolding norm_uniqueStable [OF e] by (auto simp: rtrancl_eq_or_trancl)
  qed
  have "set (job_keys js) = {b \<in> loaded g. \<exists>x \<in> call_name ` set (shutdown_calls g names). (x, b) \<in> (start_pulls g)\<^sup>*}"
    using add_all_jobs(1) [OF wf assms(3)] by simp
  then show ?thesis unfolding c by (auto simp: shutdown_set_def)
qed

lemma edges_converse_acyclic:
  assumes "wf_graph g" "set (job_keys js) \<subseteq> loaded g"
  shows "acyclic (edges (set (job_keys js)) (reverseWaits js g)) \<longleftrightarrow> acyclic (edges (set (job_keys js)) (graph_waits g))"
  by (simp add: edges_reverseWaits [OF assms] acyclic_converse)

lemma PlanShutdown_Inr:
  assumes wf: "wf_graph g"
  shows "PlanShutdown (Some g) names = Inr tx \<longleftrightarrow>
     names \<noteq> [] \<and> NormalizeName ` set names \<subseteq> loaded g
     \<and> acyclic (edges (shutdown_set g names) (graph_waits g))
     \<and> (\<exists>js. add_all g JobStop (shutdown_calls g names) [] = Inr js \<and> js \<noteq> []
          \<and> tx = \<lparr>txGraph = g, roots = uniqueStable names, jobs = js, txWaits = reverseWaits js g\<rparr>)"
proof -
  let ?later = "map later_call (afterClosure g (uniqueStable names))"
  have fold_calls: "(case add_all g JobStop (map root_call (uniqueStable names)) [] of Inl e \<Rightarrow> Inl e
      | Inr js \<Rightarrow> add_all g JobStop ?later js) = add_all g JobStop (shutdown_calls g names) []"
    by (simp add: shutdown_calls_def add_all_append)
  have loaded: "NormalizeName ` set names \<subseteq> loaded g"
    if "add_all g JobStop (shutdown_calls g names) [] = Inr js" "[] \<notin> NormalizeName ` set names" for js
  proof -
    have "\<forall>r \<in> set (uniqueStable names). NormalizeName r = [] \<or> NormalizeName r \<in> loaded g"
      using add_all_stop [OF wf] that(1) unfolding shutdown_calls_def by metis
    then have "NormalizeName ` set (uniqueStable names) \<subseteq> insert [] (loaded g)" by (auto simp del: set_uniqueStable)
    then show ?thesis unfolding norm_uniqueStable [OF that(2)] subset_insert [OF that(2)] .
  qed
  have plan: "PlanShutdown (Some g) names = Inr tx \<longleftrightarrow> names \<noteq> [] \<and> [] \<notin> NormalizeName ` set names \<and>
     (\<exists>js. add_all g JobStop (shutdown_calls g names) [] = Inr js
        \<and> validated \<lparr>txGraph = g, roots = uniqueStable names, jobs = js, txWaits = reverseWaits js g\<rparr> = Inr tx)"
  proof (cases "plan_roots g JobStop names [] []")
    case (Inl e)
    have "\<not> ([] \<notin> NormalizeName ` set names \<and> (\<exists>js. add_all g JobStop (map root_call (uniqueStable names)) [] = Inr js))"
      using plan_roots_start [of g JobStop names] Inl by fastforce
    then show ?thesis using Inl fold_calls by (auto simp: PlanShutdown_def plan_def split: sum.splits)
  next
    case (Inr p)
    obtain rs js where p: "p = (rs, js)" by fastforce
    have r: "[] \<notin> NormalizeName ` set names" "rs = uniqueStable names"
      "add_all g JobStop (map root_call (uniqueStable names)) [] = Inr js"
      using Inr plan_roots_start [of g JobStop names rs js] unfolding p by blast+
    have "add_all g JobStop ?later js = add_all g JobStop (shutdown_calls g names) []" using fold_calls r(3) by simp
    moreover have "(\<lambda>later. (later, [], False)) = later_call" by (simp add: fun_eq_iff later_call_def)
    ultimately show ?thesis
      using Inr r unfolding PlanShutdown_def plan_def by (auto simp: p split: sum.splits)
  qed
  have "validated \<lparr>txGraph = g, roots = uniqueStable names, jobs = js, txWaits = reverseWaits js g\<rparr> = Inr tx \<longleftrightarrow>
      acyclic (edges (shutdown_set g names) (graph_waits g)) \<and> js \<noteq> []
      \<and> tx = \<lparr>txGraph = g, roots = uniqueStable names, jobs = js, txWaits = reverseWaits js g\<rparr>"
    if js: "add_all g JobStop (shutdown_calls g names) [] = Inr js" and e: "[] \<notin> NormalizeName ` set names" for js
  proof -
    have k: "set (job_keys js) = shutdown_set g names" by (rule shutdown_job_keys [OF wf loaded [OF js e] js])
    have "set (job_keys js) \<subseteq> loaded g" unfolding k by (auto simp: shutdown_set_def)
    then show ?thesis
      using validated_Inr [of "\<lparr>txGraph = g, roots = uniqueStable names, jobs = js, txWaits = reverseWaits js g\<rparr>" tx]
        wf edges_converse_acyclic [OF wf, of js] k by auto
  qed
  moreover have "NormalizeName ` set names \<subseteq> loaded g \<Longrightarrow> [] \<notin> NormalizeName ` set names"
    using loaded_canonical(2) [OF wf] by blast
  ultimately show ?thesis unfolding plan using loaded by metis
qed

lemma PlanShutdown_shape:
  assumes wf: "wf_graph g" and "PlanShutdown (Some g) names = Inr tx"
  obtains js where "set (job_keys js) = shutdown_set g names" "set (job_keys js) \<subseteq> loaded g"
    "tx = \<lparr>txGraph = g, roots = uniqueStable names, jobs = js, txWaits = reverseWaits js g\<rparr>" "wf_tx tx"
proof -
  obtain js where p: "NormalizeName ` set names \<subseteq> loaded g" "acyclic (edges (shutdown_set g names) (graph_waits g))"
    "add_all g JobStop (shutdown_calls g names) [] = Inr js" "js \<noteq> []"
    "tx = \<lparr>txGraph = g, roots = uniqueStable names, jobs = js, txWaits = reverseWaits js g\<rparr>"
    using assms(2) unfolding PlanShutdown_Inr [OF wf] by blast
  have k: "set (job_keys js) = shutdown_set g names" by (rule shutdown_job_keys [OF wf p(1,3)])
  have sub: "set (job_keys js) \<subseteq> loaded g" unfolding k by (auto simp: shutdown_set_def)
  have "distinct (reverseWaits js g nm)" for nm by (simp add: reverseWaits_def)
  moreover have "set (reverseWaits js g nm) \<subseteq> set (job_keys js)" for nm by (auto simp: set_reverseWaits [OF wf sub])
  ultimately have "wf_tx tx"
    using wf p(2,4) sub add_all_jobs(2) [OF wf p(3)] edges_converse_acyclic [OF wf sub] k by (simp add: wf_tx_def p(5))
  then show thesis using that k sub p(5) by blast
qed

lemma PlanShutdown_wf_tx: "wf_graph g \<Longrightarrow> PlanShutdown (Some g) names = Inr tx \<Longrightarrow> wf_tx tx"
  by (rule PlanShutdown_shape)

text \<open>
  C8: shutting down.  A shutdown plan exists exactly when at least one unit is named, every named
  unit is loaded and the ordering among its jobs has no cycle: a missing requirement is never an
  error.  Its jobs are the units a start would pull in from the named units and from everything
  ordered after them, and a job waits for exactly the jobs ordered after it, the reverse of boot.
\<close>

theorem PlanShutdown_ok_iff:
  assumes "Build units = Inr g"
  shows "(\<exists>tx. PlanShutdown (Some g) names = Inr tx \<and> set (Units (Some tx)) = shutdown_set g names
        \<and> (\<forall>a \<in> shutdown_set g names. set (txWaits tx a) = {b \<in> shutdown_set g names. a \<in> set (WaitsFor_of (Some g) b)})) \<longleftrightarrow>
     names \<noteq> [] \<and> NormalizeName ` set names \<subseteq> loaded g
     \<and> acyclic (edges (shutdown_set g names) (graph_waits g))" (is "?L \<longleftrightarrow> ?R")
proof -
  have wf: "wf_graph g" by (rule Build_wf [OF assms])
  show ?thesis
  proof
    assume ?L
    then show ?R unfolding PlanShutdown_Inr [OF wf] by blast
  next
    assume ?R
    then have R: "names \<noteq> []" "NormalizeName ` set names \<subseteq> loaded g"
      "acyclic (edges (shutdown_set g names) (graph_waits g))" by simp_all
    have "\<forall>r \<in> set (uniqueStable names). NormalizeName r = [] \<or> NormalizeName r \<in> loaded g" using R(2) by auto
    then obtain js where js: "add_all g JobStop (shutdown_calls g names) [] = Inr js"
      using add_all_stop [OF wf] unfolding shutdown_calls_def by metis
    have k: "set (job_keys js) = shutdown_set g names" by (rule shutdown_job_keys [OF wf R(2) js])
    have sub: "set (job_keys js) \<subseteq> loaded g" unfolding k by (auto simp: shutdown_set_def)
    have "NormalizeName (hd names) \<in> shutdown_set g names" using R(1,2) by (auto simp: shutdown_set_def)
    then have ne: "js \<noteq> []" using k by (auto simp: job_keys_def)
    let ?tx = "\<lparr>txGraph = g, roots = uniqueStable names, jobs = js, txWaits = reverseWaits js g\<rparr>"
    have "PlanShutdown (Some g) names = Inr ?tx"
      unfolding PlanShutdown_Inr [OF wf] using R js ne by (intro conjI exI [of _ js]) simp_all
    moreover have "set (Units (Some ?tx)) = shutdown_set g names" using k by (simp add: Units_def jobNames_def)
    moreover have "set (txWaits ?tx a) = {b \<in> shutdown_set g names. a \<in> set (WaitsFor_of (Some g) b)}"
      if "a \<in> shutdown_set g names" for a
      using that k sub WaitsFor_of_graph_waits [OF wf] by (auto simp: set_reverseWaits [OF wf sub])
    ultimately show ?L by blast
  qed
qed

section \<open>A sample graph\<close>

lemma acyclic_graph_plans:
  assumes "wf_graph g" "OrderingCycle (Some g) = None" "J \<subseteq> loaded g"
  shows "acyclic (edges J (graph_waits g))"
proof -
  have "[] \<notin> set (names_of g)" using loaded_canonical(2) [OF assms(1)] by auto
  then have "acyclic (edges (loaded g) (graph_waits g))"
    using findCycle_None_iff [of "names_of g" "graph_waits g"] assms(2) by (simp add: OrderingCycle_def)
  then show ?thesis using assms(3) by (auto intro: acyclic_subset simp: edges_def)
qed

definition plan_units :: "Unit option list" where
  "plan_units =
     [Some ((new_Unit 1 ''web.service'' [] KindService)
        \<lparr>Requires := [''db.service''], Wants := [''cache.service''], After := [''db.service'']\<rparr>),
      Some (new_Unit 1 ''DB'' [] KindService),
      Some ((new_Unit 1 ''proxy.service'' [] KindService)\<lparr>PartOf := [''web''], After := [''web'']\<rparr>)]"

definition plan_graph :: Graph where
  "plan_graph = projr (Build plan_units)"

lemma Build_plan_units: "Build plan_units = Inr plan_graph"
proof -
  have "\<not> isl (Build plan_units)" by code_simp
  then show ?thesis by (simp add: plan_graph_def)
qed

lemma Inr_projr: "\<not> isl x \<Longrightarrow> x = Inr (projr x)"
  by (cases x) auto

theorem PlanStart_ok_iff_witness:
  "acyclic (edges (pulled plan_graph [''web'']) (graph_waits plan_graph))
   \<and> (\<Union>a \<in> pulled plan_graph [''web'']. start_needs plan_graph a) \<subseteq> loaded plan_graph"
proof -
  have "\<not> isl (PlanStart (Some plan_graph) [''web''])" by code_simp
  then have "\<exists>tx. PlanStart (Some plan_graph) [''web''] = Inr tx" using Inr_projr by blast
  then show ?thesis using PlanStart_ok_iff [OF Build_plan_units, of "[''web'']"] by simp
qed

theorem PlanStart_jobs_witness: "pulled plan_graph [''web''] = {''db.service'', ''web.service''}"
proof -
  let ?tx = "projr (PlanStart (Some plan_graph) [''web''])"
  have "\<not> isl (PlanStart (Some plan_graph) [''web''])" by code_simp
  then have "PlanStart (Some plan_graph) [''web''] = Inr ?tx" by (rule Inr_projr)
  moreover have "Units (Some ?tx) = [''db.service'', ''web.service'']" by code_simp
  ultimately show ?thesis using PlanStart_jobs [OF Build_plan_units, of "[''web'']" ?tx] by simp
qed

theorem PlanStop_jobs_witness:
  "stop_set plan_graph [''db''] = {''db.service'', ''proxy.service'', ''web.service''}
   \<and> wf_tx (projr (PlanStop (Some plan_graph) [''db'']))"
proof -
  let ?tx = "projr (PlanStop (Some plan_graph) [''db''])"
  have "\<not> isl (PlanStop (Some plan_graph) [''db''])" by code_simp
  then have "PlanStop (Some plan_graph) [''db''] = Inr ?tx" by (rule Inr_projr)
  moreover have "Units (Some ?tx) = [''db.service'', ''proxy.service'', ''web.service'']" by code_simp
  ultimately show ?thesis using PlanStop_jobs [OF Build_plan_units, of "[''db'']" ?tx] by simp
qed

theorem PlanShutdown_ok_iff_witness: "\<exists>tx. PlanShutdown (Some plan_graph) [''web''] = Inr tx"
proof -
  have "Option.is_none (OrderingCycle (Some plan_graph))" by code_simp
  then have "acyclic (edges (shutdown_set plan_graph [''web'']) (graph_waits plan_graph))"
    using Build_wf [OF Build_plan_units]
    by (intro acyclic_graph_plans) (auto simp: Option.is_none_def shutdown_set_def)
  moreover have "set (map NormalizeName [''web'']) \<subseteq> set (map fst (nodes plan_graph))" by code_simp
  then have "NormalizeName ` set [''web''] \<subseteq> loaded plan_graph" by (simp add: loaded_def)
  ultimately show ?thesis using PlanShutdown_ok_iff [OF Build_plan_units, of "[''web'']"] by blast
qed

end
