(* ===== verification/Run_State.thy ===== *)
theory Run_State
  imports Transaction Lifecycle
begin

text \<open>
  What the start and the stop executor of \<open>internal/core/execute.go\<close> share: the errors of a run,
  \<open>Run\<close> and its accessors, the executor state and the release counters.  The goroutines that call the
  adapter are \<open>inflight\<close>: the code's counter is the length of that list.  What happens outside
  (results of the adapter, which call returns next, cancellation of the context) is an environment
  that the executors are parametrised with.
\<close>

section \<open>Errors\<close>

text \<open>
  \<open>ErrWrapped\<close> is an error of the adapter that wraps another with \<open>%w\<close>; \<open>ErrText\<close> any other error of
  the adapter or the context.
\<close>

datatype RunError =
    ErrSkipped
  | ErrText string
  | ErrWrapped string RunError
  | DependencyError name name "RunError option"

fun Error_text :: "RunError \<Rightarrow> string" where
  "Error_text ErrSkipped = ''skipped''"
| "Error_text (ErrText s) = s"
| "Error_text (ErrWrapped s e) = s"
| "Error_text (DependencyError u r None) = u @ '' failed because required '' @ r @ '' failed''"
| "Error_text (DependencyError u r (Some e)) =
     u @ '' failed because required '' @ r @ '' failed: '' @ Error_text e"

fun Unwrap :: "RunError \<Rightarrow> RunError option" where
  "Unwrap (DependencyError u r eo) = eo"
| "Unwrap (ErrWrapped s e) = Some e"
| "Unwrap _ = None"

fun is_skipped :: "RunError \<Rightarrow> bool" where
  "is_skipped ErrSkipped = True"
| "is_skipped (ErrText s) = False"
| "is_skipped (ErrWrapped s e) = is_skipped e"
| "is_skipped (DependencyError u r None) = False"
| "is_skipped (DependencyError u r (Some e)) = is_skipped e"

section \<open>Runs\<close>

record Run =
  States :: "name \<rightharpoonup> State"
  RunErrors :: "name \<rightharpoonup> RunError"
  Started :: "name list"
  Stopped :: "name list"

definition StateOf :: "Run option \<Rightarrow> name \<Rightarrow> State" where
  "StateOf ro nm = (case ro of None \<Rightarrow> Inactive
     | Some r \<Rightarrow> (case States r (NormalizeName nm) of Some s \<Rightarrow> s | None \<Rightarrow> Inactive))"

definition Err :: "Run option \<Rightarrow> name \<Rightarrow> RunError option" where
  "Err ro nm = (case ro of None \<Rightarrow> None | Some r \<Rightarrow> RunErrors r (NormalizeName nm))"

fun first_error :: "name list \<Rightarrow> Run \<Rightarrow> RunError option" where
  "first_error [] r = None"
| "first_error (root # rs) r = (case RunErrors r root of Some e \<Rightarrow> Some e | None \<Rightarrow> first_error rs r)"

definition rootError :: "Transaction option \<Rightarrow> Run option \<Rightarrow> RunError option" where
  "rootError txo ro = (case (txo, ro) of (Some tx, Some r) \<Rightarrow> first_error (roots tx) r | _ \<Rightarrow> None)"

section \<open>Executor state\<close>

record executor =
  run :: Run
  launched :: "name \<Rightarrow> bool"
  released :: "name \<Rightarrow> bool"
  remaining :: "name \<Rightarrow> int"
  unblock :: "name \<Rightarrow> name list"
  inflight :: "name list"
  observer :: bool
  rejected :: "(name \<times> RunError) list"

text \<open>The environment of a run.  The \<open>i\<close>-th receive takes the result of one of the calls in flight.\<close>

record env =
  outcome :: "name \<Rightarrow> RunError option"
  pick :: "nat \<Rightarrow> nat"
  ctxErr :: "nat \<Rightarrow> RunError option"

definition next_result :: "env \<Rightarrow> nat \<Rightarrow> name list \<Rightarrow> name" where
  "next_result ev i fl = fl ! (pick ev i mod length fl)"

definition DefaultTransactionWorkers :: nat where
  "DefaultTransactionWorkers = 16"

definition state_of :: "executor \<Rightarrow> name \<Rightarrow> State" where
  "state_of e nm = (case States (run e) nm of Some s \<Rightarrow> s | None \<Rightarrow> Inactive)"

definition set_state :: "name \<Rightarrow> State \<Rightarrow> executor \<Rightarrow> executor" where
  "set_state nm s e = e\<lparr>run := (run e)\<lparr>States := (States (run e))(nm \<mapsto> s)\<rparr>\<rparr>"

definition err_of :: "executor \<Rightarrow> name \<Rightarrow> RunError option" where
  "err_of e nm = RunErrors (run e) nm"

definition set_err :: "name \<Rightarrow> RunError \<Rightarrow> executor \<Rightarrow> executor" where
  "set_err nm er e = e\<lparr>run := (run e)\<lparr>RunErrors := (RunErrors (run e))(nm \<mapsto> er)\<rparr>\<rparr>"

definition new_executor :: "bool \<Rightarrow> executor" where
  "new_executor obs = \<lparr>run = \<lparr>States = Map.empty, RunErrors = Map.empty, Started = [], Stopped = []\<rparr>,
     launched = (\<lambda>_. False), released = (\<lambda>_. False), remaining = (\<lambda>_. 0), unblock = (\<lambda>_. []),
     inflight = [], observer = obs, rejected = []\<rparr>"

fun add_unblocks :: "name \<Rightarrow> name list \<Rightarrow> executor \<Rightarrow> executor" where
  "add_unblocks nm [] e = e"
| "add_unblocks nm (dep # deps) e =
     add_unblocks nm deps (e\<lparr>unblock := (unblock e)(dep := unblock e dep @ [nm])\<rparr>)"

fun init_jobs :: "Transaction \<Rightarrow> State \<Rightarrow> name list \<Rightarrow> executor \<Rightarrow> executor" where
  "init_jobs tx s [] e = e"
| "init_jobs tx s (nm # names) e =
     (let e1 = set_state nm s e;
          deps = txWaits tx nm;
          e2 = e1\<lparr>remaining := (remaining e1)(nm := int (length deps))\<rparr>
      in init_jobs tx s names (add_unblocks nm deps e2))"

fun decrement :: "name list \<Rightarrow> executor \<Rightarrow> executor" where
  "decrement [] e = e"
| "decrement (succ # ss) e =
     (let r = remaining e succ - 1
      in decrement ss (e\<lparr>remaining := (remaining e)(succ := (if r < 0 then 0 else r))\<rparr>))"

definition releaseAfter :: "name \<Rightarrow> executor \<Rightarrow> executor" where
  "releaseAfter nm e =
     (if released e nm then e
      else let e1 = e\<lparr>released := (released e)(nm := True)\<rparr> in decrement (unblock e1 nm) e1)"

section \<open>Basic facts\<close>

lemma state_of_simps [simp]:
  "state_of (set_state nm s e) x = (if x = nm then s else state_of e x)"
  "state_of (set_err nm er e) x = state_of e x"
  "state_of (e\<lparr>released := a\<rparr>) x = state_of e x"
  "state_of (e\<lparr>remaining := b\<rparr>) x = state_of e x"
  "state_of (e\<lparr>launched := c\<rparr>) x = state_of e x"
  "state_of (e\<lparr>inflight := d\<rparr>) x = state_of e x"
  "state_of (e\<lparr>unblock := f\<rparr>) x = state_of e x"
  "state_of (e\<lparr>rejected := g\<rparr>) x = state_of e x"
  by (simp_all add: state_of_def set_state_def set_err_def)

lemma err_of_simps [simp]:
  "err_of (set_state nm s e) x = err_of e x"
  "err_of (set_err nm er e) x = (if x = nm then Some er else err_of e x)"
  "err_of (e\<lparr>released := a\<rparr>) x = err_of e x"
  "err_of (e\<lparr>remaining := b\<rparr>) x = err_of e x"
  "err_of (e\<lparr>launched := c\<rparr>) x = err_of e x"
  "err_of (e\<lparr>inflight := d\<rparr>) x = err_of e x"
  "err_of (e\<lparr>unblock := f\<rparr>) x = err_of e x"
  "err_of (e\<lparr>rejected := g\<rparr>) x = err_of e x"
  by (simp_all add: err_of_def set_state_def set_err_def)

lemma set_state_fields [simp]:
  "launched (set_state nm s e) = launched e" "released (set_state nm s e) = released e"
  "remaining (set_state nm s e) = remaining e" "unblock (set_state nm s e) = unblock e"
  "inflight (set_state nm s e) = inflight e" "Started (run (set_state nm s e)) = Started (run e)"
  "Stopped (run (set_state nm s e)) = Stopped (run e)" "observer (set_state nm s e) = observer e"
  "rejected (set_state nm s e) = rejected e"
  by (simp_all add: set_state_def)

lemma set_err_fields [simp]:
  "launched (set_err nm er e) = launched e" "released (set_err nm er e) = released e"
  "remaining (set_err nm er e) = remaining e" "unblock (set_err nm er e) = unblock e"
  "inflight (set_err nm er e) = inflight e" "Started (run (set_err nm er e)) = Started (run e)"
  "Stopped (run (set_err nm er e)) = Stopped (run e)" "observer (set_err nm er e) = observer e"
  "rejected (set_err nm er e) = rejected e"
  by (simp_all add: set_err_def)

lemma decrement_fields [simp]:
  "run (decrement ss e) = run e" "launched (decrement ss e) = launched e" "released (decrement ss e) = released e"
  "unblock (decrement ss e) = unblock e" "inflight (decrement ss e) = inflight e"
  "observer (decrement ss e) = observer e" "rejected (decrement ss e) = rejected e"
  by (induction ss arbitrary: e) (simp_all add: Let_def)

lemma releaseAfter_fields [simp]:
  "run (releaseAfter nm e) = run e" "launched (releaseAfter nm e) = launched e"
  "released (releaseAfter nm e) = (released e)(nm := True)"
  "unblock (releaseAfter nm e) = unblock e" "inflight (releaseAfter nm e) = inflight e"
  "observer (releaseAfter nm e) = observer e" "rejected (releaseAfter nm e) = rejected e"
  by (auto simp: releaseAfter_def Let_def fun_eq_iff)

lemma releaseAfter_state [simp]:
  "state_of (releaseAfter nm e) x = state_of e x" "err_of (releaseAfter nm e) x = err_of e x"
  by (simp_all add: state_of_def err_of_def)

section \<open>The release counters\<close>

text \<open>The jobs that still wait, counted from the released set.\<close>

definition pending :: "Transaction \<Rightarrow> (name \<Rightarrow> bool) \<Rightarrow> name \<Rightarrow> nat" where
  "pending tx rel nm = length (filter (\<lambda>d. \<not> rel d) (txWaits tx nm))"

definition counted :: "Transaction \<Rightarrow> executor \<Rightarrow> bool" where
  "counted tx e \<longleftrightarrow> (\<forall>nm \<in> set (jobNames tx). remaining e nm = int (pending tx (released e) nm))
     \<and> (\<forall>d. distinct (unblock e d) \<and> set (unblock e d) = {nm \<in> set (jobNames tx). d \<in> set (txWaits tx nm)})"

lemma pending_0: "pending tx rel nm = 0 \<longleftrightarrow> (\<forall>d \<in> set (txWaits tx nm). rel d)"
  by (simp add: pending_def filter_empty_conv)

lemma decrement_remaining:
  "distinct ss \<Longrightarrow> remaining (decrement ss e) x =
     (if x \<in> set ss then max 0 (remaining e x - 1) else remaining e x)"
  by (induction ss arbitrary: e) (auto simp: Let_def)

lemma pending_release:
  assumes "distinct (txWaits tx nm)" "\<not> rel d"
  shows "pending tx (rel(d := True)) nm = (if d \<in> set (txWaits tx nm) then pending tx rel nm - 1 else pending tx rel nm)"
    and "d \<in> set (txWaits tx nm) \<Longrightarrow> 0 < pending tx rel nm"
proof -
  let ?F = "\<lambda>r. filter (\<lambda>x. \<not> r x) (txWaits tx nm)"
  have F: "?F (rel(d := True)) = filter (\<lambda>x. x \<noteq> d) (?F rel)" by (auto intro: filter_cong)
  have "distinct (?F rel)" using assms(1) by simp
  then have r: "?F (rel(d := True)) = remove1 d (?F rel)"
    unfolding F by (simp add: distinct_remove1_removeAll removeAll_filter_not_eq eq_commute)
  have "d \<in> set (?F rel) \<longleftrightarrow> d \<in> set (txWaits tx nm)" using assms(2) by simp
  then show "pending tx (rel(d := True)) nm = (if d \<in> set (txWaits tx nm) then pending tx rel nm - 1 else pending tx rel nm)"
    unfolding pending_def r by (simp only: length_remove1)
  show "d \<in> set (txWaits tx nm) \<Longrightarrow> 0 < pending tx rel nm"
    using assms(2) by (auto simp: pending_def filter_empty_conv)
qed

lemma counted_releaseAfter:
  assumes "wf_tx tx" "counted tx e"
  shows "counted tx (releaseAfter nm e)"
proof (cases "released e nm")
  case True
  then show ?thesis using assms(2) by (simp add: releaseAfter_def)
next
  case False
  let ?e = "e\<lparr>released := (released e)(nm := True)\<rparr>"
  have u: "distinct (unblock e nm)" "set (unblock e nm) = {x \<in> set (jobNames tx). nm \<in> set (txWaits tx x)}"
    using assms(2) by (auto simp: counted_def)
  have "remaining (decrement (unblock e nm) ?e) x = int (pending tx ((released e)(nm := True)) x)"
    if x: "x \<in> set (jobNames tx)" for x
  proof -
    have d: "distinct (txWaits tx x)" using assms(1) by (simp add: wf_tx_def)
    have r: "remaining e x = int (pending tx (released e) x)" using assms(2) x by (simp add: counted_def)
    show ?thesis
      using pending_release [where rel = "released e" and d = nm, OF d] False x u r by (auto simp: decrement_remaining of_nat_diff)
  qed
  then show ?thesis using assms(2) False by (simp add: releaseAfter_def counted_def)
qed

lemma counted_cong:
  "counted tx e \<Longrightarrow> remaining e' = remaining e \<Longrightarrow> released e' = released e \<Longrightarrow> unblock e' = unblock e \<Longrightarrow> counted tx e'"
  by (simp add: counted_def)

section \<open>The initial state\<close>

lemma add_unblocks_fields [simp]:
  "run (add_unblocks nm ds e) = run e" "launched (add_unblocks nm ds e) = launched e"
  "released (add_unblocks nm ds e) = released e" "remaining (add_unblocks nm ds e) = remaining e"
  "inflight (add_unblocks nm ds e) = inflight e" "observer (add_unblocks nm ds e) = observer e"
  "rejected (add_unblocks nm ds e) = rejected e"
  by (induction ds arbitrary: e) simp_all

lemma add_unblocks_state [simp]:
  "state_of (add_unblocks nm ds e) x = state_of e x" "err_of (add_unblocks nm ds e) x = err_of e x"
  by (simp_all add: state_of_def err_of_def)

lemma add_unblocks_unblock:
  "distinct ds \<Longrightarrow> unblock (add_unblocks nm ds e) d = unblock e d @ (if d \<in> set ds then [nm] else [])"
  by (induction ds arbitrary: e) auto

lemma init_jobs_fields [simp]:
  "launched (init_jobs tx s ns e) = launched e" "released (init_jobs tx s ns e) = released e"
  "inflight (init_jobs tx s ns e) = inflight e" "observer (init_jobs tx s ns e) = observer e"
  "rejected (init_jobs tx s ns e) = rejected e" "Started (run (init_jobs tx s ns e)) = Started (run e)"
  "Stopped (run (init_jobs tx s ns e)) = Stopped (run e)" "err_of (init_jobs tx s ns e) x = err_of e x"
  by (induction ns arbitrary: e) (simp_all add: Let_def)

lemma init_jobs_state: "state_of (init_jobs tx s ns e) x = (if x \<in> set ns then s else state_of e x)"
  by (induction ns arbitrary: e) (auto simp: Let_def)

lemma init_jobs_remaining:
  "remaining (init_jobs tx s ns e) x = (if x \<in> set ns then int (length (txWaits tx x)) else remaining e x)"
  by (induction ns arbitrary: e) (auto simp: Let_def)

lemma init_jobs_unblock:
  "(\<And>nm. distinct (txWaits tx nm)) \<Longrightarrow>
   unblock (init_jobs tx s ns e) d = unblock e d @ filter (\<lambda>nm. d \<in> set (txWaits tx nm)) ns"
  by (induction ns arbitrary: e) (auto simp: Let_def add_unblocks_unblock)

lemma set_jobNames [simp]: "set (jobNames tx) = set (job_keys (jobs tx))"
  by (simp add: jobNames_def)

lemma distinct_jobNames: "wf_tx tx \<Longrightarrow> distinct (jobNames tx)"
  by (simp add: jobNames_def wf_tx_def)

definition init_executor :: "Transaction \<Rightarrow> State \<Rightarrow> bool \<Rightarrow> executor" where
  "init_executor tx s obs = init_jobs tx s (jobNames tx) (new_executor obs)"

lemma counted_init: "wf_tx tx \<Longrightarrow> counted tx (init_executor tx s obs)"
  using distinct_jobNames [of tx]
  by (auto simp: counted_def init_executor_def init_jobs_remaining init_jobs_unblock wf_tx_def pending_def new_executor_def
      filter_empty_conv)

lemma init_executor_fields [simp]:
  "launched (init_executor tx s obs) nm = False" "released (init_executor tx s obs) nm = False"
  "inflight (init_executor tx s obs) = []" "err_of (init_executor tx s obs) nm = None"
  "Started (run (init_executor tx s obs)) = []" "Stopped (run (init_executor tx s obs)) = []"
  "rejected (init_executor tx s obs) = []"
  by (simp_all add: init_executor_def new_executor_def) (simp add: err_of_def)

lemma init_executor_state:
  "state_of (init_executor tx s obs) nm = (if nm \<in> set (jobNames tx) then s else Inactive)"
  by (simp add: init_executor_def init_jobs_state) (simp add: new_executor_def state_of_def)

text \<open>A set of jobs that is not empty has a job none of whose predecessors is in the set.\<close>

lemma tx_minimal:
  assumes "wf_tx tx" "P \<subseteq> set (jobNames tx)" "P \<noteq> {}"
  shows "\<exists>nm \<in> P. \<forall>d \<in> set (txWaits tx nm). d \<notin> P"
proof -
  let ?E = "edges (set (job_keys (jobs tx))) (txWaits tx)"
  have "?E \<subseteq> set (job_keys (jobs tx)) \<times> set (job_keys (jobs tx))" by (auto simp: edges_def)
  then have "finite ?E" by (rule finite_subset) simp
  then have "wf (?E\<inverse>)" using assms(1) by (intro finite_acyclic_wf_converse) (simp_all add: wf_tx_def)
  then obtain nm where nm: "nm \<in> P" "\<And>y. (y, nm) \<in> ?E\<inverse> \<Longrightarrow> y \<notin> P"
    using assms(3) by (metis all_not_in_conv wfE_min)
  moreover have "(nm, d) \<in> ?E" if "d \<in> set (txWaits tx nm)" for d
    using that assms(1,2) nm(1) by (auto simp: edges_def wf_tx_def)
  ultimately show ?thesis by blast
qed

section \<open>The work left bounds every loop\<close>

definition work_left :: "Transaction \<Rightarrow> executor \<Rightarrow> nat" where
  "work_left tx e = 2 * card {nm \<in> set (jobNames tx). \<not> launched e nm} + length (inflight e)"

lemma work_left_launch:
  assumes "nm \<in> set (jobNames tx)" "\<not> launched e nm"
    and e': "launched e' = (launched e)(nm := True)" "inflight e' = inflight e @ [nm]"
  shows "work_left tx e' \<le> work_left tx e"
proof -
  let ?U = "{x \<in> set (jobNames tx). \<not> launched e x}"
  have U: "{x \<in> set (jobNames tx). \<not> ((launched e)(nm := True)) x} = ?U - {nm}" by auto
  have "nm \<in> ?U" "finite ?U" using assms by simp_all
  then have "Suc (card (?U - {nm})) = card ?U" by (simp only: card_Suc_Diff1)
  then show ?thesis using U by (simp add: work_left_def e' del: fun_upd_apply)
qed

lemma next_result_in: "fl \<noteq> [] \<Longrightarrow> next_result ev i fl \<in> set fl"
  by (simp add: next_result_def)

section \<open>What callers read\<close>

lemma Units_jobNames [simp]: "set (Units (Some tx)) = set (jobNames tx)"
  by (simp add: Units_def)

lemma wf_tx_validate: "wf_tx tx \<Longrightarrow> validate (Some tx) = Inr ()"
  using validated_Inr [of tx tx] by (simp add: wf_tx_def validated_def split: sum.splits)

lemma wf_tx_norm: "wf_tx tx \<Longrightarrow> nm \<in> set (jobNames tx) \<Longrightarrow> NormalizeName nm = nm"
  using wf_norm_loaded [of "txGraph tx" nm] by (auto simp: wf_tx_def)

lemma run_view:
  assumes "wf_tx tx" "nm \<in> set (jobNames tx)"
  shows "StateOf (Some (run e)) nm = state_of e nm" "Err (Some (run e)) nm = err_of e nm"
  using wf_tx_norm [OF assms] by (simp_all add: StateOf_def Err_def state_of_def err_of_def)

end
