(* ===== verification/Executor.thy ===== *)
theory Executor
  imports Run_State
begin

text \<open>
  The start executor of \<open>internal/core/execute.go\<close>: \<open>ExecuteWithLimit\<close>, \<open>Execute\<close>, \<open>Start\<close> and the
  methods of \<open>executor\<close>.  The loops are total functions of the environment; the recursion of
  \<open>markFailed\<close> through the units that require a failed one is \<open>fail_requirers\<close>, whose list argument is
  the rest of the loop over the job names.  The theorems hold for every environment, that is for
  every order in which the calls in flight return, every result and every cancellation.
\<close>

section \<open>Failure\<close>

fun failed_req :: "Transaction \<Rightarrow> executor \<Rightarrow> name \<Rightarrow> name list \<Rightarrow> RunError option" where
  "failed_req tx e nm [] = None"
| "failed_req tx e nm (req # reqs) =
     (if map_of (jobs tx) req = None then failed_req tx e nm reqs
      else case err_of e req of
        Some err \<Rightarrow> Some (DependencyError nm req (Some err))
      | None \<Rightarrow> failed_req tx e nm reqs)"

definition requiresFailed :: "Transaction \<Rightarrow> executor \<Rightarrow> name \<Rightarrow> RunError option" where
  "requiresFailed tx e nm = (case gnode (txGraph tx) nm of
       None \<Rightarrow> None
     | Some n \<Rightarrow> failed_req tx e nm (startRequireNames (Some n)))"

definition jobNotYetStarted :: "executor \<Rightarrow> name \<Rightarrow> bool" where
  "jobNotYetStarted e nm = (case state_of e nm of Inactive \<Rightarrow> True | Activating \<Rightarrow> True | _ \<Rightarrow> False)"

text \<open>What \<open>markFailed\<close> records of the job itself.\<close>

definition fail_job :: "name \<Rightarrow> RunError \<Rightarrow> executor \<Rightarrow> executor" where
  "fail_job nm err e =
     (let e1 = set_state nm Failed (set_err nm err e) in
      if \<not> launched e1 nm
      then releaseAfter nm (if observer e1 then e1\<lparr>rejected := rejected e1 @ [(nm, err)]\<rparr> else e1)
      else e1)"

function fail_requirers :: "Transaction \<Rightarrow> name \<Rightarrow> RunError \<Rightarrow> name list \<Rightarrow> executor \<Rightarrow> executor" where
  "fail_requirers tx nm err [] e = e"
| "fail_requirers tx nm err (other # os) e =
     (if other = nm \<or> \<not> startRequiresName (gnode (txGraph tx) other) nm \<or> \<not> jobNotYetStarted e other
      then fail_requirers tx nm err os e
      else fail_requirers tx nm err os
        (let derr = DependencyError other nm (Some err) in
         if err_of e other \<noteq> None then set_state other Failed e
         else fail_requirers tx other derr (jobNames tx) (fail_job other derr e)))"
  by pat_completeness auto

definition markFailed :: "Transaction \<Rightarrow> name \<Rightarrow> RunError \<Rightarrow> executor \<Rightarrow> executor" where
  "markFailed tx nm err e =
     (if \<not> jobNotYetStarted e nm \<and> state_of e nm \<noteq> Failed then e
      else if err_of e nm \<noteq> None then set_state nm Failed e
      else fail_requirers tx nm err (jobNames tx) (fail_job nm err e))"

definition unfailed :: "Transaction \<Rightarrow> name list \<Rightarrow> executor \<Rightarrow> name set" where
  "unfailed tx os e = {n \<in> set (jobNames tx) \<union> set os. err_of e n = None}"

lemma fail_job_err: "err_of (fail_job nm err e) x = (if x = nm then Some err else err_of e x)"
  by (simp add: fail_job_def Let_def)

lemma fail_requirers_err:
  "fail_requirers_dom (tx, nm, err, os, e) \<Longrightarrow> err_of e x \<noteq> None \<Longrightarrow>
   err_of (fail_requirers tx nm err os e) x = err_of e x"
proof (induction tx nm err os e rule: fail_requirers.pinduct)
  case (1 tx nm err e)
  then show ?case by (simp add: fail_requirers.psimps)
next
  case (2 tx nm err other os e)
  note eq = fail_requirers.psimps(2) [OF "2.hyps"]
  let ?skip = "other = nm \<or> \<not> startRequiresName (gnode (txGraph tx) other) nm \<or> \<not> jobNotYetStarted e other"
  let ?derr = "DependencyError other nm (Some err)"
  show ?case
  proof (cases ?skip)
    case True
    then show ?thesis using "2.IH"(1) "2.prems" eq by simp
  next
    case False
    show ?thesis
    proof (cases "err_of e other")
      case None
      then have "x \<noteq> other" using "2.prems" by auto
      then have "err_of (fail_requirers tx other ?derr (jobNames tx) (fail_job other ?derr e)) x = err_of e x"
        using "2.IH"(2) [OF False refl] None "2.prems" by (simp add: fail_job_err)
      then show ?thesis using "2.IH"(3) [OF False] eq False None "2.prems" by (simp add: Let_def)
    next
      case (Some a)
      then show ?thesis using "2.IH"(3) [OF False] eq False "2.prems" by (simp add: Let_def)
    qed
  qed
qed

lemma unfailed_mono:
  assumes "\<And>x. err_of e x \<noteq> None \<Longrightarrow> err_of e' x \<noteq> None"
  shows "unfailed tx os e' \<subseteq> unfailed tx (other # os) e"
  using assms unfolding unfailed_def by fastforce

termination fail_requirers
proof (relation "inv_image (less_than <*lex*> less_than) (\<lambda>(tx, nm, err, os, e). (card (unfailed tx os e), length os))", goal_cases)
  case (2 tx nm err other os e)
  have "card (unfailed tx os e) \<le> card (unfailed tx (other # os) e)"
    by (intro card_mono) (auto simp: unfailed_def)
  then show ?case by auto
next
  case (3 tx nm err other os e derr)
  then have "unfailed tx (jobNames tx) (fail_job other derr e) \<subset> unfailed tx (other # os) e"
    by (auto simp: unfailed_def fail_job_err)
  then have "card (unfailed tx (jobNames tx) (fail_job other derr e)) < card (unfailed tx (other # os) e)"
    by (intro psubset_card_mono) (auto simp: unfailed_def)
  then show ?case by simp
next
  case (4 tx nm err other os e)
  let ?derr = "DependencyError other nm (Some err)"
  let ?r = "let derr = ?derr in if err_of e other \<noteq> None then set_state other Failed e
         else fail_requirers tx other derr (jobNames tx) (fail_job other derr e)"
  have "err_of ?r x \<noteq> None" if x: "err_of e x \<noteq> None" for x
  proof (cases "err_of e other = None")
    case True
    have "fail_requirers_dom (tx, other, ?derr, jobNames tx, fail_job other ?derr e)" using 4(2) True by simp
    moreover have "err_of (fail_job other ?derr e) x \<noteq> None" using x by (simp add: fail_job_err)
    ultimately have "err_of (fail_requirers tx other ?derr (jobNames tx) (fail_job other ?derr e)) x \<noteq> None"
      using fail_requirers_err by metis
    then show ?thesis using True by (simp add: Let_def)
  next
    case False
    then show ?thesis using x by (simp add: Let_def)
  qed
  then have "unfailed tx os ?r \<subseteq> unfailed tx (other # os) e" by (rule unfailed_mono)
  then have "card (unfailed tx os ?r) \<le> card (unfailed tx (other # os) e)"
    by (intro card_mono) (simp_all add: unfailed_def)
  then show ?case by auto
qed auto

declare fail_requirers.simps [simp del]

text \<open>The loop of the code: the recursive call is \<open>markFailed\<close> itself.\<close>

lemma fail_requirers_Cons:
  "fail_requirers tx nm err (other # os) e =
     fail_requirers tx nm err os
       (if other = nm \<or> \<not> startRequiresName (gnode (txGraph tx) other) nm \<or> \<not> jobNotYetStarted e other then e
        else markFailed tx other (DependencyError other nm (Some err)) e)"
  by (simp add: fail_requirers.simps markFailed_def Let_def)

section \<open>Launching and finishing\<close>

definition tryLaunch :: "Transaction \<Rightarrow> name \<Rightarrow> executor \<Rightarrow> executor" where
  "tryLaunch tx nm e =
     (if launched e nm then e
      else if state_of e nm = Failed then e
      else if 0 < remaining e nm then e
      else case requiresFailed tx e nm of
          Some err \<Rightarrow> markFailed tx nm err e
        | None \<Rightarrow>
            let e1 = set_state nm Activating (e\<lparr>launched := (launched e)(nm := True)\<rparr>)
            in e1\<lparr>run := (run e1)\<lparr>Started := Started (run e1) @ [nm]\<rparr>, inflight := inflight e1 @ [nm]\<rparr>)"

definition onFinish :: "Transaction \<Rightarrow> name \<Rightarrow> RunError option \<Rightarrow> executor \<Rightarrow> executor" where
  "onFinish tx nm res e0 =
     (let e = releaseAfter nm e0 in
      case res of
        Some err \<Rightarrow> if is_skipped err then set_state nm Inactive e else markFailed tx nm err e
      | None \<Rightarrow>
          if state_of e nm = Failed then e
          else case requiresFailed tx e nm of
              Some err \<Rightarrow> markFailed tx nm err e
            | None \<Rightarrow> set_state nm Active e)"

fun launch_all :: "Transaction \<Rightarrow> nat \<Rightarrow> name list \<Rightarrow> executor \<Rightarrow> executor" where
  "launch_all tx workers [] e = e"
| "launch_all tx workers (nm # names) e =
     (if workers \<le> length (inflight e) then e else launch_all tx workers names (tryLaunch tx nm e))"

definition receive :: "Transaction \<Rightarrow> env \<Rightarrow> nat \<Rightarrow> executor \<Rightarrow> executor" where
  "receive tx ev i e =
     (let nm = next_result ev i (inflight e)
      in onFinish tx nm (outcome ev nm) (e\<lparr>inflight := remove1 nm (inflight e)\<rparr>))"

fun cancel_all :: "Transaction \<Rightarrow> RunError \<Rightarrow> name list \<Rightarrow> executor \<Rightarrow> executor" where
  "cancel_all tx err [] e = e"
| "cancel_all tx err (nm # names) e =
     cancel_all tx err names
       (if state_of e nm = Inactive \<and> \<not> launched e nm then markFailed tx nm err e else e)"

fun not_started :: "Transaction \<Rightarrow> name list \<Rightarrow> executor \<Rightarrow> executor" where
  "not_started tx [] e = e"
| "not_started tx (nm # names) e =
     not_started tx names
       (if state_of e nm = Inactive \<and> \<not> launched e nm
        then markFailed tx nm (ErrText (''unit '' @ Quote nm @ '' was not started'')) e else e)"

section \<open>What the steps leave alone\<close>

lemma fail_job_fields [simp]:
  "launched (fail_job nm err e) = launched e" "inflight (fail_job nm err e) = inflight e"
  "unblock (fail_job nm err e) = unblock e" "Started (run (fail_job nm err e)) = Started (run e)"
  "Stopped (run (fail_job nm err e)) = Stopped (run e)" "observer (fail_job nm err e) = observer e"
  by (simp_all add: fail_job_def Let_def)

lemma fail_job_state: "state_of (fail_job nm err e) x = (if x = nm then Failed else state_of e x)"
  by (simp add: fail_job_def Let_def)

lemma fail_job_released: "released (fail_job nm err e) x = (released e x \<or> (x = nm \<and> \<not> launched e nm))"
  by (auto simp: fail_job_def Let_def)

lemma fail_requirers_fields [simp]:
  "launched (fail_requirers tx nm err os e) = launched e" "inflight (fail_requirers tx nm err os e) = inflight e"
  "Started (run (fail_requirers tx nm err os e)) = Started (run e)"
  "Stopped (run (fail_requirers tx nm err os e)) = Stopped (run e)"
  by (induction tx nm err os e rule: fail_requirers.induct) (simp_all add: fail_requirers.simps Let_def)

lemma markFailed_fields [simp]:
  "launched (markFailed tx nm err e) = launched e" "inflight (markFailed tx nm err e) = inflight e"
  "Started (run (markFailed tx nm err e)) = Started (run e)" "Stopped (run (markFailed tx nm err e)) = Stopped (run e)"
  by (simp_all add: markFailed_def)

section \<open>Failing as a sequence of steps\<close>

definition settleable :: "executor \<Rightarrow> name \<Rightarrow> bool" where
  "settleable e nm \<longleftrightarrow> state_of e nm \<in> {Inactive, Activating, Failed}"

lemma settleable_iff: "settleable e nm \<longleftrightarrow> jobNotYetStarted e nm \<or> state_of e nm = Failed"
  by (simp add: settleable_def jobNotYetStarted_def split: State.splits)

inductive fail_step :: "Transaction \<Rightarrow> executor \<Rightarrow> executor \<Rightarrow> bool" for tx where
  fail_new: "nm \<in> set (jobNames tx) \<Longrightarrow> settleable e nm \<Longrightarrow> err_of e nm = None \<Longrightarrow> fail_step tx e (fail_job nm err e)"
| fail_again: "nm \<in> set (jobNames tx) \<Longrightarrow> settleable e nm \<Longrightarrow> err_of e nm \<noteq> None \<Longrightarrow> fail_step tx e (set_state nm Failed e)"

lemma fail_requirers_steps:
  "set os \<subseteq> set (jobNames tx) \<Longrightarrow> (fail_step tx)\<^sup>*\<^sup>* e (fail_requirers tx nm err os e)"
proof (induction tx nm err os e rule: fail_requirers.induct)
  case (1 tx nm err e)
  then show ?case by (simp add: fail_requirers.simps)
next
  case (2 tx nm err other os e)
  let ?skip = "other = nm \<or> \<not> startRequiresName (gnode (txGraph tx) other) nm \<or> \<not> jobNotYetStarted e other"
  let ?derr = "DependencyError other nm (Some err)"
  have os: "set os \<subseteq> set (jobNames tx)" "other \<in> set (jobNames tx)" using "2.prems" by auto
  show ?case
  proof (cases ?skip)
    case True
    then show ?thesis using "2.IH"(1) os by (simp add: fail_requirers.simps)
  next
    case False
    then have se: "settleable e other" by (simp add: settleable_iff)
    show ?thesis
    proof (cases "err_of e other = None")
      case True
      let ?e1 = "fail_requirers tx other ?derr (jobNames tx) (fail_job other ?derr e)"
      have "fail_step tx e (fail_job other ?derr e)" using os(2) se True by (rule fail_new)
      moreover have "(fail_step tx)\<^sup>*\<^sup>* (fail_job other ?derr e) ?e1" using "2.IH"(2) [OF False refl] True by simp
      moreover have "(fail_step tx)\<^sup>*\<^sup>* ?e1 (fail_requirers tx nm err os ?e1)"
        using "2.IH"(3) [OF False os(1)] True by (simp add: Let_def)
      ultimately have "(fail_step tx)\<^sup>*\<^sup>* e (fail_requirers tx nm err os ?e1)"
        by (meson converse_rtranclp_into_rtranclp rtranclp_trans)
      then show ?thesis using False True by (simp add: fail_requirers.simps Let_def)
    next
      case err: False
      have "fail_step tx e (set_state other Failed e)" using os(2) se err by (rule fail_again)
      moreover have "(fail_step tx)\<^sup>*\<^sup>* (set_state other Failed e) (fail_requirers tx nm err os (set_state other Failed e))"
        using "2.IH"(3) [OF False os(1)] err by (simp add: Let_def)
      ultimately show ?thesis
        using False err by (simp add: fail_requirers.simps Let_def converse_rtranclp_into_rtranclp)
    qed
  qed
qed

lemma markFailed_steps: "nm \<in> set (jobNames tx) \<Longrightarrow> (fail_step tx)\<^sup>*\<^sup>* e (markFailed tx nm err e)"
proof -
  assume nm: "nm \<in> set (jobNames tx)"
  consider "\<not> settleable e nm" | "settleable e nm" "err_of e nm \<noteq> None" | "settleable e nm" "err_of e nm = None" by blast
  then show ?thesis
  proof cases
    case 1
    then show ?thesis by (simp add: markFailed_def settleable_iff)
  next
    case 2
    then show ?thesis using fail_again [OF nm 2] by (simp add: markFailed_def settleable_iff)
  next
    case 3
    have "(fail_step tx)\<^sup>*\<^sup>* (fail_job nm err e) (fail_requirers tx nm err (jobNames tx) (fail_job nm err e))"
      by (rule fail_requirers_steps) simp
    then show ?thesis
      using fail_new [OF nm 3, of err] 3 by (auto simp: markFailed_def settleable_iff intro: converse_rtranclp_into_rtranclp)
  qed
qed

section \<open>The executor invariant\<close>

definition hard :: "RunError option \<Rightarrow> bool" where
  "hard res \<longleftrightarrow> (case res of None \<Rightarrow> False | Some err \<Rightarrow> \<not> is_skipped err)"

definition skipped :: "RunError option \<Rightarrow> bool" where
  "skipped res \<longleftrightarrow> (case res of None \<Rightarrow> False | Some err \<Rightarrow> is_skipped err)"

definition needs :: "Transaction \<Rightarrow> name \<Rightarrow> name \<Rightarrow> bool" where
  "needs tx nm req \<longleftrightarrow> req \<in> set (jobNames tx) \<and> startRequiresName (gnode (txGraph tx) nm) req"

text \<open>
  Bookkeeping: what the maps say about one job (it is a job, launched, released, has an error, its
  state, its call is in flight, it is in \<open>Started\<close>), and the counters.
\<close>

definition job_book :: "bool \<Rightarrow> bool \<Rightarrow> bool \<Rightarrow> bool \<Rightarrow> State \<Rightarrow> bool \<Rightarrow> bool \<Rightarrow> bool" where
  "job_book isjob l r f s fl st \<longleftrightarrow>
     (if l then st \<and> isjob \<and> fl = (\<not> r) \<and> s \<noteq> Deactivating \<and> (s = Failed \<longrightarrow> f)
        \<and> (\<not> r \<longrightarrow> s = Activating \<or> s = Failed) \<and> (s = Activating \<or> s = Active \<longrightarrow> \<not> f)
      else \<not> st \<and> \<not> fl \<and> r = f \<and> (f \<longrightarrow> isjob) \<and> s = (if f then Failed else Inactive))"

definition booked :: "Transaction \<Rightarrow> executor \<Rightarrow> name \<Rightarrow> bool" where
  "booked tx e nm \<longleftrightarrow> job_book (nm \<in> set (jobNames tx)) (launched e nm) (released e nm) (err_of e nm \<noteq> None)
     (state_of e nm) (nm \<in> set (inflight e)) (nm \<in> set (Started (run e)))"

definition book :: "Transaction \<Rightarrow> executor \<Rightarrow> bool" where
  "book tx e \<longleftrightarrow> counted tx e \<and> distinct (inflight e) \<and> distinct (Started (run e)) \<and> (\<forall>nm. booked tx e nm)"

text \<open>
  Ordering: a launched job was launched after its predecessors were released, and a predecessor it
  requires had been started and had not failed.
\<close>

definition ordered :: "Transaction \<Rightarrow> env \<Rightarrow> executor \<Rightarrow> bool" where
  "ordered tx ev e \<longleftrightarrow>
     (\<forall>nm d. launched e nm \<longrightarrow> d \<in> set (txWaits tx nm) \<longrightarrow> released e d)
     \<and> (\<forall>nm r. launched e nm \<longrightarrow> needs tx nm r \<longrightarrow> r \<in> set (txWaits tx nm) \<longrightarrow> launched e r \<and> \<not> hard (outcome ev r))"

text \<open>
  Jobs outside \<open>X\<close>: \<open>Activating\<close> means that the call is in flight, a call that failed has left an
  error, \<open>Active\<close> means that the call succeeded, and a launched job is \<open>Inactive\<close> only if it was skipped.
\<close>

definition reported :: "env \<Rightarrow> name set \<Rightarrow> executor \<Rightarrow> bool" where
  "reported ev X e \<longleftrightarrow> (\<forall>nm. nm \<notin> X \<longrightarrow>
     (state_of e nm = Activating \<longrightarrow> nm \<in> set (inflight e))
     \<and> (launched e nm \<longrightarrow> released e nm \<longrightarrow> hard (outcome ev nm) \<longrightarrow> err_of e nm \<noteq> None)
     \<and> (state_of e nm = Active \<longrightarrow> outcome ev nm = None)
     \<and> (launched e nm \<longrightarrow> state_of e nm = Inactive \<longrightarrow> skipped (outcome ev nm)))"

text \<open>
  Causes: the error of a job is the failure of its own call, names a failed job it requires, or comes
  from the context.
\<close>

definition ctx_errors :: "env \<Rightarrow> RunError set" where
  "ctx_errors ev = {err. \<exists>i. ctxErr ev i = Some err}"

definition cause :: "Transaction \<Rightarrow> env \<Rightarrow> executor \<Rightarrow> name \<Rightarrow> RunError \<Rightarrow> bool" where
  "cause tx ev e nm err \<longleftrightarrow>
     launched e nm \<and> outcome ev nm = Some err \<and> \<not> is_skipped err
     \<or> (\<exists>r rerr. err = DependencyError nm r (Some rerr) \<and> needs tx nm r \<and> err_of e r = Some rerr)
     \<or> err \<in> ctx_errors ev"

definition caused :: "Transaction \<Rightarrow> env \<Rightarrow> executor \<Rightarrow> bool" where
  "caused tx ev e \<longleftrightarrow> (\<forall>nm err. err_of e nm = Some err \<longrightarrow> cause tx ev e nm err)"

text \<open>Propagation: a job that requires a failed job has failed or was already active.\<close>

definition settled_req :: "executor \<Rightarrow> name \<Rightarrow> bool" where
  "settled_req e nm \<longleftrightarrow> err_of e nm \<noteq> None \<or> state_of e nm = Active"

definition propagated :: "Transaction \<Rightarrow> executor \<Rightarrow> name \<Rightarrow> bool" where
  "propagated tx e r \<longleftrightarrow> (\<forall>nm \<in> set (jobNames tx). nm \<noteq> r \<longrightarrow> needs tx nm r \<longrightarrow> settled_req e nm)"

definition closed_fail :: "Transaction \<Rightarrow> executor \<Rightarrow> bool" where
  "closed_fail tx e \<longleftrightarrow> (\<forall>r. err_of e r \<noteq> None \<longrightarrow> propagated tx e r)"

lemma counted_fail_job: "wf_tx tx \<Longrightarrow> counted tx e \<Longrightarrow> counted tx (fail_job nm err e)"
proof -
  assume wf: "wf_tx tx" and c: "counted tx e"
  let ?e1 = "set_state nm Failed (set_err nm err e)"
  have 1: "counted tx ?e1" by (rule counted_cong [OF c]) simp_all
  have "counted tx (if observer ?e1 then ?e1\<lparr>rejected := rejected ?e1 @ [(nm, err)]\<rparr> else ?e1)"
    by (rule counted_cong [OF 1]) simp_all
  then show ?thesis using 1 wf by (simp add: fail_job_def Let_def counted_releaseAfter)
qed

lemma settleable_booked:
  "booked tx e nm \<Longrightarrow> settleable e nm \<Longrightarrow> nm \<in> set (jobNames tx) \<Longrightarrow> err_of e nm = None \<Longrightarrow>
   job_book True (launched e nm) (released e nm \<or> \<not> launched e nm) True Failed (nm \<in> set (inflight e)) (nm \<in> set (Started (run e)))"
  by (auto simp: booked_def job_book_def settleable_def)

lemma book_fail_step:
  assumes "fail_step tx e e'" "wf_tx tx" "book tx e"
  shows "book tx e'"
  using assms(1)
proof cases
  case (fail_new nm err)
  have "booked tx (fail_job nm err e) x" for x
  proof (cases "x = nm")
    case True
    have "booked tx e nm" using assms(3) by (simp add: book_def)
    from settleable_booked [OF this fail_new(3,2,4)] show ?thesis
      using True fail_new(2) by (simp add: booked_def fail_job_err fail_job_state fail_job_released disj_commute)
  next
    case False
    then show ?thesis
      using assms(3) by (simp add: book_def booked_def fail_job_err fail_job_state fail_job_released)
  qed
  then show ?thesis using assms(2,3) fail_new(1) counted_fail_job by (simp add: book_def)
next
  case (fail_again nm)
  have "booked tx (set_state nm Failed e) x" for x
  proof (cases "x = nm")
    case True
    have "booked tx e nm" using assms(3) by (simp add: book_def)
    then show ?thesis using True fail_again(2,3,4)
      by (cases "launched e nm") (simp_all add: booked_def job_book_def)
  next
    case False
    then show ?thesis using assms(3) by (simp add: book_def booked_def)
  qed
  moreover have "counted tx (set_state nm Failed e)"
    by (rule counted_cong [of tx e]) (use assms(3) in \<open>simp_all add: book_def\<close>)
  ultimately show ?thesis using assms(3) fail_again(1) by (simp add: book_def)
qed

lemma ordered_fail_step:
  assumes "fail_step tx e e'" "book tx e" "ordered tx ev e"
  shows "ordered tx ev e'"
  using assms(1)
proof cases
  case (fail_new nm err)
  then show ?thesis using assms(3) by (auto simp: ordered_def fail_job_err fail_job_released)
next
  case (fail_again nm)
  then show ?thesis using assms(3) by (simp add: ordered_def)
qed

lemma reported_fail_step: "fail_step tx e e' \<Longrightarrow> reported ev X e \<Longrightarrow> reported ev X e'"
  by (erule fail_step.cases) (auto simp: reported_def fail_job_err fail_job_state fail_job_released)

lemma reported_fail_steps: "(fail_step tx)\<^sup>*\<^sup>* e e' \<Longrightarrow> reported ev X e \<Longrightarrow> reported ev X e'"
  by (induction rule: rtranclp_induct) (auto intro: reported_fail_step)

lemma settled_req_fail_step: "fail_step tx e e' \<Longrightarrow> settled_req e x \<Longrightarrow> settled_req e' x"
  by (erule fail_step.cases) (auto simp: settled_req_def fail_job_err fail_job_state settleable_def)

lemma book_fail_steps: "(fail_step tx)\<^sup>*\<^sup>* e e' \<Longrightarrow> wf_tx tx \<Longrightarrow> book tx e \<Longrightarrow> book tx e'"
  by (induction rule: rtranclp_induct) (auto intro: book_fail_step)

lemma ordered_fail_steps:
  "(fail_step tx)\<^sup>*\<^sup>* e e' \<Longrightarrow> wf_tx tx \<Longrightarrow> book tx e \<Longrightarrow> ordered tx ev e \<Longrightarrow> ordered tx ev e'"
  by (induction rule: rtranclp_induct) (auto intro: ordered_fail_step book_fail_steps)

lemma settled_req_fail_steps: "(fail_step tx)\<^sup>*\<^sup>* e e' \<Longrightarrow> settled_req e x \<Longrightarrow> settled_req e' x"
  by (induction rule: rtranclp_induct) (auto intro: settled_req_fail_step)

lemma err_fail_step: "fail_step tx e e' \<Longrightarrow> err_of e x \<noteq> None \<Longrightarrow> err_of e' x = err_of e x"
  by (erule fail_step.cases) (auto simp: fail_job_err)

lemma err_fail_steps: "(fail_step tx)\<^sup>*\<^sup>* e e' \<Longrightarrow> err_of e x \<noteq> None \<Longrightarrow> err_of e' x = err_of e x"
  by (induction rule: rtranclp_induct) (simp_all add: err_fail_step)

lemma propagated_fail_steps: "(fail_step tx)\<^sup>*\<^sup>* e e' \<Longrightarrow> propagated tx e r \<Longrightarrow> propagated tx e' r"
  by (auto simp: propagated_def intro: settled_req_fail_steps)

lemma closed_fail_mono:
  assumes "closed_fail tx e" "\<And>x. settled_req e x \<Longrightarrow> settled_req e' x" "\<And>x. err_of e' x = err_of e x"
  shows "closed_fail tx e'"
  using assms unfolding closed_fail_def propagated_def by simp

lemma book_state:
  assumes "book tx e"
  shows "state_of e nm \<noteq> Deactivating" and "state_of e nm = Failed \<Longrightarrow> err_of e nm \<noteq> None"
proof -
  have b: "booked tx e nm" using assms by (simp add: book_def)
  then show "state_of e nm = Failed \<Longrightarrow> err_of e nm \<noteq> None" by (simp add: booked_def job_book_def split: if_splits)
  show "state_of e nm \<noteq> Deactivating"
    using b by (simp add: booked_def job_book_def split: if_splits)
qed

lemma not_notYetStarted: "book tx e \<Longrightarrow> \<not> jobNotYetStarted e nm \<Longrightarrow> settled_req e nm"
  using book_state [of tx e nm] by (auto simp: jobNotYetStarted_def settled_req_def split: State.splits)

section \<open>Failure reaches every unit that requires the failed one\<close>

lemma markFailed_settled: "nm \<in> set (jobNames tx) \<Longrightarrow> settleable e nm \<Longrightarrow> err_of (markFailed tx nm err e) nm \<noteq> None"
proof -
  assume "settleable e nm"
  moreover have "err_of (fail_requirers tx nm err (jobNames tx) (fail_job nm err e)) nm \<noteq> None"
    using err_fail_steps [OF fail_requirers_steps [of "jobNames tx" tx "fail_job nm err e" nm err], of nm]
    by (simp add: fail_job_err)
  ultimately show ?thesis by (auto simp: markFailed_def settleable_iff)
qed

text \<open>
  The loop settles every unit on its list that requires \<open>nm\<close>, and what fails on the way is propagated
  in turn.
\<close>

lemma fail_requirers_closed:
  assumes "wf_tx tx" "book tx e" "set os \<subseteq> set (jobNames tx)"
  shows "(\<forall>x \<in> set os. x \<noteq> nm \<longrightarrow> startRequiresName (gnode (txGraph tx) x) nm \<longrightarrow> settled_req (fail_requirers tx nm err os e) x)
    \<and> (\<forall>r. err_of e r = None \<longrightarrow> err_of (fail_requirers tx nm err os e) r \<noteq> None \<longrightarrow> propagated tx (fail_requirers tx nm err os e) r)"
  using assms
proof (induction tx nm err os e rule: fail_requirers.induct)
  case (1 tx nm err e)
  then show ?case by (simp add: fail_requirers.simps)
next
  case (2 tx nm err other os e)
  let ?skip = "other = nm \<or> \<not> startRequiresName (gnode (txGraph tx) other) nm \<or> \<not> jobNotYetStarted e other"
  let ?d = "DependencyError other nm (Some err)"
  have os: "set os \<subseteq> set (jobNames tx)" "other \<in> set (jobNames tx)" using "2.prems"(3) by auto
  show ?case
  proof (cases ?skip)
    case True
    have "other \<noteq> nm \<Longrightarrow> startRequiresName (gnode (txGraph tx) other) nm \<Longrightarrow> settled_req e other"
      using True not_notYetStarted [OF "2.prems"(2)] by blast
    then show ?thesis
      using "2.IH"(1) [OF True "2.prems"(1,2) os(1)] True settled_req_fail_steps [OF fail_requirers_steps [OF os(1)]]
      by (simp add: fail_requirers.simps)
  next
    case False
    let ?e1 = "markFailed tx other ?d e"
    let ?e2 = "fail_requirers tx nm err os ?e1"
    have st1: "(fail_step tx)\<^sup>*\<^sup>* e ?e1" by (rule markFailed_steps [OF os(2)])
    have st2: "(fail_step tx)\<^sup>*\<^sup>* ?e1 ?e2" by (rule fail_requirers_steps [OF os(1)])
    have b1: "book tx ?e1" by (rule book_fail_steps [OF st1 "2.prems"(1,2)])
    have eq: "(let derr = ?d in if err_of e other \<noteq> None then set_state other Failed e
         else fail_requirers tx other derr (jobNames tx) (fail_job other derr e)) = ?e1"
      using False by (simp add: markFailed_def Let_def)
    have IH2: "(\<forall>x \<in> set os. x \<noteq> nm \<longrightarrow> startRequiresName (gnode (txGraph tx) x) nm \<longrightarrow> settled_req ?e2 x)
      \<and> (\<forall>r. err_of ?e1 r = None \<longrightarrow> err_of ?e2 r \<noteq> None \<longrightarrow> propagated tx ?e2 r)"
      using "2.IH"(3) [OF False] "2.prems"(1) b1 os(1) unfolding eq by blast
    have "err_of ?e1 other \<noteq> None"
      using markFailed_settled [OF os(2)] False by (simp add: settleable_iff)
    then have so: "settled_req ?e2 other" using settled_req_fail_steps [OF st2] by (simp add: settled_req_def)
    have new1: "propagated tx ?e1 r" if r: "err_of e r = None" "err_of ?e1 r \<noteq> None" for r
    proof (cases "err_of e other = None")
      case none: False
      then show ?thesis using r False by (simp add: markFailed_def)
    next
      case True
      let ?f = "fail_job other ?d e"
      have m: "?e1 = fail_requirers tx other ?d (jobNames tx) ?f" using False True by (simp add: markFailed_def)
      have "fail_step tx e ?f" using os(2) True False by (intro fail_new) (simp_all add: settleable_iff)
      then have bf: "book tx ?f" using "2.prems"(1,2) by (rule book_fail_step)
      have IH1: "(\<forall>x \<in> set (jobNames tx). x \<noteq> other \<longrightarrow> startRequiresName (gnode (txGraph tx) x) other \<longrightarrow> settled_req ?e1 x)
        \<and> (\<forall>r. err_of ?f r = None \<longrightarrow> err_of ?e1 r \<noteq> None \<longrightarrow> propagated tx ?e1 r)"
        using "2.IH"(2) [OF False refl _ "2.prems"(1) bf] True m by simp
      show ?thesis
      proof (cases "r = other")
        case True
        then show ?thesis using IH1 by (simp add: propagated_def needs_def)
      next
        case False
        then have "err_of ?f r = None" using r(1) by (simp add: fail_job_err)
        then show ?thesis using IH1 r(2) by blast
      qed
    qed
    have "propagated tx ?e2 r" if "err_of e r = None" "err_of ?e2 r \<noteq> None" for r
      using that new1 IH2 propagated_fail_steps [OF st2] by blast
    then show ?thesis using IH2 so False unfolding fail_requirers_Cons by simp
  qed
qed

lemma markFailed_closed:
  assumes "wf_tx tx" "book tx e" "closed_fail tx e" "nm \<in> set (jobNames tx)"
  shows "closed_fail tx (markFailed tx nm err e)"
proof -
  let ?e1 = "markFailed tx nm err e"
  have st: "(fail_step tx)\<^sup>*\<^sup>* e ?e1" by (rule markFailed_steps [OF assms(4)])
  have "propagated tx ?e1 r" if r: "err_of e r = None" "err_of ?e1 r \<noteq> None" for r
  proof (cases "settleable e nm \<and> err_of e nm = None")
    case False
    then show ?thesis using r by (auto simp: markFailed_def settleable_iff split: if_splits)
  next
    case True
    let ?f = "fail_job nm err e"
    have m: "?e1 = fail_requirers tx nm err (jobNames tx) ?f" using True by (auto simp: markFailed_def settleable_iff)
    have "fail_step tx e ?f" using assms(4) True by (intro fail_new) simp_all
    then have "book tx ?f" using assms(1,2) by (rule book_fail_step)
    note C = fail_requirers_closed [OF assms(1) this subset_refl, of nm err, folded m]
    show ?thesis
    proof (cases "r = nm")
      case True
      then show ?thesis using C by (simp add: propagated_def needs_def)
    next
      case False
      then have "err_of ?f r = None" using r(1) by (simp add: fail_job_err)
      then show ?thesis using C r(2) by blast
    qed
  qed
  then show ?thesis
    using assms(3) propagated_fail_steps [OF st] unfolding closed_fail_def by blast
qed

section \<open>Every error has a cause\<close>

lemma cause_mono:
  assumes "cause tx ev e nm err" "\<And>x. launched e x \<Longrightarrow> launched e' x" "\<And>x y. err_of e x = Some y \<Longrightarrow> err_of e' x = Some y"
  shows "cause tx ev e' nm err"
  using assms(1) unfolding cause_def
proof (elim disjE conjE exE)
  fix r rerr assume "err = DependencyError nm r (Some rerr)" "needs tx nm r" "err_of e r = Some rerr"
  then show "launched e' nm \<and> outcome ev nm = Some err \<and> \<not> is_skipped err
     \<or> (\<exists>r rerr. err = DependencyError nm r (Some rerr) \<and> needs tx nm r \<and> err_of e' r = Some rerr)
     \<or> err \<in> ctx_errors ev" using assms(3) [of r rerr] by simp
qed (use assms(2) in simp_all)

lemma caused_same: "caused tx ev e \<Longrightarrow> (\<And>x. launched e x \<Longrightarrow> launched e' x) \<Longrightarrow> (\<And>x. err_of e' x = err_of e x) \<Longrightarrow> caused tx ev e'"
  unfolding caused_def
proof (intro allI impI)
  fix nm err
  assume c: "\<forall>nm err. err_of e nm = Some err \<longrightarrow> cause tx ev e nm err"
    and l: "\<And>x. launched e x \<Longrightarrow> launched e' x" and r: "\<And>x. err_of e' x = err_of e x" and "err_of e' nm = Some err"
  then have "cause tx ev e nm err" by simp
  then show "cause tx ev e' nm err" using l by (rule cause_mono) (simp_all add: r)
qed

lemma caused_fail_job:
  assumes "caused tx ev e" "err_of e nm = None" "cause tx ev e nm err"
  shows "caused tx ev (fail_job nm err e)"
proof -
  have "err_of (fail_job nm err e) x = Some y" if "err_of e x = Some y" for x y
    using that assms(2) by (auto simp: fail_job_err)
  then have "cause tx ev (fail_job nm err e) x y" if "cause tx ev e x y" for x y
    using cause_mono [OF that] by simp
  then show ?thesis using assms(1,3) by (simp add: caused_def fail_job_err)
qed

lemma caused_fail_requirers:
  assumes "caused tx ev e" "err_of e nm = Some err" "nm \<in> set (jobNames tx)" "set os \<subseteq> set (jobNames tx)"
  shows "caused tx ev (fail_requirers tx nm err os e)"
  using assms
proof (induction tx nm err os e rule: fail_requirers.induct)
  case (1 tx nm err e)
  then show ?case by (simp add: fail_requirers.simps)
next
  case (2 tx nm err other os e)
  let ?skip = "other = nm \<or> \<not> startRequiresName (gnode (txGraph tx) other) nm \<or> \<not> jobNotYetStarted e other"
  let ?d = "DependencyError other nm (Some err)"
  have os: "set os \<subseteq> set (jobNames tx)" "other \<in> set (jobNames tx)" using "2.prems"(4) by auto
  show ?case
  proof (cases ?skip)
    case True
    then show ?thesis using "2.IH"(1) "2.prems" os by (simp add: fail_requirers.simps)
  next
    case False
    have c: "cause tx ev e other ?d" using False "2.prems"(2,3) by (auto simp: cause_def needs_def)
    show ?thesis
    proof (cases "err_of e other = None")
      case True
      let ?e1 = "fail_requirers tx other ?d (jobNames tx) (fail_job other ?d e)"
      have "caused tx ev ?e1"
        using "2.IH"(2) [OF False refl] True caused_fail_job [OF "2.prems"(1) True c] os(2) by (simp add: fail_job_err)
      moreover have "err_of ?e1 nm = Some err"
        using err_fail_steps [OF fail_requirers_steps [of "jobNames tx" tx "fail_job other ?d e" other ?d], of nm] False "2.prems"(2)
        by (auto simp: fail_job_err)
      ultimately show ?thesis
        using "2.IH"(3) [OF False] "2.prems"(3) os(1) False True by (simp add: fail_requirers.simps Let_def)
    next
      case err: False
      have "caused tx ev (set_state other Failed e)" by (rule caused_same [OF "2.prems"(1)]) simp_all
      then show ?thesis
        using "2.IH"(3) [OF False] "2.prems"(2,3) os(1) False err by (simp add: fail_requirers.simps Let_def)
    qed
  qed
qed

lemma markFailed_caused:
  assumes "caused tx ev e" "nm \<in> set (jobNames tx)" "cause tx ev e nm err"
  shows "caused tx ev (markFailed tx nm err e)"
proof -
  have "caused tx ev (set_state nm Failed e)" by (rule caused_same [OF assms(1)]) simp_all
  moreover have "caused tx ev (fail_requirers tx nm err (jobNames tx) (fail_job nm err e))" if "err_of e nm = None"
    using caused_fail_job [OF assms(1) that assms(3)] assms(2) by (intro caused_fail_requirers) (simp_all add: fail_job_err)
  ultimately show ?thesis using assms(1) by (simp add: markFailed_def)
qed

lemma failed_req_Some:
  "failed_req tx e nm reqs = Some err \<Longrightarrow>
     \<exists>r rerr. err = DependencyError nm r (Some rerr) \<and> r \<in> set reqs \<and> r \<in> set (jobNames tx) \<and> err_of e r = Some rerr"
  by (induction reqs) (auto simp: map_of_job_keys split: if_splits option.splits)

lemma requiresFailed_cause:
  assumes "wf_tx tx" "requiresFailed tx e nm = Some err"
  shows "cause tx ev e nm err"
proof -
  obtain n where n: "gnode (txGraph tx) nm = Some n" "failed_req tx e nm (startRequireNames (Some n)) = Some err"
    using assms(2) by (auto simp: requiresFailed_def split: option.splits)
  obtain r rerr where r: "err = DependencyError nm r (Some rerr)" "r \<in> set (startRequireNames (Some n))"
    "r \<in> set (jobNames tx)" "err_of e r = Some rerr" using failed_req_Some [OF n(2)] by blast
  have "set (startRequireNames (Some n)) = set (requires n) \<union> set (bindsTo n)"
    using assms(1) n(1) by (intro set_startRequireNames wf_graph_node(1)) (auto simp: wf_tx_def)
  then have "needs tx nm r" using r(2,3) n(1) by (simp add: needs_def startRequiresName_iff)
  then show ?thesis using r(1,4) by (auto simp: cause_def)
qed

section \<open>Every step keeps the invariant\<close>

definition exec_inv :: "Transaction \<Rightarrow> nat \<Rightarrow> env \<Rightarrow> executor \<Rightarrow> bool" where
  "exec_inv tx workers ev e \<longleftrightarrow> wf_tx tx \<and> book tx e \<and> ordered tx ev e \<and> reported ev {} e
     \<and> closed_fail tx e \<and> caused tx ev e \<and> length (inflight e) \<le> workers"

lemma failed_req_None:
  "failed_req tx e nm reqs = None \<longleftrightarrow> (\<forall>r \<in> set reqs. r \<in> set (jobNames tx) \<longrightarrow> err_of e r = None)"
  by (induction reqs) (auto simp: map_of_job_keys split: option.splits)

lemma requiresFailed_None:
  assumes "wf_tx tx" "requiresFailed tx e nm = None" "needs tx nm r"
  shows "err_of e r = None"
proof -
  obtain n where n: "gnode (txGraph tx) nm = Some n" "r \<in> set (requires n) \<union> set (bindsTo n)"
    using assms(3) by (auto simp: needs_def startRequiresName_iff)
  have "set (startRequireNames (Some n)) = set (requires n) \<union> set (bindsTo n)"
    using assms(1) n(1) by (intro set_startRequireNames wf_graph_node(1)) (auto simp: wf_tx_def)
  then show ?thesis using assms n by (auto simp: requiresFailed_def failed_req_None needs_def)
qed

lemma markFailed_inv:
  assumes "exec_inv tx workers ev e" "nm \<in> set (jobNames tx)" "cause tx ev e nm err"
  shows "exec_inv tx workers ev (markFailed tx nm err e)"
proof -
  have st: "(fail_step tx)\<^sup>*\<^sup>* e (markFailed tx nm err e)" by (rule markFailed_steps [OF assms(2)])
  show ?thesis
    using assms book_fail_steps [OF st] ordered_fail_steps [OF st] reported_fail_steps [OF st] markFailed_closed [of tx e nm err]
      markFailed_caused [of tx ev e nm err] by (simp add: exec_inv_def)
qed

lemma launch_inv:
  assumes inv: "exec_inv tx workers ev e" and nm: "nm \<in> set (jobNames tx)" "\<not> launched e nm" "state_of e nm \<noteq> Failed"
    "remaining e nm \<le> 0" "requiresFailed tx e nm = None" "length (inflight e) < workers"
  defines "e' \<equiv> let e1 = set_state nm Activating (e\<lparr>launched := (launched e)(nm := True)\<rparr>)
            in e1\<lparr>run := (run e1)\<lparr>Started := Started (run e1) @ [nm]\<rparr>, inflight := inflight e1 @ [nm]\<rparr>"
  shows "exec_inv tx workers ev e'"
proof -
  have f: "launched e' = (launched e)(nm := True)" "released e' = released e" "remaining e' = remaining e" "unblock e' = unblock e"
    "inflight e' = inflight e @ [nm]" "Started (run e') = Started (run e) @ [nm]"
    by (simp_all add: e'_def Let_def)
  have st: "state_of e' x = (if x = nm then Activating else state_of e x)" "err_of e' x = err_of e x" for x
    by (simp_all add: e'_def Let_def state_of_def err_of_def set_state_def)
  have b: "book tx e" "wf_tx tx" "ordered tx ev e" "reported ev {} e" "closed_fail tx e" and ca: "caused tx ev e"
    using inv by (simp_all add: exec_inv_def)
  have "booked tx e nm" using b(1) by (simp add: book_def)
  then have bn: "err_of e nm = None" "\<not> released e nm" "nm \<notin> set (inflight e)" "nm \<notin> set (Started (run e))"
    "state_of e nm = Inactive"
    using nm(2,3) unfolding booked_def job_book_def by (simp_all split: if_splits)
  have "remaining e nm = int (pending tx (released e) nm)" using b(1) nm(1) by (auto simp: book_def counted_def)
  then have rel: "\<forall>d \<in> set (txWaits tx nm). released e d" using nm(4) by (simp add: pending_0 [symmetric])
  have req: "launched e r \<and> \<not> hard (outcome ev r)" if "needs tx nm r" "r \<in> set (txWaits tx nm)" for r
  proof -
    have er: "err_of e r = None" by (rule requiresFailed_None [OF b(2) nm(5) that(1)])
    have rr: "released e r" using rel that(2) by blast
    have "booked tx e r" using b(1) by (simp add: book_def)
    then have "launched e r" using er rr by (simp add: booked_def job_book_def split: if_splits)
    then show ?thesis using b(4) er rr by (auto simp: reported_def)
  qed
  have "counted tx e'" by (rule counted_cong [of tx e]) (use b(1) f in \<open>simp_all add: book_def\<close>)
  moreover have "booked tx e' x" for x
  proof (cases "x = nm")
    case True
    then show ?thesis using nm(1) bn by (simp add: booked_def job_book_def f st)
  next
    case False
    then show ?thesis using b(1) by (simp add: book_def booked_def f st)
  qed
  ultimately have "book tx e'" using b(1) bn by (simp add: book_def f)
  moreover have "ordered tx ev e'" using b(3) rel req bn by (auto simp: ordered_def f)
  moreover have "reported ev {} e'" using b(4) bn by (auto simp: reported_def f st)
  moreover have "closed_fail tx e'"
    by (rule closed_fail_mono [OF b(5)]) (use bn in \<open>auto simp: settled_req_def st split: if_splits\<close>)
  moreover have "caused tx ev e'" by (rule caused_same [OF ca]) (simp_all add: f st)
  ultimately show ?thesis using b(2) nm(6) by (simp add: exec_inv_def f)
qed

lemma tryLaunch_inv:
  assumes "exec_inv tx workers ev e" "nm \<in> set (jobNames tx)" "length (inflight e) < workers"
  shows "exec_inv tx workers ev (tryLaunch tx nm e)"
proof -
  have "wf_tx tx" using assms(1) by (simp add: exec_inv_def)
  then show ?thesis
    using assms markFailed_inv [OF assms(1,2)] launch_inv [OF assms(1,2)] requiresFailed_cause [of tx e nm]
    by (auto simp: tryLaunch_def split: option.splits)
qed

lemma releaseAfter_inflight:
  assumes "exec_inv tx workers ev e" "nm \<in> set (inflight e)"
  defines "e1 \<equiv> releaseAfter nm (e\<lparr>inflight := remove1 nm (inflight e)\<rparr>)"
  shows "book tx e1" "ordered tx ev e1" "reported ev {nm} e1" "closed_fail tx e1" "launched e1 nm" "released e1 nm"
    "nm \<in> set (jobNames tx)" "length (inflight e1) < workers" "state_of e1 nm = Activating \<or> state_of e1 nm = Failed"
    "nm \<notin> set (inflight e1)" "caused tx ev e1"
proof -
  let ?e0 = "e\<lparr>inflight := remove1 nm (inflight e)\<rparr>"
  have b: "book tx e" "wf_tx tx" "ordered tx ev e" "reported ev {} e" "closed_fail tx e" "length (inflight e) \<le> workers"
    using assms(1) by (simp_all add: exec_inv_def)
  have bn: "booked tx e nm" and d: "distinct (inflight e)" using b(1) by (simp_all add: book_def)
  show l: "launched e1 nm" "nm \<in> set (jobNames tx)" "state_of e1 nm = Activating \<or> state_of e1 nm = Failed"
    using bn assms(2) by (simp_all add: e1_def booked_def job_book_def split: if_splits)
  have "counted tx ?e0" by (rule counted_cong [of tx e]) (use b(1) in \<open>simp_all add: book_def\<close>)
  then have c: "counted tx e1" unfolding e1_def by (rule counted_releaseAfter [OF b(2)])
  have "booked tx e1 x" for x
  proof (cases "x = nm")
    case True
    have "launched e nm" "nm \<in> set (jobNames tx)" "nm \<in> set (Started (run e))"
      "state_of e nm = Activating \<or> state_of e nm = Failed" "state_of e nm = Failed \<Longrightarrow> err_of e nm \<noteq> None"
      "state_of e nm = Activating \<Longrightarrow> err_of e nm = None"
      using bn assms(2) by (simp_all add: booked_def job_book_def split: if_splits)
    then show ?thesis using True d by (auto simp: e1_def booked_def job_book_def)
  next
    case False
    then have "booked tx e x" using b(1) by (simp add: book_def)
    then show ?thesis using False d by (simp add: e1_def booked_def)
  qed
  then show "book tx e1" using c b(1) d by (simp add: book_def e1_def)
  show "ordered tx ev e1" using b(3) by (auto simp: ordered_def e1_def)
  show "reported ev {nm} e1" using b(4) d by (auto simp: reported_def e1_def)
  show "closed_fail tx e1" using b(5) by (simp add: closed_fail_def propagated_def settled_req_def e1_def)
  show "released e1 nm" by (simp add: e1_def)
  show "caused tx ev e1"
    by (rule caused_same [of tx ev e]) (use assms(1) in \<open>simp_all add: exec_inv_def e1_def\<close>)
  show "nm \<notin> set (inflight e1)" using d by (simp add: e1_def)
  show "length (inflight e1) < workers"
    using b(6) assms(2) by (simp add: e1_def length_remove1) (metis One_nat_def Suc_pred length_pos_if_in_set less_eq_Suc_le)
qed

lemma failed_fail_step: "fail_step tx e e' \<Longrightarrow> state_of e x = Failed \<Longrightarrow> state_of e' x = Failed"
  by (erule fail_step.cases) (auto simp: fail_job_state)

lemma failed_fail_steps: "(fail_step tx)\<^sup>*\<^sup>* e e' \<Longrightarrow> state_of e x = Failed \<Longrightarrow> state_of e' x = Failed"
  by (induction rule: rtranclp_induct) (auto intro: failed_fail_step)

lemma markFailed_Failed:
  assumes "nm \<in> set (jobNames tx)" "settleable e nm"
  shows "state_of (markFailed tx nm err e) nm = Failed"
proof -
  have "state_of (fail_requirers tx nm err (jobNames tx) (fail_job nm err e)) nm = Failed"
    by (rule failed_fail_steps [OF fail_requirers_steps]) (simp_all add: fail_job_state)
  then show ?thesis using assms(2) by (auto simp: markFailed_def settleable_iff)
qed

lemma reported_add:
  assumes "reported ev {nm} e" "state_of e nm \<noteq> Activating" "hard (outcome ev nm) \<longrightarrow> err_of e nm \<noteq> None"
    "state_of e nm = Active \<longrightarrow> outcome ev nm = None" "state_of e nm = Inactive \<longrightarrow> skipped (outcome ev nm)"
  shows "reported ev {} e"
  unfolding reported_def
proof (intro allI impI)
  fix x show "(state_of e x = Activating \<longrightarrow> x \<in> set (inflight e))
     \<and> (launched e x \<longrightarrow> released e x \<longrightarrow> hard (outcome ev x) \<longrightarrow> err_of e x \<noteq> None)
     \<and> (state_of e x = Active \<longrightarrow> outcome ev x = None)
     \<and> (launched e x \<longrightarrow> state_of e x = Inactive \<longrightarrow> skipped (outcome ev x))"
    using assms by (cases "x = nm") (simp_all add: reported_def)
qed

lemma set_state_finished:
  assumes "book tx e" "ordered tx ev e" "reported ev {nm} e" "closed_fail tx e" "wf_tx tx" "length (inflight e) \<le> workers"
    and nm: "launched e nm" "released e nm" "nm \<notin> set (inflight e)" "\<not> hard (outcome ev nm)"
    and ca: "caused tx ev e"
    and s: "s = Active \<and> state_of e nm = Activating \<and> outcome ev nm = None \<or> s = Inactive \<and> skipped (outcome ev nm)" "state_of e nm = Activating \<or> err_of e nm \<noteq> None"
  shows "exec_inv tx workers ev (set_state nm s e)"
proof -
  let ?e = "set_state nm s e"
  have "counted tx ?e" by (rule counted_cong [of tx e]) (use assms(1) in \<open>simp_all add: book_def\<close>)
  moreover have "booked tx ?e x" for x
  proof -
    have "booked tx e x" using assms(1) by (simp add: book_def)
    then show ?thesis
    proof (cases "x = nm")
      case True
      have "nm \<in> set (jobNames tx)" "nm \<in> set (Started (run e))" "state_of e nm = Activating \<Longrightarrow> err_of e nm = None"
        using \<open>booked tx e x\<close> True nm(1) by (simp_all add: booked_def job_book_def split: if_splits)
      then show ?thesis using True nm(1,2,3) s(1) by (elim disjE) (simp_all add: booked_def job_book_def split: if_splits)
    qed (simp add: booked_def)
  qed
  ultimately have "book tx ?e" using assms(1) by (simp add: book_def)
  moreover have "ordered tx ev ?e" using assms(2) by (simp add: ordered_def)
  moreover have "reported ev {} ?e"
    using s(1) nm(4) assms(3) by (intro reported_add [of ev nm]) (auto simp: reported_def)
  moreover have "closed_fail tx ?e"
    by (rule closed_fail_mono [OF assms(4)]) (use s in \<open>auto simp: settled_req_def split: if_splits\<close>)
  moreover have "caused tx ev ?e" by (rule caused_same [OF ca]) simp_all
  ultimately show ?thesis using assms(5,6) by (simp add: exec_inv_def)
qed

lemma markFailed_finished:
  assumes "book tx e" "ordered tx ev e" "reported ev {nm} e" "closed_fail tx e" "wf_tx tx" "length (inflight e) \<le> workers"
    and nm: "nm \<in> set (jobNames tx)" "settleable e nm" and ca: "caused tx ev e" "cause tx ev e nm err"
  shows "exec_inv tx workers ev (markFailed tx nm err e)"
proof -
  let ?e = "markFailed tx nm err e"
  have st: "(fail_step tx)\<^sup>*\<^sup>* e ?e" by (rule markFailed_steps [OF nm(1)])
  have "reported ev {} ?e"
    using reported_fail_steps [OF st assms(3)] markFailed_Failed [OF nm] markFailed_settled [OF nm]
    by (intro reported_add [of ev nm]) simp_all
  then show ?thesis
    using assms(5,6) book_fail_steps [OF st assms(5,1)] ordered_fail_steps [OF st assms(5,1,2)]
      markFailed_closed [OF assms(5,1,4) nm(1)] markFailed_caused [OF ca(1) nm(1) ca(2)] by (simp add: exec_inv_def)
qed

lemma onFinish_inv:
  assumes inv: "exec_inv tx workers ev e" and nm: "nm \<in> set (inflight e)"
  shows "exec_inv tx workers ev (onFinish tx nm (outcome ev nm) (e\<lparr>inflight := remove1 nm (inflight e)\<rparr>))"
proof -
  let ?e = "releaseAfter nm (e\<lparr>inflight := remove1 nm (inflight e)\<rparr>)"
  note r = releaseAfter_inflight [OF inv nm]
  have wf: "wf_tx tx" using inv by (simp add: exec_inv_def)
  have len: "length (inflight ?e) \<le> workers" using r(8) by simp
  have sa: "settleable ?e nm" using r(9) by (auto simp: settleable_def)
  have fe: "state_of ?e nm = Activating \<or> err_of ?e nm \<noteq> None" using r(9) book_state(2) [OF r(1), of nm] by blast
  note mf = markFailed_finished [OF r(1-4) wf len r(7) sa r(11)]
  note ss = set_state_finished [OF r(1-4) wf len r(5,6,10) _ r(11)]
  show ?thesis
  proof (cases "outcome ev nm")
    case (Some err)
    have "\<not> is_skipped err \<Longrightarrow> cause tx ev ?e nm err" using Some r(5) by (simp add: cause_def)
    then show ?thesis using Some mf ss [of Inactive] fe by (simp add: onFinish_def Let_def hard_def skipped_def)
  next
    case None
    have "state_of ?e nm = Failed \<Longrightarrow> exec_inv tx workers ev ?e"
      using r(1,2,4,11) wf len reported_add [OF r(3)] None by (simp add: exec_inv_def hard_def)
    then show ?thesis
      using mf ss [of Active] requiresFailed_cause [OF wf, of ?e nm] r(9) fe None
      unfolding onFinish_def Let_def by (auto simp: hard_def split: option.splits)
  qed
qed

section \<open>All interleavings\<close>

text \<open>
  A step of the executor: a launch attempt while a worker is free, the return of any call in flight,
  or the rejection of a job that has not been launched.
\<close>

inductive exec_step :: "Transaction \<Rightarrow> nat \<Rightarrow> env \<Rightarrow> executor \<Rightarrow> executor \<Rightarrow> bool" for tx workers ev where
  launch: "nm \<in> set (jobNames tx) \<Longrightarrow> length (inflight e) < workers \<Longrightarrow> exec_step tx workers ev e (tryLaunch tx nm e)"
| finish: "nm \<in> set (inflight e) \<Longrightarrow>
     exec_step tx workers ev e (onFinish tx nm (outcome ev nm) (e\<lparr>inflight := remove1 nm (inflight e)\<rparr>))"
| reject: "nm \<in> set (jobNames tx) \<Longrightarrow> state_of e nm = Inactive \<Longrightarrow> \<not> launched e nm \<Longrightarrow> err \<in> ctx_errors ev \<Longrightarrow>
     exec_step tx workers ev e (markFailed tx nm err e)"

inductive_cases exec_stepE: "exec_step tx workers ev e e'"

definition exec_init :: "Transaction \<Rightarrow> executor \<Rightarrow> bool" where
  "exec_init tx e \<longleftrightarrow> wf_tx tx \<and> (\<exists>obs. e = init_executor tx Inactive obs)"

lemma exec_init_inv: "exec_init tx e \<Longrightarrow> exec_inv tx workers ev e"
proof -
  assume "exec_init tx e"
  then obtain obs where e: "e = init_executor tx Inactive obs" and wf: "wf_tx tx" by (auto simp: exec_init_def)
  have "book tx e"
    using counted_init [OF wf] by (simp add: e book_def booked_def job_book_def init_executor_state)
  then show ?thesis
    using wf by (simp add: e exec_inv_def ordered_def reported_def closed_fail_def caused_def init_executor_state)
qed

interpretation sx: invariant_system "exec_init tx" "exec_step tx workers ev" "exec_inv tx workers ev" for tx workers ev
proof
  show "exec_init tx s \<Longrightarrow> exec_inv tx workers ev s" for s by (rule exec_init_inv)
  show "exec_step tx workers ev s t \<Longrightarrow> exec_inv tx workers ev s \<Longrightarrow> exec_inv tx workers ev t" for s t
    by (erule exec_stepE) (auto intro: tryLaunch_inv onFinish_inv markFailed_inv simp: cause_def)
qed

end
