(* ===== verification/Execute_Start.thy ===== *)
theory Execute_Start
  imports Executor
begin

text \<open>
  The loops of the start executor: \<open>ExecuteWithLimit\<close>, \<open>Execute\<close> and \<open>Graph.Start\<close> of
  \<open>internal/core/execute.go\<close>, as total functions of the environment, and what a run returns.
  A nil context is an environment whose \<open>ctxErr\<close> is \<open>None\<close> everywhere.
\<close>

section \<open>The loops\<close>

lemma tryLaunch_work:
  assumes "nm \<in> set (jobNames tx)"
  shows "work_left tx (tryLaunch tx nm e) \<le> work_left tx e"
proof (cases "launched e nm \<or> state_of e nm = Failed \<or> 0 < remaining e nm \<or> requiresFailed tx e nm \<noteq> None")
  case True
  then show ?thesis by (auto simp: tryLaunch_def work_left_def split: option.splits)
next
  case False
  then show ?thesis using assms by (intro work_left_launch) (simp_all add: tryLaunch_def Let_def)
qed

lemma launch_all_work:
  "set names \<subseteq> set (jobNames tx) \<Longrightarrow> work_left tx (launch_all tx workers names e) \<le> work_left tx e"
proof (induction names arbitrary: e)
  case (Cons nm names)
  have "work_left tx (launch_all tx workers names (tryLaunch tx nm e)) \<le> work_left tx e"
    using Cons tryLaunch_work [of nm tx e] order_trans by auto
  then show ?case by simp
qed simp

lemma onFinish_fields [simp]:
  "launched (onFinish tx nm res e) = launched e" "inflight (onFinish tx nm res e) = inflight e"
  "Started (run (onFinish tx nm res e)) = Started (run e)"
  by (auto simp: onFinish_def Let_def split: option.splits)

lemma receive_work: "inflight e \<noteq> [] \<Longrightarrow> work_left tx (receive tx ev i e) < work_left tx e"
  using next_result_in [of "inflight e" ev i]
  by (simp add: receive_def Let_def work_left_def length_remove1 length_pos_if_in_set)

function start_loop :: "Transaction \<Rightarrow> env \<Rightarrow> nat \<Rightarrow> nat \<Rightarrow> executor \<Rightarrow> nat \<times> executor" where
  "start_loop tx ev workers i e =
     (case ctxErr ev i of
        Some err \<Rightarrow> (i, cancel_all tx err (jobNames tx) e)
      | None \<Rightarrow>
          let e1 = launch_all tx workers (jobNames tx) e in
          if inflight e1 = [] then (i, e1)
          else start_loop tx ev workers (Suc i) (receive tx ev i e1))"
  by pat_completeness auto

termination
proof (relation "measure (\<lambda>(tx, ev, workers, i, e). work_left tx e)", goal_cases)
  case (2 tx ev workers i e e1)
  then show ?case
    using receive_work [of e1 tx ev i] launch_all_work [of "jobNames tx" tx workers e] by simp
qed simp

declare start_loop.simps [simp del]

function drain :: "Transaction \<Rightarrow> env \<Rightarrow> nat \<Rightarrow> executor \<Rightarrow> executor" where
  "drain tx ev i e = (if inflight e = [] then e else drain tx ev (Suc i) (receive tx ev i e))"
  by pat_completeness auto

termination
  by (relation "measure (\<lambda>(tx, ev, i, e). work_left tx e)") (auto simp: receive_work)

declare drain.simps [simp del]

definition start_run :: "Transaction \<Rightarrow> env \<Rightarrow> bool \<Rightarrow> nat \<Rightarrow> executor" where
  "start_run tx ev obs workers =
     (case start_loop tx ev workers 0 (init_executor tx Inactive obs) of (i, e) \<Rightarrow>
        not_started tx (jobNames tx) (drain tx ev i e))"

definition ExecuteWithLimit ::
  "Transaction option \<Rightarrow> env option \<Rightarrow> bool \<Rightarrow> int \<Rightarrow> PlanError + (Run \<times> RunError option)" where
  "ExecuteWithLimit txo starter obs workers =
     (if workers < 1 then Inl (PlanMsg ''transaction worker limit must be positive'')
      else case starter of None \<Rightarrow> Inl (PlanMsg ''nil starter'')
        | Some ev \<Rightarrow>
            (case validate txo of Inl er \<Rightarrow> Inl er
             | Inr _ \<Rightarrow>
                 (case txo of None \<Rightarrow> Inl (PlanMsg ''empty transaction'')
                  | Some tx \<Rightarrow>
                      let r = run (start_run tx ev obs (nat workers))
                      in Inr (r, rootError txo (Some r)))))"

definition Execute :: "Transaction option \<Rightarrow> env option \<Rightarrow> bool \<Rightarrow> PlanError + (Run \<times> RunError option)" where
  "Execute txo starter obs = ExecuteWithLimit txo starter obs (int DefaultTransactionWorkers)"

definition Start :: "Graph option \<Rightarrow> env option \<Rightarrow> bool \<Rightarrow> name list \<Rightarrow> PlanError + (Run \<times> RunError option)" where
  "Start go starter obs names = (case PlanStart go names of Inl er \<Rightarrow> Inl er | Inr tx \<Rightarrow> Execute (Some tx) starter obs)"

section \<open>The loops are sequences of steps\<close>

abbreviation exec_steps :: "Transaction \<Rightarrow> nat \<Rightarrow> env \<Rightarrow> executor \<Rightarrow> executor \<Rightarrow> bool" where
  "exec_steps tx workers ev \<equiv> (exec_step tx workers ev)\<^sup>*\<^sup>*"

lemma launch_all_steps:
  "set names \<subseteq> set (jobNames tx) \<Longrightarrow> exec_steps tx workers ev e (launch_all tx workers names e)"
proof (induction names arbitrary: e)
  case (Cons nm names)
  show ?case
  proof (cases "workers \<le> length (inflight e)")
    case False
    then have "exec_step tx workers ev e (tryLaunch tx nm e)" using Cons.prems by (intro exec_step.launch) auto
    moreover have "exec_steps tx workers ev (tryLaunch tx nm e) (launch_all tx workers names (tryLaunch tx nm e))"
      using Cons by simp
    ultimately show ?thesis using False by (simp add: converse_rtranclp_into_rtranclp)
  qed simp
qed simp

lemma receive_step: "inflight e \<noteq> [] \<Longrightarrow> exec_step tx workers ev e (receive tx ev i e)"
  unfolding receive_def Let_def by (rule exec_step.finish) (rule next_result_in)

lemma reject_steps:
  assumes "nm \<in> set (jobNames tx)" "err \<in> ctx_errors ev"
  shows "exec_steps tx workers ev e (if state_of e nm = Inactive \<and> \<not> launched e nm then markFailed tx nm err e else e)"
proof (cases "state_of e nm = Inactive \<and> \<not> launched e nm")
  case True
  then have "exec_step tx workers ev e (markFailed tx nm err e)" using assms by (intro exec_step.reject) simp_all
  then show ?thesis using True by simp
qed auto

lemma cancel_all_steps:
  "set names \<subseteq> set (jobNames tx) \<Longrightarrow> err \<in> ctx_errors ev \<Longrightarrow> exec_steps tx workers ev e (cancel_all tx err names e)"
proof (induction names arbitrary: e)
  case (Cons nm names)
  let ?e = "if state_of e nm = Inactive \<and> \<not> launched e nm then markFailed tx nm err e else e"
  have "exec_steps tx workers ev e ?e" using Cons.prems by (intro reject_steps) simp_all
  moreover have "exec_steps tx workers ev ?e (cancel_all tx err names ?e)" using Cons by simp
  ultimately show ?case by (simp del: if_split)
qed simp

lemma ctx_errors_at: "ctxErr ev i = Some err \<Longrightarrow> err \<in> ctx_errors ev"
  by (auto simp: ctx_errors_def)

lemma start_loop_steps: "exec_steps tx workers ev e (snd (start_loop tx ev workers i e))"
proof (induction tx ev workers i e rule: start_loop.induct)
  case (1 tx ev workers i e)
  show ?case
  proof (cases "ctxErr ev i")
    case (Some err)
    then show ?thesis by (simp add: start_loop.simps cancel_all_steps ctx_errors_at)
  next
    case None
    let ?e1 = "launch_all tx workers (jobNames tx) e"
    have a: "exec_steps tx workers ev e ?e1" by (rule launch_all_steps) simp
    show ?thesis
    proof (cases "inflight ?e1 = []")
      case True
      then show ?thesis using a None by (simp add: start_loop.simps Let_def)
    next
      case False
      have "exec_steps tx workers ev (receive tx ev i ?e1) (snd (start_loop tx ev workers (Suc i) (receive tx ev i ?e1)))"
        using "1.IH" [OF None refl False] .
      moreover have "exec_step tx workers ev ?e1 (receive tx ev i ?e1)" using False by (rule receive_step)
      ultimately have "exec_steps tx workers ev e (snd (start_loop tx ev workers (Suc i) (receive tx ev i ?e1)))"
        using a by (meson converse_rtranclp_into_rtranclp rtranclp_trans)
      then show ?thesis using None False by (subst start_loop.simps) (simp add: Let_def)
    qed
  qed
qed

lemma drain_steps: "exec_steps tx workers ev e (drain tx ev i e)"
proof (induction tx ev i e rule: drain.induct)
  case (1 tx ev i e)
  show ?case
  proof (cases "inflight e = []")
    case True
    then show ?thesis by (simp add: drain.simps)
  next
    case False
    then show ?thesis
      using "1.IH" receive_step [OF False, of tx workers ev i]
      by (subst drain.simps) (simp add: converse_rtranclp_into_rtranclp)
  qed
qed

lemma drain_inflight: "inflight (drain tx ev i e) = []"
proof (induction tx ev i e rule: drain.induct)
  case (1 tx ev i e)
  then show ?case by (subst drain.simps) simp
qed

section \<open>Progress\<close>

lemma needs_settled:
  assumes inv: "exec_inv tx workers ev e" and nm: "nm \<in> set (jobNames tx)" "\<not> launched e nm" "err_of e nm = None"
  shows "requiresFailed tx e nm = None"
proof (cases "gnode (txGraph tx) nm")
  case (Some n)
  have wf: "wf_tx tx" "closed_fail tx e" "book tx e" using inv by (simp_all add: exec_inv_def)
  have sr: "set (startRequireNames (Some n)) = set (requires n) \<union> set (bindsTo n)"
    using wf(1) Some by (intro set_startRequireNames wf_graph_node(1)) (auto simp: wf_tx_def)
  have "booked tx e nm" using wf(3) by (simp add: book_def)
  then have "\<not> settled_req e nm" using nm by (simp add: settled_req_def booked_def job_book_def)
  note u = this
  have "err_of e r = None" if r: "r \<in> set (startRequireNames (Some n))" "r \<in> set (jobNames tx)" for r
  proof (rule ccontr)
    assume er: "err_of e r \<noteq> None"
    have "needs tx nm r" using r sr Some by (simp add: needs_def startRequiresName_iff)
    moreover have "nm \<noteq> r" using er nm(3) by auto
    moreover have "propagated tx e r" using wf(2) er by (simp add: closed_fail_def)
    ultimately show False using u nm(1) by (simp add: propagated_def)
  qed
  then show ?thesis by (simp add: requiresFailed_def Some failed_req_None)
qed (simp add: requiresFailed_def)

lemma unlaunched_state:
  assumes "exec_inv tx workers ev e" "\<not> launched e nm"
  shows "state_of e nm = Failed \<longleftrightarrow> err_of e nm \<noteq> None" "released e nm \<longleftrightarrow> err_of e nm \<noteq> None"
    "state_of e nm = Inactive \<longleftrightarrow> err_of e nm = None"
proof -
  have "booked tx e nm" using assms(1) by (simp add: exec_inv_def book_def)
  then show "state_of e nm = Failed \<longleftrightarrow> err_of e nm \<noteq> None" "released e nm \<longleftrightarrow> err_of e nm \<noteq> None"
    "state_of e nm = Inactive \<longleftrightarrow> err_of e nm = None"
    using assms(2) by (simp_all add: booked_def job_book_def)
qed

text \<open>A launch attempt either launches the job or does nothing.\<close>

lemma tryLaunch_cases:
  assumes inv: "exec_inv tx workers ev e" and nm: "nm \<in> set (jobNames tx)"
  shows "tryLaunch tx nm e = e \<and> (launched e nm \<or> err_of e nm \<noteq> None \<or> 0 < remaining e nm)
    \<or> inflight (tryLaunch tx nm e) = inflight e @ [nm]"
proof (cases "launched e nm \<or> err_of e nm \<noteq> None")
  case True
  then show ?thesis using unlaunched_state(1) [OF inv, of nm] by (auto simp: tryLaunch_def)
next
  case False
  then show ?thesis
    using needs_settled [OF inv nm] unlaunched_state(1) [OF inv, of nm] by (auto simp: tryLaunch_def Let_def)
qed

lemma tryLaunch_inflight: "\<exists>xs. inflight (tryLaunch tx nm e) = inflight e @ xs"
  by (auto simp: tryLaunch_def Let_def split: option.splits)

lemma launch_all_inflight: "\<exists>xs. inflight (launch_all tx workers names e) = inflight e @ xs"
proof (induction names arbitrary: e)
  case (Cons nm names)
  obtain xs ys where "inflight (tryLaunch tx nm e) = inflight e @ xs"
    "inflight (launch_all tx workers names (tryLaunch tx nm e)) = inflight (tryLaunch tx nm e) @ ys"
    using tryLaunch_inflight Cons.IH by meson
  then show ?case by simp
qed simp

lemma launch_all_idle:
  assumes "exec_inv tx workers ev e" "set names \<subseteq> set (jobNames tx)" "0 < workers"
    "inflight (launch_all tx workers names e) = []"
  shows "launch_all tx workers names e = e \<and> (\<forall>nm \<in> set names. launched e nm \<or> err_of e nm \<noteq> None \<or> 0 < remaining e nm)"
  using assms(2,4)
proof (induction names)
  case (Cons nm names)
  have i: "inflight e = []" using launch_all_inflight [of tx workers "nm # names" e] Cons.prems(2) by auto
  have n: "nm \<in> set (jobNames tx)" "set names \<subseteq> set (jobNames tx)" using Cons.prems(1) by auto
  have "inflight (tryLaunch tx nm e) = []"
    using launch_all_inflight [of tx workers names "tryLaunch tx nm e"] Cons.prems(2) i assms(3) by auto
  then have "tryLaunch tx nm e = e" "launched e nm \<or> err_of e nm \<noteq> None \<or> 0 < remaining e nm"
    using tryLaunch_cases [OF assms(1) n(1)] by auto
  then show ?case using Cons.IH [OF n(2)] Cons.prems(2) i assms(3) by simp
qed simp

text \<open>When nothing is in flight and no launch is possible, every job was launched or has failed.\<close>

lemma idle_complete:
  assumes inv: "exec_inv tx workers ev e" and idle: "inflight e = []"
    and stuck: "\<forall>nm \<in> set (jobNames tx). launched e nm \<or> err_of e nm \<noteq> None \<or> 0 < remaining e nm"
    and nm: "nm \<in> set (jobNames tx)"
  shows "launched e nm \<or> err_of e nm \<noteq> None"
proof (rule ccontr)
  assume n: "\<not> (launched e nm \<or> err_of e nm \<noteq> None)"
  have wf: "wf_tx tx" "book tx e" using inv by (simp_all add: exec_inv_def)
  let ?P = "{x \<in> set (jobNames tx). \<not> launched e x \<and> err_of e x = None}"
  obtain m where m: "m \<in> ?P" "\<forall>d \<in> set (txWaits tx m). d \<notin> ?P"
    using tx_minimal [OF wf(1), of ?P] n nm by auto
  have "released e d" if d: "d \<in> set (txWaits tx m)" for d
  proof -
    have "d \<in> set (jobNames tx)" using d wf(1) by (auto simp: wf_tx_def)
    then have "launched e d \<or> err_of e d \<noteq> None" using m(2) d by auto
    moreover have "booked tx e d" using wf(2) by (simp add: book_def)
    ultimately show ?thesis using idle by (auto simp: booked_def job_book_def split: if_splits)
  qed
  then have "pending tx (released e) m = 0" by (simp add: pending_0)
  moreover have "remaining e m = int (pending tx (released e) m)"
    using wf(2) m(1) by (simp add: book_def counted_def)
  ultimately show False using stuck m(1) by auto
qed

text \<open>Completeness is never lost, a cancelled run reaches it at once.\<close>

definition decided :: "executor \<Rightarrow> name \<Rightarrow> bool" where
  "decided e nm \<longleftrightarrow> launched e nm \<or> err_of e nm \<noteq> None"

definition all_decided :: "Transaction \<Rightarrow> executor \<Rightarrow> bool" where
  "all_decided tx e \<longleftrightarrow> (\<forall>nm \<in> set (jobNames tx). decided e nm)"

lemma markFailed_err_mono: "err_of e x \<noteq> None \<Longrightarrow> err_of (markFailed tx nm err e) x \<noteq> None"
  using err_fail_steps [OF fail_requirers_steps [of "jobNames tx" tx "fail_job nm err e" nm err], of x]
  by (simp add: markFailed_def fail_job_err)

lemma onFinish_err_mono: "err_of e x \<noteq> None \<Longrightarrow> err_of (onFinish tx nm res e) x \<noteq> None"
  using markFailed_err_mono [of "releaseAfter nm e" x tx nm]
  by (auto simp: onFinish_def Let_def split: option.splits)

lemma receive_decided: "all_decided tx e \<Longrightarrow> all_decided tx (receive tx ev i e)"
  unfolding all_decided_def decided_def receive_def Let_def
  using onFinish_err_mono [of "e\<lparr>inflight := remove1 (next_result ev i (inflight e)) (inflight e)\<rparr>"] by fastforce

lemma drain_decided: "all_decided tx e \<Longrightarrow> all_decided tx (drain tx ev i e)"
proof (induction tx ev i e rule: drain.induct)
  case (1 tx ev i e)
  then show ?case by (subst drain.simps) (simp add: receive_decided)
qed

lemma cancel_all_decided:
  assumes "exec_inv tx workers ev e" "set names \<subseteq> set (jobNames tx)" "err \<in> ctx_errors ev"
  shows "(\<forall>nm \<in> set names. decided (cancel_all tx err names e) nm)
    \<and> (\<forall>x. decided e x \<longrightarrow> decided (cancel_all tx err names e) x)"
  using assms
proof (induction names arbitrary: e)
  case (Cons nm names)
  define e1 where "e1 = (if state_of e nm = Inactive \<and> \<not> launched e nm then markFailed tx nm err e else e)"
  have c: "cancel_all tx err (nm # names) e = cancel_all tx err names e1" by (simp add: e1_def)
  have "exec_inv tx workers ev e1" unfolding e1_def
    by (rule sx.inv_steps [OF reject_steps Cons.prems(1)]) (use Cons.prems in simp_all)
  then have ih: "\<forall>x \<in> set names. decided (cancel_all tx err names e1) x"
    "\<forall>x. decided e1 x \<longrightarrow> decided (cancel_all tx err names e1) x"
    using Cons.IH [of e1] Cons.prems(2,3) by simp_all
  have m: "decided e1 x" if "decided e x" for x
    using that markFailed_err_mono [of e x tx nm err] by (auto simp: decided_def e1_def)
  have "decided e1 nm"
    using unlaunched_state(3) [OF Cons.prems(1), of nm] markFailed_settled [of nm tx e err] Cons.prems(2)
    by (auto simp: settleable_def decided_def e1_def)
  then show ?case unfolding c using ih m by simp
qed simp

lemma start_loop_decided:
  assumes "exec_inv tx workers ev e" "0 < workers"
  shows "all_decided tx (snd (start_loop tx ev workers i e))"
  using assms
proof (induction tx ev workers i e rule: start_loop.induct)
  case (1 tx ev workers i e)
  let ?e1 = "launch_all tx workers (jobNames tx) e"
  have inv1: "exec_inv tx workers ev ?e1"
    using sx.inv_steps [OF launch_all_steps "1.prems"(1)] by simp
  show ?case
  proof (cases "ctxErr ev i")
    case (Some err)
    then show ?thesis
      using cancel_all_decided [OF "1.prems"(1) subset_refl ctx_errors_at [OF Some]]
      by (subst start_loop.simps) (simp add: all_decided_def)
  next
    case ctx: None
    show ?thesis
    proof (cases "inflight ?e1 = []")
      case True
      have l: "start_loop tx ev workers i e = (i, ?e1)" using True ctx by (subst start_loop.simps) simp
      have "?e1 = e \<and> (\<forall>nm \<in> set (jobNames tx). launched e nm \<or> err_of e nm \<noteq> None \<or> 0 < remaining e nm)"
        by (rule launch_all_idle [OF "1.prems"(1) subset_refl "1.prems"(2) True])
      then show ?thesis using idle_complete [OF inv1 True] True by (simp add: l all_decided_def decided_def)
    next
      case False
      have "exec_inv tx workers ev (receive tx ev i ?e1)"
        by (rule sx.inv_step [OF receive_step [OF False] inv1])
      moreover have "start_loop tx ev workers i e = start_loop tx ev workers (Suc i) (receive tx ev i ?e1)"
        using False ctx by (subst start_loop.simps) (simp add: Let_def)
      ultimately show ?thesis using "1.IH" [OF ctx refl False] "1.prems"(2) by simp
    qed
  qed
qed

lemma not_started_id:
  assumes "exec_inv tx workers ev e"
  shows "\<forall>nm \<in> set names. launched e nm \<or> err_of e nm \<noteq> None \<Longrightarrow> not_started tx names e = e"
proof (induction names)
  case (Cons nm names)
  then show ?case using unlaunched_state(3) [OF assms, of nm] by auto
qed simp

text \<open>
  A run is a sequence of steps that ends with nothing in flight and every job decided; the last loop,
  for jobs that were not started, finds none.
\<close>

lemma start_run_facts:
  fixes obs ev
  assumes wf: "wf_tx tx" and w: "0 < workers"
  defines "e \<equiv> start_run tx ev obs workers"
  shows "exec_steps tx workers ev (init_executor tx Inactive obs) e" "exec_inv tx workers ev e"
    "inflight e = []" "all_decided tx e"
proof -
  let ?init = "init_executor tx Inactive obs"
  obtain i e1 where l: "start_loop tx ev workers 0 ?init = (i, e1)" by fastforce
  let ?e = "drain tx ev i e1"
  have i0: "exec_inv tx workers ev ?init" by (rule exec_init_inv) (auto simp: exec_init_def wf)
  have s1: "exec_steps tx workers ev ?init e1" using start_loop_steps [of tx workers ev ?init 0] l by simp
  then have s: "exec_steps tx workers ev ?init ?e" using drain_steps [of tx workers ev e1 i] by (rule rtranclp_trans)
  have i: "exec_inv tx workers ev ?e" using s i0 by (rule sx.inv_steps)
  have d: "all_decided tx ?e" using drain_decided start_loop_decided [OF i0 w, of 0] l by simp
  have "e = ?e" unfolding e_def start_run_def l using not_started_id [OF i] d by (simp add: all_decided_def decided_def)
  then show "exec_steps tx workers ev ?init e" "exec_inv tx workers ev e" "inflight e = []" "all_decided tx e"
    using s i d drain_inflight by simp_all
qed

section \<open>What a run returns\<close>

lemma ExecuteWithLimit_run:
  assumes "wf_tx tx" "1 \<le> workers"
  shows "ExecuteWithLimit (Some tx) (Some ev) obs workers =
     Inr (run (start_run tx ev obs (nat workers)), rootError (Some tx) (Some (run (start_run tx ev obs (nat workers)))))"
  using assms by (simp add: ExecuteWithLimit_def wf_tx_validate Let_def)

lemma start_run_settled:
  fixes obs ev
  assumes wf: "wf_tx tx" and w: "0 < workers" and nm: "nm \<in> set (jobNames tx)"
  defines "e \<equiv> start_run tx ev obs workers"
  shows "state_of e nm = Active \<and> err_of e nm = None \<and> nm \<in> set (Started (run e)) \<and> outcome ev nm = None
    \<or> state_of e nm = Failed \<and> err_of e nm \<noteq> None
    \<or> state_of e nm = Inactive \<and> nm \<in> set (Started (run e)) \<and> skipped (outcome ev nm)"
proof -
  note f = start_run_facts [OF wf w, of ev obs, folded e_def]
  have b: "booked tx e nm" and r: "reported ev {} e" using f(2) by (simp_all add: exec_inv_def book_def)
  show ?thesis
  proof (cases "launched e nm")
    case True
    have "state_of e nm \<noteq> Activating" "state_of e nm = Active \<Longrightarrow> outcome ev nm = None"
      "state_of e nm = Inactive \<Longrightarrow> skipped (outcome ev nm)"
      using r True f(3) by (simp_all add: reported_def)
    then show ?thesis using b True by (cases "state_of e nm") (simp_all add: booked_def job_book_def)
  next
    case False
    then have "err_of e nm \<noteq> None" using f(4) nm by (auto simp: all_decided_def decided_def)
    then show ?thesis using unlaunched_state(1) [OF f(2) False] by simp
  qed
qed

text \<open>
  C1: every interleaving of a start is safe.  Whatever the adapter answers, in whatever order its calls
  return and whenever the context is cancelled, in every state an execution of a start plan can be in
  at most \<open>workers\<close> calls are in flight, no unit is started twice, only jobs are started, and a unit is
  started only after everything it is ordered after has been settled: the predecessor's call has returned,
  or the predecessor was rejected without a call.  If the unit also requires the predecessor, the
  predecessor's call was made and did not fail; a start that the adapter skipped counts as not failed.
\<close>

theorem start_interleavings_safe:
  assumes "Build units = Inr g" and "PlanStart (Some g) names = Inr tx"
    and "exec_steps tx workers ev (init_executor tx Inactive obs) e"
  shows "length (inflight e) \<le> workers \<and> distinct (Started (run e)) \<and> set (Started (run e)) \<subseteq> set (Units (Some tx))
    \<and> (\<forall>nm \<in> set (Started (run e)). \<forall>d \<in> set (txWaits tx nm).
         d \<notin> set (inflight e) \<and> (d \<in> set (Started (run e)) \<or> err_of e d \<noteq> None)
         \<and> (startRequiresName (gnode g nm) d \<longrightarrow> d \<in> set (Started (run e)) \<and> \<not> hard (outcome ev d)))"
proof -
  have wf: "wf_tx tx" by (rule PlanStart_wf_tx [OF assms(1,2)])
  have g: "txGraph tx = g" using PlanStart_shape [OF Build_wf [OF assms(1)] assms(2)] by fastforce
  have inv: "exec_inv tx workers ev e"
    by (rule sx.inv_reachable [OF _ assms(3)]) (auto simp: exec_init_def wf)
  have b: "booked tx e x" for x using inv by (simp add: exec_inv_def book_def)
  have st: "x \<in> set (Started (run e)) \<longleftrightarrow> launched e x" "x \<in> set (Started (run e)) \<Longrightarrow> x \<in> set (jobNames tx)"
    "released e x \<Longrightarrow> x \<notin> set (inflight e) \<and> (launched e x \<or> err_of e x \<noteq> None)" for x
    using b [of x] by (simp_all add: booked_def job_book_def split: if_splits)
  have jobs: "d \<in> set (jobNames tx)" if "d \<in> set (txWaits tx nm)" for nm d using wf that by (auto simp: wf_tx_def)
  have o: "released e d" "needs tx nm d \<Longrightarrow> launched e d \<and> \<not> hard (outcome ev d)"
    if "launched e nm" "d \<in> set (txWaits tx nm)" for nm d
    using inv that by (simp_all add: exec_inv_def ordered_def)
  have "d \<notin> set (inflight e) \<and> (d \<in> set (Started (run e)) \<or> err_of e d \<noteq> None)
         \<and> (startRequiresName (gnode g nm) d \<longrightarrow> d \<in> set (Started (run e)) \<and> \<not> hard (outcome ev d))"
    if "nm \<in> set (Started (run e))" "d \<in> set (txWaits tx nm)" for nm d
    using o [of nm d] st(1) [of d] st(3) [of d] jobs [OF that(2)] that st(1) [of nm] by (simp add: needs_def g)
  moreover have "length (inflight e) \<le> workers \<and> distinct (Started (run e))" using inv by (simp add: exec_inv_def book_def)
  ultimately show ?thesis using st(2) by auto
qed

text \<open>
  C2: a start always completes.  Executing a start plan returns a run, and in it every unit of the plan
  is settled: active, started without an error; failed, with an error; or inactive because its start
  was skipped.  Nothing stays queued or in progress, also when the context is cancelled on the way.
\<close>

theorem ExecuteWithLimit_settles:
  assumes "Build units = Inr g" and "PlanStart (Some g) names = Inr tx" and "1 \<le> workers"
  shows "\<exists>r. ExecuteWithLimit (Some tx) (Some ev) obs workers = Inr (r, rootError (Some tx) (Some r))
    \<and> (\<forall>nm \<in> set (Units (Some tx)).
         StateOf (Some r) nm = Active \<and> Err (Some r) nm = None \<and> nm \<in> set (Started r) \<and> outcome ev nm = None
         \<or> StateOf (Some r) nm = Failed \<and> Err (Some r) nm \<noteq> None
         \<or> StateOf (Some r) nm = Inactive \<and> nm \<in> set (Started r) \<and> skipped (outcome ev nm))"
proof -
  have wf: "wf_tx tx" by (rule PlanStart_wf_tx [OF assms(1,2)])
  have w: "0 < nat workers" using assms(3) by simp
  show ?thesis
    unfolding ExecuteWithLimit_run [OF wf assms(3)] Units_jobNames
    using start_run_settled [OF wf w] run_view [OF wf] by auto
qed

text \<open>
  C10: every reported error has a cause.  An error in the run of a start plan is the failure of the
  unit's own start, or names a unit of the plan it requires, with that unit's recorded error, or is the
  error of the cancelled context; no other error is ever reported.
\<close>

theorem ExecuteWithLimit_error_causes:
  assumes "Build units = Inr g" and "PlanStart (Some g) names = Inr tx" and "1 \<le> workers"
    and "ExecuteWithLimit (Some tx) (Some ev) obs workers = Inr (r, re)"
    and "nm \<in> set (Units (Some tx))" and "Err (Some r) nm = Some err"
  shows "nm \<in> set (Started r) \<and> outcome ev nm = Some err \<and> \<not> is_skipped err
    \<or> (\<exists>d \<in> set (Units (Some tx)). startRequiresName (gnode g nm) d \<and> Err (Some r) d \<noteq> None
          \<and> err = DependencyError nm d (Err (Some r) d))
    \<or> (\<exists>i. ctxErr ev i = Some err)"
proof -
  have wf: "wf_tx tx" by (rule PlanStart_wf_tx [OF assms(1,2)])
  have g: "txGraph tx = g" using PlanStart_shape [OF Build_wf [OF assms(1)] assms(2)] by fastforce
  define e where "e = start_run tx ev obs (nat workers)"
  have r: "r = run e" using assms(4) by (simp add: ExecuteWithLimit_run [OF wf assms(3)] e_def)
  have inv: "exec_inv tx (nat workers) ev e"
    unfolding e_def by (rule start_run_facts(2) [OF wf]) (use assms(3) in simp)
  have v: "Err (Some r) x = err_of e x" if "x \<in> set (jobNames tx)" for x using run_view [OF wf that] by (simp add: r)
  have nm: "nm \<in> set (jobNames tx)" using assms(5) by simp
  have "cause tx ev e nm err" using inv assms(6) v [OF nm] by (simp add: exec_inv_def caused_def)
  then show ?thesis unfolding cause_def
  proof (elim disjE conjE exE)
    assume "launched e nm" "outcome ev nm = Some err" "\<not> is_skipped err"
    moreover have "booked tx e nm" using inv by (simp add: exec_inv_def book_def)
    ultimately show ?thesis by (simp add: r booked_def job_book_def)
  next
    fix d derr assume d: "err = DependencyError nm d (Some derr)" "needs tx nm d" "err_of e d = Some derr"
    then have "d \<in> set (jobNames tx)" by (simp add: needs_def)
    then show ?thesis using d v [of d] g by (intro disjI2 disjI1 bexI [of _ d]) (simp_all add: needs_def)
  qed (simp add: ctx_errors_def)
qed

text \<open>
  C9: failures reach every dependent.  When a unit of a start plan ends with an error, every unit of
  the plan that requires it ends with an error too, unless it was already active; and one that is also
  ordered after it was never started if the required unit's own start failed or was never made.
\<close>

theorem ExecuteWithLimit_failure_propagates:
  assumes "Build units = Inr g" and "PlanStart (Some g) names = Inr tx" and "1 \<le> workers"
    and "ExecuteWithLimit (Some tx) (Some ev) obs workers = Inr (r, re)"
    and "nm \<in> set (Units (Some tx))" and "d \<in> set (Units (Some tx))" and "startRequiresName (gnode g nm) d"
    and "Err (Some r) d \<noteq> None"
  shows "(Err (Some r) nm \<noteq> None \<or> StateOf (Some r) nm = Active)
    \<and> (d \<in> set (txWaits tx nm) \<and> (d \<notin> set (Started r) \<or> hard (outcome ev d)) \<longrightarrow>
         nm \<notin> set (Started r) \<and> Err (Some r) nm \<noteq> None)"
proof -
  have wf: "wf_tx tx" by (rule PlanStart_wf_tx [OF assms(1,2)])
  have g: "txGraph tx = g" using PlanStart_shape [OF Build_wf [OF assms(1)] assms(2)] by fastforce
  have w: "0 < nat workers" using assms(3) by simp
  define e where "e = start_run tx ev obs (nat workers)"
  have r: "r = run e" using assms(4) by (simp add: ExecuteWithLimit_run [OF wf assms(3)] e_def)
  note f = start_run_facts [OF wf w, of ev obs, folded e_def]
  have J: "nm \<in> set (jobNames tx)" "d \<in> set (jobNames tx)" using assms(5,6) by simp_all
  have v: "Err (Some r) x = err_of e x" "StateOf (Some r) x = state_of e x" if "x \<in> set (jobNames tx)" for x
    using run_view [OF wf that] by (simp_all add: r)
  have n: "needs tx nm d" using assms(7) J by (simp add: needs_def g)
  have b: "booked tx e x" for x using f(2) by (simp add: exec_inv_def book_def)
  have st: "x \<in> set (Started r) \<longleftrightarrow> launched e x" for x
    using b [of x] by (simp add: r booked_def job_book_def split: if_splits)
  have "propagated tx e d" using f(2) assms(8) v(1) [OF J(2)] by (simp add: exec_inv_def closed_fail_def)
  then have 1: "err_of e nm \<noteq> None \<or> state_of e nm = Active"
    using n J(1) assms(8) v(1) [OF J(2)] by (cases "nm = d") (simp_all add: propagated_def settled_req_def)
  have "launched e d \<and> \<not> hard (outcome ev d)" if "launched e nm" "d \<in> set (txWaits tx nm)"
    using f(2) that n by (simp add: exec_inv_def ordered_def)
  moreover have "launched e nm \<or> err_of e nm \<noteq> None" using f(4) J(1) by (simp add: all_decided_def decided_def)
  ultimately show ?thesis unfolding st v(1) [OF J(1)] v(2) [OF J(1)] using 1 by blast
qed

lemma no_cause_no_error:
  assumes "caused tx ev e" "\<And>x. outcome ev x = None" "\<And>i. ctxErr ev i = None"
  shows "err_of e nm \<noteq> Some err"
proof (induction "size err" arbitrary: nm err rule: less_induct)
  case less
  show ?case
  proof
    assume "err_of e nm = Some err"
    then have "cause tx ev e nm err" using assms(1) by (simp add: caused_def)
    then obtain d derr where "err = DependencyError nm d (Some derr)" "err_of e d = Some derr"
      using assms(2,3) by (auto simp: cause_def ctx_errors_def)
    then show False using less [of derr d] by simp
  qed
qed

text \<open>
  C11: when nothing fails, everything starts.  If every start succeeds and the context is not cancelled,
  a start of any loaded units returns no error and a run in which every unit of the plan is active and
  was started exactly once.
\<close>

theorem Start_all_succeed:
  assumes "Build units = Inr g" and "PlanStart (Some g) names = Inr tx"
    and "\<forall>nm. outcome ev nm = None" and "\<forall>i. ctxErr ev i = None"
  shows "\<exists>r. Start (Some g) (Some ev) obs names = Inr (r, None)
    \<and> distinct (Started r) \<and> set (Started r) = set (Units (Some tx))
    \<and> (\<forall>nm \<in> set (Units (Some tx)). StateOf (Some r) nm = Active \<and> Err (Some r) nm = None)"
proof -
  have wf: "wf_tx tx" by (rule PlanStart_wf_tx [OF assms(1,2)])
  define e where "e = start_run tx ev obs DefaultTransactionWorkers"
  have w: "0 < DefaultTransactionWorkers" by (simp add: DefaultTransactionWorkers_def)
  note f = start_run_facts [OF wf w, of ev obs, folded e_def]
  have inv: "caused tx ev e" "distinct (Started (run e))" "booked tx e x" for x
    using f(2) by (simp_all add: exec_inv_def book_def)
  have no: "err_of e x = None" for x
    using no_cause_no_error [OF inv(1), of x "the (err_of e x)"] assms(3,4) by (cases "err_of e x") simp_all
  have act: "state_of e x = Active \<and> x \<in> set (Started (run e))" if "x \<in> set (jobNames tx)" for x
    using start_run_settled [OF wf w that, of ev obs, folded e_def] no [of x] assms(3) by (simp add: skipped_def)
  have "x \<in> set (Started (run e)) \<Longrightarrow> x \<in> set (jobNames tx)" for x
    using inv(3) [of x] by (simp add: booked_def job_book_def split: if_splits)
  then have s: "set (Started (run e)) = set (jobNames tx)" using act by blast
  have "first_error rs (run e) = None" for rs using no by (induction rs) (simp_all add: err_of_def)
  then have "Start (Some g) (Some ev) obs names = Inr (run e, None)"
    using assms(2) ExecuteWithLimit_run [OF wf, of "int DefaultTransactionWorkers"] w
    by (simp add: Start_def Execute_def rootError_def e_def)
  then show ?thesis using s inv(2) act no run_view [OF wf] by auto
qed

section \<open>Sample runs\<close>

definition sample_tx :: Transaction where
  "sample_tx = projr (PlanStart (Some plan_graph) [''web''])"

definition ok_env :: env where
  "ok_env = \<lparr>outcome = (\<lambda>_. None), pick = (\<lambda>_. 0), ctxErr = (\<lambda>_. None)\<rparr>"

definition db_fails :: env where
  "db_fails = ok_env\<lparr>outcome := (\<lambda>nm. if nm = ''db.service'' then Some (ErrText ''boom'') else None)\<rparr>"

lemma sample_tx_plan: "PlanStart (Some plan_graph) [''web''] = Inr sample_tx"
proof -
  have "\<not> isl (PlanStart (Some plan_graph) [''web''])" by code_simp
  then show ?thesis unfolding sample_tx_def by (rule Inr_projr)
qed

definition sample_run :: Run where
  "sample_run = fst (projr (ExecuteWithLimit (Some sample_tx) (Some db_fails) False 4))"

lemma sample_run_db_fails:
  "ExecuteWithLimit (Some sample_tx) (Some db_fails) False 4 =
     Inr (sample_run, snd (projr (ExecuteWithLimit (Some sample_tx) (Some db_fails) False 4)))"
proof -
  have "\<not> isl (ExecuteWithLimit (Some sample_tx) (Some db_fails) False 4)" by code_simp
  then show ?thesis unfolding sample_run_def prod.collapse by (rule Inr_projr)
qed

lemma sample_facts:
  "set (jobNames sample_tx) = {''db.service'', ''web.service''}"
  "\<not> Option.is_none (Err (Some sample_run) ''web.service'')" "\<not> Option.is_none (Err (Some sample_run) ''db.service'')"
  "startRequiresName (gnode plan_graph ''web.service'') ''db.service''"
  "txWaits sample_tx ''web.service'' = [''db.service'']"
  "outcome db_fails ''web.service'' = None" "hard (outcome db_fails ''db.service'')"
proof -
  have "jobNames sample_tx = [''db.service'', ''web.service'']" by code_simp
  then show "set (jobNames sample_tx) = {''db.service'', ''web.service''}" by simp
qed code_simp+

theorem start_interleavings_safe_witness:
  "length (inflight (start_run sample_tx db_fails False 4)) \<le> 4
   \<and> distinct (Started (run (start_run sample_tx db_fails False 4)))"
proof -
  have "exec_steps sample_tx 4 db_fails (init_executor sample_tx Inactive False) (start_run sample_tx db_fails False 4)"
    by (rule start_run_facts(1)) (simp_all add: PlanStart_wf_tx [OF Build_plan_units sample_tx_plan])
  from start_interleavings_safe [OF Build_plan_units sample_tx_plan this] show ?thesis by simp
qed

theorem ExecuteWithLimit_settles_witness:
  "\<exists>r. ExecuteWithLimit (Some sample_tx) (Some db_fails) False 4 = Inr (r, rootError (Some sample_tx) (Some r))"
  using ExecuteWithLimit_settles [OF Build_plan_units sample_tx_plan, of 4 db_fails False] by auto

theorem ExecuteWithLimit_error_causes_witness:
  "\<exists>d. startRequiresName (gnode plan_graph ''web.service'') d
     \<and> Err (Some sample_run) ''web.service'' = Some (DependencyError ''web.service'' d (Err (Some sample_run) d))"
proof -
  have e: "Err (Some sample_run) ''web.service'' = Some (the (Err (Some sample_run) ''web.service''))"
    using sample_facts(2) by (simp add: Option.is_none_def)
  have "ctxErr db_fails i = None" for i by (simp add: db_fails_def ok_env_def)
  then show ?thesis
    using ExecuteWithLimit_error_causes [OF Build_plan_units sample_tx_plan _ sample_run_db_fails _ e] e sample_facts(1,6)
    by auto
qed

theorem ExecuteWithLimit_failure_propagates_witness:
  "''web.service'' \<notin> set (Started sample_run) \<and> Err (Some sample_run) ''web.service'' \<noteq> None"
  using ExecuteWithLimit_failure_propagates [OF Build_plan_units sample_tx_plan _ sample_run_db_fails,
      of "''web.service''" "''db.service''"] sample_facts by (simp add: Option.is_none_def)

theorem Start_all_succeed_witness:
  "\<exists>r. Start (Some plan_graph) (Some ok_env) True [''web''] = Inr (r, None)
     \<and> set (Started r) = {''db.service'', ''web.service''}"
  using Start_all_succeed [OF Build_plan_units sample_tx_plan, of ok_env True] sample_facts(1)
  by (auto simp: ok_env_def)

text \<open>
  A start that is skipped after a required unit has failed: \<open>onFinish\<close> sets the state back to
  \<open>Inactive\<close>, while the error that \<open>markFailed\<close> recorded for the unit stays in the run.
\<close>

definition skip_graph :: Graph where
  "skip_graph = projr (Build [Some ((new_Unit 1 ''gui.service'' [] KindService)\<lparr>Requires := [''db.service'']\<rparr>),
     Some (new_Unit 1 ''db.service'' [] KindService)])"

definition skip_late :: env where
  "skip_late = \<lparr>outcome = (\<lambda>nm. if nm = ''db.service'' then Some (ErrText ''boom'') else Some ErrSkipped),
     pick = (\<lambda>_. 0), ctxErr = (\<lambda>_. None)\<rparr>"

lemma skipped_start_keeps_error:
  "(case Start (Some skip_graph) (Some skip_late) False [''gui''] of Inl _ \<Rightarrow> False
    | Inr (r, re) \<Rightarrow> StateOf (Some r) ''gui'' = Inactive \<and> Started r = [''db.service'', ''gui.service'']
        \<and> Err (Some r) ''gui'' = Some (DependencyError ''gui.service'' ''db.service'' (Some (ErrText ''boom''))))"
  by code_simp

end
