(* ===== verification/Stop_Executor.thy ===== *)
theory Stop_Executor
  imports Run_State
begin

text \<open>
  The stop executor of \<open>internal/core/execute.go\<close>: \<open>stopExecutor\<close>, \<open>ExecuteStopWithLimit\<close>,
  \<open>ExecuteStop\<close>, \<open>Graph.Stop\<close> and \<open>Graph.Shutdown\<close>.  Its struct has the fields of \<open>executor\<close>, so it
  uses that record.  Unlike a start, a stop neither looks at the context nor gives up: the theorems
  show that every job is stopped once, in order, whatever the adapter answers, and that the executor
  refines a plain scheduler that only knows which jobs have begun and finished.
\<close>

section \<open>Operations\<close>

definition stop_releaseAfter :: "name \<Rightarrow> executor \<Rightarrow> executor" where
  "stop_releaseAfter nm e =
     (if released e nm then e
      else let e1 = e\<lparr>released := (released e)(nm := True)\<rparr> in decrement (unblock e1 nm) e1)"

definition stop_tryLaunch :: "name \<Rightarrow> executor \<Rightarrow> executor" where
  "stop_tryLaunch nm e =
     (if launched e nm then e
      else if 0 < remaining e nm then e
      else let e1 = e\<lparr>launched := (launched e)(nm := True)\<rparr>;
               e2 = set_state nm Deactivating e1
           in e2\<lparr>run := (run e2)\<lparr>Stopped := Stopped (run e2) @ [nm]\<rparr>, inflight := inflight e2 @ [nm]\<rparr>)"

definition markDone :: "name \<Rightarrow> RunError option \<Rightarrow> executor \<Rightarrow> executor" where
  "markDone nm res e =
     (let e1 = (case res of None \<Rightarrow> e
                | Some er \<Rightarrow> (case err_of e nm of Some _ \<Rightarrow> e | None \<Rightarrow> set_err nm er e));
          e2 = set_state nm Inactive e1
      in stop_releaseAfter nm e2)"

definition stop_onFinish :: "name \<Rightarrow> RunError option \<Rightarrow> executor \<Rightarrow> executor" where
  "stop_onFinish nm res e = markDone nm res (stop_releaseAfter nm e)"

fun stop_launch_all :: "nat \<Rightarrow> name list \<Rightarrow> executor \<Rightarrow> executor" where
  "stop_launch_all workers [] e = e"
| "stop_launch_all workers (nm # names) e =
     (if workers \<le> length (inflight e) then e
      else stop_launch_all workers names (stop_tryLaunch nm e))"

definition stop_receive :: "env \<Rightarrow> nat \<Rightarrow> executor \<Rightarrow> executor" where
  "stop_receive ev i e =
     (let nm = next_result ev i (inflight e);
          e1 = e\<lparr>inflight := remove1 nm (inflight e)\<rparr>
      in stop_onFinish nm (outcome ev nm) e1)"

fun not_stopped :: "name list \<Rightarrow> executor \<Rightarrow> executor" where
  "not_stopped [] e = e"
| "not_stopped (nm # names) e =
     not_stopped names
       (if launched e nm then e
        else markDone nm (Some (ErrText (''unit '' @ Quote nm @ '' was not stopped''))) e)"

section \<open>Effect on the fields\<close>

lemma stop_releaseAfter_eq [simp]: "stop_releaseAfter = releaseAfter"
  by (simp add: fun_eq_iff stop_releaseAfter_def releaseAfter_def)

lemma stopped_upd [simp]:
  "state_of (e\<lparr>run := (run e)\<lparr>Stopped := xs\<rparr>\<rparr>) = state_of e" "err_of (e\<lparr>run := (run e)\<lparr>Stopped := xs\<rparr>\<rparr>) = err_of e"
  by (simp_all add: fun_eq_iff state_of_def err_of_def)

lemma stop_onFinish_fields [simp]:
  "launched (stop_onFinish nm res e) = launched e" "inflight (stop_onFinish nm res e) = inflight e"
  "Stopped (run (stop_onFinish nm res e)) = Stopped (run e)"
  by (simp_all add: stop_onFinish_def markDone_def Let_def split: option.splits)

lemma stop_onFinish_released: "released (stop_onFinish nm res e) = (released e)(nm := True)"
  by (auto simp: stop_onFinish_def markDone_def Let_def split: option.splits)

lemma stop_onFinish_state: "state_of (stop_onFinish nm res e) x = (if x = nm then Inactive else state_of e x)"
  by (auto simp: stop_onFinish_def markDone_def Let_def split: option.splits)

lemma stop_onFinish_err:
  "err_of (stop_onFinish nm res e) x = (if x = nm \<and> err_of e nm = None then res else err_of e x)"
  by (auto simp: stop_onFinish_def markDone_def Let_def split: option.splits)

lemma stop_onFinish_counted: "wf_tx tx \<Longrightarrow> counted tx e \<Longrightarrow> counted tx (stop_onFinish nm res e)"
proof -
  assume wf: "wf_tx tx" and c: "counted tx e"
  let ?e1 = "releaseAfter nm e"
  let ?e2 = "case res of None \<Rightarrow> ?e1 | Some er \<Rightarrow> (case err_of ?e1 nm of Some _ \<Rightarrow> ?e1 | None \<Rightarrow> set_err nm er ?e1)"
  have "counted tx ?e1" by (rule counted_releaseAfter [OF wf c])
  then have "counted tx (set_state nm Inactive ?e2)"
    by (rule counted_cong) (simp_all split: option.splits)
  then show ?thesis by (simp add: stop_onFinish_def markDone_def Let_def counted_releaseAfter wf)
qed

section \<open>The loops\<close>

lemma stop_tryLaunch_work:
  "nm \<in> set (jobNames tx) \<Longrightarrow> work_left tx (stop_tryLaunch nm e) \<le> work_left tx e"
  by (cases "launched e nm \<or> 0 < remaining e nm")
    (auto simp: stop_tryLaunch_def Let_def intro: work_left_launch)

lemma stop_launch_all_work:
  "set names \<subseteq> set (jobNames tx) \<Longrightarrow> work_left tx (stop_launch_all workers names e) \<le> work_left tx e"
proof (induction names arbitrary: e)
  case (Cons nm names)
  have "work_left tx (stop_launch_all workers names (stop_tryLaunch nm e)) \<le> work_left tx e"
    using Cons stop_tryLaunch_work [of nm tx e] order_trans by auto
  then show ?case by simp
qed simp

lemma stop_receive_work: "inflight e \<noteq> [] \<Longrightarrow> work_left tx (stop_receive ev i e) < work_left tx e"
  using next_result_in [of "inflight e" ev i]
  by (simp add: stop_receive_def Let_def work_left_def length_remove1 length_pos_if_in_set)

function stop_loop :: "Transaction \<Rightarrow> env \<Rightarrow> nat \<Rightarrow> nat \<Rightarrow> executor \<Rightarrow> nat \<times> executor" where
  "stop_loop tx ev workers i e =
     (let e1 = stop_launch_all workers (jobNames tx) e in
      if inflight e1 = [] then (i, e1)
      else stop_loop tx ev workers (Suc i) (stop_receive ev i e1))"
  by pat_completeness auto

termination
proof (relation "measure (\<lambda>(tx, ev, workers, i, e). work_left tx e)", goal_cases)
  case (2 tx ev workers i e e1)
  then show ?case
    using stop_receive_work [of e1 tx ev i] stop_launch_all_work [of "jobNames tx" tx workers e] by simp
qed simp

declare stop_loop.simps [simp del]

function stop_drain :: "Transaction \<Rightarrow> env \<Rightarrow> nat \<Rightarrow> executor \<Rightarrow> executor" where
  "stop_drain tx ev i e = (if inflight e = [] then e else stop_drain tx ev (Suc i) (stop_receive ev i e))"
  by pat_completeness auto

termination
  by (relation "measure (\<lambda>(tx, ev, i, e). work_left tx e)") (auto simp: stop_receive_work)

declare stop_drain.simps [simp del]

definition stop_run :: "Transaction \<Rightarrow> env \<Rightarrow> nat \<Rightarrow> executor" where
  "stop_run tx ev workers =
     (case stop_loop tx ev workers 0 (init_executor tx Active False) of (i, e) \<Rightarrow>
        not_stopped (jobNames tx) (stop_drain tx ev i e))"

definition ExecuteStopWithLimit ::
  "Transaction option \<Rightarrow> env option \<Rightarrow> int \<Rightarrow> PlanError + (Run \<times> RunError option)" where
  "ExecuteStopWithLimit txo stopper workers =
     (if workers < 1 then Inl (PlanMsg ''transaction worker limit must be positive'')
      else case stopper of None \<Rightarrow> Inl (PlanMsg ''nil stopper'')
        | Some ev \<Rightarrow>
            (case validate txo of Inl er \<Rightarrow> Inl er
             | Inr _ \<Rightarrow>
                 (case txo of None \<Rightarrow> Inl (PlanMsg ''empty transaction'')
                  | Some tx \<Rightarrow>
                      let r = run (stop_run tx ev (nat workers))
                      in Inr (r, rootError txo (Some r)))))"

definition ExecuteStop :: "Transaction option \<Rightarrow> env option \<Rightarrow> PlanError + (Run \<times> RunError option)" where
  "ExecuteStop txo stopper = ExecuteStopWithLimit txo stopper (int DefaultTransactionWorkers)"

definition Stop :: "Graph option \<Rightarrow> env option \<Rightarrow> name list \<Rightarrow> PlanError + (Run \<times> RunError option)" where
  "Stop go stopper names = (case PlanStop go names of Inl er \<Rightarrow> Inl er | Inr tx \<Rightarrow> ExecuteStop (Some tx) stopper)"

definition Shutdown :: "Graph option \<Rightarrow> env option \<Rightarrow> name list \<Rightarrow> PlanError + (Run \<times> RunError option)" where
  "Shutdown go stopper names = (case PlanShutdown go names of Inl er \<Rightarrow> Inl er | Inr tx \<Rightarrow> ExecuteStop (Some tx) stopper)"

section \<open>Steps and their invariant\<close>

inductive stop_step :: "Transaction \<Rightarrow> nat \<Rightarrow> env \<Rightarrow> executor \<Rightarrow> executor \<Rightarrow> bool" for tx workers ev where
  stop_launch: "nm \<in> set (jobNames tx) \<Longrightarrow> length (inflight e) < workers \<Longrightarrow>
     stop_step tx workers ev e (stop_tryLaunch nm e)"
| stop_finish: "nm \<in> set (inflight e) \<Longrightarrow>
     stop_step tx workers ev e (stop_onFinish nm (outcome ev nm) (e\<lparr>inflight := remove1 nm (inflight e)\<rparr>))"

inductive_cases stop_stepE: "stop_step tx workers ev e e'"

text \<open>What the maps say about one name, and the order of the stops.\<close>

definition stop_book :: "Transaction \<Rightarrow> env \<Rightarrow> executor \<Rightarrow> name \<Rightarrow> bool" where
  "stop_book tx ev e nm \<longleftrightarrow>
     (nm \<in> set (Stopped (run e)) \<longleftrightarrow> launched e nm)
     \<and> (launched e nm \<longrightarrow> nm \<in> set (jobNames tx))
     \<and> (nm \<in> set (inflight e) \<longleftrightarrow> launched e nm \<and> \<not> released e nm)
     \<and> (released e nm \<longrightarrow> launched e nm)
     \<and> (launched e nm \<longrightarrow> state_of e nm = (if released e nm then Inactive else Deactivating))
     \<and> err_of e nm = (if released e nm then outcome ev nm else None)
     \<and> (launched e nm \<longrightarrow> (\<forall>d \<in> set (txWaits tx nm). released e d))"

lemma stop_bookD:
  assumes "stop_book tx ev e nm"
  shows "launched e nm \<Longrightarrow> nm \<in> set (jobNames tx)" "released e nm \<Longrightarrow> launched e nm"
    "nm \<notin> set (inflight e) \<Longrightarrow> launched e nm \<Longrightarrow> released e nm"
  using assms by (simp_all add: stop_book_def)

definition stops_in_order :: "Transaction \<Rightarrow> name list \<Rightarrow> bool" where
  "stops_in_order tx ns \<longleftrightarrow> (\<forall>xs nm ys. ns = xs @ nm # ys \<longrightarrow> set (txWaits tx nm) \<subseteq> set xs)"

lemma stops_in_order_snoc:
  assumes "stops_in_order tx ns" "set (txWaits tx nm) \<subseteq> set ns"
  shows "stops_in_order tx (ns @ [nm])"
  unfolding stops_in_order_def
proof (intro allI impI)
  fix xs x ys assume "ns @ [nm] = xs @ x # ys"
  then consider "ys = []" "ns = xs" "x = nm" | zs where "ys = zs @ [nm]" "ns = xs @ x # zs"
    by (cases ys rule: rev_cases) auto
  then show "set (txWaits tx x) \<subseteq> set xs" using assms by cases (auto simp: stops_in_order_def)
qed

definition stop_inv :: "Transaction \<Rightarrow> nat \<Rightarrow> env \<Rightarrow> executor \<Rightarrow> bool" where
  "stop_inv tx workers ev e \<longleftrightarrow>
     wf_tx tx \<and> counted tx e \<and> distinct (inflight e) \<and> distinct (Stopped (run e))
     \<and> length (inflight e) \<le> workers \<and> stops_in_order tx (Stopped (run e)) \<and> (\<forall>nm. stop_book tx ev e nm)"

definition stop_init :: "Transaction \<Rightarrow> executor \<Rightarrow> bool" where
  "stop_init tx e \<longleftrightarrow> wf_tx tx \<and> e = init_executor tx Active False"

lemma stop_init_inv: "stop_init tx e \<Longrightarrow> stop_inv tx workers ev e"
  using counted_init [of tx Active False] by (auto simp: stop_init_def stop_inv_def stop_book_def stops_in_order_def)

lemma stop_tryLaunch_inv:
  assumes inv: "stop_inv tx workers ev e" and nm: "nm \<in> set (jobNames tx)" "length (inflight e) < workers"
  shows "stop_inv tx workers ev (stop_tryLaunch nm e)"
proof (cases "launched e nm \<or> 0 < remaining e nm")
  case True
  then show ?thesis using inv by (auto simp: stop_tryLaunch_def)
next
  case False
  let ?e = "stop_tryLaunch nm e"
  have c: "wf_tx tx" "counted tx e" and b: "stop_book tx ev e x" for x using inv by (simp_all add: stop_inv_def)
  have n: "\<not> launched e nm" "\<not> released e nm" "nm \<notin> set (inflight e)" "nm \<notin> set (Stopped (run e))"
    using False b [of nm] by (auto simp: stop_book_def)
  have f: "launched ?e = (launched e)(nm := True)" "released ?e = released e" "remaining ?e = remaining e" "unblock ?e = unblock e"
    "inflight ?e = inflight e @ [nm]" "Stopped (run ?e) = Stopped (run e) @ [nm]"
    "state_of ?e x = (if x = nm then Deactivating else state_of e x)" "err_of ?e x = err_of e x" for x
    using False by (simp_all add: stop_tryLaunch_def Let_def)
  have "remaining e nm = int (pending tx (released e) nm)" using c(2) nm(1) by (simp add: counted_def)
  then have rel: "released e d" if "d \<in> set (txWaits tx nm)" for d
    using False that pending_0 [of tx "released e" nm] by auto
  then have "set (txWaits tx nm) \<subseteq> set (Stopped (run e))" using b by (auto simp: stop_book_def)
  then have "stops_in_order tx (Stopped (run ?e))" using inv stops_in_order_snoc by (simp add: stop_inv_def f)
  moreover have "counted tx ?e" by (rule counted_cong [OF c(2)]) (simp_all add: f)
  moreover have "stop_book tx ev ?e x" for x
    using b [of x] n nm(1) rel by (cases "x = nm") (simp_all add: stop_book_def f)
  ultimately show ?thesis using inv n nm(2) by (simp add: stop_inv_def f)
qed

lemma stop_onFinish_inv:
  assumes inv: "stop_inv tx workers ev e" and nm: "nm \<in> set (inflight e)"
  shows "stop_inv tx workers ev (stop_onFinish nm (outcome ev nm) (e\<lparr>inflight := remove1 nm (inflight e)\<rparr>))" (is "stop_inv _ _ _ ?e")
proof -
  let ?e1 = "e\<lparr>inflight := remove1 nm (inflight e)\<rparr>"
  have c: "wf_tx tx" "counted tx e" "distinct (inflight e)" and b: "stop_book tx ev e x" for x using inv by (simp_all add: stop_inv_def)
  have n: "launched e nm" "\<not> released e nm" "err_of e nm = None" "nm \<in> set (jobNames tx)"
    using b [of nm] nm by (simp_all add: stop_book_def)
  have "counted tx ?e1" by (rule counted_cong [OF c(2)]) simp_all
  then have "counted tx ?e" by (rule stop_onFinish_counted [OF c(1)])
  moreover have "stop_book tx ev ?e x" for x
    using b [of x] n c(3)
    by (cases "x = nm") (simp_all add: stop_book_def stop_onFinish_released stop_onFinish_state stop_onFinish_err)
  moreover have "length (remove1 nm (inflight e)) \<le> workers" using inv by (simp add: stop_inv_def length_remove1) linarith
  ultimately show ?thesis using inv by (simp add: stop_inv_def)
qed

interpretation px: invariant_system "stop_init tx" "stop_step tx workers ev" "stop_inv tx workers ev" for tx workers ev
proof
  show "stop_init tx s \<Longrightarrow> stop_inv tx workers ev s" for s by (rule stop_init_inv)
  show "stop_step tx workers ev s t \<Longrightarrow> stop_inv tx workers ev s \<Longrightarrow> stop_inv tx workers ev t" for s t
    by (erule stop_stepE) (auto intro: stop_tryLaunch_inv stop_onFinish_inv)
qed

section \<open>The loops are sequences of steps\<close>

abbreviation stop_steps :: "Transaction \<Rightarrow> nat \<Rightarrow> env \<Rightarrow> executor \<Rightarrow> executor \<Rightarrow> bool" where
  "stop_steps tx workers ev \<equiv> (stop_step tx workers ev)\<^sup>*\<^sup>*"

lemma stop_launch_all_steps:
  "set names \<subseteq> set (jobNames tx) \<Longrightarrow> stop_steps tx workers ev e (stop_launch_all workers names e)"
proof (induction names arbitrary: e)
  case (Cons nm names)
  show ?case
  proof (cases "workers \<le> length (inflight e)")
    case False
    then have "stop_step tx workers ev e (stop_tryLaunch nm e)" using Cons.prems by (intro stop_launch) auto
    moreover have "stop_steps tx workers ev (stop_tryLaunch nm e) (stop_launch_all workers names (stop_tryLaunch nm e))"
      using Cons by simp
    ultimately show ?thesis using False by (simp add: converse_rtranclp_into_rtranclp)
  qed simp
qed simp

lemma stop_receive_step: "inflight e \<noteq> [] \<Longrightarrow> stop_step tx workers ev e (stop_receive ev i e)"
  unfolding stop_receive_def Let_def by (rule stop_finish) (rule next_result_in)

lemma stop_tryLaunch_cases:
  "stop_tryLaunch nm e = e \<and> (launched e nm \<or> 0 < remaining e nm) \<or> inflight (stop_tryLaunch nm e) = inflight e @ [nm]"
  by (auto simp: stop_tryLaunch_def Let_def)

lemma stop_launch_all_inflight: "\<exists>xs. inflight (stop_launch_all workers names e) = inflight e @ xs"
proof (induction names arbitrary: e)
  case (Cons nm names)
  obtain xs ys where "inflight (stop_tryLaunch nm e) = inflight e @ xs"
    "inflight (stop_launch_all workers names (stop_tryLaunch nm e)) = inflight (stop_tryLaunch nm e) @ ys"
    using stop_tryLaunch_cases [of nm e] Cons.IH [of "stop_tryLaunch nm e"] by fastforce
  then show ?case by simp
qed simp

lemma stop_launch_all_idle:
  assumes "0 < workers" "inflight (stop_launch_all workers names e) = []"
  shows "stop_launch_all workers names e = e \<and> (\<forall>nm \<in> set names. launched e nm \<or> 0 < remaining e nm)"
  using assms(2)
proof (induction names)
  case (Cons nm names)
  have i: "inflight e = []" using stop_launch_all_inflight [of workers "nm # names" e] Cons.prems by auto
  have "inflight (stop_tryLaunch nm e) = []"
    using stop_launch_all_inflight [of workers names "stop_tryLaunch nm e"] Cons.prems i assms(1) by auto
  then have "stop_tryLaunch nm e = e" "launched e nm \<or> 0 < remaining e nm" using stop_tryLaunch_cases [of nm e] by auto
  then show ?case using Cons.IH Cons.prems i assms(1) by simp
qed simp

text \<open>When nothing is in flight and no launch is possible, every job was stopped.\<close>

lemma stop_idle_complete:
  assumes inv: "stop_inv tx workers ev e" and idle: "inflight e = []"
    and stuck: "\<forall>nm \<in> set (jobNames tx). launched e nm \<or> 0 < remaining e nm" and nm: "nm \<in> set (jobNames tx)"
  shows "launched e nm"
proof (rule ccontr)
  assume n: "\<not> launched e nm"
  have wf: "wf_tx tx" and b: "stop_book tx ev e x" for x using inv by (simp_all add: stop_inv_def)
  let ?P = "{x \<in> set (jobNames tx). \<not> launched e x}"
  obtain m where m: "m \<in> ?P" "\<forall>d \<in> set (txWaits tx m). d \<notin> ?P" using tx_minimal [OF wf, of ?P] n nm by auto
  have "released e d" if d: "d \<in> set (txWaits tx m)" for d
  proof -
    have "d \<in> set (jobNames tx)" using d wf by (auto simp: wf_tx_def)
    then show ?thesis using m(2) d b [of d] idle by (auto simp: stop_book_def)
  qed
  then have "pending tx (released e) m = 0" by (simp add: pending_0)
  moreover have "remaining e m = int (pending tx (released e) m)" using inv m(1) by (simp add: stop_inv_def counted_def)
  ultimately show False using stuck m(1) by auto
qed

lemma stop_loop_facts:
  assumes "stop_inv tx workers ev e" "0 < workers"
  shows "stop_steps tx workers ev e (snd (stop_loop tx ev workers i e)) \<and> inflight (snd (stop_loop tx ev workers i e)) = []
    \<and> (\<forall>nm \<in> set (jobNames tx). launched (snd (stop_loop tx ev workers i e)) nm)"
  using assms
proof (induction tx ev workers i e rule: stop_loop.induct)
  case (1 tx ev workers i e)
  let ?e1 = "stop_launch_all workers (jobNames tx) e"
  have a: "stop_steps tx workers ev e ?e1" by (rule stop_launch_all_steps) simp
  have inv1: "stop_inv tx workers ev ?e1" by (rule px.inv_steps [OF a "1.prems"(1)])
  show ?case
  proof (cases "inflight ?e1 = []")
    case True
    have l: "stop_loop tx ev workers i e = (i, ?e1)" using True by (subst stop_loop.simps) simp
    have "?e1 = e \<and> (\<forall>nm \<in> set (jobNames tx). launched e nm \<or> 0 < remaining e nm)"
      by (rule stop_launch_all_idle [OF "1.prems"(2) True])
    then show ?thesis using stop_idle_complete [OF inv1 True] True a by (simp add: l)
  next
    case False
    have s: "stop_step tx workers ev ?e1 (stop_receive ev i ?e1)" by (rule stop_receive_step [OF False])
    have "stop_loop tx ev workers i e = stop_loop tx ev workers (Suc i) (stop_receive ev i ?e1)"
      using False by (subst stop_loop.simps) (simp add: Let_def)
    moreover have "stop_steps tx workers ev e (stop_receive ev i ?e1)" using a s by simp
    ultimately show ?thesis
      using "1.IH" [OF refl False px.inv_step [OF s inv1] "1.prems"(2)] by (auto intro: rtranclp_trans)
  qed
qed

lemma not_stopped_id: "\<forall>nm \<in> set names. launched e nm \<Longrightarrow> not_stopped names e = e"
  by (induction names) simp_all

lemma stop_run_facts:
  fixes ev
  assumes wf: "wf_tx tx" and w: "0 < workers"
  defines "e \<equiv> stop_run tx ev workers"
  shows "stop_steps tx workers ev (init_executor tx Active False) e" "stop_inv tx workers ev e"
    "inflight e = []" "\<And>nm. nm \<in> set (jobNames tx) \<Longrightarrow> launched e nm"
proof -
  let ?init = "init_executor tx Active False"
  obtain i e1 where l: "stop_loop tx ev workers 0 ?init = (i, e1)" by fastforce
  have i0: "stop_inv tx workers ev ?init" by (rule stop_init_inv) (simp add: stop_init_def wf)
  have f: "stop_steps tx workers ev ?init e1" "inflight e1 = []" "\<forall>nm \<in> set (jobNames tx). launched e1 nm"
    using stop_loop_facts [OF i0 w, of 0] by (simp_all add: l)
  have "e = e1" unfolding e_def stop_run_def l using f(2) not_stopped_id [OF f(3)] by (simp add: stop_drain.simps)
  then show "stop_steps tx workers ev ?init e" "stop_inv tx workers ev e"
    "inflight e = []" "\<And>nm. nm \<in> set (jobNames tx) \<Longrightarrow> launched e nm"
    using f px.inv_steps [OF f(1) i0] by simp_all
qed

lemma ExecuteStopWithLimit_run:
  "wf_tx tx \<Longrightarrow> 1 \<le> workers \<Longrightarrow> ExecuteStopWithLimit (Some tx) (Some ev) workers =
     Inr (run (stop_run tx ev (nat workers)), rootError (Some tx) (Some (run (stop_run tx ev (nat workers)))))"
  by (simp add: ExecuteStopWithLimit_def wf_tx_validate Let_def)

lemma stop_run_result:
  fixes ev
  assumes wf: "wf_tx tx" and w: "0 < workers"
  defines "r \<equiv> run (stop_run tx ev workers)"
  shows "distinct (Stopped r)" "set (Stopped r) = set (jobNames tx)" "stops_in_order tx (Stopped r)"
    "nm \<in> set (jobNames tx) \<Longrightarrow> StateOf (Some r) nm = Inactive \<and> Err (Some r) nm = outcome ev nm"
proof -
  note f = stop_run_facts [OF wf w, where ev = ev]
  let ?e = "stop_run tx ev workers"
  have b: "stop_book tx ev ?e x" for x using f(2) by (simp add: stop_inv_def)
  show "distinct (Stopped r)" "stops_in_order tx (Stopped r)" using f(2) by (simp_all add: stop_inv_def r_def)
  show "set (Stopped r) = set (jobNames tx)" using b f(4) unfolding stop_book_def r_def by blast
  assume nm: "nm \<in> set (jobNames tx)"
  then have "released ?e nm" using b [of nm] f(3,4) by (simp add: stop_book_def)
  then show "StateOf (Some r) nm = Inactive \<and> Err (Some r) nm = outcome ev nm"
    using b [of nm] f(4) [OF nm] run_view [OF wf nm] by (simp add: stop_book_def r_def)
qed

text \<open>
  C3: stopping is best effort and in order.  Executing a stop plan returns a run in which every unit of
  the plan was stopped exactly once, each only after every unit that must stop before it, all are
  inactive, and the recorded errors are exactly the errors the adapter returned: a failed stop never
  keeps another unit from being stopped.
\<close>

theorem ExecuteStop_best_effort:
  assumes "Build units = Inr g" and "PlanStop (Some g) names = Inr tx" and "1 \<le> workers"
  shows "\<exists>r. ExecuteStopWithLimit (Some tx) (Some ev) workers = Inr (r, rootError (Some tx) (Some r))
    \<and> distinct (Stopped r) \<and> set (Stopped r) = set (Units (Some tx))
    \<and> (\<forall>xs nm ys. Stopped r = xs @ nm # ys \<longrightarrow> set (txWaits tx nm) \<subseteq> set xs)
    \<and> (\<forall>nm \<in> set (Units (Some tx)). StateOf (Some r) nm = Inactive \<and> Err (Some r) nm = outcome ev nm)"
proof -
  have wf: "wf_tx tx" by (rule PlanStop_shape(4) [OF Build_wf [OF assms(1)] assms(2)])
  have w: "0 < nat workers" using assms(3) by simp
  show ?thesis
    unfolding ExecuteStopWithLimit_run [OF wf assms(3)] Units_jobNames
    using stop_run_result [OF wf w, where ev = ev] by (auto simp: stops_in_order_def)
qed

text \<open>
  C13: shutting down stops everything, in the reverse order of boot.  A shutdown of loaded units whose
  ordering has no cycle stops every unit of the plan exactly once; a unit that is ordered after another
  one of the plan is stopped before it; and the run reports the first error of the named units, if any.
\<close>

theorem Shutdown_reverse_order:
  assumes "Build units = Inr g" and "PlanShutdown (Some g) names = Inr tx"
  shows "\<exists>r. Shutdown (Some g) (Some ev) names = Inr (r, first_error (roots tx) r)
    \<and> distinct (Stopped r) \<and> set (Stopped r) = shutdown_set g names
    \<and> (\<forall>xs a ys. Stopped r = xs @ a # ys \<longrightarrow>
         {b \<in> shutdown_set g names. a \<in> set (WaitsFor_of (Some g) b)} \<subseteq> set xs)"
proof -
  have wf: "wf_graph g" by (rule Build_wf [OF assms(1)])
  have wt: "wf_tx tx" by (rule PlanShutdown_wf_tx [OF wf assms(2)])
  obtain js where js: "set (job_keys js) = shutdown_set g names" "set (job_keys js) \<subseteq> loaded g"
    "tx = \<lparr>txGraph = g, roots = uniqueStable names, jobs = js, txWaits = reverseWaits js g\<rparr>"
    by (rule PlanShutdown_shape [OF wf assms(2)])
  have w: "0 < DefaultTransactionWorkers" by (simp add: DefaultTransactionWorkers_def)
  let ?r = "run (stop_run tx ev DefaultTransactionWorkers)"
  note res = stop_run_result [OF wt w, where ev = ev]
  have ws: "set (txWaits tx a) = {b \<in> shutdown_set g names. a \<in> set (WaitsFor_of (Some g) b)}"
    if "a \<in> set (jobNames tx)" for a
    using that js(1,2) WaitsFor_of_graph_waits [OF wf] by (auto simp: js(3) set_reverseWaits [OF wf js(2)])
  have "{b \<in> shutdown_set g names. a \<in> set (WaitsFor_of (Some g) b)} \<subseteq> set xs" if "Stopped ?r = xs @ a # ys" for xs a ys
  proof -
    have a: "a \<in> set (jobNames tx)" unfolding res(2) [symmetric] that by simp
    have "set (txWaits tx a) \<subseteq> set xs" using res(3) that unfolding stops_in_order_def by blast
    then show ?thesis unfolding ws [OF a] .
  qed
  moreover have "Shutdown (Some g) (Some ev) names = Inr (?r, first_error (roots tx) ?r)"
    using assms(2) ExecuteStopWithLimit_run [OF wt, of "int DefaultTransactionWorkers"] w
    by (simp add: Shutdown_def ExecuteStop_def rootError_def)
  moreover have "set (Stopped ?r) = shutdown_set g names" using res(2) js(1,3) by simp
  ultimately show ?thesis using res(1) by blast
qed

section \<open>Refinement of a scheduler\<close>

text \<open>
  The specification: jobs begin once, when everything they wait for has finished, and finish once.
\<close>

record sched =
  begun :: "name set"
  finished :: "name set"

inductive sched_step :: "name set \<Rightarrow> (name \<Rightarrow> name set) \<Rightarrow> nat \<Rightarrow> sched \<Rightarrow> sched \<Rightarrow> bool" for J W k where
  sched_begin: "nm \<in> J \<Longrightarrow> nm \<notin> begun s \<Longrightarrow> W nm \<subseteq> finished s \<Longrightarrow> card (begun s - finished s) < k \<Longrightarrow>
     sched_step J W k s (s\<lparr>begun := insert nm (begun s)\<rparr>)"
| sched_finish: "nm \<in> begun s \<Longrightarrow> nm \<notin> finished s \<Longrightarrow> sched_step J W k s (s\<lparr>finished := insert nm (finished s)\<rparr>)"

text \<open>
  The abstraction looks at the calls, not at the executor's own flags: a stop has begun when the adapter
  was called for the unit, and has finished when that call was made and is no longer outstanding.
\<close>

definition sched_of :: "executor \<Rightarrow> sched" where
  "sched_of e = \<lparr>begun = set (Stopped (run e)), finished = set (Stopped (run e)) - set (inflight e)\<rparr>"

lemma sched_of_flags:
  assumes "stop_inv tx workers ev e"
  shows "nm \<in> begun (sched_of e) \<longleftrightarrow> launched e nm" "nm \<in> finished (sched_of e) \<longleftrightarrow> released e nm"
    "begun (sched_of e) - finished (sched_of e) = set (inflight e)"
  using assms by (auto simp: stop_inv_def stop_book_def sched_of_def)

lemma sched_of_step:
  assumes inv: "stop_inv tx workers ev e" and step: "stop_step tx workers ev e e'"
  shows "sched_of e' = sched_of e \<or> sched_step (set (jobNames tx)) (\<lambda>nm. set (txWaits tx nm)) workers (sched_of e) (sched_of e')"
proof -
  have inv': "stop_inv tx workers ev e'" using inv step by (rule px.inv_step [rotated])
  note fl = sched_of_flags [OF inv]
  from step show ?thesis
  proof (cases rule: stop_step.cases)
    case (stop_launch nm)
    show ?thesis
    proof (cases "launched e nm \<or> 0 < remaining e nm")
      case True
      then show ?thesis using stop_launch(1) by (auto simp: stop_tryLaunch_def)
    next
      case False
      have calls: "Stopped (run e') = Stopped (run e) @ [nm]" "inflight e' = inflight e @ [nm]" "released e' = released e" "launched e' nm"
        using False by (simp_all add: stop_launch(1) stop_tryLaunch_def Let_def)
      have "set (txWaits tx nm) \<subseteq> finished (sched_of e)"
        using inv' calls(3,4) fl(2) by (auto simp: stop_inv_def stop_book_def)
      moreover have "card (begun (sched_of e) - finished (sched_of e)) < workers"
        using stop_launch(3) inv unfolding fl(3) by (simp add: distinct_card stop_inv_def)
      moreover have new: "nm \<notin> begun (sched_of e)" using False fl(1) by simp
      moreover have "sched_of e' = (sched_of e)\<lparr>begun := insert nm (begun (sched_of e))\<rparr>"
        using new by (auto simp: sched_of_def calls(1,2))
      ultimately show ?thesis using sched_begin [of nm _ "sched_of e"] stop_launch(2) by simp
    qed
  next
    case (stop_finish nm)
    have "distinct (inflight e)" using inv by (simp add: stop_inv_def)
    then have calls: "Stopped (run e') = Stopped (run e)" "set (inflight e') = set (inflight e) - {nm}"
      by (simp_all add: stop_finish(1))
    have nm: "nm \<in> begun (sched_of e)" "nm \<notin> finished (sched_of e)" using stop_finish(2) fl(3) by blast+
    moreover have "sched_of e' = (sched_of e)\<lparr>finished := insert nm (finished (sched_of e))\<rparr>"
      using nm(1) by (auto simp: sched_of_def calls)
    ultimately show ?thesis using sched_finish by simp
  qed
qed

text \<open>
  C12: the stop executor implements the scheduler.  Seen only through the adapter calls, which stops
  have been called and which of these calls have returned, every execution of a stop plan, in every
  interleaving, is an execution of the specification: a unit is stopped once, only after the stop calls
  of everything it waits for have returned, with at most \<open>workers\<close> calls outstanding; and the executor
  ends where the specification does, with every job's stop called and returned.
\<close>

theorem stop_executor_refines_scheduler:
  assumes "Build units = Inr g" and "PlanStop (Some g) names = Inr tx"
    and "stop_steps tx workers ev (init_executor tx Active False) e"
  shows "(sched_step (set (Units (Some tx))) (\<lambda>nm. set (txWaits tx nm)) workers)\<^sup>*\<^sup>* \<lparr>begun = {}, finished = {}\<rparr> (sched_of e)
    \<and> (0 < workers \<longrightarrow> sched_of (stop_run tx ev workers) = \<lparr>begun = set (Units (Some tx)), finished = set (Units (Some tx))\<rparr>)"
proof
  have wf: "wf_tx tx" by (rule PlanStop_shape(4) [OF Build_wf [OF assms(1)] assms(2)])
  let ?init = "init_executor tx Active False"
  let ?R = "sched_step (set (jobNames tx)) (\<lambda>nm. set (txWaits tx nm)) workers"
  have i0: "stop_inv tx workers ev ?init" by (rule stop_init_inv) (simp add: stop_init_def wf)
  have "?R\<^sup>*\<^sup>* (sched_of ?init) (sched_of e)"
    using assms(3)
  proof (induction rule: rtranclp_induct)
    case (step y z)
    have "stop_inv tx workers ev y" using step.hyps(1) i0 by (rule px.inv_steps)
    from sched_of_step [OF this step.hyps(2)] show ?case using step.IH by (auto intro: rtranclp.rtrancl_into_rtrancl)
  qed simp
  then show "(sched_step (set (Units (Some tx))) (\<lambda>nm. set (txWaits tx nm)) workers)\<^sup>*\<^sup>* \<lparr>begun = {}, finished = {}\<rparr> (sched_of e)"
    by (simp add: sched_of_def)
  show "0 < workers \<longrightarrow> sched_of (stop_run tx ev workers) = \<lparr>begun = set (Units (Some tx)), finished = set (Units (Some tx))\<rparr>"
  proof
    assume w: "0 < workers"
    note f = stop_run_facts [OF wf w, where ev = ev]
    have b: "stop_book tx ev (stop_run tx ev workers) x" for x using f(2) by (simp add: stop_inv_def)
    have "launched (stop_run tx ev workers) x \<longleftrightarrow> x \<in> set (jobNames tx)" for x
      using stop_bookD(1) [OF b] f(4) by blast
    then have "set (Stopped (run (stop_run tx ev workers))) = set (jobNames tx)"
      using b by (auto simp: stop_book_def)
    then show "sched_of (stop_run tx ev workers) = \<lparr>begun = set (Units (Some tx)), finished = set (Units (Some tx))\<rparr>"
      using f(3) by (simp add: sched_of_def)
  qed
qed

section \<open>Sample runs\<close>

definition stop_tx :: Transaction where
  "stop_tx = projr (PlanStop (Some plan_graph) [''db''])"

definition stop_env :: env where
  "stop_env = \<lparr>outcome = (\<lambda>nm. if nm = ''web.service'' then Some (ErrText ''stuck'') else None),
     pick = (\<lambda>_. 0), ctxErr = (\<lambda>_. None)\<rparr>"

lemma stop_tx_plan: "PlanStop (Some plan_graph) [''db''] = Inr stop_tx"
proof -
  have "\<not> isl (PlanStop (Some plan_graph) [''db''])" by code_simp
  then show ?thesis unfolding stop_tx_def by (rule Inr_projr)
qed

lemma stop_tx_jobs: "set (jobNames stop_tx) = {''db.service'', ''proxy.service'', ''web.service''}"
proof -
  have "jobNames stop_tx = [''db.service'', ''proxy.service'', ''web.service'']" by code_simp
  then show ?thesis by simp
qed

theorem ExecuteStop_best_effort_witness:
  "\<exists>r. ExecuteStopWithLimit (Some stop_tx) (Some stop_env) 1 = Inr (r, rootError (Some stop_tx) (Some r))
     \<and> set (Stopped r) = {''db.service'', ''proxy.service'', ''web.service''}"
  using ExecuteStop_best_effort [OF Build_plan_units stop_tx_plan, of 1 stop_env] stop_tx_jobs by auto

theorem Shutdown_reverse_order_witness:
  "\<exists>r er. Shutdown (Some plan_graph) (Some stop_env) [''web''] = Inr (r, er) \<and> set (Stopped r) = shutdown_set plan_graph [''web'']"
proof -
  have "\<not> isl (PlanShutdown (Some plan_graph) [''web''])" by code_simp
  then have "PlanShutdown (Some plan_graph) [''web''] = Inr (projr (PlanShutdown (Some plan_graph) [''web'']))" by (rule Inr_projr)
  from Shutdown_reverse_order [OF Build_plan_units this, of stop_env] show ?thesis by blast
qed

theorem stop_executor_refines_scheduler_witness:
  "finished (sched_of (stop_run stop_tx stop_env 2)) = {''db.service'', ''proxy.service'', ''web.service''}"
  using stop_executor_refines_scheduler [OF Build_plan_units stop_tx_plan, of 2 stop_env "init_executor stop_tx Active False"]
    stop_tx_jobs by simp

end
