(* ===== verification/Ini.thy ===== *)
theory Ini
  imports Unit_Types
begin

text \<open>
  Unit file syntax: \<open>internal/unit/ini.go\<close>.  A file is split into lines, continuation lines are
  joined, and every line is a comment, a section header or an assignment of the current section.
  \<open>cur\<close>, the pointer to the current section, always points at the last section read.  The main result
  is that a printed document is read back as it was written, with the line numbers of its text; it is
  about byte strings, with white space as Go's package \<open>unicode\<close> defines it.  The white space before a
  continuation mark is the last rune of the text before it, as \<open>utf8.DecodeLastRuneInString\<close> finds it:
  a white-space rune begins with a byte that continues no other, so decoding from the front gives the
  same last rune.
\<close>

section \<open>Data\<close>

record iniEntry =
  ekey :: string
  evalue :: string
  eline :: nat

record iniSection =
  sname :: string
  sline :: nat
  entries :: "iniEntry list"

record iniFile =
  sections :: "iniSection list"

record rawLine =
  rline :: nat
  rtext :: string

section \<open>Lines\<close>

definition newline :: char where
  "newline = CHR 0x0A"

definition bom :: string where
  "bom = [CHR 0xEF, CHR 0xBB, CHR 0xBF]"

definition stripBOM :: "string \<Rightarrow> string" where
  "stripBOM src = (if 3 \<le> length src \<and> take 3 src = bom then drop 3 src else src)"

definition splitLines :: "string \<Rightarrow> string list" where
  "splitLines s = Split (replace_cr (replace_crlf s)) newline"

definition isLineContinuation :: "string \<Rightarrow> bool" where
  "isLineContinuation s =
     (if \<not> HasSuffix s [backslash] then False
      else let pre = take (length s - 1) s in
           if pre = [] then False else SpaceRune (last (runes pre)))"

text \<open>The inner loop: what follows a continued line is appended to it.  The flag reports a continuation at the end of the file.\<close>

fun join_line :: "string \<Rightarrow> string list \<Rightarrow> string \<times> string list \<times> bool" where
  "join_line ln [] =
     (if isLineContinuation ln then (TrimSuffix ln [backslash], [], True) else (ln, [], False))"
| "join_line ln (l # ls) =
     (if isLineContinuation ln then join_line (TrimSuffix ln [backslash] @ l) ls else (ln, l # ls, False))"

lemma join_line_rest: "length (fst (snd (join_line ln ls))) \<le> length ls"
proof (induction ls arbitrary: ln)
  case (Cons l ls)
  show ?case using Cons [of "TrimSuffix ln [backslash] @ l"] by simp
qed simp

definition ini_error :: "string \<Rightarrow> nat \<Rightarrow> string \<Rightarrow> Issue" where
  "ini_error path n msg = \<lparr>IssuePath = path, Line = n, Sev = SeverityError, Message = msg\<rparr>"

function joinContinuations :: "nat \<Rightarrow> string list \<Rightarrow> string \<Rightarrow> rawLine list \<times> Issue list" where
  "joinContinuations i [] path = ([], [])"
| "joinContinuations i (ln # ls) path =
     (case join_line ln ls of (t, rest, eof) \<Rightarrow>
        (case joinContinuations (i + 1 + (length ls - length rest)) rest path of (out, issues) \<Rightarrow>
           (\<lparr>rline = i + 1, rtext = t\<rparr> # out,
            (if eof then [ini_error path (i + 1) ''line continuation at end of file''] else []) @ issues)))"
  by pat_completeness auto

termination
proof (relation "measure (\<lambda>(i, ls, path). length ls)", goal_cases)
  case (2 i ln ls path t p rest eof)
  then show ?case using join_line_rest [of ln ls] by (cases "join_line ln ls") simp
qed simp

section \<open>Sections and entries\<close>

definition add_entry :: "iniEntry \<Rightarrow> iniSection list \<Rightarrow> iniSection list" where
  "add_entry e secs = butlast secs @ [(last secs)\<lparr>entries := entries (last secs) @ [e]\<rparr>]"

fun ini_lines :: "string \<Rightarrow> rawLine list \<Rightarrow> iniSection list \<Rightarrow> Issue list \<Rightarrow> iniSection list \<times> Issue list" where
  "ini_lines path [] secs issues = (secs, issues)"
| "ini_lines path (rl # rls) secs issues =
     (let trim = TrimSpace (rtext rl);
          err = (\<lambda>msg. ini_lines path rls secs (issues @ [ini_error path (rline rl) msg])) in
      if trim = [] \<or> HasPrefix trim ''#'' \<or> HasPrefix trim '';'' then ini_lines path rls secs issues
      else if HasPrefix trim ''['' then
        (if \<not> HasSuffix trim '']'' then err (''malformed section header '' @ Quote trim)
         else let nm = TrimSpace (take (length trim - 2) (drop 1 trim)) in
              if nm = [] then err ''empty section name''
              else ini_lines path rls (secs @ [\<lparr>sname = nm, sline = rline rl, entries = []\<rparr>]) issues)
      else if secs = [] then err ''directive outside of a section''
      else (case Cut (rtext rl) ''='' of (key, val, ok) \<Rightarrow>
              if \<not> ok then err (''missing '' @ [CHR 0x27] @ ''='' @ [CHR 0x27] @ '' in '' @ Quote trim)
              else let k = TrimSpace key; v = TrimSpace val in
                   if k = [] then err ''empty directive name''
                   else ini_lines path rls (add_entry \<lparr>ekey = k, evalue = v, eline = rline rl\<rparr> secs) issues))"

definition parseINI :: "string \<Rightarrow> string \<Rightarrow> iniFile \<times> Issue list" where
  "parseINI src path =
     (let lines = splitLines (stripBOM src) in
      case joinContinuations 0 lines path of (joined, issues) \<Rightarrow>
        (case ini_lines path joined [] issues of (secs, issues') \<Rightarrow> (\<lparr>sections = secs\<rparr>, issues')))"

section \<open>Values\<close>

definition parseBool :: "string \<Rightarrow> bool res" where
  "parseBool s =
     (let v = ToLower (TrimSpace s) in
      if v \<in> set [''1'', ''yes'', ''y'', ''true'', ''t'', ''on''] then Inr True
      else if v \<in> set [''0'', ''no'', ''n'', ''false'', ''f'', ''off''] then Inr False
      else Inl (''invalid boolean '' @ Quote s))"

definition parseUnitNames :: "string \<Rightarrow> string list" where
  "parseUnitNames s = Fields s"

section \<open>Errors name a line of the file\<close>

text \<open>Every line number the reader produces, in a section, an entry or an issue, is a line of the file.\<close>

lemma joinContinuations_lines:
  "joinContinuations i ls path = (out, issues) \<Longrightarrow>
     (\<forall>rl \<in> set out. i < rline rl \<and> rline rl \<le> i + length ls)
     \<and> (\<forall>is \<in> set issues. i < Line is \<and> Line is \<le> i + length ls \<and> Sev is = SeverityError \<and> IssuePath is = path)"
proof (induction i ls path arbitrary: out issues rule: joinContinuations.induct)
  case (2 i ln ls path)
  obtain t rest eof where j: "join_line ln ls = (t, rest, eof)" by (cases "join_line ln ls")
  let ?k = "Suc (i + (length ls - length rest))"
  obtain out' is' where r: "joinContinuations ?k rest path = (out', is')" by fastforce
  have len: "length rest \<le> length ls" using join_line_rest [of ln ls] by (simp add: j)
  have "\<forall>rl \<in> set out'. ?k < rline rl \<and> rline rl \<le> ?k + length rest"
    "\<forall>is \<in> set is'. ?k < Line is \<and> Line is \<le> ?k + length rest \<and> Sev is = SeverityError \<and> IssuePath is = path"
    using "2.IH" [OF j [symmetric] refl, of out' is'] r by simp_all
  then have "\<forall>rl \<in> set out'. i < rline rl \<and> rline rl \<le> i + length (ln # ls)"
    "\<forall>is \<in> set is'. i < Line is \<and> Line is \<le> i + length (ln # ls) \<and> Sev is = SeverityError \<and> IssuePath is = path"
    using len by fastforce+
  then show ?case using "2.prems" by (auto simp: j r ini_error_def split: if_splits)
qed simp

definition in_lines :: "nat set \<Rightarrow> iniSection list \<Rightarrow> bool" where
  "in_lines N secs \<longleftrightarrow> (\<forall>s \<in> set secs. sline s \<in> N \<and> (\<forall>e \<in> set (entries s). eline e \<in> N))"

lemma in_lines_add: "in_lines N secs \<Longrightarrow> secs \<noteq> [] \<Longrightarrow> eline e \<in> N \<Longrightarrow> in_lines N (add_entry e secs)"
  using last_in_set [of secs] by (auto simp: in_lines_def add_entry_def dest: in_set_butlastD)

text \<open>One line adds an error, a section or an entry of the last section, or nothing.\<close>

lemma ini_lines_step:
  obtains "ini_lines path (rl # rls) secs iss = ini_lines path rls secs iss"
  | msg where "ini_lines path (rl # rls) secs iss = ini_lines path rls secs (iss @ [ini_error path (rline rl) msg])"
  | nm where "nm \<noteq> []" "TrimSpace nm = nm"
      "ini_lines path (rl # rls) secs iss = ini_lines path rls (secs @ [\<lparr>sname = nm, sline = rline rl, entries = []\<rparr>]) iss"
  | k v where "secs \<noteq> []" "k \<noteq> []" "TrimSpace k = k" "TrimSpace v = v"
      "ini_lines path (rl # rls) secs iss = ini_lines path rls (add_entry \<lparr>ekey = k, evalue = v, eline = rline rl\<rparr> secs) iss"
proof -
  let ?t = "TrimSpace (rtext rl)"
  let ?nm = "TrimSpace (take (length ?t - 2) (drop 1 ?t))"
  obtain key val ok where c: "Cut (rtext rl) ''='' = (key, val, ok)" by (cases "Cut (rtext rl) ''=''")
  show thesis
  proof (cases "HasPrefix ?t ''['' \<and> HasSuffix ?t '']'' \<and> ?nm \<noteq> []")
    case True
    then have "?t \<noteq> []" "\<not> HasPrefix ?t ''#''" "\<not> HasPrefix ?t '';''" by (auto simp: HasPrefix_def prefix_def)
    then show thesis using that(3) [of ?nm] True by (simp add: Let_def)
  next
    case h: False
    show thesis
    proof (cases "?t = [] \<or> HasPrefix ?t ''#'' \<or> HasPrefix ?t '';''")
      case True
      then show thesis using that(1) by (simp add: Let_def)
    next
      case n: False
      show thesis
      proof (cases "HasPrefix ?t ''['' \<or> secs = [] \<or> \<not> ok \<or> TrimSpace key = []")
        case True
        then have "\<exists>msg. ini_lines path (rl # rls) secs iss = ini_lines path rls secs (iss @ [ini_error path (rline rl) msg])"
          using h n c by (auto simp: Let_def)
        then show thesis using that(2) by blast
      next
        case False
        then show thesis using that(4) [of "TrimSpace key" "TrimSpace val"] n c by (simp add: Let_def)
      qed
    qed
  qed
qed

lemma ini_lines_in_lines:
  assumes "in_lines N secs" "\<forall>i \<in> set iss. Line i \<in> N" "\<forall>rl \<in> set rls. rline rl \<in> N"
    "ini_lines path rls secs iss = (secs', iss')"
  shows "in_lines N secs' \<and> (\<forall>i \<in> set iss'. Line i \<in> N)"
  using assms
proof (induction rls arbitrary: secs iss)
  case (Cons rl rls)
  have n: "rline rl \<in> N" "\<forall>rl \<in> set rls. rline rl \<in> N" using Cons.prems(3) by simp_all
  show ?case
  proof (cases rule: ini_lines_step [of path rl rls secs iss])
    case 1
    then show ?thesis using Cons.IH [OF Cons.prems(1,2) n(2)] Cons.prems(4) by simp
  next
    case (2 msg)
    then show ?thesis
      using Cons.IH [OF Cons.prems(1) _ n(2), of "iss @ [ini_error path (rline rl) msg]"] Cons.prems(2,4) n(1)
      by (simp add: ini_error_def)
  next
    case (3 nm)
    have "in_lines N (secs @ [\<lparr>sname = nm, sline = rline rl, entries = []\<rparr>])" using Cons.prems(1) n(1) by (auto simp: in_lines_def)
    then show ?thesis using Cons.IH [OF _ Cons.prems(2) n(2)] Cons.prems(4) 3(3) by simp
  next
    case (4 k v)
    have "in_lines N (add_entry \<lparr>ekey = k, evalue = v, eline = rline rl\<rparr> secs)"
      by (rule in_lines_add [OF Cons.prems(1) 4(1)]) (use n(1) in simp)
    then show ?thesis using Cons.IH [OF _ Cons.prems(2) n(2)] Cons.prems(4) 4(5) by simp
  qed
qed simp

section \<open>Printing and reading back\<close>

definition entry_text :: "iniEntry \<Rightarrow> string" where
  "entry_text e = ekey e @ ''='' @ evalue e"

definition section_text :: "iniSection \<Rightarrow> string list" where
  "section_text s = (''['' @ sname s @ '']'') # map entry_text (entries s)"

fun join_nl :: "string list \<Rightarrow> string" where
  "join_nl [] = []"
| "join_nl [l] = l"
| "join_nl (l # ls) = l @ newline # join_nl ls"

definition print_ini :: "iniSection list \<Rightarrow> string" where
  "print_ini secs = join_nl (concat (map section_text secs))"

fun number_entries :: "nat \<Rightarrow> iniEntry list \<Rightarrow> iniEntry list" where
  "number_entries n [] = []"
| "number_entries n (e # es) = e\<lparr>eline := n\<rparr> # number_entries (Suc n) es"

fun numbered :: "nat \<Rightarrow> iniSection list \<Rightarrow> iniSection list" where
  "numbered n [] = []"
| "numbered n (s # ss) =
     s\<lparr>sline := n, entries := number_entries (Suc n) (entries s)\<rparr> # numbered (Suc n + length (entries s)) ss"

fun raw_lines :: "nat \<Rightarrow> string list \<Rightarrow> rawLine list" where
  "raw_lines n [] = []"
| "raw_lines n (l # ls) = \<lparr>rline = n, rtext = l\<rparr> # raw_lines (Suc n) ls"

text \<open>What the syntax can express: trimmed names and values on one line.\<close>

definition one_line :: "string \<Rightarrow> bool" where
  "one_line l \<longleftrightarrow> newline \<notin> set l \<and> CHR 0x0D \<notin> set l"

definition plain_entry :: "iniEntry \<Rightarrow> bool" where
  "plain_entry e \<longleftrightarrow> ekey e \<noteq> [] \<and> TrimSpace (ekey e) = ekey e \<and> TrimSpace (evalue e) = evalue e
     \<and> CHR ''='' \<notin> set (ekey e) \<and> hd (ekey e) \<notin> {CHR ''#'', CHR '';'', CHR ''[''}
     \<and> one_line (ekey e) \<and> one_line (evalue e) \<and> \<not> isLineContinuation (entry_text e)"

definition plain_section :: "iniSection \<Rightarrow> bool" where
  "plain_section s \<longleftrightarrow> sname s \<noteq> [] \<and> TrimSpace (sname s) = sname s \<and> one_line (sname s)
     \<and> (\<forall>e \<in> set (entries s). plain_entry e)"

lemma Split_join: "ls \<noteq> [] \<Longrightarrow> \<forall>l \<in> set ls. newline \<notin> set l \<Longrightarrow> Split (join_nl ls) newline = ls"
  by (induction ls rule: join_nl.induct) (simp_all add: Split_no_sep Split_append)

lemma replace_crlf_id: "CHR 0x0D \<notin> set s \<Longrightarrow> replace_crlf s = s"
  by (induction s rule: replace_crlf.induct) auto

lemma replace_cr_id: "CHR 0x0D \<notin> set s \<Longrightarrow> replace_cr s = s"
  unfolding replace_cr_def by (rule map_idI) auto

lemma set_join_nl: "set (join_nl ls) \<subseteq> insert newline (\<Union> (set ` set ls))"
  by (induction ls rule: join_nl.induct) auto

lemma splitLines_join:
  assumes "ls \<noteq> []" "\<forall>l \<in> set ls. one_line l"
  shows "splitLines (join_nl ls) = ls"
proof -
  have "CHR 0x0D \<notin> set (join_nl ls)"
    using set_join_nl [of ls] assms(2) by (auto simp: one_line_def newline_def)
  then show ?thesis
    using assms by (simp add: splitLines_def replace_crlf_id replace_cr_id Split_join one_line_def)
qed

lemma joinContinuations_plain:
  "\<forall>l \<in> set ls. \<not> isLineContinuation l \<Longrightarrow> joinContinuations i ls path = (raw_lines (Suc i) ls, [])"
proof (induction ls arbitrary: i)
  case (Cons l ls)
  have "join_line l ls = (l, ls, False)" using Cons.prems by (cases ls) simp_all
  then show ?case using Cons by simp
qed simp

lemma eq_ascii [simp]: "is_ascii (CHR ''='')" "\<not> IsSpace (CHR ''='')"
  by (simp_all add: is_ascii_def IsSpace_def)

lemma entry_text_trim:
  assumes "plain_entry e"
  shows "TrimSpace (entry_text e) = entry_text e"
proof -
  have "left_trimmed (entry_text e)"
    using assms TrimSpace_ends(1) [of "ekey e"] by (simp add: plain_entry_def entry_text_def left_trimmed_append)
  moreover have "right_trimmed (entry_text e)"
  proof (cases "evalue e = []")
    case True
    then show ?thesis by (simp add: entry_text_def right_trimmed_snoc)
  next
    case False
    then show ?thesis
      using assms TrimSpace_ends(2) [of "evalue e"] by (simp add: plain_entry_def entry_text_def right_trimmed_append)
  qed
  ultimately show ?thesis by (intro TrimSpace_id) simp
qed

lemma entry_text_hd: "plain_entry e \<Longrightarrow> entry_text e = c # t \<Longrightarrow> c \<notin> {CHR ''#'', CHR '';'', CHR ''[''}"
  by (cases "ekey e") (auto simp: plain_entry_def entry_text_def)

lemma ini_entry_line:
  assumes "plain_entry e" "secs \<noteq> []"
  shows "ini_lines path (\<lparr>rline = n, rtext = entry_text e\<rparr> # rls) secs iss
     = ini_lines path rls (add_entry (e\<lparr>eline := n\<rparr>) secs) iss"
proof -
  obtain c t where ct: "entry_text e = c # t" by (cases "entry_text e") (simp_all add: entry_text_def)
  have p: "\<not> HasPrefix (entry_text e) ''#''" "\<not> HasPrefix (entry_text e) '';''" "\<not> HasPrefix (entry_text e) ''[''"
    using entry_text_hd [OF assms(1) ct] by (auto simp: HasPrefix_def ct)
  have "Cut (entry_text e) ''='' = (ekey e, evalue e, True)"
    using assms(1) Cut_eq [of "ekey e" "evalue e"] by (simp add: plain_entry_def entry_text_def)
  moreover have eq: "\<lparr>ekey = ekey e, evalue = evalue e, eline = n\<rparr> = e\<lparr>eline := n\<rparr>" by simp
  moreover have "TrimSpace (ekey e) = ekey e" "TrimSpace (evalue e) = evalue e" "ekey e \<noteq> []" "entry_text e \<noteq> []"
    using assms(1) ct by (simp_all add: plain_entry_def)
  ultimately show ?thesis
    unfolding ini_lines.simps using p assms(2) entry_text_trim [OF assms(1)] by (simp add: Let_def eq)
qed

lemma ini_entry_lines:
  assumes "\<forall>e \<in> set es. plain_entry e"
  shows "ini_lines path (raw_lines n (map entry_text es) @ rls) (secs @ [s]) iss
     = ini_lines path rls (secs @ [s\<lparr>entries := entries s @ number_entries n es\<rparr>]) iss"
  using assms
proof (induction es arbitrary: n s)
  case (Cons e es)
  have "ini_lines path (raw_lines n (map entry_text (e # es)) @ rls) (secs @ [s]) iss
      = ini_lines path (raw_lines (Suc n) (map entry_text es) @ rls) (add_entry (e\<lparr>eline := n\<rparr>) (secs @ [s])) iss"
    using Cons.prems by (simp add: ini_entry_line del: ini_lines.simps)
  also have "add_entry (e\<lparr>eline := n\<rparr>) (secs @ [s]) = secs @ [s\<lparr>entries := entries s @ [e\<lparr>eline := n\<rparr>]\<rparr>]"
    by (simp add: add_entry_def)
  finally show ?case using Cons by simp
qed simp

lemma ini_section_line:
  assumes "plain_section s"
  shows "ini_lines path (\<lparr>rline = n, rtext = ''['' @ sname s @ '']''\<rparr> # rls) secs iss
     = ini_lines path rls (secs @ [\<lparr>sname = sname s, sline = n, entries = []\<rparr>]) iss"
proof -
  have t: "TrimSpace (''['' @ sname s @ '']'') = ''['' @ sname s @ '']''"
    using left_trimmed_Cons [of "CHR ''[''"] right_trimmed_snoc [of "CHR '']''" "''['' @ sname s"]
    by (intro TrimSpace_id) (simp add: is_ascii_def IsSpace_def)
  have "HasSuffix (''['' @ sname s @ '']'') '']''" by (simp add: HasSuffix_def suffix_def)
  then show ?thesis using assms t by (simp add: Let_def HasPrefix_def plain_section_def)
qed

lemma raw_lines_append: "raw_lines n (xs @ ys) = raw_lines n xs @ raw_lines (n + length xs) ys"
  by (induction xs arbitrary: n) simp_all

lemma ini_lines_print:
  assumes "\<forall>s \<in> set ss. plain_section s"
  shows "ini_lines path (raw_lines n (concat (map section_text ss))) secs iss = (secs @ numbered n ss, iss)"
  using assms
proof (induction ss arbitrary: n secs)
  case (Cons s ss)
  let ?s = "\<lparr>sname = sname s, sline = n, entries = []\<rparr>"
  have p: "plain_section s" "\<forall>e \<in> set (entries s). plain_entry e" using Cons.prems by (simp_all add: plain_section_def)
  have eq: "?s\<lparr>entries := entries ?s @ number_entries (Suc n) (entries s)\<rparr> = s\<lparr>sline := n, entries := number_entries (Suc n) (entries s)\<rparr>" by simp
  have "ini_lines path (raw_lines n (concat (map section_text (s # ss)))) secs iss
     = ini_lines path (raw_lines (Suc n) (map entry_text (entries s)) @ raw_lines (Suc n + length (entries s)) (concat (map section_text ss)))
         (secs @ [?s]) iss"
    using ini_section_line [OF p(1)] by (simp add: section_text_def raw_lines_append del: ini_lines.simps)
  also have "\<dots> = ini_lines path (raw_lines (Suc n + length (entries s)) (concat (map section_text ss)))
      (secs @ [s\<lparr>sline := n, entries := number_entries (Suc n) (entries s)\<rparr>]) iss"
    unfolding ini_entry_lines [OF p(2)] eq ..
  also have "\<dots> = (secs @ numbered n (s # ss), iss)" using Cons by simp
  finally show ?case .
qed simp

lemma section_lines_plain:
  assumes "plain_section s" "l \<in> set (section_text s)"
  shows "one_line l \<and> \<not> isLineContinuation l"
proof (cases "l = ''['' @ sname s @ '']''")
  case True
  then show ?thesis
    using assms(1) by (simp add: plain_section_def one_line_def newline_def isLineContinuation_def HasSuffix_def suffix_def backslash_def)
next
  case False
  then obtain e where "e \<in> set (entries s)" "l = entry_text e" using assms(2) by (auto simp: section_text_def)
  then show ?thesis
    using assms(1) by (auto simp: plain_section_def plain_entry_def one_line_def entry_text_def newline_def)
qed

text \<open>
  C37: unit files are read back as written.  Take any document whose section names, keys and values are
  byte strings that fit on a line, carry no white space (in the sense of Unicode) at their ends and do not
  end in a line continuation, and whose keys contain no equality sign and do not look like a comment or a
  section.  Reading its text gives exactly that document, every section and assignment with the number of
  the line it stands on, and reports nothing.
\<close>

theorem parseINI_print:
  assumes "\<forall>s \<in> set ss. plain_section s"
  shows "parseINI (print_ini ss) path = (\<lparr>sections = numbered 1 ss\<rparr>, [])"
proof (cases ss)
  case Nil
  then show ?thesis
    by (simp add: print_ini_def parseINI_def stripBOM_def splitLines_def replace_cr_def isLineContinuation_def
        HasSuffix_def Let_def)
next
  case (Cons s ss')
  let ?ls = "concat (map section_text ss)"
  have l: "\<forall>l \<in> set ?ls. one_line l \<and> \<not> isLineContinuation l" using assms section_lines_plain by auto
  have ne: "?ls \<noteq> []" by (simp add: Cons section_text_def)
  obtain t where "join_nl ?ls = CHR ''['' # t"
    by (cases "map entry_text (entries s) @ concat (map section_text ss')") (simp_all add: Cons section_text_def)
  then have "stripBOM (join_nl ?ls) = join_nl ?ls" by (auto simp: stripBOM_def bom_def)
  then show ?thesis
    using l splitLines_join [OF ne] joinContinuations_plain [of ?ls 0 path] ini_lines_print [OF assms, of path 1 "[]" "[]"]
    by (simp add: parseINI_def print_ini_def Let_def)
qed

definition sample_ini :: "iniSection list" where
  "sample_ini = [\<lparr>sname = ''Unit'', sline = 0, entries = [\<lparr>ekey = ''After'', evalue = ''db.service'', eline = 0\<rparr>]\<rparr>,
     \<lparr>sname = ''Service'', sline = 0, entries = [\<lparr>ekey = ''ExecStart'', evalue = ''C:/app.exe run'', eline = 0\<rparr>]\<rparr>]"

theorem parseINI_print_witness:
  "parseINI (print_ini sample_ini) ''a.service'' = (\<lparr>sections = numbered 1 sample_ini\<rparr>, [])"
proof -
  have "list_all plain_section sample_ini" by code_simp
  then show ?thesis by (intro parseINI_print) (simp add: list_all_iff)
qed

end
