(* ===== verification/Exec_Line.thy ===== *)
theory Exec_Line
  imports Unit_Types
begin

text \<open>
  Command lines and environments of a service: \<open>internal/unit/exec.go\<close> and \<open>internal/unit/env.go\<close>.
  Two things come from outside and are parameters: \<open>json\<close>, the decoder of \<open>encoding/json\<close> on an array,
  which gives for every element its string or None when the element is not a string literal, or the
  text of a syntax error; and \<open>stat\<close>, which tells whether a path names an existing file that is not a
  directory.  The loops over a line visit its runes; a byte that is not part of a UTF-8 encoding is
  copied as the replacement character, as \<open>WriteRune\<close> does.  The theorems show that quoting is lossless
  on valid UTF-8 text.
\<close>

type_synonym json_array = "string \<Rightarrow> string option list res"
type_synonym stat_file = "string \<Rightarrow> bool"

section \<open>Commands\<close>

definition isJSONArray :: "string \<Rightarrow> bool" where
  "isJSONArray s = HasPrefix (TrimSpace s) ''[''"

fun json_strings :: "nat \<Rightarrow> string option list \<Rightarrow> string list res" where
  "json_strings i [] = Inr []"
| "json_strings i (item # items) =
     (case item of
        None \<Rightarrow> Inl (''JSON-array ExecStart['' @ Itoa i @ ''] must be a string'')
      | Some str \<Rightarrow> (case json_strings (i + 1) items of Inl e \<Rightarrow> Inl e | Inr out \<Rightarrow> Inr (str # out)))"

definition parseJSONArgv :: "json_array \<Rightarrow> string \<Rightarrow> string list res" where
  "parseJSONArgv json s =
     (case json s of
        Inl err \<Rightarrow> Inl (''invalid JSON-array ExecStart: '' @ err)
      | Inr raw \<Rightarrow>
          (if raw = [] then Inl ''JSON-array ExecStart is empty''
           else case json_strings 0 raw of
             Inl e \<Rightarrow> Inl e
           | Inr out \<Rightarrow> (if out ! 0 = [] then Inl ''ExecStart is empty'' else Inr out)))"

text \<open>The loop of \<open>splitCommand\<close>: finished arguments, current argument, inside quotes, argument begun.\<close>

fun split_command :: "string list \<Rightarrow> string list \<Rightarrow> string \<Rightarrow> bool \<Rightarrow> bool \<Rightarrow> string list res" where
  "split_command [] args cur inQuote started =
     (if inQuote then Inl ''unterminated quote in ExecStart''
      else let args' = (if started then args @ [cur] else args) in
           if args' = [] then Inl ''ExecStart is empty'' else Inr args')"
| "split_command (r # rs) args cur inQuote started =
     (if r = [dquote] then split_command rs args cur (\<not> inQuote) True
      else if SpaceRune r \<and> \<not> inQuote then
        (if started then split_command rs (args @ [cur]) [] inQuote False
         else split_command rs args cur inQuote started)
      else split_command rs args (cur @ write_rune r) inQuote True)"

definition splitCommand :: "string \<Rightarrow> string list res" where
  "splitCommand s = split_command (runes s) [] [] False False"

definition buildArgv :: "json_array \<Rightarrow> string \<Rightarrow> string list \<Rightarrow> string list res" where
  "buildArgv json execRaw0 extraArgs =
     (let execRaw = TrimSpace execRaw0 in
      if execRaw = [] \<and> extraArgs = [] then Inl ''ExecStart is empty''
      else case (if isJSONArray execRaw then parseJSONArgv json execRaw
                 else if extraArgs \<noteq> [] then
                   (if execRaw = [] then Inl ''ExecStart is empty'' else Inr [execRaw])
                 else splitCommand execRaw) of
             Inl e \<Rightarrow> Inl e
           | Inr argv \<Rightarrow> (if argv = [] \<or> argv ! 0 = [] then Inl ''ExecStart is empty'' else Inr (argv @ extraArgs)))"

fun unquoted_space :: "bool \<Rightarrow> string list \<Rightarrow> bool" where
  "unquoted_space inQuote [] = False"
| "unquoted_space inQuote (r # rs) =
     (if r = [dquote] then unquoted_space (\<not> inQuote) rs
      else if SpaceRune r \<and> \<not> inQuote then True
      else unquoted_space inQuote rs)"

definition execStartHasUnquotedWhitespace :: "string \<Rightarrow> bool" where
  "execStartHasUnquotedWhitespace s = unquoted_space False (runes s)"

definition execStartArgFootgun :: "stat_file \<Rightarrow> string \<Rightarrow> bool" where
  "execStartArgFootgun stat execRaw0 =
     (let execRaw = TrimSpace execRaw0 in
      if execRaw = [] \<or> isJSONArray execRaw then False
      else if \<not> execStartHasUnquotedWhitespace execRaw then False
      else if stat execRaw then False
      else True)"

section \<open>Environments\<close>

definition squote :: char where
  "squote = CHR 0x27"

text \<open>The loop of \<open>splitEnvTokens\<close>; \<open>None\<close> for the quote is \<open>inQuote = false\<close>.\<close>

fun split_env :: "string list \<Rightarrow> string list \<Rightarrow> string \<Rightarrow> string option \<Rightarrow> bool \<Rightarrow> string list res" where
  "split_env [] tokens cur inQuote started =
     (if inQuote \<noteq> None then Inl ''unterminated quote in Environment''
      else Inr (if started then tokens @ [cur] else tokens))"
| "split_env (r # rs) tokens cur inQuote started =
     (if (r = [dquote] \<or> r = [squote]) \<and> inQuote = None then split_env rs tokens cur (Some r) True
      else if inQuote = Some r then split_env rs tokens cur None started
      else if SpaceRune r \<and> inQuote = None then
        (if started then split_env rs (tokens @ [cur]) [] inQuote False
         else split_env rs tokens cur inQuote started)
      else split_env rs tokens (cur @ write_rune r) inQuote True)"

definition splitEnvTokens :: "string \<Rightarrow> string list res" where
  "splitEnvTokens s = split_env (runes s) [] [] None False"

fun env_vars :: "string list \<Rightarrow> EnvVar list res" where
  "env_vars [] = Inr []"
| "env_vars (tok # toks) =
     (case Cut tok ''='' of (nm, val, ok) \<Rightarrow>
        if \<not> ok \<or> nm = [] then Inl (''invalid Environment assignment '' @ Quote tok)
        else (case env_vars toks of Inl e \<Rightarrow> Inl e | Inr out \<Rightarrow> Inr (\<lparr>EnvName = nm, EnvValue = val\<rparr> # out)))"

definition parseEnvironment :: "string \<Rightarrow> EnvVar list res" where
  "parseEnvironment s = (case splitEnvTokens s of Inl e \<Rightarrow> Inl e | Inr tokens \<Rightarrow> env_vars tokens)"

section \<open>A command always has a program\<close>

lemma buildArgv_Inr:
  assumes "buildArgv json execRaw extraArgs = Inr argv"
  shows "argv \<noteq> []" "argv ! 0 \<noteq> []"
proof -
  obtain a where "argv = a @ extraArgs" "a \<noteq> []" "a ! 0 \<noteq> []"
    using assms by (auto simp: buildArgv_def Let_def split: if_splits sum.splits)
  then show "argv \<noteq> []" "argv ! 0 \<noteq> []" by (simp_all add: nth_append)
qed

section \<open>Quoting is lossless\<close>

definition quoted :: "char \<Rightarrow> string \<Rightarrow> string" where
  "quoted q a = [q] @ a @ [q]"

lemma quotes_ascii [simp]: "is_ascii dquote" "is_ascii squote" "is_ascii (CHR '' '')"
  by (simp_all add: is_ascii_def dquote_def squote_def)

lemma quotes_not_space [simp]: "IsSpace (CHR '' '')" "CHR '' '' \<noteq> dquote" "CHR '' '' \<noteq> squote"
  by (simp_all add: IsSpace_def dquote_def squote_def)

lemma runes_quoted: "is_ascii q \<Longrightarrow> runes (quoted q a @ t) = [q] # runes a @ runes (q # t)"
  using runes_ascii [of q a t] by (simp add: quoted_def)

lemma rune_of_no_quote: "r \<in> set (runes a) \<Longrightarrow> q \<notin> set a \<Longrightarrow> r \<noteq> [q]"
  using concat_runes [of a] by (metis UN_I list.set_intros(1) set_concat)

text \<open>Inside quotes the runes of a valid text are copied unchanged.\<close>

lemma split_command_inside:
  "\<forall>r \<in> set a. r \<noteq> [dquote] \<and> write_rune r = r \<Longrightarrow>
   split_command (a @ rs) args cur True True = split_command rs args (cur @ concat a) True True"
  by (induction a arbitrary: cur) auto

lemma split_command_quoted:
  assumes "dquote \<notin> set a" "valid_utf8 a"
  shows "split_command (runes (quoted dquote a @ t)) args cur False st = split_command (runes t) args (cur @ a) False True"
proof -
  have "\<forall>r \<in> set (runes a). r \<noteq> [dquote] \<and> write_rune r = r"
    using assms rune_of_no_quote by (auto simp: valid_utf8_def list_all_iff)
  then show ?thesis by (simp add: runes_quoted split_command_inside del: append_Cons)
qed

lemma split_command_spaced:
  "ws \<noteq> [] \<Longrightarrow> \<forall>a \<in> set ws. dquote \<notin> set a \<and> valid_utf8 a \<Longrightarrow>
   split_command (runes (spaced (map (quoted dquote) ws))) args [] False False = Inr (args @ ws)"
proof (induction ws arbitrary: args)
  case (Cons a ws)
  have a: "dquote \<notin> set a" "valid_utf8 a" using Cons.prems(2) by simp_all
  show ?case
  proof (cases ws)
    case Nil
    then show ?thesis using split_command_quoted [OF a, of "[]"] by simp
  next
    case c: (Cons b bs)
    have "split_command (runes (spaced (map (quoted dquote) (a # ws)))) args [] False False
        = split_command (runes (quoted dquote a @ CHR '' '' # spaced (map (quoted dquote) ws))) args [] False False"
      by (simp add: c)
    also have "\<dots> = split_command (runes (spaced (map (quoted dquote) ws))) (args @ [a]) [] False False"
      by (subst split_command_quoted [OF a]) simp
    also have "\<dots> = Inr (args @ a # ws)" using Cons.IH [of "args @ [a]"] Cons.prems(2) c by simp
    finally show ?thesis .
  qed
qed simp

text \<open>
  a quoted command line is split back into its arguments.  Whatever valid UTF-8 arguments without a
  double quote are written between double quotes and separated by spaces, including empty arguments and
  arguments with spaces and backslashes, \<open>splitCommand\<close> returns exactly those arguments.
\<close>

theorem splitCommand_roundtrip:
  assumes "ws \<noteq> []" "\<forall>a \<in> set ws. dquote \<notin> set a \<and> valid_utf8 a"
  shows "splitCommand (spaced (map (quoted dquote) ws)) = Inr ws"
  using split_command_spaced [OF assms, of "[]"] by (simp add: splitCommand_def)

theorem splitCommand_roundtrip_witness:
  "splitCommand (spaced (map (quoted dquote) [''C:/Program Files/app.exe'', [], ''a b''])) = Inr [''C:/Program Files/app.exe'', [], ''a b'']"
proof (rule splitCommand_roundtrip)
  have "list_all (\<lambda>a. dquote \<notin> set a \<and> valid_utf8 a) [''C:/Program Files/app.exe'', [], ''a b'']" by code_simp
  then show "\<forall>a \<in> set [''C:/Program Files/app.exe'', [], ''a b'']. dquote \<notin> set a \<and> valid_utf8 a" unfolding list_all_iff .
qed simp

lemma split_env_inside:
  "\<forall>r \<in> set a. r \<noteq> q \<and> write_rune r = r \<Longrightarrow>
   split_env (a @ rs) tokens cur (Some q) True = split_env rs tokens (cur @ concat a) (Some q) True"
  by (induction a arbitrary: cur) auto

lemma split_env_quoted:
  assumes q: "q = dquote \<or> q = squote" and a: "q \<notin> set a" "valid_utf8 a"
  shows "split_env (runes (quoted q a @ t)) tokens cur None st = split_env (runes t) tokens (cur @ a) None True"
proof -
  have "\<forall>r \<in> set (runes a). r \<noteq> [q] \<and> write_rune r = r"
    using a rune_of_no_quote by (auto simp: valid_utf8_def list_all_iff)
  note inside = split_env_inside [OF this]
  have asc: "is_ascii q" using q by auto
  have "runes (quoted q a @ t) = [q] # runes a @ [q] # runes t" using runes_quoted [OF asc] asc by simp
  then show ?thesis using q inside by auto
qed

lemma split_env_spaced:
  "\<forall>(q, a) \<in> set ws. (q = dquote \<or> q = squote) \<and> q \<notin> set a \<and> valid_utf8 a \<Longrightarrow>
   split_env (runes (spaced (map (\<lambda>(q, a). quoted q a) ws))) tokens [] None False = Inr (tokens @ map snd ws)"
proof (induction ws arbitrary: tokens)
  case (Cons w ws)
  obtain q a where w: "w = (q, a)" by fastforce
  have q: "q = dquote \<or> q = squote" "q \<notin> set a" "valid_utf8 a"
    and ws: "\<forall>(q, a) \<in> set ws. (q = dquote \<or> q = squote) \<and> q \<notin> set a \<and> valid_utf8 a"
    using Cons.prems by (auto simp: w)
  show ?case
  proof (cases ws)
    case Nil
    then show ?thesis using split_env_quoted [OF q, of "[]"] by (simp add: w)
  next
    case c: (Cons b bs)
    have "split_env (runes (spaced (map (\<lambda>(q, a). quoted q a) (w # ws)))) tokens [] None False
        = split_env (runes (quoted q a @ CHR '' '' # spaced (map (\<lambda>(q, a). quoted q a) ws))) tokens [] None False"
      by (simp add: c w)
    also have "\<dots> = split_env (runes (spaced (map (\<lambda>(q, a). quoted q a) ws))) (tokens @ [a]) [] None False"
      by (subst split_env_quoted [OF q]) simp
    finally show ?thesis using Cons.IH [OF ws, of "tokens @ [a]"] by (simp add: w)
  qed
qed simp

definition assignment :: "EnvVar \<Rightarrow> string" where
  "assignment v = EnvName v @ ''='' @ EnvValue v"

definition plain_var :: "char \<Rightarrow> EnvVar \<Rightarrow> bool" where
  "plain_var q v \<longleftrightarrow> (q = dquote \<or> q = squote) \<and> EnvName v \<noteq> [] \<and> CHR ''='' \<notin> set (EnvName v) \<and> q \<notin> set (assignment v)
     \<and> valid_utf8 (assignment v)"

lemma env_vars_assignments:
  "\<forall>v \<in> set vs. EnvName v \<noteq> [] \<and> CHR ''='' \<notin> set (EnvName v) \<Longrightarrow> env_vars (map assignment vs) = Inr vs"
proof (induction vs)
  case (Cons v vs)
  have "Cut (assignment v) ''='' = (EnvName v, EnvValue v, True)"
    using Cons.prems Cut_eq [of "EnvName v" "EnvValue v"] by (simp add: assignment_def)
  then show ?case using Cons by simp
qed simp

text \<open>
  environment assignments are read back as written.  Valid UTF-8 variables whose assignments are each put
  between quotes of a kind they do not contain, single or double, are returned by \<open>parseEnvironment\<close>
  in order with their exact names and values, also when the values contain spaces, equality signs or
  the other kind of quote.
\<close>

theorem parseEnvironment_roundtrip:
  assumes "\<forall>(q, v) \<in> set vs. plain_var q v"
  shows "parseEnvironment (spaced (map (\<lambda>(q, v). quoted q (assignment v)) vs)) = Inr (map snd vs)"
proof -
  let ?ws = "map (\<lambda>(q, v). (q, assignment v)) vs"
  have "\<forall>(q, a) \<in> set ?ws. (q = dquote \<or> q = squote) \<and> q \<notin> set a \<and> valid_utf8 a" using assms by (auto simp: plain_var_def)
  then have "splitEnvTokens (spaced (map (\<lambda>(q, a). quoted q a) ?ws)) = Inr (map snd ?ws)"
    using split_env_spaced [of ?ws "[]"] by (simp add: splitEnvTokens_def)
  moreover have "map (\<lambda>(q, a). quoted q a) ?ws = map (\<lambda>(q, v). quoted q (assignment v)) vs" by auto
  moreover have "map snd ?ws = map assignment (map snd vs)" by auto
  moreover have "env_vars (map assignment (map snd vs)) = Inr (map snd vs)"
    by (rule env_vars_assignments) (use assms in \<open>auto simp: plain_var_def\<close>)
  ultimately show ?thesis by (simp only: parseEnvironment_def sum.case)
qed

theorem parseEnvironment_roundtrip_witness:
  "parseEnvironment (spaced [quoted dquote ''PATH=C:/a b'', quoted squote ''X==1''])
     = Inr [\<lparr>EnvName = ''PATH'', EnvValue = ''C:/a b''\<rparr>, \<lparr>EnvName = ''X'', EnvValue = ''=1''\<rparr>]"
proof -
  let ?vs = "[(dquote, \<lparr>EnvName = ''PATH'', EnvValue = ''C:/a b''\<rparr>), (squote, \<lparr>EnvName = ''X'', EnvValue = ''=1''\<rparr>)]"
  have "list_all (\<lambda>(q, v). plain_var q v) ?vs" by code_simp
  then have "\<forall>(q, v) \<in> set ?vs. plain_var q v" unfolding list_all_iff .
  from parseEnvironment_roundtrip [OF this] show ?thesis by (simp add: assignment_def)
qed

end
