(* ===== verification/Duration.thy ===== *)
theory Duration
  imports Complex_Main Unit_Types "HOL-Library.Log_Nat"
begin

text \<open>
  Time spans: \<open>internal/unit/duration.go\<close>.  The code computes with \<open>float64\<close>, so the theory first
  models the part of IEEE 754 binary64 that it uses: non-negative finite values as rationals, rounding
  to nearest with ties to even, and \<open>strconv.ParseFloat\<close> on digits and dots, which rounds the exact
  decimal value.  Converting a float that does not fit into an \<open>int64\<close> gives the smallest \<open>int64\<close>, as
  the amd64 instruction does; the code tests for a negative result.
\<close>

section \<open>Binary floating point\<close>

definition pow2 :: "int \<Rightarrow> rat" where
  "pow2 e = (if 0 \<le> e then 2 ^ nat e else 1 / 2 ^ nat (- e))"

definition log2floor :: "rat \<Rightarrow> int" where
  "log2floor x =
     (let (p, q) = quotient_of x;
          k = bitlen p - bitlen q
      in if x < pow2 k then k - 1 else k)"

definition round_even :: "rat \<Rightarrow> int" where
  "round_even x =
     (let f = \<lfloor>x\<rfloor>; r = x - of_int f in
      if r < 1 / 2 then f else if 1 / 2 < r then f + 1 else if even f then f else f + 1)"

definition fround :: "rat \<Rightarrow> rat" where
  "fround x =
     (if x \<le> 0 then 0
      else let e = max (log2floor x - 52) (- 1074) in of_int (round_even (x / pow2 e)) * pow2 e)"

definition decimal_value :: "string \<Rightarrow> rat option" where
  "decimal_value s =
     (case Split s (CHR ''.'') of
        [a] \<Rightarrow> (if a = [] then None else map_option of_nat (digits_val 0 a))
      | [a, b] \<Rightarrow> (if a @ b = [] then None
                   else map_option (\<lambda>n. of_nat n / 10 ^ length b) (digits_val 0 (a @ b)))
      | _ \<Rightarrow> None)"

text \<open>A value whose integral part has more than 1024 bits is out of range.\<close>

definition ParseFloat :: "string \<Rightarrow> rat option" where
  "ParseFloat s =
     (case decimal_value s of
        None \<Rightarrow> None
      | Some x \<Rightarrow> (let f = fround x in if bitlen \<lfloor>f\<rfloor> \<le> 1024 then Some f else None))"

definition float_to_int64 :: "rat \<Rightarrow> int" where
  "float_to_int64 x = (if x < 2 ^ 63 then \<lfloor>x\<rfloor> else - (2 ^ 63))"

section \<open>Units\<close>

definition maxDuration :: int where
  "maxDuration = maxInt64"

definition micro_sign :: string where
  "micro_sign = [CHR 0xC2, CHR 0xB5]"

definition greek_mu :: string where
  "greek_mu = [CHR 0xCE, CHR 0xBC]"

definition durationUnits :: "(string \<times> int) list" where
  "durationUnits =
     [(''us'', 1000), (''usec'', 1000), (micro_sign @ ''s'', 1000), (greek_mu @ ''s'', 1000),
      (''ms'', 1000000), (''msec'', 1000000),
      (''s'', 1000000000), (''sec'', 1000000000), (''second'', 1000000000), (''seconds'', 1000000000),
      (''m'', 60000000000), (''min'', 60000000000), (''minute'', 60000000000), (''minutes'', 60000000000),
      (''h'', 3600000000000), (''hr'', 3600000000000), (''hour'', 3600000000000), (''hours'', 3600000000000),
      (''d'', 86400000000000), (''day'', 86400000000000), (''days'', 86400000000000),
      (''w'', 604800000000000), (''week'', 604800000000000), (''weeks'', 604800000000000)]"

definition durationUnit :: "string \<Rightarrow> rat \<Rightarrow> int res" where
  "durationUnit unit n =
     (case map_of durationUnits (ToLower unit) of
        None \<Rightarrow> Inl (''unknown unit '' @ Quote unit)
      | Some mult \<Rightarrow>
          (if n < 0 then Inl ''duration overflow''
           else let maxN = fround (2 ^ 63 / of_int mult) in
                if maxN < n then Inl ''duration overflow''
                else let ns = fround (n * of_int mult) in
                     if 2 ^ 63 < ns then Inl ''duration overflow''
                     else let d = float_to_int64 ns in
                          if d < 0 then Inl ''duration overflow'' else Inr d))"

section \<open>Scanning\<close>

text \<open>\<open>unicode.IsSpace(rune(s[i]))\<close> reads a byte as a Latin-1 character.\<close>

definition IsSpaceByte :: "char \<Rightarrow> bool" where
  "IsSpaceByte c \<longleftrightarrow> IsSpace c \<or> c = CHR 0x85 \<or> c = CHR 0xA0"

definition number_char :: "char \<Rightarrow> bool" where
  "number_char c \<longleftrightarrow> is_digit c \<or> c = CHR ''.''"

definition unit_letter :: "char \<Rightarrow> bool" where
  "unit_letter c \<longleftrightarrow> is_lower_ascii c \<or> is_upper_ascii c"

fun take_unit :: "string \<Rightarrow> string \<times> string" where
  "take_unit [] = ([], [])"
| "take_unit [c] = (if unit_letter c then ([c], []) else ([], [c]))"
| "take_unit (c # d # t) =
     (if [c, d] = micro_sign \<or> [c, d] = greek_mu then (case take_unit t of (u, r) \<Rightarrow> (c # d # u, r))
      else if unit_letter c then (case take_unit (d # t) of (u, r) \<Rightarrow> (c # u, r))
      else ([], c # d # t))"

lemma take_unit_length: "length (snd (take_unit s)) \<le> length s"
  by (induction s rule: take_unit.induct) (auto split: prod.splits)

function duration_loop :: "string \<Rightarrow> string \<Rightarrow> int \<Rightarrow> bool \<Rightarrow> int res" where
  "duration_loop s rest acc parsed =
     (let r1 = dropWhile IsSpaceByte rest in
      if r1 = [] then (if parsed then Inr acc else Inl (''invalid duration '' @ Quote s))
      else let numStr = takeWhile number_char r1; r2 = dropWhile number_char r1 in
        if numStr = [] then Inl (''invalid duration '' @ Quote s)
        else case take_unit (dropWhile IsSpaceByte r2) of (u, r3) \<Rightarrow>
          let unit = (if u = [] then ''s'' else u) in
          (case ParseFloat numStr of
             None \<Rightarrow> Inl (''invalid duration '' @ Quote s)
           | Some nval \<Rightarrow>
               (case durationUnit unit nval of
                  Inl err \<Rightarrow> Inl (''invalid duration '' @ Quote s @ '': '' @ err)
                | Inr d \<Rightarrow>
                    (if 0 < d \<and> maxDuration - d < acc
                     then Inl (''invalid duration '' @ Quote s @ '': duration overflow'')
                     else duration_loop s r3 (acc + d) True))))"
  by pat_completeness auto

termination
proof (relation "measure (\<lambda>(s, rest, acc, parsed). length rest)", goal_cases)
  case (2 s rest acc parsed r1 numStr r2 u r3)
  have "length numStr + length r2 = length r1" using "2"(2-4) by (metis length_append takeWhile_dropWhile_id)
  moreover have "length r1 \<le> length rest" using "2"(1) by (simp add: length_dropWhile_le)
  moreover have "length r3 \<le> length r2"
    using take_unit_length [of "dropWhile IsSpaceByte r2"] "2"(6) [symmetric] length_dropWhile_le [of IsSpaceByte r2] by simp
  moreover have "0 < length numStr" using "2"(5) by simp
  ultimately have "length r3 < length rest" by linarith
  then show ?case by simp
qed simp

declare duration_loop.simps [simp del]

definition ParseDuration :: "string \<Rightarrow> int res" where
  "ParseDuration s0 =
     (let s = TrimSpace s0 in
      if s = [] then Inl ''empty duration''
      else if EqualFold s ''infinity'' then Inr maxDuration
      else duration_loop s s 0 False)"

section \<open>Parsed durations are in range\<close>

lemma durationUnit_range:
  assumes "durationUnit unit n = Inr d"
  shows "0 \<le> d \<and> d \<le> maxDuration"
proof -
  obtain ns where "d = float_to_int64 ns" "0 \<le> d"
    using assms by (auto simp: durationUnit_def Let_def split: option.splits if_splits)
  moreover have "float_to_int64 ns \<le> maxDuration"
  proof (cases "ns < 2 ^ 63")
    case True
    then have "\<lfloor>ns\<rfloor> < 2 ^ 63" by (simp add: floor_less_iff)
    then show ?thesis using True by (simp add: float_to_int64_def maxDuration_def maxInt64_def)
  qed (simp add: float_to_int64_def maxDuration_def maxInt64_def)
  ultimately show ?thesis by simp
qed

lemma duration_loop_step:
  assumes "duration_loop s rest acc parsed = Inr t"
  obtains (stop) "t = acc" "parsed"
  | (more) u x d r where "durationUnit u x = Inr d" "\<not> (0 < d \<and> maxDuration - d < acc)"
      "duration_loop s r (acc + d) True = Inr t" "length r < length rest"
proof -
  let ?r1 = "dropWhile IsSpaceByte rest"
  let ?r2 = "dropWhile number_char ?r1"
  obtain u r where u: "take_unit (dropWhile IsSpaceByte ?r2) = (u, r)" by fastforce
  show thesis
  proof (cases "?r1 = []")
    case True
    then show thesis using stop assms by (subst (asm) duration_loop.simps) (simp split: if_splits)
  next
    case False
    have n: "takeWhile number_char ?r1 \<noteq> []"
      using assms False by (subst (asm) duration_loop.simps) (auto simp: Let_def split: if_splits)
    have "length r \<le> length ?r2"
      using take_unit_length [of "dropWhile IsSpaceByte ?r2"] length_dropWhile_le [of IsSpaceByte ?r2] by (simp add: u)
    moreover have "length ?r2 < length ?r1"
      using n takeWhile_dropWhile_id [of number_char ?r1] by (metis length_append less_add_same_cancel2 length_greater_0_conv)
    ultimately have len: "length r < length rest" using length_dropWhile_le [of IsSpaceByte rest] by linarith
    show thesis
      using assms False n u len
      by (subst (asm) duration_loop.simps)
        (auto simp: Let_def split: if_splits option.splits sum.splits intro: more)
  qed
qed

lemma duration_loop_range:
  "duration_loop s rest acc parsed = Inr t \<Longrightarrow> 0 \<le> acc \<Longrightarrow> acc \<le> maxDuration \<Longrightarrow> 0 \<le> t \<and> t \<le> maxDuration"
proof (induction "length rest" arbitrary: rest acc parsed rule: less_induct)
  case less
  from less.prems(1) show ?case
  proof (cases rule: duration_loop_step)
    case (more u x d r)
    have "0 \<le> d" using durationUnit_range [OF more(1)] by simp
    then show ?thesis using less.hyps [OF more(4) more(3)] more(2) less.prems(2,3) by (cases "d = 0") simp_all
  qed (use less.prems in simp)
qed

lemma ParseDuration_bounds:
  assumes "ParseDuration s = Inr d"
  shows "0 \<le> d \<and> d \<le> maxDuration"
proof -
  have m: "0 \<le> maxDuration" by (simp add: maxDuration_def maxInt64_def)
  show ?thesis
  proof (cases "EqualFold (TrimSpace s) ''infinity''")
    case True
    then show ?thesis using assms m by (auto simp: ParseDuration_def Let_def split: if_splits)
  next
    case False
    then have "duration_loop (TrimSpace s) (TrimSpace s) 0 False = Inr d"
      using assms by (simp add: ParseDuration_def Let_def split: if_splits)
    then show ?thesis by (rule duration_loop_range) (simp_all add: m)
  qed
qed

text \<open>
  Durations never overflow.  Every time span that is accepted, however many components it sums and
  however large or precise they are written, is a number of nanoseconds between zero and the largest
  \<open>time.Duration\<close>, so no addition or conversion wrapped around.
\<close>

theorem ParseDuration_range:
  assumes "ParseDuration s = Inr d"
  shows "0 \<le> d \<and> d \<le> maxDuration"
  using assms by (rule ParseDuration_bounds)

section \<open>Rounding is exact on small integers\<close>

lemma pow2_pos: "0 < pow2 e"
  by (simp add: pow2_def)

lemma round_even_int: "round_even (of_int i) = i"
  by (simp add: round_even_def)

lemma fround_of_nat:
  assumes "n < 2 ^ 53"
  shows "fround (of_nat n) = of_nat n"
proof (cases "n = 0")
  case False
  let ?x = "of_nat n :: rat"
  let ?e = "max (log2floor ?x - 52) (- 1074)"
  have q: "quotient_of ?x = (int n, 1)" using quotient_of_int [of "int n"] by simp
  have "bitlen (int n) \<le> 53" using assms by (simp add: bitlen_le_iff_power)
  moreover have "bitlen 1 = 1" by code_simp
  ultimately have "log2floor ?x \<le> 52" by (simp add: log2floor_def q Let_def)
  then have e: "?e \<le> 0" by simp
  have p: "pow2 ?e = 1 / 2 ^ nat (- ?e)" using e by (cases "?e = 0") (simp_all add: pow2_def)
  have "?x / pow2 ?e = of_int (int n * 2 ^ nat (- ?e))" by (simp add: p)
  then have "of_int (round_even (?x / pow2 ?e)) * pow2 ?e = (of_int (int n * 2 ^ nat (- ?e)) :: rat) * pow2 ?e"
    by (simp only: round_even_int)
  also have "\<dots> = ?x" by (simp add: p)
  finally show ?thesis using False by (simp add: fround_def Let_def)
qed (simp add: fround_def)

lemma Itoa_digits: "list_all is_digit (Itoa n)"
proof (induction n rule: Itoa.induct)
  case (1 n)
  then show ?case by (subst Itoa.simps) (simp add: digit_char)
qed

lemma digit_facts: "is_digit c \<Longrightarrow> number_char c \<and> \<not> IsSpaceByte c \<and> c \<noteq> CHR ''.'' \<and> \<not> IsSpace c \<and> lower_char c \<noteq> CHR ''i''"
  by (auto simp: is_digit_def number_char_def IsSpaceByte_def IsSpace_def lower_char_def is_upper_ascii_def)

lemma ParseFloat_Itoa: "n < 2 ^ 53 \<Longrightarrow> ParseFloat (Itoa n) = Some (of_nat n)"
proof -
  assume n: "n < 2 ^ 53"
  have "CHR ''.'' \<notin> set (Itoa n)" using Itoa_digits [of n] digit_facts by (auto simp: list_all_iff)
  then have "Split (Itoa n) (CHR ''.'') = [Itoa n]" by (rule Split_no_sep)
  moreover have "bitlen (int n) \<le> 53" using n by (simp add: bitlen_le_iff_power)
  ultimately show ?thesis by (simp add: ParseFloat_def decimal_value_def digits_val_Itoa fround_of_nat [OF n] Let_def)
qed

text \<open>The spelled units: lower-case letters, and a limit of more than \<open>2 ^ 53\<close> nanoseconds.\<close>

definition spelled :: "string \<Rightarrow> int \<Rightarrow> bool" where
  "spelled u m \<longleftrightarrow> (u, m) \<in> set durationUnits \<and> list_all unit_letter u"

lemma durationUnits_facts:
  assumes "spelled u m"
  shows "map_of durationUnits u = Some m" "ToLower u = u" "0 < m" "2 ^ 53 \<le> fround (2 ^ 63 / of_int m) * of_int m" "u \<noteq> []"
proof -
  let ?mults = "[1000, 1000000, 1000000000, 60000000000, 3600000000000, 86400000000000, 604800000000000]"
  have 1: "list_all (\<lambda>(u, m). map_of durationUnits u = Some m \<and> ToLower u = u \<and> 0 < m \<and> m \<in> set ?mults \<and> u \<noteq> []) durationUnits"
    by code_simp
  have 2: "list_all (\<lambda>m. 2 ^ 53 \<le> fround (2 ^ 63 / of_int m) * of_int m) ?mults" by code_simp
  show "map_of durationUnits u = Some m" "ToLower u = u" "0 < m" "2 ^ 53 \<le> fround (2 ^ 63 / of_int m) * of_int m" "u \<noteq> []"
    using assms 1 2 unfolding spelled_def list_all_iff by fast+
qed

lemma durationUnit_exact:
  assumes "spelled u m" "int n * m < 2 ^ 53"
  shows "durationUnit u (of_nat n) = Inr (int n * m)"
proof -
  note f = durationUnits_facts [OF assms(1)]
  have nm: "of_nat n * of_int m = (of_int (int n * m) :: rat)" by simp
  have "(of_nat n :: rat) * of_int m < 2 ^ 53" unfolding nm using assms(2) by (metis of_int_less_iff of_int_numeral of_int_power)
  then have "(of_nat n :: rat) * of_int m \<le> fround (2 ^ 63 / of_int m) * of_int m" using f(4) by linarith
  then have a: "of_nat n \<le> fround (2 ^ 63 / of_int m)" using f(3) by simp
  have "int n * m = int (nat (int n * m))" using f(3) by simp
  then have "fround (of_int (int n * m)) = of_int (int n * m)"
    using fround_of_nat [of "nat (int n * m)"] assms(2) by (metis nat_less_iff of_int_of_nat_eq of_nat_0_le_iff zero_le_mult_iff nat_less_numeral_power_cancel_iff)
  then have b: "fround (of_nat n * of_int m) = of_int (int n * m)" unfolding nm .
  have d: "int n * m < 2 ^ 63" "0 \<le> int n * m" using assms(2) f(3) by simp_all
  have c: "(of_int (int n * m) :: rat) < 2 ^ 63" using d(1) by (metis of_int_less_iff of_int_numeral of_int_power)
  have "float_to_int64 (of_int (int n * m)) = int n * m" using c by (simp only: float_to_int64_def floor_of_int if_True)
  then show ?thesis
    using f(1,2) a c d(2) unfolding durationUnit_def b by (simp add: Let_def not_less b del: of_int_mult)
qed

section \<open>Sums of components\<close>

lemma unit_letter_facts: "unit_letter c \<Longrightarrow> \<not> number_char c \<and> \<not> IsSpaceByte c \<and> visible c \<and> c \<noteq> CHR 0xC2 \<and> c \<noteq> CHR 0xCE"
  by (auto simp: unit_letter_def is_lower_ascii_def is_upper_ascii_def number_char_def is_digit_def IsSpaceByte_def visible_def
      is_ascii_code IsSpace_def)

lemma take_unit_stop: "t = [] \<or> hd t = CHR '' '' \<Longrightarrow> take_unit t = ([], t)"
  by (cases t rule: take_unit.cases)
    (auto simp: micro_sign_def greek_mu_def unit_letter_def is_lower_ascii_def is_upper_ascii_def)

lemma take_unit_letters:
  "list_all unit_letter u \<Longrightarrow> t = [] \<or> hd t = CHR '' '' \<Longrightarrow> take_unit (u @ t) = (u, t)"
proof (induction u)
  case (Cons c u)
  have c: "unit_letter c" "c \<noteq> CHR 0xC2" "c \<noteq> CHR 0xCE" using Cons.prems(1) unit_letter_facts [of c] by simp_all
  show ?case
    using Cons c by (cases "u @ t") (auto simp: micro_sign_def greek_mu_def)
qed (simp add: take_unit_stop)

lemma duration_loop_space: "duration_loop s (CHR '' '' # r) acc parsed = duration_loop s r acc parsed"
proof -
  have "dropWhile IsSpaceByte (CHR '' '' # r) = dropWhile IsSpaceByte r" by (simp add: IsSpaceByte_def IsSpace_def)
  then show ?thesis by (subst (1 2) duration_loop.simps) simp
qed

lemma duration_loop_component:
  assumes u: "spelled u m" and n: "int n * m < 2 ^ 53" and t: "t = [] \<or> hd t = CHR '' ''"
    and acc: "acc + int n * m \<le> maxDuration"
  shows "duration_loop s (Itoa n @ u @ t) acc parsed = duration_loop s t (acc + int n * m) True"
proof -
  note f = durationUnits_facts [OF u]
  have dg: "\<forall>c \<in> set (Itoa n). number_char c \<and> \<not> IsSpaceByte c" using Itoa_digits [of n] digit_facts by (auto simp: list_all_iff)
  obtain c w where cw: "u = c # w" using f(5) by (cases u) auto
  have c: "\<not> number_char c" "\<not> IsSpaceByte c" using u unit_letter_facts [of c] by (simp_all add: spelled_def cw)
  have r1: "dropWhile IsSpaceByte (Itoa n @ u @ t) = Itoa n @ u @ t"
    using dg by (cases "Itoa n") auto
  have tw: "takeWhile number_char (Itoa n @ u @ t) = Itoa n" "dropWhile number_char (Itoa n @ u @ t) = u @ t"
    using dg c(1) by (simp_all add: cw takeWhile_append dropWhile_append3)
  have r3: "dropWhile IsSpaceByte (u @ t) = u @ t" using c(2) by (simp add: cw)
  have "int n \<le> int n * m" using f(3) by (simp add: mult_le_cancel_left1)
  then have "int n < 2 ^ 53" using n by linarith
  then have "n < 2 ^ 53" by simp
  then have p: "ParseFloat (Itoa n) = Some (of_nat n)" by (rule ParseFloat_Itoa)
  have tu: "take_unit (u @ t) = (u, t)" by (rule take_unit_letters) (use u t in \<open>simp_all add: spelled_def\<close>)
  show ?thesis
    unfolding duration_loop.simps [of s "Itoa n @ u @ t"] Let_def r1 tw r3 tu prod.case p option.case
    using acc f(5) by (simp add: durationUnit_exact [OF u n])
qed

definition component_text :: "nat \<times> string \<Rightarrow> string" where
  "component_text c = Itoa (fst c) @ snd c"

definition component_ns :: "nat \<times> string \<Rightarrow> int" where
  "component_ns c = int (fst c) * the (map_of durationUnits (snd c))"

definition exact_component :: "nat \<times> string \<Rightarrow> bool" where
  "exact_component c \<longleftrightarrow> map_of durationUnits (snd c) \<noteq> None \<and> list_all unit_letter (snd c) \<and> component_ns c < 2 ^ 53"

lemma exact_component_spelled:
  assumes "exact_component c"
  shows "spelled (snd c) (the (map_of durationUnits (snd c)))" "0 \<le> component_ns c"
proof -
  show s: "spelled (snd c) (the (map_of durationUnits (snd c)))"
    using assms by (auto simp: exact_component_def spelled_def dest: map_of_SomeD)
  show "0 \<le> component_ns c" using durationUnits_facts(3) [OF s] by (simp add: component_ns_def)
qed

lemma duration_loop_components:
  assumes "\<forall>c \<in> set cs. exact_component c" "acc + sum_list (map component_ns cs) \<le> maxDuration" "parsed \<or> cs \<noteq> []"
  shows "duration_loop s (spaced (map component_text cs)) acc parsed = Inr (acc + sum_list (map component_ns cs))"
  using assms
proof (induction cs arbitrary: acc parsed)
  case Nil
  then show ?case by (simp add: duration_loop.simps)
next
  case (Cons c cs)
  let ?m = "the (map_of durationUnits (snd c))"
  have e: "exact_component c" "\<forall>c \<in> set cs. exact_component c" using Cons.prems(1) by simp_all
  note sp = exact_component_spelled [OF e(1)]
  have nn: "0 \<le> sum_list (map component_ns cs)"
    using exact_component_spelled(2) e(2) by (intro sum_list_nonneg) auto
  have b: "int (fst c) * ?m < 2 ^ 53" "acc + int (fst c) * ?m \<le> maxDuration"
    using e(1) Cons.prems(2) nn by (simp_all add: exact_component_def component_ns_def [of c])
  define t where "t = (if cs = [] then [] else CHR '' '' # spaced (map component_text cs))"
  have "spaced (map component_text (c # cs)) = Itoa (fst c) @ snd c @ t"
    by (cases cs) (simp_all add: t_def component_text_def)
  moreover have "t = [] \<or> hd t = CHR '' ''" by (simp add: t_def)
  ultimately have 1: "duration_loop s (spaced (map component_text (c # cs))) acc parsed = duration_loop s t (acc + component_ns c) True"
    using duration_loop_component [OF sp(1) b(1) _ b(2)] by (simp add: component_ns_def)
  also have "\<dots> = duration_loop s (spaced (map component_text cs)) (acc + component_ns c) True"
    by (cases cs) (simp_all add: t_def duration_loop_space)
  also have "\<dots> = Inr (acc + component_ns c + sum_list (map component_ns cs))"
    using Cons.IH [OF e(2), of "acc + component_ns c" True] Cons.prems(2) by (simp add: add.assoc)
  finally show ?case by (simp add: add.assoc)
qed

lemma spaced_ends:
  "ws \<noteq> [] \<Longrightarrow> \<forall>w \<in> set ws. w \<noteq> [] \<and> visible (hd w) \<and> visible (last w) \<Longrightarrow>
   spaced ws \<noteq> [] \<and> hd (spaced ws) = hd (hd ws) \<and> visible (last (spaced ws))"
  by (induction ws rule: spaced.induct) auto

text \<open>
  C38: time spans mean what they say.  A sequence of components such as \<open>1h 30min 5s\<close>, each a decimal
  integer with one of the unit names and below \<open>2 ^ 53\<close> nanoseconds, parses to exactly the sum of its
  components in nanoseconds if that sum is a duration: computing with floating point loses nothing.
\<close>

theorem ParseDuration_components:
  assumes "cs \<noteq> []" and "\<forall>c \<in> set cs. exact_component c" and "sum_list (map component_ns cs) \<le> maxDuration"
  shows "ParseDuration (spaced (map component_text cs)) = Inr (sum_list (map component_ns cs))"
proof -
  let ?ws = "map component_text cs" let ?s = "spaced ?ws"
  have w: "component_text c \<noteq> [] \<and> is_digit (hd (component_text c)) \<and> visible (last (component_text c))" if "c \<in> set cs" for c
  proof -
    have "exact_component c" using assms(2) that by blast
    note sp = exact_component_spelled [OF this]
    have "snd c \<noteq> []" "unit_letter (last (snd c))" using durationUnits_facts(5) [OF sp(1)] sp(1) by (auto simp: spelled_def list_all_iff)
    then show ?thesis using Itoa_digits [of "fst c"] unit_letter_facts [of "last (snd c)"] by (cases "Itoa (fst c)") (auto simp: component_text_def)
  qed
  then have "\<forall>w \<in> set ?ws. w \<noteq> [] \<and> visible (hd w) \<and> visible (last w)" using digit_facts by auto
  then have s: "?s \<noteq> [] \<and> hd ?s = hd (hd ?ws) \<and> visible (last ?s)" using assms(1) by (intro spaced_ends) simp_all
  then have d: "is_digit (hd ?s)" using w [of "hd cs"] assms(1) by (simp add: hd_map)
  have t: "TrimSpace ?s = ?s" by (rule TrimSpace_visible) (use s d in auto)
  obtain c r where "?s = c # r" using s by (cases ?s) auto
  then have "\<not> EqualFold ?s ''infinity''" using d digit_facts [of c] by (simp add: EqualFold_def ToLower_def) (auto simp: lower_char_def is_upper_ascii_def)
  then show ?thesis
    using s t assms duration_loop_components [of cs 0 False ?s] by (simp add: ParseDuration_def Let_def)
qed

theorem ParseDuration_range_witness: "0 \<le> (5400000000000::int) \<and> (5400000000000::int) \<le> maxDuration"
proof -
  have "ParseDuration ''1.5h'' = Inr 5400000000000" by code_simp
  from ParseDuration_range [OF this] show ?thesis .
qed

theorem ParseDuration_components_witness: "ParseDuration (spaced [''1h'', ''30min'', ''250ms'']) = Inr 5400250000000"
proof -
  let ?cs = "[(1, ''h''), (30, ''min''), (250, ''ms'')]"
  have t: "map component_text ?cs = [''1h'', ''30min'', ''250ms'']" "sum_list (map component_ns ?cs) = 5400250000000"
    "list_all exact_component ?cs" by code_simp+
  have "ParseDuration (spaced (map component_text ?cs)) = Inr (sum_list (map component_ns ?cs))"
    by (rule ParseDuration_components) (use t(3) in \<open>simp_all only: list_all_iff t(2) maxDuration_def maxInt64_def, simp_all\<close>)
  then show ?thesis unfolding t .
qed

end
