(* ===== verification/Resource.thy ===== *)
theory Resource
  imports Duration Ini
begin

text \<open>
  Resource values of a service: \<open>internal/unit/resource.go\<close>, the parser of \<open>internal/unit/startlimit.go\<close>
  and the format versions of \<open>internal/unit/capabilities.go\<close>.  \<open>uint32\<close> and \<open>uint64\<close> results are words;
  the lemmas show that no accepted value was truncated or wrapped around.
\<close>

section \<open>Parsers\<close>

definition maxUint64 :: nat where
  "maxUint64 = 2 ^ 64 - 1"

definition mem_multiplier :: "string \<Rightarrow> nat option" where
  "mem_multiplier suf =
     (let u = ToUpper suf in
      if u = [] then Some 1
      else if u = ''K'' then Some 1024
      else if u = ''M'' then Some (1024 * 1024)
      else if u = ''G'' then Some (1024 * 1024 * 1024)
      else None)"

definition parseMemoryMax :: "string \<Rightarrow> 64 word res" where
  "parseMemoryMax s0 =
     (let s = TrimSpace s0;
          invalid = Inl (''invalid MemoryMax '' @ Quote s) in
      if s = [] then Inl ''empty MemoryMax''
      else let r = (if hd s = CHR ''+'' then tl s else s) in
        if r \<noteq> [] \<and> hd r = CHR ''-'' then invalid
        else let num = takeWhile is_digit r; suf = TrimSpace (dropWhile is_digit r) in
          if num = [] then invalid
          else case ParseUint 64 num of None \<Rightarrow> invalid
            | Some n \<Rightarrow>
                (case mem_multiplier suf of None \<Rightarrow> invalid
                 | Some mul \<Rightarrow>
                     (if n = 0 then invalid
                      else if 1 < mul \<and> maxUint64 div mul < n then invalid
                      else Inr (word_of_nat n * word_of_nat mul))))"

definition parseProcessLimit :: "string \<Rightarrow> 32 word res" where
  "parseProcessLimit s0 =
     (let s = TrimSpace s0; invalid = Inl (''invalid ProcessLimit '' @ Quote s) in
      if s = [] then Inl ''empty ProcessLimit''
      else case ParseInt 64 s of None \<Rightarrow> invalid
        | Some n \<Rightarrow> (if n \<le> 0 then invalid else if 2 ^ 32 - 1 < n then invalid else Inr (word_of_int n)))"

definition parsePriorityClass :: "string \<Rightarrow> PriorityClass res" where
  "parsePriorityClass s =
     (let raw = TrimSpace s; v = ToLower raw in
      if v = ''idle'' then Inr PriorityIdle
      else if v = ''below-normal'' then Inr PriorityBelowNormal
      else if v = ''normal'' then Inr PriorityNormal
      else if v = ''above-normal'' then Inr PriorityAboveNormal
      else if v = ''high'' then Inr PriorityHigh
      else if v = [] then Inl ''empty PriorityClass''
      else Inl (''invalid PriorityClass '' @ Quote raw @ '' (supported: idle, below-normal, normal, above-normal, high)''))"

definition parseCPUWeight :: "string \<Rightarrow> 32 word res" where
  "parseCPUWeight s0 =
     (let s = TrimSpace s0; invalid = Inl (''invalid CPUWeight '' @ Quote s) in
      if s = [] then Inl ''empty CPUWeight''
      else case ParseInt 64 s of None \<Rightarrow> invalid
        | Some n \<Rightarrow> (if n < 1 \<or> 10000 < n then invalid else Inr (word_of_int n)))"

definition parseCPUQuota :: "string \<Rightarrow> 32 word res" where
  "parseCPUQuota s0 =
     (let s = TrimSpace s0; invalid = Inl (''invalid CPUQuota '' @ Quote s) in
      if s = [] then Inl ''empty CPUQuota''
      else if \<not> HasSuffix s ''%'' then invalid
      else let num = TrimSpace (take (length s - 1) s) in
        (case ParseInt 64 num of None \<Rightarrow> invalid
         | Some n \<Rightarrow> (if n < 1 \<or> 100 < n then invalid else Inr (word_of_int n))))"

definition parseIoPriority :: "string \<Rightarrow> IoPriority res" where
  "parseIoPriority s =
     (let raw = TrimSpace s; v = ToLower raw in
      if v = ''idle'' then Inr IoIdle
      else if v = ''low'' then Inr IoLow
      else if v = ''normal'' then Inr IoNormal
      else if v = ''high'' then Inr IoHigh
      else if v = [] then Inl ''empty IoPriority''
      else Inl (''invalid IoPriority '' @ Quote raw @ '' (supported: idle, low, normal, high)''))"

definition DefaultStartLimitInterval :: int where
  "DefaultStartLimitInterval = 10 * 1000000000"

definition DefaultStartLimitBurst :: int where
  "DefaultStartLimitBurst = 5"

definition parseStartLimitBurst :: "string \<Rightarrow> int res" where
  "parseStartLimitBurst s0 =
     (let s = TrimSpace s0; invalid = Inl (''invalid StartLimitBurst '' @ Quote s) in
      if s = [] then Inl ''empty StartLimitBurst''
      else case Atoi s of None \<Rightarrow> invalid | Some n \<Rightarrow> (if n < 0 then invalid else Inr n))"

definition formatVersions :: "nat list" where
  "formatVersions = [1, 2]"

fun find_version :: "string \<Rightarrow> nat list \<Rightarrow> nat option" where
  "find_version s [] = None"
| "find_version s (v # vs) = (if s = Itoa v then Some v else find_version s vs)"

definition formatVersion :: "string \<Rightarrow> nat option" where
  "formatVersion s = find_version s formatVersions"

fun comma_join :: "string list \<Rightarrow> string" where
  "comma_join [] = []"
| "comma_join [w] = w"
| "comma_join (w # ws) = w @ '', '' @ comma_join ws"

definition formatVersionList :: string where
  "formatVersionList = comma_join (map Itoa formatVersions)"

section \<open>Accepted values are in range\<close>

lemma formatVersion_range: "formatVersion s = Some v \<Longrightarrow> v = 1 \<or> v = 2"
  by (auto simp: formatVersion_def formatVersions_def split: if_splits)

lemma parseStartLimitBurst_range: "parseStartLimitBurst s = Inr n \<Longrightarrow> 0 \<le> n"
  by (auto simp: parseStartLimitBurst_def Let_def split: if_splits option.splits)

lemma uint_of_int32: "0 \<le> n \<Longrightarrow> n < 2 ^ 32 \<Longrightarrow> uint (word_of_int n :: 32 word) = n"
  by (simp add: uint_word_of_int take_bit_int_eq_self)

lemma parseProcessLimit_range: "parseProcessLimit s = Inr w \<Longrightarrow> 1 \<le> uint w"
  by (auto simp: parseProcessLimit_def Let_def uint_of_int32 split: if_splits option.splits)

lemma parseCPUWeight_range: "parseCPUWeight s = Inr w \<Longrightarrow> 1 \<le> uint w \<and> uint w \<le> 10000"
  by (auto simp: parseCPUWeight_def Let_def uint_of_int32 split: if_splits option.splits)

lemma parseCPUQuota_range: "parseCPUQuota s = Inr w \<Longrightarrow> 1 \<le> uint w \<and> uint w \<le> 100"
  by (auto simp: parseCPUQuota_def Let_def uint_of_int32 split: if_splits option.splits)

lemma parsePriorityClass_set: "parsePriorityClass s = Inr c \<Longrightarrow> c \<noteq> PriorityUnset"
  by (auto simp: parsePriorityClass_def Let_def split: if_splits)

lemma parseIoPriority_set: "parseIoPriority s = Inr c \<Longrightarrow> c \<noteq> IoUnset"
  by (auto simp: parseIoPriority_def Let_def split: if_splits)

lemma mem_multiplier_cases: "mem_multiplier suf = Some mul \<Longrightarrow> mul \<in> {1, 2 ^ 10, 2 ^ 20, 2 ^ 30}"
  by (auto simp: mem_multiplier_def Let_def split: if_splits)

text \<open>The product is computed in 64 bits and does not wrap around, because the code compares first.\<close>

lemma mem_product:
  assumes "0 < mul" "n \<le> maxUint64 div mul"
  shows "unat (word_of_nat n * word_of_nat mul :: 64 word) = n * mul"
proof -
  have "n * mul \<le> maxUint64" using assms by (simp add: less_eq_div_iff_mult_less_eq)
  then have "n * mul < 2 ^ 64" by (simp add: maxUint64_def)
  moreover have "word_of_nat n * word_of_nat mul = (word_of_nat (n * mul) :: 64 word)" by simp
  ultimately show ?thesis by (simp only: unat_of_nat take_bit_nat_eq_self len_of_numeral_defs) (simp add: take_bit_nat_eq_self)
qed

lemma parseMemoryMax_positive: "parseMemoryMax s = Inr w \<Longrightarrow> 0 < unat w"
proof -
  assume "parseMemoryMax s = Inr w"
  then obtain n mul num suf where w: "w = word_of_nat n * word_of_nat mul" "n \<noteq> 0" "mem_multiplier suf = Some mul"
    "\<not> (1 < mul \<and> maxUint64 div mul < n)" "ParseUint 64 num = Some n"
    by (auto simp: parseMemoryMax_def Let_def split: if_splits option.splits)
  have "0 < mul" using mem_multiplier_cases [OF w(3)] by auto
  moreover have "n \<le> maxUint64" using ParseUint_bound [OF w(5)] by (simp add: maxUint64_def)
  ultimately have "unat w = n * mul" unfolding w(1) using w(4) by (intro mem_product) (cases "mul = 1"; simp)+
  then show ?thesis using w(2) \<open>0 < mul\<close> by simp
qed

lemma Itoa_suffix:
  assumes "suf = [] \<or> \<not> is_digit (hd suf)"
  shows "takeWhile is_digit (Itoa n @ suf) = Itoa n" "dropWhile is_digit (Itoa n @ suf) = suf"
  using Itoa_digits [of n] assms by (cases suf; simp add: list_all_iff takeWhile_append dropWhile_append3)+

lemma mem_suffix_facts: "mem_multiplier suf = Some mul \<Longrightarrow> suf = [] \<or> \<not> is_digit (hd suf) \<and> visible (hd suf) \<and> tl suf = []"
proof -
  assume "mem_multiplier suf = Some mul"
  then have "suf = [] \<or> (\<exists>c. suf = [c] \<and> upper_char c \<in> {CHR ''K'', CHR ''M'', CHR ''G''})"
    by (cases suf) (auto simp: mem_multiplier_def Let_def ToUpper_def split: if_splits)
  then show ?thesis by (auto simp: upper_char_def is_lower_ascii_def is_digit_def visible_def is_ascii_code IsSpace_def
        split: if_splits)
qed

text \<open>
  Memory limits are exact.  A decimal number with an optional suffix K, M or G in either case is
  accepted exactly when it is not zero and the number of bytes it names fits into 64 bits, and the
  limit is then exactly that number of bytes: the multiplication never wraps around.
\<close>

theorem parseMemoryMax_exact:
  assumes "mem_multiplier suf = Some mul"
  shows "parseMemoryMax (Itoa n @ suf) = Inr w \<longleftrightarrow> 0 < n \<and> unat w = n * mul"
proof -
  let ?s = "Itoa n @ suf"
  note sf = mem_suffix_facts [OF assms]
  have m: "0 < mul" using mem_multiplier_cases [OF assms] by auto
  have d: "is_digit (hd ?s)" using Itoa_digits [of n] by (cases "Itoa n") auto
  have "visible (last ?s)" using sf Itoa_digits [of n] by (cases suf) (auto simp: list_all_iff)
  then have t: "TrimSpace ?s = ?s" using d by (intro TrimSpace_visible) simp
  have h: "hd ?s \<noteq> CHR ''+''" "hd ?s \<noteq> CHR ''-''" using d by (auto simp: is_digit_def)
  have ts: "TrimSpace suf = suf" by (rule TrimSpace_visible) (use sf in \<open>cases suf; auto\<close>)
  have sd: "suf = [] \<or> \<not> is_digit (hd suf)" using sf by blast
  have p: "parseMemoryMax ?s = (case ParseUint 64 (Itoa n) of None \<Rightarrow> Inl (''invalid MemoryMax '' @ Quote ?s)
      | Some n \<Rightarrow> (if n = 0 \<or> 1 < mul \<and> maxUint64 div mul < n then Inl (''invalid MemoryMax '' @ Quote ?s)
          else Inr (word_of_nat n * word_of_nat mul)))"
    using h by (simp add: parseMemoryMax_def Let_def t Itoa_suffix [OF sd] ts assms split: option.splits)
  have u: "ParseUint 64 (Itoa n) = (if n < 2 ^ 64 then Some n else None)"
    by (simp add: ParseUint_def digits_val_Itoa)
  have le: "n \<le> maxUint64 div mul \<longleftrightarrow> n * mul < 2 ^ 64"
    using m by (simp add: less_eq_div_iff_mult_less_eq maxUint64_def) linarith
  show ?thesis
  proof
    assume "parseMemoryMax ?s = Inr w"
    then have n: "0 < n" "n < 2 ^ 64" "\<not> (1 < mul \<and> maxUint64 div mul < n)" and w: "w = word_of_nat n * word_of_nat mul"
      unfolding p u by (auto split: if_splits)
    have "n \<le> maxUint64 div mul" using n(2,3) m by (cases "mul = 1") (auto simp: maxUint64_def)
    then show "0 < n \<and> unat w = n * mul" using n(1) w mem_product [OF m] by simp
  next
    assume w: "0 < n \<and> unat w = n * mul"
    then have b: "n * mul < 2 ^ 64" using unsigned_less [of w, where ?'a = nat] by simp
    then have n: "n \<le> maxUint64 div mul" using le by simp
    have "n \<le> n * mul" using m by simp
    then have "n < 2 ^ 64" using b by linarith
    moreover have "word_of_nat n * word_of_nat mul = w" using mem_product [OF m n] w by (intro unsigned_word_eqI [where ?'a = nat]) simp
    ultimately show "parseMemoryMax ?s = Inr w" unfolding p u using w n by auto
  qed
qed

theorem parseMemoryMax_exact_witness: "parseMemoryMax (Itoa 2 @ ''G'') = Inr (2147483648 :: 64 word)"
proof -
  have "mem_multiplier ''G'' = Some 1073741824" by code_simp
  from parseMemoryMax_exact [OF this, of 2 "2147483648"] show ?thesis by simp
qed

end
