(* ===== verification/Endpoint.thy ===== *)
theory Endpoint
  imports Unit_Types
begin

text \<open>
  Probe endpoints: the address checks of \<open>internal/unit/watchdog.go\<close>, which readiness probes share.
  The functions of \<open>net\<close> and \<open>net/url\<close> that the code calls are modelled first; the parser and the
  printer of URLs are parameters.  An IP address is the list of its sixteen bytes, as \<open>net.IP\<close>.  The
  result is that every accepted endpoint is on the loopback interface, in the form in which the
  second check, when the probe connects, accepts it again.
\<close>

section \<open>Package net\<close>

definition colon :: char where
  "colon = CHR 0x3A"

definition octet :: "string \<Rightarrow> nat option" where
  "octet f =
     (if f = [] \<or> 3 < length f \<or> (1 < length f \<and> hd f = CHR ''0'') then None
      else (case digits_val 0 f of None \<Rightarrow> None | Some n \<Rightarrow> (if n \<le> 255 then Some n else None)))"

definition parseIPv4 :: "string \<Rightarrow> nat list option" where
  "parseIPv4 s =
     (case map octet (Split s (CHR ''.'')) of
        [Some a, Some b, Some c, Some d] \<Rightarrow> Some [a, b, c, d]
      | _ \<Rightarrow> None)"

definition hex_val :: "char \<Rightarrow> nat option" where
  "hex_val c =
     (let n = (of_char c :: nat) in
      if is_digit c then Some (n - 48)
      else if 97 \<le> n \<and> n \<le> 102 then Some (n - 87)
      else if 65 \<le> n \<and> n \<le> 70 then Some (n - 55)
      else None)"

definition is_hex :: "char \<Rightarrow> bool" where
  "is_hex c \<longleftrightarrow> hex_val c \<noteq> None"

definition hex_group :: "string \<Rightarrow> nat" where
  "hex_group ds = foldl (\<lambda>acc c. 16 * acc + the (hex_val c)) 0 ds"

text \<open>
  The loop of \<open>netip.ParseAddr\<close> on an IPv6 text: the bytes read so far and the position of the
  ellipsis; the result is the bytes and the ellipsis at the end of the text, or None for a syntax error.
\<close>

function ipv6_groups :: "string \<Rightarrow> nat list \<Rightarrow> nat option \<Rightarrow> (nat list \<times> nat option) option" where
  "ipv6_groups s ip ell =
     (if 16 \<le> length ip then (if s = [] then Some (ip, ell) else None)
      else let ds = takeWhile is_hex s; r = dropWhile is_hex s in
        if ds = [] \<or> 4 < length ds then None
        else if r \<noteq> [] \<and> hd r = CHR ''.'' then
          (if ell = None \<and> length ip \<noteq> 12 then None
           else if 16 < length ip + 4 then None
           else (case parseIPv4 s of None \<Rightarrow> None | Some bs \<Rightarrow> Some (ip @ bs, ell)))
        else let ip' = ip @ [hex_group ds div 256, hex_group ds mod 256] in
          (case r of
             [] \<Rightarrow> Some (ip', ell)
           | c # r' \<Rightarrow>
               (if c \<noteq> colon \<or> r' = [] then None
                else if hd r' = colon then
                  (if ell \<noteq> None then None
                   else if tl r' = [] then Some (ip', Some (length ip'))
                   else ipv6_groups (tl r') ip' (Some (length ip')))
                else ipv6_groups r' ip' ell)))"
  by pat_completeness auto

termination
  by (relation "measure (\<lambda>(s, ip, ell). 16 - length ip)") auto

declare ipv6_groups.simps [simp del]

definition parseIPv6 :: "string \<Rightarrow> nat list option" where
  "parseIPv6 s =
     (if CHR ''%'' \<in> set s then None
      else if s = [colon, colon] then Some (replicate 16 0)
      else case (if HasPrefix s [colon, colon] then ipv6_groups (drop 2 s) [] (Some 0) else ipv6_groups s [] None) of
             None \<Rightarrow> None
           | Some (ip, ell) \<Rightarrow>
               (case ell of
                  None \<Rightarrow> (if length ip = 16 then Some ip else None)
                | Some e \<Rightarrow> (if length ip < 16 then Some (take e ip @ replicate (16 - length ip) 0 @ drop e ip) else None)))"

definition v4_prefix :: "nat list" where
  "v4_prefix = replicate 10 0 @ [255, 255]"

definition ParseIP :: "string \<Rightarrow> nat list option" where
  "ParseIP s =
     (case dropWhile (\<lambda>c. c \<noteq> CHR ''.'' \<and> c \<noteq> colon) s of
        [] \<Rightarrow> None
      | c # _ \<Rightarrow> (if c = colon then parseIPv6 s else map_option (\<lambda>bs. v4_prefix @ bs) (parseIPv4 s)))"

definition is_v4 :: "nat list \<Rightarrow> bool" where
  "is_v4 ip \<longleftrightarrow> take 12 ip = v4_prefix"

definition ip6_loopback :: "nat list" where
  "ip6_loopback = replicate 15 0 @ [1]"

definition IsLoopback :: "nat list \<Rightarrow> bool" where
  "IsLoopback ip = (if is_v4 ip then ip ! 12 = 127 else ip = ip6_loopback)"

definition dotted :: "nat \<Rightarrow> nat \<Rightarrow> nat \<Rightarrow> nat \<Rightarrow> string" where
  "dotted a b c d = Itoa a @ ''.'' @ Itoa b @ ''.'' @ Itoa c @ ''.'' @ Itoa d"

text \<open>\<open>IP.String\<close> of a loopback address, the only addresses the code prints.\<close>

definition loopback_string :: "nat list \<Rightarrow> string" where
  "loopback_string ip =
     (if is_v4 ip then dotted (ip ! 12) (ip ! 13) (ip ! 14) (ip ! 15) else [colon, colon, CHR ''1''])"

definition addr_err :: "string \<Rightarrow> string \<Rightarrow> string" where
  "addr_err addr why = ''address '' @ addr @ '': '' @ why"

definition SplitHostPort :: "string \<Rightarrow> (string \<times> string) res" where
  "SplitHostPort hp =
     (case LastIndex hp [colon] of
        None \<Rightarrow> Inl (addr_err hp ''missing port in address'')
      | Some i \<Rightarrow>
          let port = drop (i + 1) hp in
          if hd hp = CHR ''['' then
            (case Index hp '']'' of
               None \<Rightarrow> Inl (addr_err hp (''missing '' @ [CHR 0x27] @ '']'' @ [CHR 0x27] @ '' in address''))
             | Some end' \<Rightarrow>
                 (if end' + 1 = length hp then Inl (addr_err hp ''missing port in address'')
                  else if end' + 1 \<noteq> i then
                    (if hp ! (end' + 1) = colon then Inl (addr_err hp ''too many colons in address'')
                     else Inl (addr_err hp ''missing port in address''))
                  else if CHR ''['' \<in> set (drop 1 hp) then Inl (addr_err hp (''unexpected '' @ [CHR 0x27] @ ''['' @ [CHR 0x27] @ '' in address''))
                  else if CHR '']'' \<in> set (drop (end' + 1) hp) then Inl (addr_err hp (''unexpected '' @ [CHR 0x27] @ '']'' @ [CHR 0x27] @ '' in address''))
                  else Inr (take (end' - 1) (drop 1 hp), port)))
          else
            let host = take i hp in
            if colon \<in> set host then Inl (addr_err hp ''too many colons in address'')
            else if CHR ''['' \<in> set hp then Inl (addr_err hp (''unexpected '' @ [CHR 0x27] @ ''['' @ [CHR 0x27] @ '' in address''))
            else if CHR '']'' \<in> set hp then Inl (addr_err hp (''unexpected '' @ [CHR 0x27] @ '']'' @ [CHR 0x27] @ '' in address''))
            else Inr (host, port))"

definition JoinHostPort :: "string \<Rightarrow> string \<Rightarrow> string" where
  "JoinHostPort host port =
     (if colon \<in> set host then ''['' @ host @ '']'' @ [colon] @ port else host @ [colon] @ port)"

section \<open>Package net/url\<close>

record URL =
  Scheme :: string
  UserInfo :: "string option"
  Host :: string
  URLPath :: string
  Fragment :: string
  URLRest :: string

record url_lib =
  url_Parse :: "string \<Rightarrow> URL res"
  url_String :: "URL \<Rightarrow> string"

definition url_split :: "string \<Rightarrow> string \<times> string" where
  "url_split hp =
     (let (host, port) =
        (case LastIndex hp [colon] of
           Some i \<Rightarrow> (if list_all is_digit (drop (i + 1) hp) then (take i hp, drop (i + 1) hp) else (hp, []))
         | None \<Rightarrow> (hp, []))
      in (if HasPrefix host ''['' \<and> HasSuffix host '']'' then take (length host - 2) (drop 1 host) else host, port))"

definition Hostname :: "URL \<Rightarrow> string" where
  "Hostname u = fst (url_split (Host u))"

definition Port :: "URL \<Rightarrow> string" where
  "Port u = snd (url_split (Host u))"

section \<open>Endpoint checks\<close>

definition canonicalizeLoopbackHost :: "string \<Rightarrow> string res" where
  "canonicalizeLoopbackHost host0 =
     (let host = TrimSpace host0 in
      if host = [] then Inl ''WatchdogEndpoint host is empty''
      else if EqualFold host ''localhost'' then Inr ''127.0.0.1''
      else case ParseIP host of
             None \<Rightarrow> Inl (''WatchdogEndpoint host '' @ Quote host @ '' is not a loopback address'')
           | Some ip \<Rightarrow>
               (if \<not> IsLoopback ip then Inl (''WatchdogEndpoint host '' @ Quote host @ '' is not a loopback address'')
                else Inr (loopback_string ip)))"

definition validWatchdogPort :: "string \<Rightarrow> unit res" where
  "validWatchdogPort port =
     (case Atoi port of
        None \<Rightarrow> Inl (''invalid WatchdogEndpoint port '' @ Quote port)
      | Some n \<Rightarrow> (if n < 1 \<or> 65535 < n then Inl (''invalid WatchdogEndpoint port '' @ Quote port) else Inr ()))"

definition parseTCPWatchdogEndpoint :: "string \<Rightarrow> string res" where
  "parseTCPWatchdogEndpoint raw0 =
     (let raw = TrimSpace raw0 in
      if raw = [] then Inl ''invalid WatchdogEndpoint: empty host:port''
      else if Contains raw ''://'' then Inl ''WatchdogMode=tcp requires host:port, not a URL''
      else case SplitHostPort raw of
             Inl err \<Rightarrow> Inl (''invalid WatchdogEndpoint: '' @ err)
           | Inr (host, port) \<Rightarrow>
               (case canonicalizeLoopbackHost host of
                  Inl err \<Rightarrow> Inl err
                | Inr h \<Rightarrow>
                    (case validWatchdogPort port of
                       Inl err \<Rightarrow> Inl err
                     | Inr _ \<Rightarrow> Inr (JoinHostPort h port))))"

definition parseHTTPWatchdogEndpoint :: "url_lib \<Rightarrow> string \<Rightarrow> URL res" where
  "parseHTTPWatchdogEndpoint lib raw0 =
     (let raw = TrimSpace raw0 in
      if raw = [] then Inl ''invalid WatchdogEndpoint: empty URL''
      else case url_Parse lib raw of
             Inl _ \<Rightarrow> Inl ''WatchdogEndpoint must be an http or https URL''
           | Inr u \<Rightarrow>
               (if Scheme u \<noteq> ''http'' \<and> Scheme u \<noteq> ''https'' then Inl ''WatchdogEndpoint must be an http or https URL''
                else if Host u = [] then Inl ''WatchdogEndpoint URL is missing a host''
                else if UserInfo u \<noteq> None then Inl ''WatchdogEndpoint must not include userinfo''
                else case canonicalizeLoopbackHost (Hostname u) of
                       Inl err \<Rightarrow> Inl err
                     | Inr h \<Rightarrow>
                         let port = (if Port u = [] then (if Scheme u = ''https'' then ''443'' else ''80'') else Port u) in
                         (case validWatchdogPort port of
                            Inl err \<Rightarrow> Inl err
                          | Inr _ \<Rightarrow>
                              Inr (u\<lparr>Host := JoinHostPort h port, UserInfo := None, Fragment := [],
                                     URLPath := (if URLPath u = [] then ''/'' else URLPath u)\<rparr>))))"

definition parseHTTPWatchdogStatus :: "string \<Rightarrow> int res" where
  "parseHTTPWatchdogStatus raw =
     (case Atoi (TrimSpace raw) of
        None \<Rightarrow> Inl ''not an HTTP status code''
      | Some n \<Rightarrow>
          (if n < 100 \<or> 599 < n
           then Inl ((if n < 0 then ''-'' else []) @ Itoa (nat \<bar>n\<bar>) @ '' is not an HTTP status code'')
           else Inr n))"

definition requireLoopbackAddr :: "string \<Rightarrow> unit res" where
  "requireLoopbackAddr addr =
     (case SplitHostPort addr of
        Inl err \<Rightarrow> Inl (''invalid WatchdogEndpoint: '' @ err)
      | Inr (host, port) \<Rightarrow>
          (case canonicalizeLoopbackHost host of
             Inl err \<Rightarrow> Inl err
           | Inr _ \<Rightarrow> validWatchdogPort port))"

definition requireLoopbackURL :: "url_lib \<Rightarrow> string \<Rightarrow> URL res" where
  "requireLoopbackURL lib raw =
     (case url_Parse lib raw of
        Inl err \<Rightarrow> Inl err
      | Inr u \<Rightarrow>
          (if Scheme u \<noteq> ''http'' \<and> Scheme u \<noteq> ''https'' then Inl ''WatchdogEndpoint must be an http or https URL''
           else let host = (if Hostname u = [] then Host u else Hostname u) in
                (case canonicalizeLoopbackHost host of Inl err \<Rightarrow> Inl err | Inr _ \<Rightarrow> Inr u)))"

definition WatchdogProbeTimeout :: "int \<Rightarrow> int" where
  "WatchdogProbeTimeout interval = (if interval \<le> 0 then 1000000000 else interval)"

section \<open>Parsed addresses are sixteen bytes\<close>

lemma octet_range: "octet f = Some n \<Longrightarrow> n \<le> 255"
  by (auto simp: octet_def split: if_splits option.splits)

lemma parseIPv4_bytes: "parseIPv4 s = Some bs \<Longrightarrow> length bs = 4 \<and> (\<forall>b \<in> set bs. b \<le> 255)"
proof -
  assume "parseIPv4 s = Some bs"
  then obtain a b c d where "map octet (Split s (CHR ''.'')) = [Some a, Some b, Some c, Some d]" "bs = [a, b, c, d]"
    by (auto simp: parseIPv4_def split: list.splits option.splits)
  then show ?thesis using octet_range by (auto simp: map_eq_Cons_conv)
qed

lemma hex_val_range: "hex_val c = Some n \<Longrightarrow> n < 16"
  by (auto simp: hex_val_def is_digit_def Let_def split: if_splits)

lemma hex_group_range: "\<forall>c \<in> set ds. is_hex c \<Longrightarrow> hex_group ds < 16 ^ length ds"
proof (induction ds rule: rev_induct)
  case (snoc c ds)
  obtain n where n: "hex_val c = Some n" "n < 16" using snoc.prems hex_val_range by (auto simp: is_hex_def)
  have "16 * hex_group ds + n < 16 * 16 ^ length ds" using snoc n(2) by simp
  then show ?case using n(1) by (simp add: hex_group_def)
qed (simp add: hex_group_def)

lemma hex_group_bytes:
  assumes "length (takeWhile is_hex s) \<le> 4"
  shows "hex_group (takeWhile is_hex s) div 256 \<le> 255" "hex_group (takeWhile is_hex s) mod 256 \<le> 255"
proof -
  have "hex_group (takeWhile is_hex s) < 16 ^ length (takeWhile is_hex s)"
    by (rule hex_group_range) (auto dest: set_takeWhileD)
  also have "\<dots> \<le> 16 ^ 4" by (rule power_increasing) (use assms in simp_all)
  finally show "hex_group (takeWhile is_hex s) div 256 \<le> 255" by simp
  show "hex_group (takeWhile is_hex s) mod 256 \<le> 255" using mod_less_divisor [of 256 "hex_group (takeWhile is_hex s)"] by linarith
qed

definition group_bytes :: "string \<Rightarrow> nat list" where
  "group_bytes ds = [hex_group ds div 256, hex_group ds mod 256]"

lemma ipv6_groups_elim:
  assumes "ipv6_groups s ip ell = Some (ip', ell')"
  obtains (full) "ip' = ip"
  | (v4) bs where "parseIPv4 s = Some bs" "ip' = ip @ bs"
  | (last) "length (takeWhile is_hex s) \<le> 4" "ip' = ip @ group_bytes (takeWhile is_hex s)"
  | (more) t e where "length (takeWhile is_hex s) \<le> 4" "length ip < 16"
      "ipv6_groups t (ip @ group_bytes (takeWhile is_hex s)) e = Some (ip', ell')"
proof -
  have eq: "ipv6_groups s ip ell = (if 16 \<le> length ip then (if s = [] then Some (ip, ell) else None)
      else if takeWhile is_hex s = [] \<or> 4 < length (takeWhile is_hex s) then None
      else if dropWhile is_hex s \<noteq> [] \<and> hd (dropWhile is_hex s) = CHR ''.'' then
        (if ell = None \<and> length ip \<noteq> 12 then None else if 16 < length ip + 4 then None
         else (case parseIPv4 s of None \<Rightarrow> None | Some bs \<Rightarrow> Some (ip @ bs, ell)))
      else (case dropWhile is_hex s of [] \<Rightarrow> Some (ip @ group_bytes (takeWhile is_hex s), ell)
         | c # r' \<Rightarrow> (if c \<noteq> colon \<or> r' = [] then None
             else if hd r' = colon then
               (if ell \<noteq> None then None
                else if tl r' = [] then Some (ip @ group_bytes (takeWhile is_hex s), Some (length (ip @ group_bytes (takeWhile is_hex s))))
                else ipv6_groups (tl r') (ip @ group_bytes (takeWhile is_hex s)) (Some (length (ip @ group_bytes (takeWhile is_hex s)))))
             else ipv6_groups r' (ip @ group_bytes (takeWhile is_hex s)) ell)))"
    unfolding ipv6_groups.simps [of s ip ell] Let_def group_bytes_def ..
  show thesis
  proof (cases "16 \<le> length ip")
    case True
    then show thesis using assms full by (simp add: eq split: if_splits)
  next
    case l: False
    have g: "length (takeWhile is_hex s) \<le> 4" using assms l by (simp add: eq split: if_splits)
    show thesis
    proof (cases "dropWhile is_hex s \<noteq> [] \<and> hd (dropWhile is_hex s) = CHR ''.''")
      case True
      then obtain bs where "parseIPv4 s = Some bs" "ip' = ip @ bs"
        using assms l unfolding eq by (auto split: if_split_asm option.split_asm)
      then show thesis by (rule v4)
    next
      case d: False
      have "ip' = ip @ group_bytes (takeWhile is_hex s)
          \<or> (\<exists>t e. ipv6_groups t (ip @ group_bytes (takeWhile is_hex s)) e = Some (ip', ell'))"
        using assms l d unfolding eq by (cases "dropWhile is_hex s") (auto split: if_split_asm simp del: dropWhile_eq_Nil_conv)
      then show thesis using last [OF g] more [OF g] l by (auto simp: not_le)
    qed
  qed
qed

lemma ipv6_groups_bytes:
  "ipv6_groups s ip ell = Some (ip', ell') \<Longrightarrow> \<forall>b \<in> set ip. b \<le> 255 \<Longrightarrow> \<forall>b \<in> set ip'. b \<le> 255"
proof (induction "16 - length ip" arbitrary: s ip ell rule: less_induct)
  case less
  from less.prems(1) show ?case
  proof (cases rule: ipv6_groups_elim)
    case (more t e)
    have "\<forall>b \<in> set (ip @ group_bytes (takeWhile is_hex s)). b \<le> 255"
      using hex_group_bytes [OF more(1)] less.prems(2) by (auto simp: group_bytes_def)
    moreover have "16 - length (ip @ group_bytes (takeWhile is_hex s)) < 16 - length ip" using more(2) by (simp add: group_bytes_def)
    ultimately show ?thesis using less.hyps more(3) by blast
  qed (use less.prems(2) parseIPv4_bytes hex_group_bytes in \<open>auto simp: group_bytes_def\<close>)
qed

lemma ParseIP_bytes:
  assumes "ParseIP s = Some ip"
  shows "length ip = 16" "\<forall>b \<in> set ip. b \<le> 255"
proof -
  consider bs where "parseIPv4 s = Some bs" "ip = v4_prefix @ bs" | "parseIPv6 s = Some ip"
    using assms by (auto simp: ParseIP_def split: list.splits if_splits)
  then have "length ip = 16 \<and> (\<forall>b \<in> set ip. b \<le> 255)"
  proof cases
    case (1 bs)
    then show ?thesis using parseIPv4_bytes [OF 1(1)] by (auto simp: v4_prefix_def)
  next
    case 2
    show ?thesis
    proof (cases "s = [colon, colon]")
      case True
      then show ?thesis using 2 by (auto simp: parseIPv6_def colon_def)
    next
      case False
      obtain s' e0 where "(case ipv6_groups s' [] e0 of None \<Rightarrow> None | Some (ip, ell) \<Rightarrow>
          (case ell of None \<Rightarrow> (if length ip = 16 then Some ip else None)
           | Some e \<Rightarrow> (if length ip < 16 then Some (take e ip @ replicate (16 - length ip) 0 @ drop e ip) else None))) = Some ip"
        using 2 False unfolding parseIPv6_def by (auto split: if_split_asm)
      then obtain g ell where g: "ipv6_groups s' [] e0 = Some (g, ell)"
        "ip = g \<and> length g = 16 \<or> (\<exists>e. length g < 16 \<and> ip = take e g @ replicate (16 - length g) 0 @ drop e g)"
        by (fastforce split: option.split_asm if_split_asm)
      have "\<forall>b \<in> set g. b \<le> 255" using ipv6_groups_bytes [OF g(1)] by simp
      then have "\<forall>b \<in> set (take e g). b \<le> 255" "\<forall>b \<in> set (drop e g). b \<le> 255" for e by (auto dest: in_set_takeD in_set_dropD)
      then show ?thesis using g(2) \<open>\<forall>b \<in> set g. b \<le> 255\<close> by auto
    qed
  qed
  then show "length ip = 16" "\<forall>b \<in> set ip. b \<le> 255" by simp_all
qed

section \<open>Loopback hosts\<close>

definition loopback_host :: "string \<Rightarrow> bool" where
  "loopback_host h \<longleftrightarrow> h = [colon, colon, CHR ''1''] \<or> (\<exists>b c d. b \<le> 255 \<and> c \<le> 255 \<and> d \<le> 255 \<and> h = dotted 127 b c d)"

lemma loopback_string_host:
  assumes "ParseIP s = Some ip" "IsLoopback ip"
  shows "loopback_host (loopback_string ip)"
proof (cases "is_v4 ip")
  case True
  have "ip ! i \<le> 255" if "i < 16" for i using ParseIP_bytes [OF assms(1)] that by simp
  then have "\<exists>b c d. b \<le> 255 \<and> c \<le> 255 \<and> d \<le> 255 \<and> loopback_string ip = dotted 127 b c d"
    using True assms(2) by (intro exI [of _ "ip ! 13"] exI [of _ "ip ! 14"] exI [of _ "ip ! 15"]) (simp add: loopback_string_def IsLoopback_def)
  then show ?thesis by (simp add: loopback_host_def)
qed (simp add: loopback_host_def loopback_string_def)

lemma canonicalizeLoopbackHost_host: "canonicalizeLoopbackHost host = Inr h \<Longrightarrow> loopback_host h"
proof -
  assume c: "canonicalizeLoopbackHost host = Inr h"
  have "''127.0.0.1'' = dotted 127 0 0 1" by code_simp
  then have "loopback_host ''127.0.0.1''" unfolding loopback_host_def by (intro disjI2 exI [of _ 0] exI [of _ 1]) simp
  then show ?thesis using c loopback_string_host by (auto simp: canonicalizeLoopbackHost_def Let_def split: if_splits option.splits)
qed

lemma Itoa_no_zero: "0 < n \<Longrightarrow> hd (Itoa n) \<noteq> CHR ''0''"
proof (induction n rule: Itoa.induct)
  case (1 n)
  show ?case
  proof (cases "n < 10")
    case True
    have "char_of (n + 48) \<noteq> CHR ''0''"
    proof
      assume "char_of (n + 48) = CHR ''0''"
      then have "(of_char (char_of (n + 48)) :: nat) = of_char (CHR ''0'')" by simp
      then show False using True "1.prems" by simp
    qed
    then show ?thesis using True by (simp add: Itoa.simps [of n])
  next
    case False
    then show ?thesis using "1.IH" by (simp add: Itoa.simps [of n])
  qed
qed

lemma Itoa_short: "n < 1000 \<Longrightarrow> length (Itoa n) \<le> 3"
proof -
  assume n: "n < 1000"
  have 1: "length (Itoa k) = 1" if "k < 10" for k using that by (simp add: Itoa.simps [of k])
  have 2: "length (Itoa k) \<le> 2" if "k < 100" for k using that 1 [of "k div 10"] by (simp add: Itoa.simps [of k])
  show ?thesis using n 2 [of "n div 10"] by (simp add: Itoa.simps [of n])
qed

lemma octet_Itoa: "n \<le> 255 \<Longrightarrow> octet (Itoa n) = Some n"
  using Itoa_no_zero [of n] Itoa_short [of n] digits_val_Itoa [of n]
  by (cases "n = 0") (simp_all add: octet_def, simp add: Itoa.simps)

lemma digit_not: "is_digit c \<Longrightarrow> c \<notin> {CHR ''.'', colon, CHR ''['', CHR '']''} \<and> \<not> IsSpace c \<and> lower_char c \<noteq> CHR ''l''"
  by (auto simp: is_digit_def colon_def IsSpace_def lower_char_def is_upper_ascii_def)

lemma Itoa_all_digits: "c \<in> set (Itoa n) \<Longrightarrow> is_digit c"
proof (induction n rule: Itoa.induct)
  case (1 n)
  then show ?case by (subst (asm) Itoa.simps) (auto simp: digit_char split: if_splits)
qed

lemma parseIPv4_dotted:
  assumes "a \<le> 255" "b \<le> 255" "c \<le> 255" "d \<le> 255"
  shows "parseIPv4 (dotted a b c d) = Some [a, b, c, d]"
proof -
  have n: "CHR ''.'' \<notin> set (Itoa k)" for k using Itoa_all_digits digit_not by blast
  have "Split (dotted a b c d) (CHR ''.'') = [Itoa a, Itoa b, Itoa c, Itoa d]"
    unfolding dotted_def by (simp add: Split_append Split_no_sep n)
  then show ?thesis using assms by (simp add: parseIPv4_def octet_Itoa)
qed

lemma dotted_chars: "x \<in> set (dotted a b c d) \<Longrightarrow> is_digit x \<or> x = CHR ''.''"
  using Itoa_all_digits by (auto simp: dotted_def)

lemma ParseIP_dotted:
  assumes "a \<le> 255" "b \<le> 255" "c \<le> 255" "d \<le> 255"
  shows "ParseIP (dotted a b c d) = Some (v4_prefix @ [a, b, c, d])"
proof -
  let ?p = "\<lambda>x. x \<noteq> CHR ''.'' \<and> x \<noteq> colon"
  have "CHR ''.'' \<in> set (dotted a b c d)" by (simp add: dotted_def)
  then obtain x t where x: "dropWhile ?p (dotted a b c d) = x # t"
    by (cases "dropWhile ?p (dotted a b c d)") auto
  then have "\<not> ?p x" "x \<in> set (dotted a b c d)" using hd_dropWhile [of ?p "dotted a b c d"] set_dropWhileD [of x ?p "dotted a b c d"] by auto
  then have "x \<noteq> colon" using dotted_chars [of x a b c d] digit_not [of x] by (auto simp: colon_def)
  then show ?thesis using x parseIPv4_dotted [OF assms] by (simp add: ParseIP_def)
qed

text \<open>The canonical form is accepted again and stays as it is.\<close>

lemma canonicalize_loopback_host:
  assumes "loopback_host h"
  shows "canonicalizeLoopbackHost h = Inr h"
  using assms unfolding loopback_host_def
proof (elim disjE exE conjE)
  assume "h = [colon, colon, CHR ''1'']"
  moreover have "canonicalizeLoopbackHost [colon, colon, CHR ''1''] = Inr [colon, colon, CHR ''1'']" by code_simp
  ultimately show ?thesis by simp
next
  fix b c d assume b: "b \<le> 255" "c \<le> 255" "d \<le> 255" and h: "h = dotted 127 b c d"
  obtain x t where x: "dotted 127 b c d = x # t" "is_digit x"
    using Itoa_all_digits [of "hd (Itoa 127)" 127] by (cases "Itoa 127") (auto simp: dotted_def)
  have l: "is_digit (last (dotted 127 b c d))" using Itoa_all_digits [of "last (Itoa d)" d] by (simp add: dotted_def)
  have t: "TrimSpace h = h" unfolding h by (rule TrimSpace_visible) (use x l in auto)
  have "\<not> EqualFold h ''localhost''" using digit_not [OF x(2)] by (auto simp: h x(1) EqualFold_def ToLower_def lower_char_def is_upper_ascii_def)
  moreover have "ParseIP h = Some (v4_prefix @ [127, b, c, d])" unfolding h by (rule ParseIP_dotted) (use b in simp_all)
  moreover have "IsLoopback (v4_prefix @ [127, b, c, d])" "loopback_string (v4_prefix @ [127, b, c, d]) = h"
    by (simp_all add: IsLoopback_def is_v4_def v4_prefix_def loopback_string_def h nth_append)
  ultimately show ?thesis using t by (simp add: canonicalizeLoopbackHost_def h x(1))
qed

section \<open>Addresses\<close>

definition probe_addr :: "string \<Rightarrow> bool" where
  "probe_addr addr \<longleftrightarrow> (\<exists>h p n. addr = JoinHostPort h p \<and> loopback_host h \<and> Atoi p = Some n \<and> 1 \<le> n \<and> n \<le> 65535)"

lemma validWatchdogPort_iff: "validWatchdogPort p = Inr () \<longleftrightarrow> (\<exists>n. Atoi p = Some n \<and> 1 \<le> n \<and> n \<le> 65535)"
  by (auto simp: validWatchdogPort_def split: option.splits)

lemma digits_val_chars: "digits_val acc s = Some n \<Longrightarrow> c \<in> set s \<Longrightarrow> is_digit c"
  by (induction s arbitrary: acc) (auto split: if_splits)

lemma Atoi_chars: "Atoi p = Some n \<Longrightarrow> c \<in> set p \<Longrightarrow> c \<notin> {colon, CHR ''['', CHR '']''}"
proof -
  assume a: "Atoi p = Some n" and c: "c \<in> set p"
  let ?body = "if p \<noteq> [] \<and> (hd p = CHR ''+'' \<or> hd p = CHR ''-'') then tl p else p"
  obtain body m where "digits_val 0 body = Some m" "body = ?body"
    using a unfolding Atoi_def ParseInt_def Let_def by (auto split: if_split_asm option.split_asm)
  then have "digits_val 0 body = Some m" "p = body \<or> p = CHR ''+'' # body \<or> p = CHR ''-'' # body" by (cases p; auto)+
  then show ?thesis using c digits_val_chars [of 0 body m c] digit_not [of c] by (auto simp: colon_def)
qed

lemma LastIndex_notin: "x \<notin> set t \<Longrightarrow> LastIndex t [x] = None"
  by (induction t) auto

lemma LastIndex_append: "x \<notin> set t \<Longrightarrow> LastIndex (s @ x # t) [x] = Some (length s)"
  by (induction s) (simp_all add: LastIndex_notin)

lemma Index_append: "x \<notin> set s \<Longrightarrow> Index (s @ x # t) [x] = Some (length s)"
  by (induction s) (simp_all add: Index.simps)

lemma Split_Join:
  assumes "loopback_host h" "Atoi p = Some n"
  shows "SplitHostPort (JoinHostPort h p) = Inr (h, p)"
proof -
  have p: "colon \<notin> set p" "CHR ''['' \<notin> set p" "CHR '']'' \<notin> set p" using Atoi_chars [OF assms(2)] by blast+
  show ?thesis
  proof (cases "h = [colon, colon, CHR ''1'']")
    case True
    have "LastIndex (''['' @ h @ '']'' @ [colon] @ p) [colon] = Some 5"
      using LastIndex_append [OF p(1), of "''['' @ h @ '']''"] by (simp add: True)
    moreover have "Index (''['' @ h @ '']'' @ [colon] @ p) '']'' = Some 4"
      using Index_append [of "CHR '']''" "''['' @ h" "[colon] @ p"] by (simp add: True colon_def)
    ultimately show ?thesis using p by (simp add: JoinHostPort_def True SplitHostPort_def) (simp add: colon_def)
  next
    case False
    then obtain b c d where h: "h = dotted 127 b c d" using assms(1) by (auto simp: loopback_host_def)
    have hc: "colon \<notin> set h" "CHR ''['' \<notin> set h" "CHR '']'' \<notin> set h"
      using dotted_chars [of _ 127 b c d] digit_not by (auto simp: h colon_def)
    have ne: "h \<noteq> []" by (simp add: h dotted_def)
    then have "hd (h @ colon # p) \<noteq> CHR ''[''" using hc(2) by (cases h) auto
    moreover have "LastIndex (h @ colon # p) [colon] = Some (length h)" by (rule LastIndex_append [OF p(1)])
    ultimately show ?thesis using hc p by (simp add: JoinHostPort_def SplitHostPort_def Let_def) (simp add: colon_def)
  qed
qed

lemma probe_addr_accepted: "probe_addr addr \<Longrightarrow> requireLoopbackAddr addr = Inr ()"
proof -
  assume "probe_addr addr"
  then obtain h p n where a: "addr = JoinHostPort h p" "loopback_host h" "Atoi p = Some n" "1 \<le> n" "n \<le> 65535"
    by (auto simp: probe_addr_def)
  have "validWatchdogPort p = Inr ()" using a(3-5) validWatchdogPort_iff by blast
  then show ?thesis
    using Split_Join [OF a(2,3)] canonicalize_loopback_host [OF a(2)] by (simp add: requireLoopbackAddr_def a(1))
qed

lemma parseTCP_probe_addr: "parseTCPWatchdogEndpoint raw = Inr addr \<Longrightarrow> probe_addr addr"
  using canonicalizeLoopbackHost_host validWatchdogPort_iff
  by (fastforce simp: parseTCPWatchdogEndpoint_def Let_def probe_addr_def split: if_splits sum.splits prod.splits)

lemma parseHTTP_probe_addr:
  "parseHTTPWatchdogEndpoint lib raw = Inr u \<Longrightarrow>
     probe_addr (Host u) \<and> (Scheme u = ''http'' \<or> Scheme u = ''https'') \<and> UserInfo u = None \<and> Fragment u = [] \<and> URLPath u \<noteq> []"
  using canonicalizeLoopbackHost_host validWatchdogPort_iff
  by (fastforce simp: parseHTTPWatchdogEndpoint_def Let_def probe_addr_def split: if_splits sum.splits)

text \<open>
  C39: probes stay on the machine.  A TCP or HTTP probe endpoint that is accepted has as its host an
  IPv4 address 127.b.c.d or the IPv6 address ::1, never a name to resolve, and as its port a number
  from 1 to 65535; an accepted URL has no user information; and the check repeated when the probe
  connects accepts the stored address.
\<close>

theorem watchdog_endpoint_loopback:
  shows "(parseTCPWatchdogEndpoint raw = Inr addr \<longrightarrow> probe_addr addr \<and> requireLoopbackAddr addr = Inr ())
    \<and> (parseHTTPWatchdogEndpoint lib raw = Inr u \<longrightarrow>
         probe_addr (Host u) \<and> requireLoopbackAddr (Host u) = Inr () \<and> UserInfo u = None
         \<and> (Scheme u = ''http'' \<or> Scheme u = ''https''))"
  using parseTCP_probe_addr parseHTTP_probe_addr probe_addr_accepted by blast

theorem watchdog_endpoint_loopback_witness: "requireLoopbackAddr ''127.0.0.1:8080'' = Inr ()"
proof -
  have "parseTCPWatchdogEndpoint ''LocalHost:8080'' = Inr ''127.0.0.1:8080''" by code_simp
  then show ?thesis using watchdog_endpoint_loopback [of "''LocalHost:8080''" "''127.0.0.1:8080''"] by blast
qed

end
