(* ===== verification/Unit_Builder.thy ===== *)
theory Unit_Builder
  imports Unit_Names Resource Exec_Line Endpoint
begin

text \<open>
  The collecting half of the unit parser in \<open>internal/unit/parse.go\<close>: the tables of known directives,
  the builders that keep the raw value of every directive with its line, the parser state, and the
  \<open>apply\<close> functions that store one assignment.  A builder field \<open>x\<close> with its line \<open>xL\<close> is one pair
  \<open>(value, line)\<close>; line 0 means that the directive was not given.  \<open>parse_env\<close> collects what the
  parser takes from outside: the JSON decoder, the file check and the URL library.
\<close>

type_synonym fv = "string \<times> nat"

record parse_env =
  jsonArray :: json_array
  statFile :: stat_file
  urlLib :: url_lib

section \<open>Tables\<close>

definition unit_directives :: "string list" where
  "unit_directives = [''FormatVersion'', ''Description'', ''Requires'', ''Wants'', ''BindsTo'', ''PartOf'',
     ''After'', ''Before'', ''RequiresInteractiveSession'', ''StartLimitIntervalSec'', ''StartLimitBurst'']"

definition service_directives :: "string list" where
  "service_directives = [''Type'', ''ReadinessMode'', ''ReadinessEndpoint'', ''ReadinessExpectedStatus'',
     ''ReadinessIntervalSec'', ''ReadinessTimeoutSec'', ''RemainAfterExit'', ''ServiceName'', ''TaskName'',
     ''ExecStart'', ''ExecStartArg'', ''ExecStop'', ''ExecStopArg'', ''WorkingDirectory'', ''User'',
     ''Environment'', ''Restart'', ''RestartSec'', ''RestartBackoff'', ''RestartMaxDelaySec'',
     ''TimeoutStartSec'', ''TimeoutStopSec'', ''NotifyAccess'', ''WatchdogSec'', ''WatchdogMode'',
     ''WatchdogEndpoint'', ''WatchdogExpectedStatus'', ''MemoryMax'', ''ProcessLimit'', ''PriorityClass'',
     ''CPUWeight'', ''WindowsCPUWeight'', ''WindowsCPUQuota'', ''CPUQuota'', ''IoPriority'',
     ''WatchdogGraceSec'', ''WatchdogTimeoutSec'', ''WatchdogFailureThreshold'']"

definition knownDirectives :: "(string \<times> string list) list" where
  "knownDirectives =
     [(''Unit'', unit_directives), (''Service'', service_directives),
      (''Timer'', [''OnBootSec'', ''OnStartupSec'', ''OnUnitActiveSec'', ''OnCalendar'', ''Persistent'', ''Unit'']),
      (''Registry'', [''RegistryChanged'']), (''EventLog'', [''EventLogTrigger'']),
      (''Path'', [''PathChanged'', ''PathExists'', ''PathExistsAll'']), (''Install'', [''WantedBy''])]"

primrec sectionsByKind :: "Kind \<Rightarrow> string list" where
  "sectionsByKind KindService = [''Unit'', ''Service'', ''Install'']"
| "sectionsByKind KindTimer = [''Unit'', ''Timer'', ''Install'']"
| "sectionsByKind KindTarget = [''Unit'', ''Install'']"
| "sectionsByKind KindRegistry = [''Unit'', ''Registry'', ''Install'']"
| "sectionsByKind KindEventLog = [''Unit'', ''EventLog'', ''Install'']"
| "sectionsByKind KindPath = [''Unit'', ''Path'', ''Install'']"

section \<open>Builders\<close>

record serviceBuilder =
  bReadinessMode :: fv
  bReadinessEndpoint :: fv
  bReadinessStatus :: fv
  bReadinessInterval :: fv
  bReadinessTimeout :: fv
  bRemainAfterExit :: fv
  bTyp :: fv
  bExec :: fv
  bExecSet :: bool
  bExecArgs :: "string list"
  bExecStop :: fv
  bExecStopSet :: bool
  bExecStopArgs :: "string list"
  bWd :: fv
  bWdSet :: bool
  bEnv :: "EnvVar list"
  bRestart :: fv
  bRestartSec :: fv
  bRestartBackoff :: fv
  bUser :: fv
  bRestartMaxDelay :: fv
  bTimeoutStart :: fv
  bTimeoutStop :: fv
  bServiceName :: fv
  bTaskName :: fv
  bNotifyAccess :: fv
  bWatchdogSec :: fv
  bWatchdogGrace :: fv
  bWatchdogTimeout :: fv
  bWatchdogThreshold :: fv
  bWatchdogMode :: fv
  bWatchdogEP :: fv
  bWatchdogStat :: fv
  bMemoryMax :: fv
  bProcessLimit :: fv
  bPriorityClass :: fv
  bWindowsCPUWeight :: fv
  bWindowsCPUQuota :: fv
  bCpuWeight :: fv
  bCpuQuota :: fv
  bIoPriority :: fv

definition unset :: fv where
  "unset = ([], 0)"

definition new_serviceBuilder :: serviceBuilder where
  "new_serviceBuilder = \<lparr>
     bReadinessMode = unset, bReadinessEndpoint = unset, bReadinessStatus = unset, bReadinessInterval = unset,
     bReadinessTimeout = unset, bRemainAfterExit = unset, bTyp = (''simple'', 0), bExec = unset, bExecSet = False,
     bExecArgs = [], bExecStop = unset, bExecStopSet = False, bExecStopArgs = [], bWd = unset, bWdSet = False,
     bEnv = [], bRestart = (''no'', 0), bRestartSec = unset, bRestartBackoff = unset, bUser = unset,
     bRestartMaxDelay = unset, bTimeoutStart = unset, bTimeoutStop = unset, bServiceName = unset, bTaskName = unset,
     bNotifyAccess = unset, bWatchdogSec = unset, bWatchdogGrace = unset, bWatchdogTimeout = unset,
     bWatchdogThreshold = unset, bWatchdogMode = unset, bWatchdogEP = unset, bWatchdogStat = unset,
     bMemoryMax = unset, bProcessLimit = unset, bPriorityClass = unset, bWindowsCPUWeight = unset,
     bWindowsCPUQuota = unset, bCpuWeight = unset, bCpuQuota = unset, bIoPriority = unset\<rparr>"

record timerBuilder =
  bOnBoot :: fv
  bOnStartup :: fv
  bOnUnitActive :: fv
  bCalendars :: "fv list"
  bPersistent :: fv
  bPersistentSet :: bool
  bUnit :: fv
  bUnitSet :: bool

definition new_timerBuilder :: timerBuilder where
  "new_timerBuilder = \<lparr>bOnBoot = unset, bOnStartup = unset, bOnUnitActive = unset, bCalendars = [],
     bPersistent = unset, bPersistentSet = False, bUnit = unset, bUnitSet = False\<rparr>"

record pathBuilder =
  bExistsAll :: bool
  bExistsAny :: bool
  bChanged :: "fv list"
  bExists :: "fv list"

definition new_pathBuilder :: pathBuilder where
  "new_pathBuilder = \<lparr>bExistsAll = False, bExistsAny = False, bChanged = [], bExists = []\<rparr>"

text \<open>\<open>registryBuilder\<close> and \<open>eventLogBuilder\<close> are the list of their values.\<close>

record parser =
  formatLine :: nat
  ppath :: string
  pname :: name
  pkind :: Kind
  punit :: Unit
  pissues :: "Issue list"
  psvc :: "serviceBuilder option"
  ptimer :: "timerBuilder option"
  preg :: "fv list option"
  pevt :: "fv list option"
  ppth :: "pathBuilder option"
  pris :: fv
  prisSet :: bool
  pstartLimitInterval :: fv
  pstartLimitBurst :: fv

definition errorf :: "nat \<Rightarrow> string \<Rightarrow> parser \<Rightarrow> parser" where
  "errorf line msg p =
     p\<lparr>pissues := pissues p @ [\<lparr>IssuePath = ppath p, Line = line, Sev = SeverityError, Message = msg\<rparr>]\<rparr>"

definition warnf :: "nat \<Rightarrow> string \<Rightarrow> parser \<Rightarrow> parser" where
  "warnf line msg p =
     p\<lparr>pissues := pissues p @ [\<lparr>IssuePath = ppath p, Line = line, Sev = SeverityWarning, Message = msg\<rparr>]\<rparr>"

section \<open>Storing assignments\<close>

fun add_names :: "name list \<Rightarrow> string list \<Rightarrow> name list" where
  "add_names cur [] = cur"
| "add_names cur (n # ns) =
     (let n' = NormalizeName n in if n' = [] then add_names cur ns else add_names (cur @ [n']) ns)"

definition applyList :: "name list \<Rightarrow> string \<Rightarrow> name list" where
  "applyList cur val = (if val = [] then [] else add_names cur (parseUnitNames val))"

definition entry_fv :: "iniEntry \<Rightarrow> fv" where
  "entry_fv e = (evalue e, eline e)"

definition applyUnit :: "iniEntry \<Rightarrow> parser \<Rightarrow> parser" where
  "applyUnit e p =
     (let k = ekey e; v = evalue e; u = punit p in
      if k = ''FormatVersion'' then
        (let p1 = (if formatLine p \<noteq> 0 then errorf (eline e) ''FormatVersion may be specified only once'' p else p);
             p2 = p1\<lparr>formatLine := eline e\<rparr>
         in case formatVersion v of
              Some n \<Rightarrow> p2\<lparr>punit := (punit p2)\<lparr>FormatVersion := int n\<rparr>\<rparr>
            | None \<Rightarrow> errorf (eline e) (''unsupported FormatVersion '' @ Quote v @ '' (supported: '' @ formatVersionList @ '')'') p2)
      else if k = ''Description'' then p\<lparr>punit := u\<lparr>Description := v\<rparr>\<rparr>
      else if k = ''Requires'' then p\<lparr>punit := u\<lparr>Requires := applyList (Requires u) v\<rparr>\<rparr>
      else if k = ''Wants'' then p\<lparr>punit := u\<lparr>Wants := applyList (Wants u) v\<rparr>\<rparr>
      else if k = ''BindsTo'' then p\<lparr>punit := u\<lparr>BindsTo := applyList (BindsTo u) v\<rparr>\<rparr>
      else if k = ''PartOf'' then p\<lparr>punit := u\<lparr>PartOf := applyList (PartOf u) v\<rparr>\<rparr>
      else if k = ''After'' then p\<lparr>punit := u\<lparr>After := applyList (After u) v\<rparr>\<rparr>
      else if k = ''Before'' then p\<lparr>punit := u\<lparr>Before := applyList (Before u) v\<rparr>\<rparr>
      else if k = ''RequiresInteractiveSession'' then p\<lparr>pris := entry_fv e, prisSet := True\<rparr>
      else if k = ''StartLimitIntervalSec'' then p\<lparr>pstartLimitInterval := entry_fv e\<rparr>
      else if k = ''StartLimitBurst'' then p\<lparr>pstartLimitBurst := entry_fv e\<rparr>
      else p)"

text \<open>
  The directives of \<open>[Service]\<close> that only store their value, as a table of field updates; the other
  ones are the branches of \<open>applyService\<close>.
\<close>

definition service_fields :: "(string \<times> (fv \<Rightarrow> serviceBuilder \<Rightarrow> serviceBuilder)) list" where
  "service_fields =
     [(''Type'', \<lambda>v s. s\<lparr>bTyp := v\<rparr>),
      (''RemainAfterExit'', \<lambda>v s. s\<lparr>bRemainAfterExit := v\<rparr>),
      (''ServiceName'', \<lambda>v s. s\<lparr>bServiceName := v\<rparr>),
      (''TaskName'', \<lambda>v s. s\<lparr>bTaskName := v\<rparr>),
      (''ExecStart'', \<lambda>v s. s\<lparr>bExec := v, bExecSet := True\<rparr>),
      (''ExecStartArg'', \<lambda>v s. s\<lparr>bExecArgs := bExecArgs s @ [fst v]\<rparr>),
      (''ExecStopArg'', \<lambda>v s. s\<lparr>bExecStopArgs := bExecStopArgs s @ [fst v]\<rparr>),
      (''WorkingDirectory'', \<lambda>v s. s\<lparr>bWd := v, bWdSet := True\<rparr>),
      (''Restart'', \<lambda>v s. s\<lparr>bRestart := v\<rparr>),
      (''RestartBackoff'', \<lambda>v s. s\<lparr>bRestartBackoff := v\<rparr>),
      (''RestartMaxDelaySec'', \<lambda>v s. s\<lparr>bRestartMaxDelay := v\<rparr>),
      (''ReadinessMode'', \<lambda>v s. s\<lparr>bReadinessMode := v\<rparr>),
      (''ReadinessEndpoint'', \<lambda>v s. s\<lparr>bReadinessEndpoint := v\<rparr>),
      (''ReadinessExpectedStatus'', \<lambda>v s. s\<lparr>bReadinessStatus := v\<rparr>),
      (''ReadinessIntervalSec'', \<lambda>v s. s\<lparr>bReadinessInterval := v\<rparr>),
      (''ReadinessTimeoutSec'', \<lambda>v s. s\<lparr>bReadinessTimeout := v\<rparr>),
      (''RestartSec'', \<lambda>v s. s\<lparr>bRestartSec := v\<rparr>),
      (''TimeoutStartSec'', \<lambda>v s. s\<lparr>bTimeoutStart := v\<rparr>),
      (''TimeoutStopSec'', \<lambda>v s. s\<lparr>bTimeoutStop := v\<rparr>),
      (''NotifyAccess'', \<lambda>v s. s\<lparr>bNotifyAccess := v\<rparr>),
      (''WatchdogGraceSec'', \<lambda>v s. s\<lparr>bWatchdogGrace := v\<rparr>),
      (''WatchdogTimeoutSec'', \<lambda>v s. s\<lparr>bWatchdogTimeout := v\<rparr>),
      (''WatchdogFailureThreshold'', \<lambda>v s. s\<lparr>bWatchdogThreshold := v\<rparr>),
      (''WatchdogSec'', \<lambda>v s. s\<lparr>bWatchdogSec := v\<rparr>),
      (''WatchdogMode'', \<lambda>v s. s\<lparr>bWatchdogMode := v\<rparr>),
      (''WatchdogEndpoint'', \<lambda>v s. s\<lparr>bWatchdogEP := v\<rparr>),
      (''WatchdogExpectedStatus'', \<lambda>v s. s\<lparr>bWatchdogStat := v\<rparr>),
      (''MemoryMax'', \<lambda>v s. s\<lparr>bMemoryMax := v\<rparr>),
      (''ProcessLimit'', \<lambda>v s. s\<lparr>bProcessLimit := v\<rparr>),
      (''PriorityClass'', \<lambda>v s. s\<lparr>bPriorityClass := v\<rparr>),
      (''WindowsCPUWeight'', \<lambda>v s. s\<lparr>bWindowsCPUWeight := v\<rparr>),
      (''WindowsCPUQuota'', \<lambda>v s. s\<lparr>bWindowsCPUQuota := v\<rparr>),
      (''CPUWeight'', \<lambda>v s. s\<lparr>bCpuWeight := v\<rparr>),
      (''CPUQuota'', \<lambda>v s. s\<lparr>bCpuQuota := v\<rparr>),
      (''IoPriority'', \<lambda>v s. s\<lparr>bIoPriority := v\<rparr>)]"

definition applyService :: "iniEntry \<Rightarrow> serviceBuilder \<Rightarrow> parser \<Rightarrow> parser" where
  "applyService e s p =
     (let k = ekey e; v = entry_fv e in
      if k = ''ExecStop'' then
        (let p1 = (if bExecStopSet s then errorf (eline e) ''multiple ExecStop commands are not supported'' p else p)
         in p1\<lparr>psvc := Some (s\<lparr>bExecStop := v, bExecStopSet := True\<rparr>)\<rparr>)
      else if k = ''Environment'' then
        (if evalue e = [] then p\<lparr>psvc := Some (s\<lparr>bEnv := []\<rparr>)\<rparr>
         else case parseEnvironment (evalue e) of
                Inl err \<Rightarrow> errorf (eline e) err p\<lparr>psvc := Some s\<rparr>
              | Inr vars \<Rightarrow> p\<lparr>psvc := Some (s\<lparr>bEnv := bEnv s @ vars\<rparr>)\<rparr>)
      else if k = ''User'' then
        (if snd (bUser s) \<noteq> 0 then errorf (eline e) ''User may be specified only once'' p\<lparr>psvc := Some s\<rparr>
         else p\<lparr>psvc := Some (s\<lparr>bUser := v\<rparr>)\<rparr>)
      else case map_of service_fields k of
             Some upd \<Rightarrow> p\<lparr>psvc := Some (upd v s)\<rparr>
           | None \<Rightarrow> p\<lparr>psvc := Some s\<rparr>)"

definition applyTimer :: "iniEntry \<Rightarrow> timerBuilder \<Rightarrow> timerBuilder" where
  "applyTimer e t =
     (let k = ekey e; v = entry_fv e in
      if k = ''OnBootSec'' then t\<lparr>bOnBoot := v\<rparr>
      else if k = ''OnStartupSec'' then t\<lparr>bOnStartup := v\<rparr>
      else if k = ''OnUnitActiveSec'' then t\<lparr>bOnUnitActive := v\<rparr>
      else if k = ''OnCalendar'' then t\<lparr>bCalendars := bCalendars t @ [v]\<rparr>
      else if k = ''Persistent'' then t\<lparr>bPersistent := v, bPersistentSet := True\<rparr>
      else if k = ''Unit'' then t\<lparr>bUnit := v, bUnitSet := True\<rparr>
      else t)"

definition applyRegistry :: "iniEntry \<Rightarrow> fv list \<Rightarrow> fv list" where
  "applyRegistry e r = (if ekey e = ''RegistryChanged'' then r @ [entry_fv e] else r)"

definition applyEventLog :: "iniEntry \<Rightarrow> fv list \<Rightarrow> fv list" where
  "applyEventLog e r = (if ekey e = ''EventLogTrigger'' then r @ [entry_fv e] else r)"

definition applyPath :: "iniEntry \<Rightarrow> pathBuilder \<Rightarrow> pathBuilder" where
  "applyPath e ph =
     (let k = ekey e in
      if k = ''PathChanged'' then ph\<lparr>bChanged := bChanged ph @ [entry_fv e]\<rparr>
      else if k = ''PathExists'' \<or> k = ''PathExistsAll'' then
        (let ph1 = (if k = ''PathExistsAll'' then ph\<lparr>bExistsAll := True\<rparr> else ph\<lparr>bExistsAny := True\<rparr>)
         in ph1\<lparr>bExists := bExists ph1 @ [entry_fv e]\<rparr>)
      else ph)"

fun add_wanted :: "nat \<Rightarrow> string list \<Rightarrow> parser \<Rightarrow> parser" where
  "add_wanted line [] p = p"
| "add_wanted line (n # ns) p =
     (let n' = NormalizeName n in
      if n' = [] then add_wanted line ns p
      else case CheckLinkName n' of
             Inl err \<Rightarrow> add_wanted line ns (errorf line (''invalid WantedBy: '' @ err) p)
           | Inr _ \<Rightarrow> add_wanted line ns (p\<lparr>punit := (punit p)\<lparr>WantedBy := WantedBy (punit p) @ [n']\<rparr>\<rparr>))"

definition applyInstall :: "iniEntry \<Rightarrow> parser \<Rightarrow> parser" where
  "applyInstall e p =
     (if ekey e = ''WantedBy'' then
        (if evalue e = [] then p\<lparr>punit := (punit p)\<lparr>WantedBy := []\<rparr>\<rparr>
         else add_wanted (eline e) (parseUnitNames (evalue e)) p)
      else p)"

definition opt_default :: "'a \<Rightarrow> 'a option \<Rightarrow> 'a" where
  "opt_default d x = (case x of None \<Rightarrow> d | Some y \<Rightarrow> y)"

definition apply_entry :: "string \<Rightarrow> iniEntry \<Rightarrow> parser \<Rightarrow> parser" where
  "apply_entry sec e p =
     (if sec = ''Unit'' then applyUnit e p
      else if sec = ''Service'' then applyService e (opt_default new_serviceBuilder (psvc p)) p
      else if sec = ''Timer'' then p\<lparr>ptimer := Some (applyTimer e (opt_default new_timerBuilder (ptimer p)))\<rparr>
      else if sec = ''Registry'' then p\<lparr>preg := Some (applyRegistry e (opt_default [] (preg p)))\<rparr>
      else if sec = ''EventLog'' then p\<lparr>pevt := Some (applyEventLog e (opt_default [] (pevt p)))\<rparr>
      else if sec = ''Path'' then p\<lparr>ppth := Some (applyPath e (opt_default new_pathBuilder (ppth p)))\<rparr>
      else if sec = ''Install'' then applyInstall e p
      else p)"

end
