(* ===== verification/Service_Finish.thy ===== *)
theory Service_Finish
  imports Unit_Builder
begin

text \<open>
  The checking half of the unit parser for services: \<open>finishService\<close> of \<open>internal/unit/parse.go\<close> with
  its parts in \<open>format.go\<close>, \<open>readiness.go\<close>, \<open>restart_backoff.go\<close>, \<open>user.go\<close>, \<open>watchdog.go\<close> and
  \<open>watchdog_policy.go\<close>.  \<open>spec\<close>, the service under construction, is threaded next to the parser; every
  stage of \<open>finishService\<close> is a function on that pair, in the order of the code.
\<close>

type_synonym fin = "ServiceSpec \<times> parser"
type_synonym stage = "fin \<Rightarrow> fin"

definition err_if :: "bool \<Rightarrow> nat \<Rightarrow> string \<Rightarrow> stage" where
  "err_if b line msg = (\<lambda>sp. if b then (fst sp, errorf line msg (snd sp)) else sp)"

definition err :: "nat \<Rightarrow> string \<Rightarrow> stage" where
  "err line msg = err_if True line msg"

definition warn_if :: "bool \<Rightarrow> nat \<Rightarrow> string \<Rightarrow> stage" where
  "warn_if b line msg = (\<lambda>sp. if b then (fst sp, warnf line msg (snd sp)) else sp)"

definition set_spec :: "(ServiceSpec \<Rightarrow> ServiceSpec) \<Rightarrow> stage" where
  "set_spec f = (\<lambda>sp. (f (fst sp), snd sp))"

text \<open>\<open>v, err := parse(...)\<close>: report the error or store the value.\<close>

definition on_res :: "nat \<Rightarrow> (string \<Rightarrow> string) \<Rightarrow> 'a res \<Rightarrow> ('a \<Rightarrow> ServiceSpec \<Rightarrow> ServiceSpec) \<Rightarrow> stage" where
  "on_res line msg res upd = (case res of Inl e \<Rightarrow> err line (msg e) | Inr v \<Rightarrow> set_spec (upd v))"

text \<open>The same for a directive with a non-empty value.\<close>

definition given :: "fv \<Rightarrow> string \<Rightarrow> (string \<Rightarrow> 'a res) \<Rightarrow> ('a \<Rightarrow> ServiceSpec \<Rightarrow> ServiceSpec) \<Rightarrow> stage" where
  "given v label parse upd = (if fst v = [] then id else on_res (snd v) (\<lambda>e. label @ e) (parse (fst v)) upd)"

definition version :: "fin \<Rightarrow> int" where
  "version sp = FormatVersion (punit (snd sp))"

section \<open>Type and names\<close>

definition ServiceType_of :: "string \<Rightarrow> ServiceType option" where
  "ServiceType_of s =
     (if s = ''simple'' then Some TypeSimple else if s = ''oneshot'' then Some TypeOneshot
      else if s = ''notify'' then Some TypeNotify else if s = ''scm'' then Some TypeSCM
      else if s = ''scheduled-task'' then Some TypeScheduledTask else None)"

definition finish_type :: "serviceBuilder \<Rightarrow> stage" where
  "finish_type s =
     (let typ0 = ToLower (TrimSpace (fst (bTyp s)));
          typ = (if typ0 = [] then ''simple'' else typ0) in
      case ServiceType_of typ of
        Some t \<Rightarrow> set_spec (\<lambda>spec. spec\<lparr>SType := t\<rparr>)
      | None \<Rightarrow> err (snd (bTyp s))
          (''invalid Type '' @ Quote (fst (bTyp s)) @ '' (supported: simple, oneshot, notify, scm, scheduled-task)''))"

definition finish_remain :: "serviceBuilder \<Rightarrow> stage" where
  "finish_remain s =
     (let line = snd (bRemainAfterExit s) in
      if line = 0 then id
      else (\<lambda>sp. err_if (SType (fst sp) \<noteq> TypeOneshot) line ''RemainAfterExit is only supported for Type=oneshot'' sp)
           \<circ> on_res line (\<lambda>e. ''invalid RemainAfterExit: '' @ e) (parseBool (fst (bRemainAfterExit s)))
               (\<lambda>v spec. spec\<lparr>RemainAfterExit := v\<rparr>))"

definition finish_service_name :: "serviceBuilder \<Rightarrow> stage" where
  "finish_service_name s =
     (let nm = TrimSpace (fst (bServiceName s)); line = snd (bServiceName s) in
      (\<lambda>sp. if SType (fst sp) = TypeSCM then
               (if nm = [] then err line ''ServiceName is required for Type=scm''
                else set_spec (\<lambda>spec. spec\<lparr>ServiceName := nm\<rparr>)) sp
             else warn_if (nm \<noteq> []) line ''ServiceName is only used with Type=scm'' sp))"

definition finish_task_name :: "serviceBuilder \<Rightarrow> stage" where
  "finish_task_name s =
     (let nm = TrimSpace (fst (bTaskName s)); line = snd (bTaskName s) in
      (\<lambda>sp. if SType (fst sp) = TypeScheduledTask then
               (if nm = [] then err line ''TaskName is required for Type=scheduled-task''
                else set_spec (\<lambda>spec. spec\<lparr>TaskName := nm\<rparr>)) sp
             else warn_if (nm \<noteq> []) line ''TaskName is only used with Type=scheduled-task'' sp))"

section \<open>Commands\<close>

definition finish_argv :: "parse_env \<Rightarrow> serviceBuilder \<Rightarrow> stage" where
  "finish_argv pe s =
     (let raw = fst (bExec s); line = snd (bExec s) in
      if \<not> bExecSet s \<or> TrimSpace raw = [] \<and> bExecArgs s = [] then err line ''ExecStart is required''
      else (case buildArgv (jsonArray pe) raw (bExecArgs s) of
              Inl e \<Rightarrow> err line e
            | Inr argv \<Rightarrow>
                err_if (\<not> WindowsAbs (argv ! 0)) line ''ExecStart must be an absolute path (SearchPath=no)''
                \<circ> set_spec (\<lambda>spec. spec\<lparr>ExecStart := argv\<rparr>))
           \<circ> (\<lambda>sp. err_if (version sp \<noteq> 2 \<and> bExecArgs s \<noteq> [] \<and> execStartArgFootgun (statFile pe) raw) line
                ''ExecStart must be an executable path when ExecStartArg is set; unquoted arguments belong in ExecStartArg'' sp))"

definition finish_wd :: "serviceBuilder \<Rightarrow> stage" where
  "finish_wd s =
     (let wd = fst (bWd s); line = snd (bWd s) in
      if \<not> bWdSet s \<or> TrimSpace wd = [] then
        warn_if True line ''WorkingDirectory is omitted; winunitd will not default to System32''
      else err_if (\<not> WindowsAbs wd) line ''WorkingDirectory must be an absolute path''
           \<circ> set_spec (\<lambda>spec. spec\<lparr>WorkingDirectory := wd\<rparr>))"

definition finish_exec :: "parse_env \<Rightarrow> serviceBuilder \<Rightarrow> stage" where
  "finish_exec pe s =
     (let hasExec0 = (bExecSet s \<and> (TrimSpace (fst (bExec s)) \<noteq> [] \<or> bExecArgs s \<noteq> []));
          hasExec = (if bExecArgs s \<noteq> [] then True else hasExec0);
          line = snd (bExec s) in
      (\<lambda>sp. if SType (fst sp) = TypeScheduledTask then
               err_if (bExecSet s \<or> bExecArgs s \<noteq> []) line ''ExecStart is not valid for Type=scheduled-task'' sp
             else if SType (fst sp) = TypeSCM then warn_if hasExec line ''ExecStart is ignored for Type=scm'' sp
             else (finish_wd s \<circ> finish_argv pe s) sp))"

definition stop_argv :: "parse_env \<Rightarrow> serviceBuilder \<Rightarrow> stage" where
  "stop_argv pe s =
     (let raw = fst (bExecStop s); line = snd (bExecStop s) in
      (case buildArgv (jsonArray pe) raw (bExecStopArgs s) of
         Inl e \<Rightarrow> err line (''invalid ExecStop: '' @ e)
       | Inr argv \<Rightarrow>
           err_if (\<not> WindowsAbs (argv ! 0)) line ''ExecStop must be an absolute path (SearchPath=no)''
           \<circ> set_spec (\<lambda>spec. spec\<lparr>ExecStop := argv\<rparr>))
      \<circ> (\<lambda>sp. err_if (version sp \<noteq> 2 \<and> bExecStopArgs s \<noteq> [] \<and> execStartArgFootgun (statFile pe) raw) line
           ''ExecStop must be an executable path when ExecStopArg is set'' sp))"

definition finish_stop :: "parse_env \<Rightarrow> serviceBuilder \<Rightarrow> stage" where
  "finish_stop pe s =
     (let raw = fst (bExecStop s); line = snd (bExecStop s) in
      (if \<not> (bExecStopSet s \<or> bExecStopArgs s \<noteq> []) then id
       else (\<lambda>sp. if ServiceType_IsExternalProxy (SType (fst sp)) then
                    err line (''ExecStop is not valid for Type='' @ ServiceType_string (SType (fst sp))) sp
                  else (if \<not> bExecStopSet s \<or> TrimSpace raw = [] then err line ''ExecStop requires an executable path''
                        else stop_argv pe s) sp))
      \<circ> set_spec (\<lambda>spec. spec\<lparr>Environment := bEnv s\<rparr>))"

section \<open>Restart and timeouts\<close>

definition RestartPolicy_of :: "string \<Rightarrow> RestartPolicy option" where
  "RestartPolicy_of s =
     (if s = ''no'' then Some RestartNo else if s = ''always'' then Some RestartAlways
      else if s = ''on-failure'' then Some RestartOnFailure else if s = ''on-watchdog'' then Some RestartOnWatchdog
      else None)"

definition finish_restart :: "serviceBuilder \<Rightarrow> stage" where
  "finish_restart s =
     (let rest0 = ToLower (TrimSpace (fst (bRestart s))); rest = (if rest0 = [] then ''no'' else rest0) in
      given (bRestartSec s) ''invalid RestartSec: '' ParseDuration (\<lambda>d spec. spec\<lparr>RestartSec := d, RestartSecSet := True\<rparr>)
      \<circ> (case RestartPolicy_of rest of
           Some r \<Rightarrow> set_spec (\<lambda>spec. spec\<lparr>Restart := r\<rparr>)
         | None \<Rightarrow> err (snd (bRestart s))
             (''invalid Restart '' @ Quote (fst (bRestart s)) @ '' (supported: no, always, on-failure, on-watchdog)'')))"

definition backoff_cap :: "serviceBuilder \<Rightarrow> stage" where
  "backoff_cap s =
     (let ml = snd (bRestartMaxDelay s);
          msg = ''RestartMaxDelaySec must be a positive finite duration for exponential backoff'' in
      case ParseDuration (fst (bRestartMaxDelay s)) of
        Inl _ \<Rightarrow> err ml msg
      | Inr cap \<Rightarrow>
          (if cap \<le> 0 \<or> cap = maxDuration then err ml msg
           else (\<lambda>sp. let base = (if RestartSecSet (fst sp) then RestartSec (fst sp) else 100000000) in
                  if base \<le> 0 \<or> cap < base then
                    err (snd (bRestartSec s)) ''exponential RestartSec must be positive and no greater than RestartMaxDelaySec'' sp
                  else set_spec (\<lambda>spec. spec\<lparr>RestartMaxDelaySec := cap\<rparr>) sp)))"

definition finishRestartBackoff :: "serviceBuilder \<Rightarrow> stage" where
  "finishRestartBackoff s =
     (let bl = snd (bRestartBackoff s); ml = snd (bRestartMaxDelay s);
          mode = ToLower (TrimSpace (fst (bRestartBackoff s))) in
      (\<lambda>sp. if version sp \<noteq> 2 then
               (err_if (ml \<noteq> 0) ml ''RestartMaxDelaySec requires FormatVersion=2''
                \<circ> err_if (bl \<noteq> 0) bl ''RestartBackoff requires FormatVersion=2'') sp
             else if bl = 0 \<and> ml = 0 then sp
             else ((if mode \<noteq> ''fixed'' \<and> mode \<noteq> ''exponential'' then err bl ''RestartBackoff must be fixed or exponential''
                   else if mode = ''fixed'' then err_if (ml \<noteq> 0) ml ''RestartMaxDelaySec requires RestartBackoff=exponential''
                   else backoff_cap s) \<circ> set_spec (\<lambda>spec. spec\<lparr>RestartBackoff := mode\<rparr>)) sp))"

definition finish_timeouts :: "serviceBuilder \<Rightarrow> stage" where
  "finish_timeouts s =
     given (bTimeoutStop s) ''invalid TimeoutStopSec: '' ParseDuration (\<lambda>d spec. spec\<lparr>TimeoutStopSec := d, TimeoutStopSecSet := True\<rparr>)
     \<circ> given (bTimeoutStart s) ''invalid TimeoutStartSec: '' ParseDuration (\<lambda>d spec. spec\<lparr>TimeoutStartSec := d, TimeoutStartSecSet := True\<rparr>)"

section \<open>Account\<close>

definition systemAccountNames :: "string list" where
  "systemAccountNames = [''system'', ''localsystem'', ''s-1-5-18'']"

definition serviceAccountNames :: "string list" where
  "serviceAccountNames =
     [''localservice'', ''local service'', ''networkservice'', ''network service'', ''s-1-5-19'', ''s-1-5-20'']"

definition validSIDString :: "string \<Rightarrow> bool" where
  "validSIDString s =
     (let parts = Split s (CHR ''-'') in
      if length parts < 3 \<or> \<not> EqualFold (parts ! 0) ''S'' \<or> parts ! 1 \<noteq> ''1'' then False
      else list_all (\<lambda>part. part \<noteq> [] \<and> list_all is_digit part) (drop 2 parts))"

definition IsControl :: "char \<Rightarrow> bool" where
  "IsControl c \<longleftrightarrow> (of_char c :: nat) < 32 \<or> (of_char c :: nat) = 127"

definition not_account_name :: "string \<Rightarrow> bool" where
  "not_account_name val \<longleftrightarrow>
     1 < length (filter (\<lambda>c. c = backslash) val) \<or> HasPrefix val [backslash] \<or> HasSuffix val [backslash]
     \<or> list_ex (\<lambda>r. IsControl r \<or> r = CHR ''/'') val"

definition user_account :: "nat \<Rightarrow> string \<Rightarrow> stage" where
  "user_account line val =
     (let nm = TrimPrefix (ToLower val) (''nt authority'' @ [backslash]) in
      if containsName systemAccountNames nm then id
      else if containsName serviceAccountNames nm then
        err line (''User='' @ val @ '': LocalService and NetworkService are not supported'')
      else if not_account_name val then
        err line (''User='' @ val @ '' is not an account name: use DOMAIN'' @ [backslash] @ ''name, a local name or a SID'')
      else if HasPrefix nm ''s-'' then
        (if \<not> validSIDString val then err line (''User='' @ val @ '' is not a valid SID'')
         else set_spec (\<lambda>spec. spec\<lparr>User := ''S'' @ drop 1 val\<rparr>))
      else set_spec (\<lambda>spec. spec\<lparr>User := val\<rparr>))"

definition finishUser :: "serviceBuilder \<Rightarrow> stage" where
  "finishUser s =
     (let line = snd (bUser s); val = TrimSpace (fst (bUser s)) in
      if line = 0 then id
      else (\<lambda>sp. if version sp \<noteq> 2 then err line ''User requires FormatVersion=2'' sp
                 else if SType (fst sp) \<noteq> TypeSimple \<and> SType (fst sp) \<noteq> TypeOneshot \<and> SType (fst sp) \<noteq> TypeNotify then
                   err line ''User is supported only for Type=simple, oneshot and notify'' sp
                 else (if val = [] then
                         err line (''User must name an account: DOMAIN'' @ [backslash] @ ''name, a local name or a SID'')
                       else user_account line val) sp)
           \<circ> set_spec (\<lambda>spec. spec\<lparr>UserDeclared := True\<rparr>))"

section \<open>Resource limits\<close>

definition cpu_weight :: "serviceBuilder \<Rightarrow> stage" where
  "cpu_weight s =
     (let line = snd (bWindowsCPUWeight s); msg = ''WindowsCPUWeight must be an integer from 1 to 9'' in
      if line = 0 then id
      else case ParseUint 32 (fst (bWindowsCPUWeight s)) of
             None \<Rightarrow> err line msg
           | Some n \<Rightarrow> (if n < 1 \<or> 9 < n then err line msg
                       else set_spec (\<lambda>spec. spec\<lparr>WindowsCPUWeight := word_of_nat n\<rparr>)))"

definition cpu_quota :: "serviceBuilder \<Rightarrow> stage" where
  "cpu_quota s =
     (let line = snd (bWindowsCPUQuota s) in
      if line = 0 then id
      else on_res line (\<lambda>_. ''WindowsCPUQuota must be an integer percentage from 1% to 100%'')
             (parseCPUQuota (fst (bWindowsCPUQuota s))) (\<lambda>n spec. spec\<lparr>WindowsCPUQuota := n\<rparr>))"

definition cpu_v2 :: "serviceBuilder \<Rightarrow> stage" where
  "cpu_v2 s =
     (let wl = snd (bWindowsCPUWeight s); ql = snd (bWindowsCPUQuota s);
          cw = snd (bCpuWeight s); cq = snd (bCpuQuota s) in
      (\<lambda>sp. err_if (ServiceType_IsExternalProxy (SType (fst sp)) \<and> (wl \<noteq> 0 \<or> ql \<noteq> 0)) 0
         (''Windows CPU controls require a managed process; Type='' @ ServiceType_string (SType (fst sp)) @ '' has external ownership'') sp)
      \<circ> err_if (wl \<noteq> 0 \<and> ql \<noteq> 0) ql ''WindowsCPUWeight and WindowsCPUQuota cannot both be set''
      \<circ> cpu_quota s \<circ> cpu_weight s
      \<circ> err_if (cq \<noteq> 0) cq ''CPUQuota is a legacy directive; convert to WindowsCPUQuota for FormatVersion=2''
      \<circ> err_if (cw \<noteq> 0) cw ''CPUWeight is a legacy directive; convert to WindowsCPUWeight for FormatVersion=2'')"

definition cpu_v1 :: "serviceBuilder \<Rightarrow> stage" where
  "cpu_v1 s =
     (let wl = snd (bWindowsCPUWeight s); ql = snd (bWindowsCPUQuota s) in
      err_if (ql \<noteq> 0) ql ''WindowsCPUQuota requires FormatVersion=2''
      \<circ> err_if (wl \<noteq> 0) wl ''WindowsCPUWeight requires FormatVersion=2'')"

definition finishWindowsCPU :: "serviceBuilder \<Rightarrow> stage" where
  "finishWindowsCPU s = (\<lambda>sp. if version sp \<noteq> 2 then cpu_v1 s sp else cpu_v2 s sp)"

definition cpu_exclusive :: "serviceBuilder \<Rightarrow> stage" where
  "cpu_exclusive s =
     (let ql = snd (bCpuQuota s); wl = snd (bCpuWeight s);
          line = (if 0 < wl \<and> (ql = 0 \<or> wl < ql) then wl else ql) in
      (\<lambda>sp. err_if (CPUWeightSet (fst sp) \<and> CPUQuotaSet (fst sp)) line ''CPUWeight and CPUQuota cannot both be set'' sp))"

definition limits_values :: "serviceBuilder \<Rightarrow> stage" where
  "limits_values s =
     given (bIoPriority s) [] parseIoPriority (\<lambda>c spec. spec\<lparr>IoPriorityOf := c, IoPrioritySet := True\<rparr>)
     \<circ> cpu_exclusive s
     \<circ> given (bCpuQuota s) [] parseCPUQuota (\<lambda>n spec. spec\<lparr>CPUQuota := n, CPUQuotaSet := True\<rparr>)
     \<circ> given (bCpuWeight s) [] parseCPUWeight (\<lambda>n spec. spec\<lparr>CPUWeight := n, CPUWeightSet := True\<rparr>)
     \<circ> finishWindowsCPU s
     \<circ> given (bPriorityClass s) [] parsePriorityClass (\<lambda>c spec. spec\<lparr>PriorityClassOf := c, PriorityClassSet := True\<rparr>)
     \<circ> given (bProcessLimit s) [] parseProcessLimit (\<lambda>n spec. spec\<lparr>ProcessLimit := n, ProcessLimitSet := True\<rparr>)
     \<circ> given (bMemoryMax s) [] parseMemoryMax (\<lambda>n spec. spec\<lparr>MemoryMax := n, MemoryMaxSet := True\<rparr>)"

definition drop_limit :: "(ServiceSpec \<Rightarrow> bool) \<Rightarrow> nat \<Rightarrow> string \<Rightarrow> (ServiceSpec \<Rightarrow> ServiceSpec) \<Rightarrow> stage" where
  "drop_limit isset line nm reset =
     (\<lambda>sp. if isset (fst sp) then set_spec reset
        (warn_if True line (nm @ '' is ignored for Type='' @ ServiceType_string (SType (fst sp))) sp) else sp)"

definition limits_proxy :: "serviceBuilder \<Rightarrow> stage" where
  "limits_proxy s =
     drop_limit IoPrioritySet (snd (bIoPriority s)) ''IoPriority'' (\<lambda>spec. spec\<lparr>IoPriorityOf := IoUnset, IoPrioritySet := False\<rparr>)
     \<circ> drop_limit CPUQuotaSet (snd (bCpuQuota s)) ''CPUQuota'' (\<lambda>spec. spec\<lparr>CPUQuota := 0, CPUQuotaSet := False\<rparr>)
     \<circ> drop_limit CPUWeightSet (snd (bCpuWeight s)) ''CPUWeight'' (\<lambda>spec. spec\<lparr>CPUWeight := 0, CPUWeightSet := False\<rparr>)
     \<circ> drop_limit PriorityClassSet (snd (bPriorityClass s)) ''PriorityClass'' (\<lambda>spec. spec\<lparr>PriorityClassOf := PriorityUnset, PriorityClassSet := False\<rparr>)
     \<circ> drop_limit ProcessLimitSet (snd (bProcessLimit s)) ''ProcessLimit'' (\<lambda>spec. spec\<lparr>ProcessLimit := 0, ProcessLimitSet := False\<rparr>)
     \<circ> drop_limit MemoryMaxSet (snd (bMemoryMax s)) ''MemoryMax'' (\<lambda>spec. spec\<lparr>MemoryMax := 0, MemoryMaxSet := False\<rparr>)"

definition finishJobLimits :: "serviceBuilder \<Rightarrow> stage" where
  "finishJobLimits s =
     (\<lambda>sp. if \<not> ServiceType_IsExternalProxy (SType (fst sp)) then sp else limits_proxy s sp) \<circ> limits_values s"

definition finish_stop_timeout :: "serviceBuilder \<Rightarrow> stage" where
  "finish_stop_timeout s =
     (\<lambda>sp. err_if (ExecStop (fst sp) \<noteq> [] \<and> TimeoutStopSecSet (fst sp) \<and> TimeoutStopSec (fst sp) \<le> 0) (snd (bTimeoutStop s))
        ''ExecStop requires a positive TimeoutStopSec'' sp)"

section \<open>Readiness\<close>

definition defaultHTTPWatchdogStatus :: int where
  "defaultHTTPWatchdogStatus = 200"

definition readiness_endpoint :: "parse_env \<Rightarrow> serviceBuilder \<Rightarrow> stage" where
  "readiness_endpoint pe s =
     (let el = snd (bReadinessEndpoint s);
          ep = TrimSpace (fst (bReadinessEndpoint s));
          mode = WatchdogMode_of (ToLower (TrimSpace (fst (bReadinessMode s))));
          msg = (\<lambda>e. ''invalid ReadinessEndpoint: '' @ e) in
      (if mode = WatchdogModeTCP then on_res el msg (parseTCPWatchdogEndpoint ep) (\<lambda>addr spec. spec\<lparr>ReadinessAddr := addr\<rparr>)
       else if mode = WatchdogModeHTTP then
         set_spec (\<lambda>spec. spec\<lparr>ReadinessExpectedStatus := defaultHTTPWatchdogStatus\<rparr>)
         \<circ> on_res el msg (parseHTTPWatchdogEndpoint (urlLib pe) ep) (\<lambda>u spec. spec\<lparr>ReadinessURL := url_String (urlLib pe) u\<rparr>)
       else err (snd (bReadinessMode s)) ''ReadinessMode must be tcp or http'')
      \<circ> set_spec (\<lambda>spec. spec\<lparr>ReadinessMode := mode, ReadinessEndpoint := ep\<rparr>))"

definition readiness_status :: "serviceBuilder \<Rightarrow> stage" where
  "readiness_status s =
     (let sl = snd (bReadinessStatus s);
          msg = ''ReadinessExpectedStatus requires HTTP mode and an integer from 100 to 599'' in
      if sl = 0 then id
      else case parseHTTPWatchdogStatus (fst (bReadinessStatus s)) of
             Inl _ \<Rightarrow> err sl msg
           | Inr status \<Rightarrow>
               (\<lambda>sp. if ReadinessMode (fst sp) \<noteq> WatchdogModeHTTP then err sl msg sp
                     else set_spec (\<lambda>spec. spec\<lparr>ReadinessExpectedStatus := status\<rparr>) sp))"

definition positive_finite :: "fv \<Rightarrow> string \<Rightarrow> (int \<Rightarrow> ServiceSpec \<Rightarrow> ServiceSpec) \<Rightarrow> stage" where
  "positive_finite v nm upd =
     (let msg = nm @ '' must be a positive finite duration'' in
      if snd v = 0 then id
      else case ParseDuration (fst v) of
             Inl _ \<Rightarrow> err (snd v) msg
           | Inr d \<Rightarrow> (if d \<le> 0 \<or> d = maxDuration then err (snd v) msg else set_spec (upd d)))"

definition readiness_timing :: "serviceBuilder \<Rightarrow> stage" where
  "readiness_timing s =
     (\<lambda>sp. err_if (TimeoutStartSec (fst sp) \<le> 0 \<or> TimeoutStartSec (fst sp) = maxDuration) (snd (bTimeoutStart s))
        ''startup probes require a positive finite TimeoutStartSec'' sp)
     \<circ> (\<lambda>sp. if TimeoutStartSecSet (fst sp) then sp
             else set_spec (\<lambda>spec. spec\<lparr>TimeoutStartSec := 90000000000, TimeoutStartSecSet := True\<rparr>) sp)
     \<circ> positive_finite (bReadinessTimeout s) ''ReadinessTimeoutSec'' (\<lambda>d spec. spec\<lparr>ReadinessTimeoutSec := d\<rparr>)
     \<circ> positive_finite (bReadinessInterval s) ''ReadinessIntervalSec'' (\<lambda>d spec. spec\<lparr>ReadinessIntervalSec := d\<rparr>)
     \<circ> set_spec (\<lambda>spec. spec\<lparr>ReadinessIntervalSec := 100000000, ReadinessTimeoutSec := 1000000000\<rparr>)"

definition finishReadiness :: "parse_env \<Rightarrow> serviceBuilder \<Rightarrow> stage" where
  "finishReadiness pe s =
     (if snd (bReadinessMode s) = 0 \<and> snd (bReadinessEndpoint s) = 0 \<and> snd (bReadinessStatus s) = 0
        \<and> snd (bReadinessInterval s) = 0 \<and> snd (bReadinessTimeout s) = 0 then id
      else (\<lambda>sp. if version sp \<noteq> 2 \<or> SType (fst sp) \<noteq> TypeSimple then
                    err 0 ''readiness probes require FormatVersion=2 and Type=simple'' sp
                  else (readiness_timing s \<circ> readiness_status s \<circ> readiness_endpoint pe s) sp))"

section \<open>Watchdog\<close>

definition watchdog_mode :: "serviceBuilder \<Rightarrow> stage" where
  "watchdog_mode s =
     (let mode = WatchdogMode_of (ToLower (TrimSpace (fst (bWatchdogMode s)))) in
      if mode = WatchdogModeUnset then
        (\<lambda>sp. if WatchdogSecSet (fst sp) \<and> 0 < WatchdogSec (fst sp)
               then set_spec (\<lambda>spec. spec\<lparr>WatchdogModeOf := WatchdogModeNotify\<rparr>) sp else sp)
      else if mode = WatchdogModeNotify \<or> mode = WatchdogModeTCP \<or> mode = WatchdogModeHTTP then
        set_spec (\<lambda>spec. spec\<lparr>WatchdogModeOf := mode\<rparr>)
      else err (snd (bWatchdogMode s))
             (''invalid WatchdogMode '' @ Quote (fst (bWatchdogMode s)) @ '' (supported: notify, tcp, http)''))"

definition watchdog_required :: "serviceBuilder \<Rightarrow> string \<Rightarrow> stage" where
  "watchdog_required s ep =
     (let ml = snd (bWatchdogMode s); sl = snd (bWatchdogSec s); el = snd (bWatchdogEP s) in
      (\<lambda>sp. if WatchdogModeOf (fst sp) = WatchdogModeTCP \<or> WatchdogModeOf (fst sp) = WatchdogModeHTTP then
              ((\<lambda>sp. err_if (ep = []) (if el = 0 then ml else el)
                  (''WatchdogMode='' @ WatchdogMode_string (WatchdogModeOf (fst sp)) @ '' requires WatchdogEndpoint'') sp)
               \<circ> (\<lambda>sp. err_if (\<not> WatchdogSecSet (fst sp) \<or> WatchdogSec (fst sp) \<le> 0) (if ml = 0 then sl else ml)
                  (''WatchdogMode='' @ WatchdogMode_string (WatchdogModeOf (fst sp)) @ '' requires WatchdogSec'') sp)) sp
            else if WatchdogModeOf (fst sp) = WatchdogModeNotify \<or> WatchdogModeOf (fst sp) = WatchdogModeUnset then
              err_if (ep \<noteq> []) el ''WatchdogEndpoint is only valid with WatchdogMode=tcp or http'' sp
            else sp))"

definition watchdog_tcp :: "serviceBuilder \<Rightarrow> string \<Rightarrow> stage" where
  "watchdog_tcp s ep =
     (\<lambda>sp. if WatchdogModeOf (fst sp) = WatchdogModeTCP \<and> ep \<noteq> [] then
             on_res (snd (bWatchdogEP s)) (\<lambda>e. e) (parseTCPWatchdogEndpoint ep) (\<lambda>addr spec. spec\<lparr>WatchdogAddr := addr\<rparr>) sp
           else sp)"

definition watchdog_http :: "parse_env \<Rightarrow> serviceBuilder \<Rightarrow> string \<Rightarrow> stage" where
  "watchdog_http pe s ep =
     (\<lambda>sp. if WatchdogModeOf (fst sp) = WatchdogModeHTTP \<and> ep \<noteq> [] then
             on_res (snd (bWatchdogEP s)) (\<lambda>e. e) (parseHTTPWatchdogEndpoint (urlLib pe) ep)
               (\<lambda>u spec. spec\<lparr>WatchdogURL := url_String (urlLib pe) u, WatchdogAddr := Host u\<rparr>) sp
           else sp)"

definition watchdog_status :: "serviceBuilder \<Rightarrow> stage" where
  "watchdog_status s =
     (let stat = TrimSpace (fst (bWatchdogStat s)); line = snd (bWatchdogStat s) in
      (\<lambda>sp. if WatchdogModeOf (fst sp) = WatchdogModeHTTP \<and> \<not> WatchdogExpectedStatusSet (fst sp)
             then set_spec (\<lambda>spec. spec\<lparr>WatchdogExpectedStatus := defaultHTTPWatchdogStatus\<rparr>) sp else sp)
      \<circ> (if stat = [] then id
         else (\<lambda>sp. if WatchdogModeOf (fst sp) \<noteq> WatchdogModeHTTP then
                      err line ''WatchdogExpectedStatus is only valid with WatchdogMode=http'' sp
                    else on_res line (\<lambda>e. ''invalid WatchdogExpectedStatus: '' @ e) (parseHTTPWatchdogStatus stat)
                           (\<lambda>n spec. spec\<lparr>WatchdogExpectedStatus := n, WatchdogExpectedStatusSet := True\<rparr>) sp)))"

definition finishWatchdog :: "parse_env \<Rightarrow> serviceBuilder \<Rightarrow> stage" where
  "finishWatchdog pe s =
     (let ep = TrimSpace (fst (bWatchdogEP s)) in
      watchdog_status s \<circ> watchdog_http pe s ep \<circ> watchdog_tcp s ep \<circ> watchdog_required s ep
      \<circ> (if ep \<noteq> [] then set_spec (\<lambda>spec. spec\<lparr>WatchdogEndpoint := ep, WatchdogEndpointSet := True\<rparr>) else id)
      \<circ> watchdog_mode s)"

definition policy_grace :: "serviceBuilder \<Rightarrow> stage" where
  "policy_grace s =
     (let line = snd (bWatchdogGrace s); msg = ''WatchdogGraceSec must be a finite nonnegative duration'' in
      if line = 0 then id
      else case ParseDuration (fst (bWatchdogGrace s)) of
             Inl _ \<Rightarrow> err line msg
           | Inr d \<Rightarrow> (if d = maxDuration then err line msg else set_spec (\<lambda>spec. spec\<lparr>WatchdogGraceSec := d\<rparr>)))"

definition policy_threshold :: "serviceBuilder \<Rightarrow> stage" where
  "policy_threshold s =
     (let line = snd (bWatchdogThreshold s); msg = ''WatchdogFailureThreshold must be an integer from 1 to 1000'' in
      if line = 0 then id
      else case Atoi (fst (bWatchdogThreshold s)) of
             None \<Rightarrow> err line msg
           | Some n \<Rightarrow> (if n < 1 \<or> 1000 < n then err line msg else set_spec (\<lambda>spec. spec\<lparr>WatchdogFailureThreshold := n\<rparr>)))"

definition finishWatchdogPolicy :: "serviceBuilder \<Rightarrow> stage" where
  "finishWatchdogPolicy s =
     (if snd (bWatchdogGrace s) = 0 \<and> snd (bWatchdogTimeout s) = 0 \<and> snd (bWatchdogThreshold s) = 0 then id
      else (\<lambda>sp. if version sp \<noteq> 2 \<or> \<not> WatchdogProbeMode (Some (fst sp)) \<or> IsExternalProxy (Some (fst sp)) then
                    err 0 ''WatchdogGraceSec, WatchdogTimeoutSec and WatchdogFailureThreshold require FormatVersion=2 and a managed tcp/http watchdog'' sp
                  else (policy_threshold s
                    \<circ> positive_finite (bWatchdogTimeout s) ''WatchdogTimeoutSec'' (\<lambda>d spec. spec\<lparr>WatchdogTimeoutSec := d\<rparr>)
                    \<circ> policy_grace s) sp))"

section \<open>The service\<close>

definition ignored :: "fv \<Rightarrow> string \<Rightarrow> stage" where
  "ignored v nm =
     (\<lambda>sp. warn_if (fst v \<noteq> []) (snd v) (nm @ '' is ignored for Type='' @ ServiceType_string (SType (fst sp))) sp)"

definition finish_proxy :: "serviceBuilder \<Rightarrow> stage" where
  "finish_proxy s =
     ignored (bWatchdogMode s) ''WatchdogMode'' \<circ> ignored (bWatchdogSec s) ''WatchdogSec''
     \<circ> ignored (bNotifyAccess s) ''NotifyAccess'' \<circ> finishWatchdogPolicy s"

definition finish_notify :: "serviceBuilder \<Rightarrow> stage" where
  "finish_notify s =
     (let access = ToLower (TrimSpace (fst (bNotifyAccess s))) in
      given (bWatchdogSec s) ''invalid WatchdogSec: '' ParseDuration (\<lambda>d spec. spec\<lparr>WatchdogSec := d, WatchdogSecSet := True\<rparr>)
      \<circ> (if access = [] then
           (\<lambda>sp. if SType (fst sp) = TypeNotify then set_spec (\<lambda>spec. spec\<lparr>NotifyAccessOf := NotifyAccessMain\<rparr>) sp else sp)
         else if access = ''main'' then set_spec (\<lambda>spec. spec\<lparr>NotifyAccessOf := NotifyAccessMain\<rparr>)
         else err (snd (bNotifyAccess s)) (''invalid NotifyAccess '' @ Quote (fst (bNotifyAccess s)) @ '' (supported: main)'')))"

text \<open>Everything before the external proxies return, in two halves.\<close>

definition finish_command :: "parse_env \<Rightarrow> serviceBuilder \<Rightarrow> stage" where
  "finish_command pe s =
     finish_stop pe s \<circ> finish_exec pe s \<circ> finish_task_name s \<circ> finish_service_name s \<circ> finish_remain s \<circ> finish_type s"

definition finish_policy :: "parse_env \<Rightarrow> serviceBuilder \<Rightarrow> stage" where
  "finish_policy pe s =
     finishReadiness pe s \<circ> finish_stop_timeout s \<circ> finishJobLimits s \<circ> finish_timeouts s \<circ> finishUser s
     \<circ> finishRestartBackoff s \<circ> finish_restart s"

definition finish_rest :: "parse_env \<Rightarrow> serviceBuilder \<Rightarrow> stage" where
  "finish_rest pe s =
     (\<lambda>sp. if ServiceType_IsExternalProxy (SType (fst sp)) then finish_proxy s sp
            else (finishWatchdogPolicy s \<circ> finishWatchdog pe s \<circ> finish_notify s) sp)"

definition finishService :: "parse_env \<Rightarrow> parser \<Rightarrow> parser" where
  "finishService pe p =
     (case psvc p of
        None \<Rightarrow> errorf 0 ''service unit requires a [Service] section'' (p\<lparr>punit := (punit p)\<lparr>Service := Some new_ServiceSpec\<rparr>\<rparr>)
      | Some s \<Rightarrow>
          (case finish_rest pe s (finish_policy pe s (finish_command pe s (new_ServiceSpec, p))) of
             (spec, p') \<Rightarrow> p'\<lparr>punit := (punit p')\<lparr>Service := Some spec\<rparr>\<rparr>))"

end
