(* ===== verification/Service_Checks.thy ===== *)
theory Service_Checks
  imports Service_Finish
begin

text \<open>
  What a service that passes the checks looks like.  \<open>failed\<close> says that an error was reported; every
  stage keeps earlier errors and everything else the parser holds (\<open>later\<close>), so a service without errors passed every
  check, and a stage changes only the fields it is about (\<open>same\<close>).  Both are preorders that reporting
  respects; the closure of such preorders under the combinators of the stages is proved once, in the
  locale \<open>stage_order\<close>.
\<close>

named_theorems stages \<open>the stages of a service as steps of a preorder\<close>

definition failed :: "fin \<Rightarrow> bool" where
  "failed sp \<longleftrightarrow> has_error (pissues (snd sp))"

definition settled :: "fin \<Rightarrow> parser" where
  "settled sp = (snd sp)\<lparr>pissues := []\<rparr>"

definition keeps :: "(fin \<Rightarrow> fin \<Rightarrow> bool) \<Rightarrow> stage \<Rightarrow> bool" where
  "keeps R st \<longleftrightarrow> (\<forall>sp. R sp (st sp))"

definition later :: "fin \<Rightarrow> fin \<Rightarrow> bool" where
  "later sp sp' \<longleftrightarrow> (failed sp \<longrightarrow> failed sp') \<and> settled sp' = settled sp"

definition same :: "(ServiceSpec \<Rightarrow> 'a) \<Rightarrow> fin \<Rightarrow> fin \<Rightarrow> bool" where
  "same g sp sp' \<longleftrightarrow> g (fst sp') = g (fst sp)"

definition sound :: "(ServiceSpec \<Rightarrow> bool) \<Rightarrow> fin \<Rightarrow> fin \<Rightarrow> bool" where
  "sound I sp sp' \<longleftrightarrow> (failed sp \<or> I (fst sp) \<longrightarrow> failed sp' \<or> I (fst sp'))"

lemma fin_simps [simp]:
  "failed (err_if b l m sp) \<longleftrightarrow> b \<or> failed sp" "failed (err l m sp)" "failed (warn_if b l m sp) = failed sp"
  "failed (set_spec f sp) = failed sp"
  "fst (err_if b l m sp) = fst sp" "fst (err l m sp) = fst sp" "fst (warn_if b l m sp) = fst sp" "fst (set_spec f sp) = f (fst sp)"
  "settled (err_if b l m sp) = settled sp" "settled (err l m sp) = settled sp" "settled (warn_if b l m sp) = settled sp"
  "settled (set_spec f sp) = settled sp"
  by (auto simp: failed_def err_def err_if_def warn_if_def set_spec_def errorf_def warnf_def settled_def)

section \<open>Preorders on the stages\<close>

locale stage_order =
  fixes R :: "fin \<Rightarrow> fin \<Rightarrow> bool"
  assumes refl: "R sp sp"
    and trans: "R sp1 sp2 \<Longrightarrow> R sp2 sp3 \<Longrightarrow> R sp1 sp3"
    and reports: "R sp (err_if b l m sp)" "R sp (warn_if b l m sp)"
begin

lemma keeps_err [stages]: "keeps R (\<lambda>sp. err l (m sp) sp)"
  by (simp add: keeps_def err_def reports)

lemma keeps_err_if [stages]: "keeps R (\<lambda>sp. err_if (b sp) l (m sp) sp)"
  by (simp add: keeps_def reports)

lemma keeps_warn_if [stages]: "keeps R (\<lambda>sp. warn_if (b sp) l (m sp) sp)"
  by (simp add: keeps_def reports)

lemma keeps_id [stages]: "keeps R id" "keeps R (\<lambda>sp. sp)"
  by (simp_all add: keeps_def refl)

lemma keeps_comp [stages]: "keeps R f \<Longrightarrow> keeps R g \<Longrightarrow> keeps R (f \<circ> g)"
  unfolding keeps_def comp_def by (rule allI, rule trans) (erule spec)+

lemma keeps_app: "keeps R f \<Longrightarrow> keeps R g \<Longrightarrow> keeps R (\<lambda>sp. f (g sp))"
  by (drule (1) keeps_comp) (simp add: comp_def)

lemma keeps_if [stages]: "keeps R f \<Longrightarrow> keeps R g \<Longrightarrow> keeps R (\<lambda>sp. if b sp then f sp else g sp)"
  by (simp add: keeps_def)

lemma keeps_choice [stages]: "(b \<Longrightarrow> keeps R f) \<Longrightarrow> (\<not> b \<Longrightarrow> keeps R g) \<Longrightarrow> keeps R (if b then f else g)"
  by simp

lemma keeps_case [stages]:
  "(\<And>e. keeps R (f e)) \<Longrightarrow> (\<And>v. r = Inr v \<Longrightarrow> keeps R (g v)) \<Longrightarrow> keeps R (case r of Inl e \<Rightarrow> f e | Inr v \<Rightarrow> g v)"
  by (cases r) simp_all

lemma keeps_opt [stages]:
  "keeps R f \<Longrightarrow> (\<And>v. x = Some v \<Longrightarrow> keeps R (g v)) \<Longrightarrow> keeps R (case x of None \<Rightarrow> f | Some v \<Rightarrow> g v)"
  by (cases x) simp_all

lemma keeps_on_res [stages]: "(\<And>v. r = Inr v \<Longrightarrow> keeps R (set_spec (upd v))) \<Longrightarrow> keeps R (on_res l m r upd)"
  unfolding on_res_def by (intro keeps_case keeps_err)

lemma keeps_given [stages]:
  "(\<And>v. parse (fst fv) = Inr v \<Longrightarrow> keeps R (set_spec (upd v))) \<Longrightarrow> keeps R (given fv lbl parse upd)"
  unfolding given_def by (intro keeps_choice keeps_id keeps_on_res)

lemma keeps_positive_finite [stages]:
  "(\<And>d. 0 < d \<Longrightarrow> d \<noteq> maxDuration \<Longrightarrow> keeps R (set_spec (upd d))) \<Longrightarrow> keeps R (positive_finite fv nm upd)"
  unfolding positive_finite_def Let_def
  by (intro keeps_id keeps_case keeps_err keeps_choice) (simp_all add: not_le)

lemma keeps_drop_limit [stages]: "keeps R (set_spec reset) \<Longrightarrow> keeps R (drop_limit isset l nm reset)"
  unfolding drop_limit_def by (rule keeps_if [OF keeps_app keeps_id(2)], assumption, rule keeps_warn_if)

end

interpretation ord: stage_order later
  by unfold_locales (auto simp: later_def)

interpretation fr: stage_order "same g" for g
  by unfold_locales (auto simp: same_def)

interpretation snd: stage_order "sound I" for I
  by unfold_locales (auto simp: sound_def)

lemma sound_set [stages]: "(\<And>spec. I spec \<Longrightarrow> I (f spec)) \<Longrightarrow> keeps (sound I) (set_spec f)"
  by (simp add: keeps_def sound_def)

lemma soundD: "keeps (sound I) st \<Longrightarrow> failed sp \<or> I (fst sp) \<Longrightarrow> failed (st sp) \<or> I (fst (st sp))"
  unfolding keeps_def sound_def by blast

lemma later_set [stages]: "keeps later (set_spec f)"
  by (simp add: keeps_def later_def)

lemma same_set [stages]: "(\<And>spec. g (f spec) = g spec) \<Longrightarrow> keeps (same g) (set_spec f)"
  by (simp add: keeps_def same_def)

lemma passedD: "keeps later st \<Longrightarrow> \<not> failed (st sp) \<Longrightarrow> \<not> failed sp"
  unfolding keeps_def later_def by blast

lemma sameD: "keeps (same g) st \<Longrightarrow> g (fst (st sp)) = g (fst sp)"
  unfolding keeps_def same_def by blast

lemma laterD: "keeps later st \<Longrightarrow> settled (st sp) = settled sp"
  unfolding keeps_def later_def by blast

text \<open>Every stage keeps the errors and the version.\<close>

lemma later_names [stages]:
  "keeps later (finish_type s)" "keeps later (finish_remain s)" "keeps later (finish_service_name s)"
  "keeps later (finish_task_name s)"
  unfolding finish_type_def finish_remain_def finish_service_name_def finish_task_name_def Let_def
  by (intro stages)+

lemma later_parts [stages]:
  "keeps later (finish_argv pe s)" "keeps later (finish_wd s)" "keeps later (stop_argv pe s)"
  "keeps later (finish_restart s)" "keeps later (finish_timeouts s)"
  "keeps later (cpu_weight s)" "keeps later (cpu_quota s)" "keeps later (cpu_v1 s)" "keeps later (cpu_exclusive s)"
  "keeps later (limits_proxy s)" "keeps later (user_account l val)" "keeps later (finish_stop_timeout s)"
  unfolding finish_argv_def finish_wd_def stop_argv_def finish_restart_def finish_timeouts_def
    cpu_weight_def cpu_quota_def cpu_v1_def cpu_exclusive_def limits_proxy_def user_account_def
    finish_stop_timeout_def Let_def
  by (intro stages)+

lemma later_watch [stages]:
  "keeps later (readiness_endpoint pe s)" "keeps later (readiness_status s)" "keeps later (readiness_timing s)"
  "keeps later (watchdog_mode s)" "keeps later (watchdog_tcp s ep)" "keeps later (watchdog_http pe s ep)"
  "keeps later (watchdog_status s)" "keeps later (policy_grace s)" "keeps later (policy_threshold s)"
  "keeps later (ignored v nm)" "keeps later (finish_notify s)"
  unfolding readiness_endpoint_def readiness_status_def readiness_timing_def watchdog_mode_def
    watchdog_tcp_def watchdog_http_def watchdog_status_def policy_grace_def policy_threshold_def
    ignored_def finish_notify_def Let_def
  by (intro stages)+

lemma later_backoff [stages]: "keeps later (backoff_cap s)"
  unfolding backoff_cap_def Let_def by (intro stages)+

lemma later_stages [stages]:
  "keeps later (finish_exec pe s)" "keeps later (finish_stop pe s)" "keeps later (finishRestartBackoff s)"
  "keeps later (finishUser s)" "keeps later (cpu_v2 s)" "keeps later (watchdog_required s ep)"
  "keeps later (finishReadiness pe s)" "keeps later (finishWatchdogPolicy s)"
  unfolding finish_exec_def finish_stop_def finishRestartBackoff_def finishUser_def cpu_v2_def
    watchdog_required_def finishReadiness_def finishWatchdogPolicy_def Let_def
  by (intro stages)+

lemma later_cpu [stages]: "keeps later (finishWindowsCPU s)"
  unfolding finishWindowsCPU_def by (intro stages)

lemma later_limits [stages]: "keeps later (limits_values s)"
  unfolding limits_values_def by (intro stages)

lemma later_joined [stages]:
  "keeps later (finishJobLimits s)" "keeps later (finishWatchdog pe s)" "keeps later (finish_proxy s)"
  unfolding finishJobLimits_def finishWatchdog_def finish_proxy_def Let_def
  by (intro stages)+

lemma later_service [stages]:
  "keeps later (finish_command pe s)" "keeps later (finish_policy pe s)" "keeps later (finish_rest pe s)"
  unfolding finish_command_def finish_policy_def finish_rest_def
  by (intro stages)+

section \<open>Commands\<close>

definition runnable :: "ServiceSpec \<Rightarrow> bool" where
  "runnable spec \<longleftrightarrow>
     (if ServiceType_IsExternalProxy (SType spec) then ExecStart spec = [] \<and> ExecStop spec = [] \<and> WorkingDirectory spec = []
      else ExecStart spec \<noteq> [] \<and> WindowsAbs (ExecStart spec ! 0)
        \<and> (WorkingDirectory spec = [] \<or> WindowsAbs (WorkingDirectory spec))
        \<and> (ExecStop spec = [] \<or> WindowsAbs (ExecStop spec ! 0)))
     \<and> (SType spec = TypeSCM \<longrightarrow> ServiceName spec \<noteq> []) \<and> (SType spec = TypeScheduledTask \<longrightarrow> TaskName spec \<noteq> [])"

definition commands :: "ServiceSpec \<Rightarrow> ServiceType \<times> string list \<times> string list \<times> string \<times> string \<times> string" where
  "commands spec = (SType spec, ExecStart spec, ExecStop spec, WorkingDirectory spec, ServiceName spec, TaskName spec)"

lemma runnable_commands: "commands spec = commands spec' \<Longrightarrow> runnable spec = runnable spec'"
  by (simp add: commands_def runnable_def)

lemma finish_service_name_ok:
  "\<not> failed (finish_service_name s sp) \<Longrightarrow> SType (fst (finish_service_name s sp)) = TypeSCM \<Longrightarrow>
     ServiceName (fst (finish_service_name s sp)) \<noteq> []"
  by (auto simp: finish_service_name_def Let_def split: if_splits)

lemma finish_task_name_ok:
  "\<not> failed (finish_task_name s sp) \<Longrightarrow> SType (fst (finish_task_name s sp)) = TypeScheduledTask \<Longrightarrow>
     TaskName (fst (finish_task_name s sp)) \<noteq> []"
  by (auto simp: finish_task_name_def Let_def split: if_splits)

lemma finish_exec_ok:
  assumes "\<not> failed (finish_exec pe s sp)" "ExecStart (fst sp) = []" "WorkingDirectory (fst sp) = []"
  defines "spec \<equiv> fst (finish_exec pe s sp)"
  shows "if ServiceType_IsExternalProxy (SType spec) then ExecStart spec = [] \<and> WorkingDirectory spec = []
    else ExecStart spec \<noteq> [] \<and> WindowsAbs (ExecStart spec ! 0) \<and> (WorkingDirectory spec = [] \<or> WindowsAbs (WorkingDirectory spec))"
  using assms
  by (cases "SType (fst sp)")
    (auto simp: finish_exec_def finish_argv_def finish_wd_def Let_def ServiceType_IsExternalProxy_def
      split: if_splits sum.splits dest: buildArgv_Inr)

lemma finish_stop_ok:
  assumes "\<not> failed (finish_stop pe s sp)" "ExecStop (fst sp) = []"
  defines "spec \<equiv> fst (finish_stop pe s sp)"
  shows "if ServiceType_IsExternalProxy (SType spec) then ExecStop spec = []
    else ExecStop spec = [] \<or> WindowsAbs (ExecStop spec ! 0)"
  using assms by (auto simp: finish_stop_def stop_argv_def Let_def split: if_splits sum.splits)

text \<open>The fields that the command stages leave alone.\<close>

lemmas command_defs = finish_type_def finish_remain_def finish_service_name_def finish_task_name_def finish_exec_def
  finish_argv_def finish_wd_def finish_stop_def stop_argv_def Let_def

lemma same_start:
  "keeps (same (\<lambda>spec. (ExecStart spec, ExecStop spec, WorkingDirectory spec)))
     (finish_task_name s \<circ> finish_service_name s \<circ> finish_remain s \<circ> finish_type s)"
  "keeps (same (\<lambda>spec. (SType spec, ServiceName spec))) (finish_task_name s)"
  "keeps (same (\<lambda>spec. (SType spec, ServiceName spec, TaskName spec, ExecStop spec))) (finish_exec pe s)"
  "keeps (same (\<lambda>spec. (SType spec, ServiceName spec, TaskName spec, ExecStart spec, WorkingDirectory spec))) (finish_stop pe s)"
  unfolding command_defs by (intro stages; simp)+

lemmas limits_defs = finishJobLimits_def limits_values_def finishWindowsCPU_def cpu_v1_def cpu_v2_def cpu_weight_def
  cpu_quota_def cpu_exclusive_def limits_proxy_def Let_def

lemmas readiness_defs = finish_stop_timeout_def finishReadiness_def readiness_endpoint_def readiness_status_def
  readiness_timing_def Let_def

lemmas restart_defs = finish_restart_def finishRestartBackoff_def backoff_cap_def finishUser_def user_account_def
  finish_timeouts_def Let_def

lemmas rest_defs = finish_rest_def finish_proxy_def ignored_def finish_notify_def finishWatchdog_def watchdog_mode_def
  watchdog_required_def watchdog_tcp_def watchdog_http_def watchdog_status_def finishWatchdogPolicy_def policy_grace_def
  policy_threshold_def Let_def

lemma same_commands:
  "keeps (same commands) (finish_policy pe s)" "keeps (same commands) (finish_rest pe s)"
  unfolding finish_policy_def restart_defs limits_defs readiness_defs rest_defs
  by (intro stages; simp add: commands_def)+

lemma finish_command_runnable:
  assumes "\<not> failed (finish_command pe s (new_ServiceSpec, p))"
  shows "runnable (fst (finish_command pe s (new_ServiceSpec, p)))"
proof -
  define sp1 where "sp1 = (finish_service_name s \<circ> finish_remain s \<circ> finish_type s) (new_ServiceSpec, p)"
  define sp2 where "sp2 = finish_task_name s sp1"
  define sp3 where "sp3 = finish_exec pe s sp2"
  define sp4 where "sp4 = finish_stop pe s sp3"
  have sp4: "finish_command pe s (new_ServiceSpec, p) = sp4"
    by (simp add: finish_command_def sp4_def sp3_def sp2_def sp1_def)
  have ok4: "\<not> failed sp4" using assms sp4 by simp
  have ok3: "\<not> failed sp3" by (rule passedD [OF later_stages(2) [of pe s], of sp3, folded sp4_def, OF ok4])
  have ok2: "\<not> failed sp2" by (rule passedD [OF later_stages(1) [of pe s], of sp2, folded sp3_def, OF ok3])
  have ok1: "\<not> failed sp1" by (rule passedD [OF later_names(4) [of s], of sp1, folded sp2_def, OF ok2])
  have new: "ExecStart (fst sp2) = []" "ExecStop (fst sp2) = []" "WorkingDirectory (fst sp2) = []"
    using sameD [OF same_start(1), of s "(new_ServiceSpec, p)"]
    unfolding sp2_def sp1_def by (simp_all add: new_ServiceSpec_def)
  have keep: "SType (fst sp2) = SType (fst sp1)" "ServiceName (fst sp2) = ServiceName (fst sp1)"
    "SType (fst sp3) = SType (fst sp2)" "ServiceName (fst sp3) = ServiceName (fst sp2)" "TaskName (fst sp3) = TaskName (fst sp2)"
    "ExecStop (fst sp3) = []" "SType (fst sp4) = SType (fst sp3)" "ServiceName (fst sp4) = ServiceName (fst sp3)"
    "TaskName (fst sp4) = TaskName (fst sp3)" "ExecStart (fst sp4) = ExecStart (fst sp3)"
    "WorkingDirectory (fst sp4) = WorkingDirectory (fst sp3)"
    using sameD [OF same_start(2), of s sp1, folded sp2_def] sameD [OF same_start(3), of pe s sp2, folded sp3_def]
      sameD [OF same_start(4), of pe s sp3, folded sp4_def] new(2) by simp_all
  have scm: "SType (fst sp1) = TypeSCM \<Longrightarrow> ServiceName (fst sp1) \<noteq> []"
    using finish_service_name_ok ok1 unfolding sp1_def by simp
  have task: "SType (fst sp2) = TypeScheduledTask \<Longrightarrow> TaskName (fst sp2) \<noteq> []"
    using finish_task_name_ok ok2 unfolding sp2_def by simp
  note start = finish_exec_ok [of pe s sp2, folded sp3_def, OF ok3 new(1,3)]
  note stop = finish_stop_ok [of pe s sp3, folded sp4_def, OF ok4 keep(6)]
  show ?thesis
    unfolding runnable_def sp4 using scm task start stop unfolding keep by (simp split: if_splits)
qed

section \<open>Restart back-off\<close>

definition restart_base :: "ServiceSpec \<Rightarrow> int" where
  "restart_base spec = (if RestartSecSet spec then RestartSec spec else 100000000)"

definition backoff_ok :: "ServiceSpec \<Rightarrow> bool" where
  "backoff_ok spec \<longleftrightarrow>
     RestartBackoff spec \<in> {[], ''fixed'', ''exponential''}
     \<and> (RestartBackoff spec = ''exponential'' \<longrightarrow>
          0 < restart_base spec \<and> restart_base spec \<le> RestartMaxDelaySec spec \<and> RestartMaxDelaySec spec \<noteq> maxDuration)"

definition restarts :: "ServiceSpec \<Rightarrow> string \<times> int \<times> int \<times> bool" where
  "restarts spec = (RestartBackoff spec, RestartMaxDelaySec spec, RestartSec spec, RestartSecSet spec)"

lemma backoff_ok_restarts: "restarts spec = restarts spec' \<Longrightarrow> backoff_ok spec = backoff_ok spec'"
  by (simp add: restarts_def backoff_ok_def restart_base_def)

lemma finishRestartBackoff_ok:
  assumes "\<not> failed (finishRestartBackoff s sp)" "RestartBackoff (fst sp) = []"
  shows "backoff_ok (fst (finishRestartBackoff s sp))"
  using assms
  by (auto simp: finishRestartBackoff_def backoff_cap_def backoff_ok_def restart_base_def Let_def split: if_splits sum.splits)

lemma same_restarts:
  "keeps (same RestartBackoff) (finish_command pe s)" "keeps (same RestartBackoff) (finish_restart s)"
  "keeps (same restarts) (finishReadiness pe s \<circ> finish_stop_timeout s \<circ> finishJobLimits s \<circ> finish_timeouts s \<circ> finishUser s)"
  "keeps (same restarts) (finish_rest pe s)"
  unfolding finish_command_def command_defs restart_defs limits_defs readiness_defs rest_defs
  by (intro stages; simp add: restarts_def)+

end
