(* ===== verification/Service_Accepted.thy ===== *)
theory Service_Accepted
  imports Service_Checks
begin

text \<open>
  Resource limits, probes and time-outs of a service without errors, and the summary of all checks of
  \<open>finishService\<close>.
\<close>

section \<open>Resource limits\<close>

definition limits_range :: "ServiceSpec \<Rightarrow> bool" where
  "limits_range spec \<longleftrightarrow>
     (MemoryMaxSet spec \<longrightarrow> 0 < unat (MemoryMax spec)) \<and> (ProcessLimitSet spec \<longrightarrow> 1 \<le> uint (ProcessLimit spec))
     \<and> (CPUWeightSet spec \<longrightarrow> 1 \<le> uint (CPUWeight spec) \<and> uint (CPUWeight spec) \<le> 10000)
     \<and> (CPUQuotaSet spec \<longrightarrow> 1 \<le> uint (CPUQuota spec) \<and> uint (CPUQuota spec) \<le> 100)
     \<and> (PriorityClassSet spec \<longrightarrow> PriorityClassOf spec \<noteq> PriorityUnset)
     \<and> (IoPrioritySet spec \<longrightarrow> IoPriorityOf spec \<noteq> IoUnset)
     \<and> unat (WindowsCPUWeight spec) \<le> 9 \<and> uint (WindowsCPUQuota spec) \<le> 100"

definition no_limits :: "ServiceSpec \<Rightarrow> bool" where
  "no_limits spec \<longleftrightarrow>
     \<not> MemoryMaxSet spec \<and> \<not> ProcessLimitSet spec \<and> \<not> CPUWeightSet spec \<and> \<not> CPUQuotaSet spec
     \<and> \<not> PriorityClassSet spec \<and> \<not> IoPrioritySet spec"

definition limits_ok :: "ServiceSpec \<Rightarrow> bool" where
  "limits_ok spec \<longleftrightarrow>
     limits_range spec \<and> \<not> (CPUWeightSet spec \<and> CPUQuotaSet spec)
     \<and> (ServiceType_IsExternalProxy (SType spec) \<longrightarrow> no_limits spec)"

lemma unat_small: "n \<le> 9 \<Longrightarrow> unat (word_of_nat n :: 32 word) = n"
  by (simp add: unat_of_nat)

lemma limits_range_kept:
  "keeps (sound limits_range) (limits_values s)" "keeps (sound limits_range) (limits_proxy s)"
  unfolding limits_defs
  by (intro stages; simp add: limits_range_def unat_small parseMemoryMax_positive parseProcessLimit_range
      parseCPUWeight_range parseCPUQuota_range parsePriorityClass_set parseIoPriority_set)+

lemma cpu_exclusive_ok: "\<not> failed (cpu_exclusive s sp) \<Longrightarrow> \<not> (CPUWeightSet (fst (cpu_exclusive s sp)) \<and> CPUQuotaSet (fst (cpu_exclusive s sp)))"
  by (simp add: cpu_exclusive_def Let_def)

lemma limits_values_exclusive:
  assumes "\<not> failed (limits_values s sp)"
  shows "\<not> (CPUWeightSet (fst (limits_values s sp)) \<and> CPUQuotaSet (fst (limits_values s sp)))"
proof -
  define io where "io = given (bIoPriority s) [] parseIoPriority (\<lambda>c spec. spec\<lparr>IoPriorityOf := c, IoPrioritySet := True\<rparr>)"
  obtain sp1 where sp1: "limits_values s sp = io (cpu_exclusive s sp1)"
    by (simp add: limits_values_def io_def)
  have "keeps later io" "keeps (same (\<lambda>spec. (CPUWeightSet spec, CPUQuotaSet spec))) io"
    unfolding io_def by (intro stages; simp)+
  from passedD [OF this(1), of "cpu_exclusive s sp1"] sameD [OF this(2), of "cpu_exclusive s sp1"] show ?thesis
    using assms cpu_exclusive_ok [of s sp1] unfolding sp1 by simp
qed

lemma limits_proxy_none: "no_limits (fst (limits_proxy s sp))"
  by (simp add: limits_proxy_def drop_limit_def no_limits_def)

lemma limits_proxy_type: "keeps (same SType) (limits_proxy s)" "keeps (same SType) (limits_values s)"
  unfolding limits_defs by (intro stages; simp)+

lemma finishJobLimits_ok:
  assumes "\<not> failed (finishJobLimits s sp)" "limits_range (fst sp)"
  shows "limits_ok (fst (finishJobLimits s sp))"
proof -
  define sp1 where "sp1 = limits_values s sp"
  have ok: "\<not> failed sp1"
    using assms(1) passedD [OF later_parts(10) [of s], of sp1] unfolding finishJobLimits_def sp1_def by (auto split: if_splits)
  have range: "limits_range (fst sp1)"
    using soundD [OF limits_range_kept(1) [of s], of sp] ok assms(2) unfolding sp1_def by blast
  show ?thesis
  proof (cases "ServiceType_IsExternalProxy (SType (fst sp1))")
    case True
    then have j: "finishJobLimits s sp = limits_proxy s sp1" by (simp add: finishJobLimits_def sp1_def)
    have "limits_range (fst (limits_proxy s sp1))"
      using soundD [OF limits_range_kept(2) [of s], of sp1] range assms(1) unfolding j by blast
    then show ?thesis using limits_proxy_none [of s sp1] unfolding j limits_ok_def by (simp add: no_limits_def)
  next
    case False
    then have "finishJobLimits s sp = sp1" by (simp add: finishJobLimits_def sp1_def)
    then show ?thesis using False range limits_values_exclusive [of s sp] ok unfolding limits_ok_def sp1_def by simp
  qed
qed

section \<open>Readiness\<close>

definition finite_positive :: "int \<Rightarrow> bool" where
  "finite_positive d \<longleftrightarrow> 0 < d \<and> d \<noteq> maxDuration"

definition reached :: "parse_env \<Rightarrow> ServiceSpec \<Rightarrow> bool" where
  "reached pe spec \<longleftrightarrow>
     ReadinessMode spec = WatchdogModeTCP \<and> probe_addr (ReadinessAddr spec)
     \<or> ReadinessMode spec = WatchdogModeHTTP
       \<and> (\<exists>u. ReadinessURL spec = url_String (urlLib pe) u \<and> probe_addr (Host u))"

definition readiness_ok :: "parse_env \<Rightarrow> ServiceSpec \<Rightarrow> bool" where
  "readiness_ok pe spec \<longleftrightarrow>
     ReadinessMode spec = WatchdogModeUnset \<or>
     SType spec = TypeSimple \<and> reached pe spec \<and> finite_positive (TimeoutStartSec spec)
     \<and> finite_positive (ReadinessIntervalSec spec) \<and> finite_positive (ReadinessTimeoutSec spec)"

lemma readiness_endpoint_ok:
  assumes "\<not> failed (readiness_endpoint pe s sp)"
  shows "reached pe (fst (readiness_endpoint pe s sp))"
  using assms parseTCP_probe_addr parseHTTP_probe_addr
  by (auto simp: readiness_endpoint_def reached_def on_res_def Let_def split: if_splits sum.splits)

lemma readiness_timing_kept:
  "keeps (same (\<lambda>spec. (SType spec, ReadinessMode spec, ReadinessAddr spec, ReadinessURL spec))) (readiness_timing s)"
  "keeps (same (\<lambda>spec. (SType spec, ReadinessMode spec, ReadinessAddr spec, ReadinessURL spec))) (readiness_status s)"
  "keeps (same SType) (readiness_endpoint pe s)"
  unfolding readiness_defs by (intro stages; simp)+

lemma readiness_timing_ok:
  assumes "\<not> failed (readiness_timing s sp)"
  defines "spec \<equiv> fst (readiness_timing s sp)"
  shows "finite_positive (TimeoutStartSec spec)" "finite_positive (ReadinessIntervalSec spec)"
    "finite_positive (ReadinessTimeoutSec spec)"
  using assms
  by (auto simp: readiness_timing_def positive_finite_def finite_positive_def Let_def maxDuration_def maxInt64_def
    split: if_splits sum.splits)

lemma finishReadiness_ok:
  assumes "\<not> failed (finishReadiness pe s sp)" "ReadinessMode (fst sp) = WatchdogModeUnset"
  shows "readiness_ok pe (fst (finishReadiness pe s sp))"
proof (cases "finishReadiness pe s sp = sp")
  case False
  define sp1 where "sp1 = readiness_endpoint pe s sp"
  define sp2 where "sp2 = readiness_status s sp1"
  have f: "finishReadiness pe s sp = readiness_timing s sp2" "SType (fst sp) = TypeSimple"
    using assms(1) False unfolding finishReadiness_def sp2_def sp1_def by (auto split: if_splits)
  then have ok3: "\<not> failed (readiness_timing s sp2)" using assms(1) by simp
  have ok2: "\<not> failed sp2" by (rule passedD [OF later_watch(3) ok3])
  have ok1: "\<not> failed sp1" by (rule passedD [OF later_watch(2) [of s], of sp1, folded sp2_def, OF ok2])
  have "reached pe (fst sp1)" using readiness_endpoint_ok ok1 unfolding sp1_def by blast
  then show ?thesis
    using readiness_timing_ok [OF ok3] sameD [OF readiness_timing_kept(1) [of s], of sp2] f(2)
      sameD [OF readiness_timing_kept(2) [of s], of sp1, folded sp2_def] sameD [OF readiness_timing_kept(3) [of pe s], of sp, folded sp1_def]
    unfolding readiness_ok_def f(1) reached_def by simp
qed (simp add: assms(2) readiness_ok_def)

section \<open>Watchdog\<close>

definition watch_ok :: "parse_env \<Rightarrow> ServiceSpec \<Rightarrow> bool" where
  "watch_ok pe spec \<longleftrightarrow>
     (WatchdogModeOf spec = WatchdogModeTCP \<or> WatchdogModeOf spec = WatchdogModeHTTP \<longrightarrow>
        WatchdogSecSet spec \<and> 0 < WatchdogSec spec \<and> probe_addr (WatchdogAddr spec)
        \<and> (WatchdogModeOf spec = WatchdogModeHTTP \<longrightarrow>
             (\<exists>u. WatchdogURL spec = url_String (urlLib pe) u \<and> Host u = WatchdogAddr spec)))"

lemma watchdog_required_ok:
  "fst (watchdog_required s ep sp) = fst sp"
  "\<not> failed (watchdog_required s ep sp) \<Longrightarrow> WatchdogModeOf (fst sp) = WatchdogModeTCP \<or> WatchdogModeOf (fst sp) = WatchdogModeHTTP \<Longrightarrow>
     WatchdogSecSet (fst sp) \<and> 0 < WatchdogSec (fst sp) \<and> ep \<noteq> []"
  by (auto simp: watchdog_required_def Let_def split: if_splits)

lemma watchdog_tcp_ok:
  "WatchdogModeOf (fst sp) \<noteq> WatchdogModeTCP \<Longrightarrow> watchdog_tcp s ep sp = sp"
  "\<not> failed (watchdog_tcp s ep sp) \<Longrightarrow> WatchdogModeOf (fst sp) = WatchdogModeTCP \<Longrightarrow> ep \<noteq> [] \<Longrightarrow>
     probe_addr (WatchdogAddr (fst (watchdog_tcp s ep sp)))"
  by (auto simp: watchdog_tcp_def on_res_def parseTCP_probe_addr split: sum.splits)

lemma watchdog_http_ok:
  "WatchdogModeOf (fst sp) \<noteq> WatchdogModeHTTP \<Longrightarrow> watchdog_http pe s ep sp = sp"
  "\<not> failed (watchdog_http pe s ep sp) \<Longrightarrow> WatchdogModeOf (fst sp) = WatchdogModeHTTP \<Longrightarrow> ep \<noteq> [] \<Longrightarrow>
     \<exists>u. WatchdogURL (fst (watchdog_http pe s ep sp)) = url_String (urlLib pe) u
       \<and> WatchdogAddr (fst (watchdog_http pe s ep sp)) = Host u \<and> probe_addr (Host u)"
  using parseHTTP_probe_addr by (auto simp: watchdog_http_def on_res_def split: sum.splits)

lemma same_probe:
  "keeps (same (\<lambda>spec. (WatchdogModeOf spec, WatchdogSecSet spec, WatchdogSec spec))) (watchdog_tcp s ep)"
  "keeps (same (\<lambda>spec. (WatchdogModeOf spec, WatchdogSecSet spec, WatchdogSec spec))) (watchdog_http pe s ep)"
  unfolding rest_defs by (intro stages; simp)+

lemma watchdog_addr_ok:
  assumes "\<not> failed ((watchdog_http pe s ep \<circ> watchdog_tcp s ep \<circ> watchdog_required s ep) sp)"
  shows "watch_ok pe (fst ((watchdog_http pe s ep \<circ> watchdog_tcp s ep \<circ> watchdog_required s ep) sp))"
proof -
  define sp1 where "sp1 = watchdog_required s ep sp"
  define sp2 where "sp2 = watchdog_tcp s ep sp1"
  define sp3 where "sp3 = watchdog_http pe s ep sp2"
  have ok3: "\<not> failed sp3" using assms by (simp add: sp3_def sp2_def sp1_def)
  have ok2: "\<not> failed sp2" by (rule passedD [OF later_watch(6) [of pe s ep], of sp2, folded sp3_def, OF ok3])
  have ok1: "\<not> failed sp1" by (rule passedD [OF later_watch(5) [of s ep], of sp1, folded sp2_def, OF ok2])
  have keep: "WatchdogModeOf (fst sp3) = WatchdogModeOf (fst sp1)" "WatchdogSecSet (fst sp3) = WatchdogSecSet (fst sp1)"
    "WatchdogSec (fst sp3) = WatchdogSec (fst sp1)" "WatchdogModeOf (fst sp2) = WatchdogModeOf (fst sp1)"
    using sameD [OF same_probe(1) [of s ep], of sp1, folded sp2_def] sameD [OF same_probe(2) [of pe s ep], of sp2, folded sp3_def]
    by simp_all
  have req: "WatchdogModeOf (fst sp1) = WatchdogModeTCP \<or> WatchdogModeOf (fst sp1) = WatchdogModeHTTP \<Longrightarrow>
      WatchdogSecSet (fst sp1) \<and> 0 < WatchdogSec (fst sp1) \<and> ep \<noteq> []"
    using watchdog_required_ok [of s ep sp, folded sp1_def] ok1 by simp
  have tcp: "WatchdogModeOf (fst sp1) = WatchdogModeTCP \<Longrightarrow> probe_addr (WatchdogAddr (fst sp3))"
    using watchdog_tcp_ok(2) [of s ep sp1, folded sp2_def, OF ok2] watchdog_http_ok(1) [of sp2 pe s ep, folded sp3_def] keep req
    by simp
  have http: "WatchdogModeOf (fst sp1) = WatchdogModeHTTP \<Longrightarrow> \<exists>u. WatchdogURL (fst sp3) = url_String (urlLib pe) u
      \<and> WatchdogAddr (fst sp3) = Host u \<and> probe_addr (Host u)"
    using watchdog_http_ok(2) [of pe s ep sp2, folded sp3_def, OF ok3] keep req by simp
  have "watch_ok pe (fst sp3)"
    using req tcp http unfolding watch_ok_def keep by force
  then show ?thesis by (simp add: sp3_def sp2_def sp1_def)
qed

definition watch :: "ServiceSpec \<Rightarrow> WatchdogMode \<times> bool \<times> int \<times> string \<times> string" where
  "watch spec = (WatchdogModeOf spec, WatchdogSecSet spec, WatchdogSec spec, WatchdogAddr spec, WatchdogURL spec)"

lemma watch_ok_watch: "watch spec = watch spec' \<Longrightarrow> watch_ok pe spec = watch_ok pe spec'"
  by (simp add: watch_def watch_ok_def)

lemma same_watch:
  "keeps (same watch) (finishWatchdogPolicy s \<circ> watchdog_status s)" "keeps (same watch) (finish_proxy s)"
  unfolding rest_defs by (intro stages; simp add: watch_def)+

lemma finish_rest_watch:
  assumes "\<not> failed (finish_rest pe s sp)" "WatchdogModeOf (fst sp) = WatchdogModeUnset"
  shows "watch_ok pe (fst (finish_rest pe s sp))"
proof (cases "ServiceType_IsExternalProxy (SType (fst sp))")
  case True
  then have "watch (fst (finish_rest pe s sp)) = watch (fst sp)"
    using sameD [OF same_watch(2) [of s], of sp] by (simp add: finish_rest_def)
  then show ?thesis using assms(2) watch_ok_watch by (simp add: watch_ok_def watch_def)
next
  case False
  define ep where "ep = TrimSpace (fst (bWatchdogEP s))"
  define probe where "probe = watchdog_http pe s ep \<circ> watchdog_tcp s ep \<circ> watchdog_required s ep"
  define policy where "policy = finishWatchdogPolicy s \<circ> watchdog_status s"
  obtain sp1 where sp1: "finish_rest pe s sp = policy (probe sp1)"
    using False by (simp add: finish_rest_def finishWatchdog_def probe_def policy_def ep_def Let_def)
  have "keeps later policy" unfolding policy_def by (intro stages)
  then have "\<not> failed (probe sp1)" using assms(1) passedD unfolding sp1 by blast
  then have "watch_ok pe (fst (probe sp1))" using watchdog_addr_ok unfolding probe_def by blast
  then show ?thesis
    using sameD [OF same_watch(1) [of s], of "probe sp1", folded policy_def] watch_ok_watch unfolding sp1 by blast
qed

section \<open>All checks of a service\<close>

definition stop_ok :: "ServiceSpec \<Rightarrow> bool" where
  "stop_ok spec \<longleftrightarrow> (ExecStop spec \<noteq> [] \<and> TimeoutStopSecSet spec \<longrightarrow> 0 < TimeoutStopSec spec)"

definition service_ok :: "parse_env \<Rightarrow> ServiceSpec \<Rightarrow> bool" where
  "service_ok pe spec \<longleftrightarrow>
     runnable spec \<and> stop_ok spec \<and> backoff_ok spec \<and> limits_ok spec \<and> readiness_ok pe spec \<and> watch_ok pe spec"

definition limits :: "ServiceSpec \<Rightarrow> _" where
  "limits spec = (SType spec, MemoryMax spec, MemoryMaxSet spec, ProcessLimit spec, ProcessLimitSet spec, CPUWeight spec,
     CPUWeightSet spec, CPUQuota spec, CPUQuotaSet spec, PriorityClassOf spec, PriorityClassSet spec, IoPriorityOf spec,
     IoPrioritySet spec, WindowsCPUWeight spec, WindowsCPUQuota spec)"

definition readiness :: "ServiceSpec \<Rightarrow> _" where
  "readiness spec = (SType spec, ReadinessMode spec, ReadinessAddr spec, ReadinessURL spec, TimeoutStartSec spec,
     ReadinessIntervalSec spec, ReadinessTimeoutSec spec, ExecStop spec, TimeoutStopSec spec, TimeoutStopSecSet spec)"

lemma limits_ok_limits: "limits spec = limits spec' \<Longrightarrow> limits_ok spec = limits_ok spec'"
  by (simp add: limits_def limits_ok_def limits_range_def no_limits_def)

lemma readiness_ok_readiness:
  "readiness spec = readiness spec' \<Longrightarrow> readiness_ok pe spec = readiness_ok pe spec' \<and> stop_ok spec = stop_ok spec'"
  by (simp add: readiness_def readiness_ok_def reached_def stop_ok_def)

text \<open>The fields that a stage finds as \<open>new_ServiceSpec\<close> left them, and those later stages leave as they are.\<close>

lemma same_fresh:
  "keeps (sound limits_range) (finish_timeouts s \<circ> finishUser s \<circ> finishRestartBackoff s \<circ> finish_restart s)"
  "keeps (same ReadinessMode) (finish_stop_timeout s \<circ> finishJobLimits s \<circ> finish_timeouts s \<circ> finishUser s
     \<circ> finishRestartBackoff s \<circ> finish_restart s)"
  "keeps (same WatchdogModeOf) (finish_policy pe s)"
  unfolding finish_policy_def restart_defs limits_defs readiness_defs
  by (intro stages; simp add: limits_range_def)+

lemma command_fresh:
  "keeps (same limits_range) (finish_command pe s)"
  "keeps (same (\<lambda>spec. (RestartBackoff spec, ReadinessMode spec, WatchdogModeOf spec))) (finish_command pe s)"
  unfolding finish_command_def command_defs by (intro stages; simp add: limits_range_def)+

lemma same_late:
  "keeps (same limits) (finishReadiness pe s \<circ> finish_stop_timeout s)"
  "keeps (same stop_ok) (finishReadiness pe s)"
  "keeps (same limits) (finish_rest pe s)" "keeps (same readiness) (finish_rest pe s)"
  unfolding readiness_defs rest_defs
  by (intro stages; simp add: limits_def readiness_def stop_ok_def)+

lemma finish_stop_timeout_ok: "\<not> failed (finish_stop_timeout s sp) \<Longrightarrow> stop_ok (fst (finish_stop_timeout s sp))"
  by (auto simp: finish_stop_timeout_def stop_ok_def)

lemma finish_policy_backoff:
  assumes ok: "\<not> failed (finish_policy pe s c)" and new: "RestartBackoff (fst c) = []"
  shows "backoff_ok (fst (finish_policy pe s c))"
proof -
  define b where "b = finishRestartBackoff s (finish_restart s c)"
  define rest where "rest = finishReadiness pe s \<circ> finish_stop_timeout s \<circ> finishJobLimits s \<circ> finish_timeouts s \<circ> finishUser s"
  have pol: "finish_policy pe s c = rest b" by (simp add: finish_policy_def rest_def b_def)
  have "keeps later rest" unfolding rest_def by (intro stages)
  then have "\<not> failed b" using ok passedD pol by metis
  moreover have "RestartBackoff (fst (finish_restart s c)) = []"
    using sameD [OF same_restarts(2) [of s], of c] new by simp
  ultimately have "backoff_ok (fst b)" using finishRestartBackoff_ok unfolding b_def by blast
  then show ?thesis
    using sameD [OF same_restarts(3) [of pe s], of b, folded rest_def] backoff_ok_restarts pol by metis
qed

lemma finish_policy_limits:
  assumes ok: "\<not> failed (finish_policy pe s c)"
    and new: "limits_range (fst c)" "ReadinessMode (fst c) = WatchdogModeUnset"
  defines "r \<equiv> finish_policy pe s c"
  shows "limits_ok (fst r)" "stop_ok (fst r)" "readiness_ok pe (fst r)"
proof -
  define u where "u = (finish_timeouts s \<circ> finishUser s \<circ> finishRestartBackoff s \<circ> finish_restart s) c"
  define j where "j = finishJobLimits s u"
  define t where "t = finish_stop_timeout s j"
  have r: "r = finishReadiness pe s t" by (simp add: r_def finish_policy_def t_def j_def u_def)
  have okr: "\<not> failed (finishReadiness pe s t)" using ok r r_def by simp
  have okt: "\<not> failed t" by (rule passedD [OF later_stages(7) okr])
  have okj: "\<not> failed j" by (rule passedD [OF later_parts(12) [of s], of j, folded t_def, OF okt])
  have oku: "\<not> failed u" by (rule passedD [OF later_joined(1) [of s], of u, folded j_def, OF okj])
  have "limits_range (fst u)"
    using soundD [OF same_fresh(1) [of s], of c, folded u_def] new(1) oku by blast
  then have "limits_ok (fst j)" using finishJobLimits_ok okj oku unfolding j_def by blast
  moreover have "limits (fst r) = limits (fst j)"
    using sameD [OF same_late(1) [of pe s], of j] by (simp add: r t_def)
  ultimately show "limits_ok (fst r)" using limits_ok_limits by blast
  have "ReadinessMode (fst t) = WatchdogModeUnset"
    using sameD [OF same_fresh(2) [of s], of c] new(2) by (simp add: t_def j_def u_def)
  then show "readiness_ok pe (fst r)" using finishReadiness_ok okr unfolding r by blast
  show "stop_ok (fst r)"
    using finish_stop_timeout_ok okt sameD [OF same_late(2) [of pe s], of t] unfolding t_def r by blast
qed

lemma finish_stages_ok:
  fixes pe :: parse_env and s :: serviceBuilder and p :: parser
  defines "c \<equiv> finish_command pe s (new_ServiceSpec, p)"
  assumes ok: "\<not> failed (finish_rest pe s (finish_policy pe s c))"
  shows "service_ok pe (fst (finish_rest pe s (finish_policy pe s c)))"
proof -
  define r where "r = finish_policy pe s c"
  define f where "f = finish_rest pe s r"
  have okf: "\<not> failed f" using ok r_def f_def by simp
  have okr: "\<not> failed r" by (rule passedD [OF later_service(3) [of pe s], of r, folded f_def, OF okf])
  have okc: "\<not> failed c" by (rule passedD [OF later_service(2) [of pe s], of c, folded r_def, OF okr])
  have new: "limits_range (fst c)" "RestartBackoff (fst c) = []" "ReadinessMode (fst c) = WatchdogModeUnset"
    "WatchdogModeOf (fst c) = WatchdogModeUnset"
    using sameD [OF command_fresh(1) [of pe s], of "(new_ServiceSpec, p)"] sameD [OF command_fresh(2) [of pe s], of "(new_ServiceSpec, p)"]
    by (simp_all add: c_def limits_range_def new_ServiceSpec_def)
  have "runnable (fst r)"
    using finish_command_runnable okc [unfolded c_def] runnable_commands sameD [OF same_commands(1) [of pe s], of c] unfolding c_def r_def
    by metis
  moreover note finish_policy_backoff [OF okr [unfolded r_def] new(2), folded r_def]
    finish_policy_limits [OF okr [unfolded r_def] new(1,3), folded r_def]
  moreover have "watch_ok pe (fst f)"
    using finish_rest_watch okf new(4) sameD [OF same_fresh(3) [of pe s], of c] unfolding f_def r_def by metis
  ultimately have "service_ok pe (fst f)"
    using runnable_commands [OF sameD [OF same_commands(2) [of pe s], of r]] backoff_ok_restarts [OF sameD [OF same_restarts(4) [of pe s], of r]]
      limits_ok_limits [OF sameD [OF same_late(3) [of pe s], of r]] readiness_ok_readiness [OF sameD [OF same_late(4) [of pe s], of r]]
    unfolding service_ok_def f_def by blast
  then show ?thesis by (simp add: f_def r_def)
qed

lemma finishService_ok:
  assumes "\<not> has_error (pissues (finishService pe p))"
  shows "\<exists>spec. Service (punit (finishService pe p)) = Some spec \<and> service_ok pe spec"
proof (cases "psvc p")
  case None
  then show ?thesis using assms by (simp add: finishService_def errorf_def)
next
  case (Some s)
  then show ?thesis
    using assms finish_stages_ok [where pe = pe and s = s and p = p]
    by (auto simp: finishService_def failed_def split: prod.splits)
qed

end
