(* ===== verification/Unit_Parse.thy ===== *)
theory Unit_Parse
  imports Service_Accepted
begin

text \<open>
  Parsing a whole unit file: the checks of timer, registry, event-log and path units, the start limit and
  the interactive-session flag, the walk over the sections in \<open>parseReport\<close> and the entry points \<open>Parse\<close>
  and \<open>ParseUnit\<close> of \<open>internal/unit/parse.go\<close>.
\<close>

section \<open>Timers\<close>

definition MaxCalendarExpressions :: nat where
  "MaxCalendarExpressions = 64"

type_synonym tfin = "TimerSpec \<times> parser"

definition timer_duration :: "fv \<Rightarrow> string \<Rightarrow> (int \<Rightarrow> TimerSpec \<Rightarrow> TimerSpec) \<Rightarrow> tfin \<Rightarrow> tfin" where
  "timer_duration v label upd tp =
     (if fst v = [] then tp
      else case ParseDuration (fst v) of
             Inl e \<Rightarrow> (fst tp, errorf (snd v) (''invalid '' @ label @ '': '' @ e) (snd tp))
           | Inr d \<Rightarrow> (upd d (fst tp), snd tp))"

text \<open>The loop over \<open>t.calendars\<close>; \<open>i\<close> is the index of the first expression of the list.\<close>

fun add_calendars :: "nat \<Rightarrow> fv list \<Rightarrow> tfin \<Rightarrow> tfin" where
  "add_calendars i [] tp = tp"
| "add_calendars i (c # cs) tp =
     (if MaxCalendarExpressions \<le> i then
        (fst tp, errorf (snd c) (''timer exceeds '' @ Itoa MaxCalendarExpressions @ '' OnCalendar expressions'') (snd tp))
      else if TrimSpace (fst c) = [] then
        add_calendars (Suc i) cs (fst tp, errorf (snd c) ''invalid OnCalendar: empty calendar expression'' (snd tp))
      else case ParseCalendar (fst c) of
             Inl e \<Rightarrow> add_calendars (Suc i) cs (fst tp, errorf (snd c) (''invalid OnCalendar: '' @ e) (snd tp))
           | Inr cal \<Rightarrow> add_calendars (Suc i) cs ((fst tp)\<lparr>OnCalendar := OnCalendar (fst tp) @ [cal]\<rparr>, snd tp))"

definition defaultTimerUnit :: "tfin \<Rightarrow> tfin" where
  "defaultTimerUnit tp = ((fst tp)\<lparr>TimerUnit := CompanionService (pname (snd tp))\<rparr>, snd tp)"

definition timer_persistent :: "timerBuilder \<Rightarrow> tfin \<Rightarrow> tfin" where
  "timer_persistent t tp =
     (if bPersistentSet t then
        (case parseBool (fst (bPersistent t)) of
           Inl e \<Rightarrow> (fst tp, errorf (snd (bPersistent t)) (''invalid Persistent: '' @ e) (snd tp))
         | Inr b \<Rightarrow> ((fst tp)\<lparr>Persistent := b\<rparr>, snd tp))
      else tp)"

definition timer_unit :: "timerBuilder \<Rightarrow> tfin \<Rightarrow> tfin" where
  "timer_unit t tp =
     (if bUnitSet t then
        (let nm = NormalizeName (fst (bUnit t)) in
         if nm = [] then (fst tp, errorf (snd (bUnit t)) ''Unit= is empty'' (snd tp))
         else ((fst tp)\<lparr>TimerUnit := nm\<rparr>, snd tp))
      else defaultTimerUnit tp)"

definition timer_trigger :: "timerBuilder \<Rightarrow> tfin \<Rightarrow> tfin" where
  "timer_trigger t tp =
     (let hasTrigger = (fst (bOnBoot t) \<noteq> [] \<or> fst (bOnStartup t) \<noteq> [] \<or> fst (bOnUnitActive t) \<noteq> [] \<or> bCalendars t \<noteq> []) in
      if \<not> hasTrigger then
        (fst tp, errorf 0 ''timer must specify at least one of OnBootSec, OnStartupSec, OnUnitActiveSec, OnCalendar'' (snd tp))
      else tp)"

definition set_timer :: "tfin \<Rightarrow> parser" where
  "set_timer tp = (snd tp)\<lparr>punit := (punit (snd tp))\<lparr>Timer := Some (fst tp)\<rparr>\<rparr>"

definition finishTimer :: "parser \<Rightarrow> parser" where
  "finishTimer p =
     (case ptimer p of
        None \<Rightarrow> set_timer (defaultTimerUnit (new_TimerSpec, errorf 0 ''timer unit requires a [Timer] section'' p))
      | Some t \<Rightarrow>
          set_timer (timer_trigger t (timer_unit t (timer_persistent t (add_calendars 0 (bCalendars t)
            (timer_duration (bOnUnitActive t) ''OnUnitActiveSec'' (\<lambda>d spec. spec\<lparr>OnUnitActiveSec := d, OnUnitActiveSecSet := True\<rparr>)
              (timer_duration (bOnStartup t) ''OnStartupSec'' (\<lambda>d spec. spec\<lparr>OnStartupSec := d, OnStartupSecSet := True\<rparr>)
                (timer_duration (bOnBoot t) ''OnBootSec'' (\<lambda>d spec. spec\<lparr>OnBootSec := d, OnBootSecSet := True\<rparr>)
                  (new_TimerSpec, p)))))))))"

section \<open>Registry, event-log and path triggers\<close>

text \<open>The loop shared by the three kinds: report an empty or rejected value, else append the parsed one.\<close>

fun parse_each :: "string \<Rightarrow> string \<Rightarrow> (string \<Rightarrow> 'a res) \<Rightarrow> fv list \<Rightarrow> 'a list \<times> parser \<Rightarrow> 'a list \<times> parser" where
  "parse_each emptyMsg label parse [] xp = xp"
| "parse_each emptyMsg label parse (v # vs) xp =
     (if TrimSpace (fst v) = [] then parse_each emptyMsg label parse vs (fst xp, errorf (snd v) emptyMsg (snd xp))
      else case parse (fst v) of
             Inl e \<Rightarrow> parse_each emptyMsg label parse vs (fst xp, errorf (snd v) (label @ e) (snd xp))
           | Inr x \<Rightarrow> parse_each emptyMsg label parse vs (fst xp @ [x], snd xp))"

definition error_when :: "bool \<Rightarrow> string \<Rightarrow> parser \<Rightarrow> parser" where
  "error_when b msg p = (if b then errorf 0 msg p else p)"

definition finishRegistry :: "parser \<Rightarrow> parser" where
  "finishRegistry p =
     (let set_reg = (\<lambda>keys q. q\<lparr>punit := (punit q)\<lparr>Registry := Some \<lparr>RegChanged = keys, RegUnit = CompanionService (pname p)\<rparr>\<rparr>\<rparr>) in
      case preg p of
        None \<Rightarrow> set_reg [] (errorf 0 ''registry unit requires a [Registry] section'' p)
      | Some changed \<Rightarrow>
          (case parse_each ''empty registry path'' ''invalid RegistryChanged: '' ParseKey changed ([], p) of
             (keys, q) \<Rightarrow> set_reg keys (error_when (changed = []) ''registry must specify RegistryChanged'' q)))"

definition finishEventLog :: "parser \<Rightarrow> parser" where
  "finishEventLog p =
     (let set_evt = (\<lambda>trs q. q\<lparr>punit := (punit q)\<lparr>EventLog := Some \<lparr>Triggers = trs, EvtUnit = CompanionService (pname p)\<rparr>\<rparr>\<rparr>) in
      case pevt p of
        None \<Rightarrow> set_evt [] (errorf 0 ''eventlog unit requires a [EventLog] section'' p)
      | Some triggers \<Rightarrow>
          (case parse_each ''empty EventLogTrigger'' ''invalid EventLogTrigger: '' ParseTrigger triggers ([], p) of
             (trs, q) \<Rightarrow> set_evt trs (error_when (triggers = []) ''eventlog must specify EventLogTrigger'' q)))"

definition finishPath :: "parser \<Rightarrow> parser" where
  "finishPath p =
     (let set_pth = (\<lambda>anyOf ch ex q. q\<lparr>punit := (punit q)\<lparr>PathWatch :=
            Some \<lparr>ExistsAny = anyOf, PathChanged = ch, PathExists = ex, PathUnit = CompanionService (pname p)\<rparr>\<rparr>\<rparr>);
          v2 = (FormatVersion (punit p) = 2) in
      case ppth p of
        None \<Rightarrow> set_pth False [] [] (errorf 0 ''path unit requires a [Path] section'' p)
      | Some ph \<Rightarrow>
          (let p1 = error_when (bExistsAll ph \<and> \<not> v2) ''PathExistsAll requires FormatVersion=2'' p;
               p2 = error_when (bExistsAll ph \<and> bExistsAny ph) ''PathExists and PathExistsAll cannot be combined'' p1 in
           case parse_each ''empty path'' ''invalid PathChanged: '' PathParse (bChanged ph) ([], p2) of (ch, p3) \<Rightarrow>
             (case parse_each ''empty path'' ''invalid PathExists: '' ParseExists (bExists ph) ([], p3) of (ex, p4) \<Rightarrow>
                set_pth (v2 \<and> \<not> bExistsAll ph) ch ex
                  (error_when (bChanged ph = [] \<and> bExists ph = []) ''path must specify PathChanged or PathExists'' p4))))"

section \<open>Unit-wide checks\<close>

definition finishInteractiveSession :: "parser \<Rightarrow> parser" where
  "finishInteractiveSession p =
     (if \<not> prisSet p then p
      else case parseBool (fst (pris p)) of
             Inl e \<Rightarrow> errorf (snd (pris p)) (''invalid RequiresInteractiveSession: '' @ e) p
           | Inr b \<Rightarrow> p\<lparr>punit := (punit p)\<lparr>RequiresInteractiveSession := b\<rparr>\<rparr>)"

definition start_limit_interval :: "parser \<Rightarrow> parser" where
  "start_limit_interval p =
     (let v = pstartLimitInterval p in
      if fst v = [] then p
      else case ParseDuration (fst v) of
             Inl e \<Rightarrow> errorf (snd v) (''invalid StartLimitIntervalSec: '' @ e) p
           | Inr d \<Rightarrow> p\<lparr>punit := (punit p)\<lparr>StartLimitInterval := d\<rparr>\<rparr>)"

definition start_limit_burst :: "parser \<Rightarrow> parser" where
  "start_limit_burst p =
     (let v = pstartLimitBurst p in
      if fst v = [] then p
      else case parseStartLimitBurst (fst v) of
             Inl e \<Rightarrow> errorf (snd v) e p
           | Inr n \<Rightarrow> p\<lparr>punit := (punit p)\<lparr>StartLimitBurst := n\<rparr>\<rparr>)"

definition finishStartLimit :: "parser \<Rightarrow> parser" where
  "finishStartLimit p =
     start_limit_burst (start_limit_interval
       (p\<lparr>punit := (punit p)\<lparr>StartLimitInterval := DefaultStartLimitInterval, StartLimitBurst := DefaultStartLimitBurst\<rparr>\<rparr>))"

definition finish_kind :: "parse_env \<Rightarrow> parser \<Rightarrow> parser" where
  "finish_kind pe p =
     (case pkind p of
        KindService \<Rightarrow> finishService pe p
      | KindTimer \<Rightarrow> finishTimer p
      | KindRegistry \<Rightarrow> finishRegistry p
      | KindEventLog \<Rightarrow> finishEventLog p
      | KindPath \<Rightarrow> finishPath p
      | KindTarget \<Rightarrow> p)"

definition finish :: "parse_env \<Rightarrow> parser \<Rightarrow> parser" where
  "finish pe p = finishStartLimit (finishInteractiveSession (finish_kind pe p))"

section \<open>The whole file\<close>

definition new_parser :: "string \<Rightarrow> name \<Rightarrow> Kind \<Rightarrow> parser" where
  "new_parser path canon kind = \<lparr>formatLine = 0, ppath = path, pname = canon, pkind = kind,
     punit = new_Unit 1 canon path kind, pissues = [], psvc = None, ptimer = None, preg = None, pevt = None, ppth = None,
     pris = unset, prisSet = False, pstartLimitInterval = unset, pstartLimitBurst = unset\<rparr>"

definition unknown_directive :: "string \<Rightarrow> iniEntry \<Rightarrow> parser \<Rightarrow> parser" where
  "unknown_directive sec e p =
     errorf (eline e) (''unknown directive '' @ Quote (ekey e) @ '' in section ['' @ sec @ '']'') p"

fun apply_entries :: "string \<Rightarrow> string list \<Rightarrow> iniEntry list \<Rightarrow> parser \<Rightarrow> parser" where
  "apply_entries sec known [] p = p"
| "apply_entries sec known (e # es) p =
     apply_entries sec known es (if ekey e \<notin> set known then unknown_directive sec e p else apply_entry sec e p)"

definition open_section :: "string \<Rightarrow> parser \<Rightarrow> parser" where
  "open_section sec p =
     (if sec = ''Registry'' then p\<lparr>preg := Some (opt_default [] (preg p))\<rparr>
      else if sec = ''EventLog'' then p\<lparr>pevt := Some (opt_default [] (pevt p))\<rparr>
      else if sec = ''Path'' then p\<lparr>ppth := Some (opt_default new_pathBuilder (ppth p))\<rparr>
      else p)"

definition section_allowed :: "Kind \<Rightarrow> iniSection \<Rightarrow> parser \<Rightarrow> parser" where
  "section_allowed kind sec p =
     (if sname sec \<notin> set (sectionsByKind kind) then
        (case map_of knownDirectives (sname sec) of
           Some _ \<Rightarrow> errorf (sline sec) (''section ['' @ sname sec @ ''] is not valid in a '' @ Kind_string kind @ '' unit'') p
         | None \<Rightarrow> errorf (sline sec) (''unknown section ['' @ sname sec @ '']'') p)
      else p)"

definition apply_section :: "Kind \<Rightarrow> iniSection \<Rightarrow> parser \<Rightarrow> parser" where
  "apply_section kind sec p =
     (let p1 = section_allowed kind sec p in
      case map_of knownDirectives (sname sec) of
        None \<Rightarrow> fold (unknown_directive (sname sec)) (entries sec) p1
      | Some known \<Rightarrow> apply_entries (sname sec) known (entries sec) (open_section (sname sec) p1))"

definition parseReport :: "parse_env \<Rightarrow> string \<Rightarrow> string \<Rightarrow> string \<Rightarrow> Report" where
  "parseReport pe path nm src =
     (case KindFromName nm of
        Inl e \<Rightarrow> \<lparr>RUnit = None, Issues = [\<lparr>IssuePath = path, Line = 0, Sev = SeverityError, Message = e\<rparr>]\<rparr>
      | Inr kind \<Rightarrow>
          (case parseINI src path of (doc, iniIssues) \<Rightarrow>
             let p = finish pe (fold (apply_section kind) (sections doc)
                       ((new_parser path (NormalizeName nm) kind)\<lparr>pissues := iniIssues\<rparr>))
             in \<lparr>RUnit = Some (punit p), Issues = pissues p\<rparr>))"

text \<open>\<open>Parse\<close> passes no file check, so that of the operating system is used: the one of \<open>parse_env\<close>.\<close>

definition Parse :: "parse_env \<Rightarrow> string \<Rightarrow> string \<Rightarrow> string \<Rightarrow> Report" where
  "Parse pe path nm src = parseReport pe path nm src"

definition ParseUnit :: "parse_env \<Rightarrow> string \<Rightarrow> string \<Rightarrow> Report" where
  "ParseUnit pe nm src = Parse pe nm nm src"

section \<open>What parsing keeps\<close>

definition named :: "name list \<Rightarrow> bool" where
  "named ns \<longleftrightarrow> list_all (\<lambda>n. canonical n \<and> n \<noteq> []) ns"

definition wf_unit :: "Unit \<Rightarrow> bool" where
  "wf_unit u \<longleftrightarrow>
     (FormatVersion u = 1 \<or> FormatVersion u = 2) \<and> canonical (Name u)
     \<and> named (Requires u) \<and> named (Wants u) \<and> named (BindsTo u) \<and> named (PartOf u) \<and> named (After u) \<and> named (Before u)
     \<and> named (WantedBy u) \<and> list_all (\<lambda>n. CheckLinkName n = Inr ()) (WantedBy u)
     \<and> 0 \<le> StartLimitBurst u \<and> 0 \<le> StartLimitInterval u \<and> StartLimitInterval u \<le> maxDuration"

definition advances :: "parser \<Rightarrow> parser \<Rightarrow> bool" where
  "advances p q \<longleftrightarrow>
     (has_error (pissues p) \<longrightarrow> has_error (pissues q)) \<and> (wf_unit (punit p) \<longrightarrow> wf_unit (punit q))
     \<and> pname q = pname p \<and> pkind q = pkind p \<and> UKind (punit q) = UKind (punit p) \<and> Name (punit q) = Name (punit p)"

named_theorems adv \<open>parser steps that keep errors, well-formedness and identity\<close>

lemma advances_refl [adv, simp]: "advances p p"
  by (simp add: advances_def)

lemma advances_trans: "advances p q \<Longrightarrow> advances q r \<Longrightarrow> advances p r"
  by (simp add: advances_def)

lemma advances_errorf [adv, simp]: "advances p (errorf l m p)" "advances p (errorf l m p\<lparr>psvc := sv\<rparr>)"
  by (simp_all add: advances_def errorf_def)

lemma advances_unit:
  "pissues q = pissues p \<Longrightarrow> pname q = pname p \<Longrightarrow> pkind q = pkind p \<Longrightarrow> UKind (punit q) = UKind (punit p) \<Longrightarrow> Name (punit q) = Name (punit p) \<Longrightarrow>
     (wf_unit (punit p) \<Longrightarrow> wf_unit (punit q)) \<Longrightarrow> advances p q"
  by (simp add: advances_def)

lemma named_simps [simp]: "named []" "named (ns @ [n]) \<longleftrightarrow> named ns \<and> canonical n \<and> n \<noteq> []"
  by (auto simp: named_def)

lemma named_add_names [simp]: "named cur \<Longrightarrow> named (add_names cur ns)"
  by (induction cur ns rule: add_names.induct) (simp_all add: Let_def)

lemma named_applyList [simp]: "named cur \<Longrightarrow> named (applyList cur v)"
  by (simp add: applyList_def)

lemma advances_applyUnit [adv]: "advances p (applyUnit e p)"
proof (cases "ekey e = ''FormatVersion''")
  case True
  then show ?thesis
    using formatVersion_range
    by (auto simp: applyUnit_def Let_def advances_def errorf_def wf_unit_def split: option.splits)
next
  case False
  show ?thesis
    by (rule advances_unit) (use False in \<open>simp_all add: applyUnit_def Let_def wf_unit_def\<close>)
qed

lemma advances_applyService [adv]: "advances p (applyService e s p)"
  by (auto simp: applyService_def Let_def advances_def errorf_def split: sum.splits option.splits)

lemma advances_fold: "(\<And>x q. advances q (f x q)) \<Longrightarrow> advances p (fold f xs p)"
proof (induction xs arbitrary: p)
  case (Cons x xs)
  show ?case using advances_trans [OF Cons.prems(1) Cons.IH [OF Cons.prems(1)]] by simp
qed simp

lemma advances_wanted: "n \<noteq> [] \<Longrightarrow> canonical n \<Longrightarrow> CheckLinkName n = Inr () \<Longrightarrow>
    advances p (p\<lparr>punit := (punit p)\<lparr>WantedBy := WantedBy (punit p) @ [n]\<rparr>\<rparr>)"
  by (rule advances_unit) (simp_all add: wf_unit_def)

definition wanted_step :: "nat \<Rightarrow> string \<Rightarrow> parser \<Rightarrow> parser" where
  "wanted_step line n p =
     (let n' = NormalizeName n in
      if n' = [] then p
      else case CheckLinkName n' of
             Inl e \<Rightarrow> errorf line (''invalid WantedBy: '' @ e) p
           | Inr _ \<Rightarrow> p\<lparr>punit := (punit p)\<lparr>WantedBy := WantedBy (punit p) @ [n']\<rparr>\<rparr>)"

lemma add_wanted_fold: "add_wanted line ns p = fold (wanted_step line) ns p"
  by (induction ns arbitrary: p) (simp_all add: wanted_step_def Let_def split: sum.split)

lemma advances_add_wanted [adv]: "advances p (add_wanted line ns p)"
  unfolding add_wanted_fold
  by (rule advances_fold) (simp add: wanted_step_def Let_def advances_wanted split: sum.split)

lemma advances_applyInstall [adv]: "advances p (applyInstall e p)"
  using advances_add_wanted by (auto simp: applyInstall_def intro: advances_unit simp: wf_unit_def)

lemma advances_builders [adv, simp]:
  "advances p (p\<lparr>ptimer := bt\<rparr>)" "advances p (p\<lparr>preg := br\<rparr>)" "advances p (p\<lparr>pevt := be\<rparr>)" "advances p (p\<lparr>ppth := bp\<rparr>)"
  by (simp_all add: advances_def)

lemma advances_apply_entry [adv]: "advances p (apply_entry sec e p)"
  by (simp add: apply_entry_def advances_applyUnit advances_applyService advances_applyInstall)

lemma advances_unknown [adv, simp]: "advances p (unknown_directive sec e p)"
  by (simp add: unknown_directive_def)

lemma apply_entries_fold:
  "apply_entries sec known es p = fold (\<lambda>e q. if ekey e \<notin> set known then unknown_directive sec e q else apply_entry sec e q) es p"
  by (induction es arbitrary: p) simp_all

lemma advances_apply_entries [adv]: "advances p (apply_entries sec known es p)"
  unfolding apply_entries_fold by (rule advances_fold) (simp add: advances_apply_entry)

lemma advances_open_section [adv]: "advances p (open_section sec p)"
  by (simp add: open_section_def)

lemma advances_section_allowed [adv]: "advances p (section_allowed kind sec p)"
  by (auto simp: section_allowed_def split: option.splits)

lemma advances_apply_section [adv]: "advances p (apply_section kind sec p)"
proof (cases "map_of knownDirectives (sname sec)")
  case None
  then show ?thesis
    using advances_trans [OF advances_section_allowed advances_fold [of "unknown_directive (sname sec)"]]
    by (simp add: apply_section_def Let_def)
next
  case (Some known)
  then show ?thesis
    using advances_trans [OF advances_section_allowed advances_trans [OF advances_open_section advances_apply_entries]]
    by (simp add: apply_section_def Let_def)
qed

lemma advances_service: "advances p (finishService pe p)"
proof (cases "psvc p")
  case None
  have "advances (p\<lparr>punit := (punit p)\<lparr>Service := x\<rparr>\<rparr>) (errorf l m (p\<lparr>punit := (punit p)\<lparr>Service := x\<rparr>\<rparr>))" for l m x by simp
  then show ?thesis using None by (simp add: finishService_def advances_def wf_unit_def)
next
  case (Some s)
  define sp where "sp = (finish_rest pe s \<circ> finish_policy pe s \<circ> finish_command pe s) (new_ServiceSpec, p)"
  have k: "keeps later (finish_rest pe s \<circ> finish_policy pe s \<circ> finish_command pe s)" by (intro stages)
  have "settled sp = p\<lparr>pissues := []\<rparr>"
    using laterD [OF k, of "(new_ServiceSpec, p)"] by (simp add: sp_def settled_def)
  then have "punit (settled sp) = punit p" "pname (settled sp) = pname p" "pkind (settled sp) = pkind p" by simp_all
  then have "punit (snd sp) = punit p" "pname (snd sp) = pname p" "pkind (snd sp) = pkind p" by (simp_all add: settled_def)
  moreover have "has_error (pissues p) \<Longrightarrow> has_error (pissues (snd sp))"
    using passedD [OF k, of "(new_ServiceSpec, p)"] by (auto simp: failed_def sp_def)
  moreover have "finishService pe p = (snd sp)\<lparr>punit := (punit (snd sp))\<lparr>Service := Some (fst sp)\<rparr>\<rparr>"
    by (simp add: finishService_def Some sp_def split: prod.splits)
  ultimately show ?thesis by (simp add: advances_def wf_unit_def)
qed

text \<open>The other kinds only append errors to the parser they are given, then store their specification.\<close>

lemma advances_after_error: "advances (errorf l m p) q \<Longrightarrow> advances p q"
  by (rule advances_trans [OF advances_errorf(1)])

lemma advances_calendars: "advances (snd tp) (snd (add_calendars i cs tp))"
  by (induction i cs tp rule: add_calendars.induct)
    (auto dest!: advances_after_error split: sum.split)

lemma advances_timer_parts:
  "advances (snd tp) (snd (timer_duration v lbl upd tp))" "advances (snd tp) (snd (timer_persistent bt tp))"
  "advances (snd tp) (snd (timer_unit bt tp))" "advances (snd tp) (snd (timer_trigger bt tp))"
  by (simp_all add: timer_duration_def timer_persistent_def timer_unit_def timer_trigger_def defaultTimerUnit_def Let_def
      split: sum.split)

lemma advances_set_timer: "advances (snd tp) (set_timer tp)"
  by (simp add: set_timer_def advances_def wf_unit_def)

lemma advances_timer: "advances p (finishTimer p)"
proof (cases "ptimer p")
  case None
  then show ?thesis
    using advances_after_error [of 0 "''timer unit requires a [Timer] section''" p "finishTimer p"] advances_set_timer
    by (simp add: finishTimer_def defaultTimerUnit_def) (metis snd_conv)
next
  case (Some bt)
  define dur where "dur = (\<lambda>tp. timer_duration (bOnUnitActive bt) ''OnUnitActiveSec'' (\<lambda>d spec. spec\<lparr>OnUnitActiveSec := d, OnUnitActiveSecSet := True\<rparr>)
              (timer_duration (bOnStartup bt) ''OnStartupSec'' (\<lambda>d spec. spec\<lparr>OnStartupSec := d, OnStartupSecSet := True\<rparr>)
                (timer_duration (bOnBoot bt) ''OnBootSec'' (\<lambda>d spec. spec\<lparr>OnBootSec := d, OnBootSecSet := True\<rparr>) tp)))"
  have dur: "advances (snd tp) (snd (dur tp))" for tp
    unfolding dur_def 
    by (rule advances_trans [OF advances_trans [OF advances_timer_parts(1) advances_timer_parts(1)] advances_timer_parts(1)])
  have "finishTimer p = set_timer (timer_trigger bt (timer_unit bt (timer_persistent bt (add_calendars 0 (bCalendars bt) (dur (new_TimerSpec, p))))))"
    by (simp add: finishTimer_def Some dur_def)
  moreover have "advances p (snd (dur (new_TimerSpec, p)))" using dur [of "(new_TimerSpec, p)"] by simp
  ultimately show ?thesis
    using advances_trans [OF _ advances_trans [OF advances_calendars advances_trans [OF advances_timer_parts(2)
      advances_trans [OF advances_timer_parts(3) advances_trans [OF advances_timer_parts(4) advances_set_timer]]]]] by simp
qed

lemma advances_each: "advances (snd xp) (snd (parse_each em lbl parse vs xp))"
  by (induction em lbl parse vs xp rule: parse_each.induct)
    (auto dest!: advances_after_error split: sum.split)

end
