(* ===== verification/Unit_Report.thy ===== *)
theory Unit_Report
  imports Unit_Parse
begin

text \<open>
  What the report of a unit file guarantees: the unit is always well-formed, and a report without errors
  means that every section and directive is known, that a service passed all checks of \<open>finishService\<close> and
  that a trigger unit has the triggers it was written with.
\<close>

section \<open>The finishing steps\<close>

lemma advances_error_when [simp]: "advances p (error_when b m p)"
  by (simp add: error_when_def)

lemma has_error_error_when [simp]: "has_error (pissues (error_when b m p)) \<longleftrightarrow> b \<or> has_error (pissues p)"
  by (simp add: error_when_def errorf_def)

lemma advances_store:
  "advances p q \<Longrightarrow> advances p (q\<lparr>punit := (punit q)\<lparr>Registry := x\<rparr>\<rparr>)"
  "advances p q \<Longrightarrow> advances p (q\<lparr>punit := (punit q)\<lparr>EventLog := y\<rparr>\<rparr>)"
  "advances p q \<Longrightarrow> advances p (q\<lparr>punit := (punit q)\<lparr>PathWatch := z\<rparr>\<rparr>)"
  "advances p q \<Longrightarrow> advances p (q\<lparr>punit := (punit q)\<lparr>RequiresInteractiveSession := b\<rparr>\<rparr>)"
  by (simp_all add: advances_def wf_unit_def)

lemma advances_eachD: "parse_each em lbl parse vs (xs, p) = (ys, q) \<Longrightarrow> advances p q"
  using advances_each [of "(xs, p)" em lbl parse vs] by simp

lemma advances_registry: "advances p (finishRegistry p)"
  by (auto simp: finishRegistry_def Let_def split: option.splits prod.splits
      intro: advances_store(1) advances_trans [OF advances_eachD advances_error_when])

lemma advances_eventlog: "advances p (finishEventLog p)"
  by (auto simp: finishEventLog_def Let_def split: option.splits prod.splits
      intro: advances_store(2) advances_trans [OF advances_eachD advances_error_when])

lemma advances_path: "advances p (finishPath p)"
proof (cases "ppth p")
  case (Some ph)
  let ?p1 = "error_when (bExistsAll ph \<and> FormatVersion (punit p) \<noteq> 2) ''PathExistsAll requires FormatVersion=2'' p"
  let ?p2 = "error_when (bExistsAll ph \<and> bExistsAny ph) ''PathExists and PathExistsAll cannot be combined'' ?p1"
  obtain ch p3 where c: "parse_each ''empty path'' ''invalid PathChanged: '' PathParse (bChanged ph) ([], ?p2) = (ch, p3)" by fastforce
  obtain ex p4 where e: "parse_each ''empty path'' ''invalid PathExists: '' ParseExists (bExists ph) ([], p3) = (ex, p4)" by fastforce
  have "advances p p4"
    by (rule advances_trans [OF advances_error_when advances_trans [OF advances_error_when advances_trans [OF advances_eachD [OF c] advances_eachD [OF e]]]])
  then show ?thesis
    using Some c e by (simp add: finishPath_def Let_def advances_store(3) advances_trans [OF _ advances_error_when])
qed (simp add: finishPath_def Let_def advances_store(3))

lemma advances_session: "advances p (finishInteractiveSession p)"
  by (simp add: finishInteractiveSession_def advances_store(4) split: sum.split)

lemma advances_start_limit: "advances p (finishStartLimit p)"
proof -
  let ?p = "p\<lparr>punit := (punit p)\<lparr>StartLimitInterval := DefaultStartLimitInterval, StartLimitBurst := DefaultStartLimitBurst\<rparr>\<rparr>"
  have "advances p ?p"
    by (simp add: advances_def wf_unit_def DefaultStartLimitInterval_def DefaultStartLimitBurst_def maxDuration_def maxInt64_def)
  moreover have "advances q (start_limit_interval q)" for q
    by (auto simp: start_limit_interval_def Let_def advances_def wf_unit_def errorf_def split: sum.splits dest: ParseDuration_bounds)
  moreover have "advances q (start_limit_burst q)" for q
    by (auto simp: start_limit_burst_def Let_def advances_def wf_unit_def errorf_def split: sum.splits dest: parseStartLimitBurst_range)
  ultimately show ?thesis
    unfolding finishStartLimit_def using advances_trans by blast
qed

lemma advances_finish_kind: "advances p (finish_kind pe p)"
  by (simp add: finish_kind_def advances_service advances_timer advances_registry advances_eventlog advances_path split: Kind.split)

lemma advances_finish: "advances p (finish pe p)"
  unfolding finish_def
  by (rule advances_trans [OF advances_trans [OF advances_finish_kind advances_session] advances_start_limit])

text \<open>The last two steps leave the kind-specific part alone.\<close>

lemma finish_keeps:
  "Service (punit (finish pe p)) = Service (punit (finish_kind pe p))"
  "Timer (punit (finish pe p)) = Timer (punit (finish_kind pe p))"
  "Registry (punit (finish pe p)) = Registry (punit (finish_kind pe p))"
  "EventLog (punit (finish pe p)) = EventLog (punit (finish_kind pe p))"
  "PathWatch (punit (finish pe p)) = PathWatch (punit (finish_kind pe p))"
  by (simp_all add: finish_def finishStartLimit_def start_limit_interval_def start_limit_burst_def
      finishInteractiveSession_def errorf_def Let_def split: sum.split)

lemma finish_kind_passed: "\<not> has_error (pissues (finish pe p)) \<Longrightarrow> \<not> has_error (pissues (finish_kind pe p))"
  using advances_trans [OF advances_session advances_start_limit] unfolding finish_def advances_def by blast

section \<open>The parse as a whole\<close>

definition parsed :: "parse_env \<Rightarrow> string \<Rightarrow> string \<Rightarrow> Kind \<Rightarrow> string \<Rightarrow> parser" where
  "parsed pe path nm kind src =
     (case parseINI src path of (doc, iniIssues) \<Rightarrow>
        fold (apply_section kind) (sections doc) ((new_parser path (NormalizeName nm) kind)\<lparr>pissues := iniIssues\<rparr>))"

lemma parseReport_cases:
  assumes "RUnit (parseReport pe path nm src) = Some u"
  obtains kind where "KindFromName nm = Inr kind" "u = punit (finish pe (parsed pe path nm kind src))"
    "Issues (parseReport pe path nm src) = pissues (finish pe (parsed pe path nm kind src))"
  using assms by (auto simp: parseReport_def parsed_def Let_def split: sum.splits prod.splits)

lemma parseReport_unit:
  "KindFromName nm = Inr kind \<Longrightarrow> RUnit (parseReport pe path nm src) = Some (punit (finish pe (parsed pe path nm kind src)))"
  by (simp add: parseReport_def parsed_def Let_def split: prod.split)

lemma parsed_start: "\<exists>q. pkind q = kind \<and> pname q = NormalizeName nm \<and> punit q = new_Unit 1 (NormalizeName nm) path kind
    \<and> advances q (parsed pe path nm kind src)"
  using advances_fold [OF advances_apply_section]
  by (cases "parseINI src path")
    (auto simp: parsed_def new_parser_def intro!: exI [of _ "(new_parser path (NormalizeName nm) kind)\<lparr>pissues := snd (parseINI src path)\<rparr>"])

lemma parsed_keeps:
  "pkind (parsed pe path nm kind src) = kind" "pname (parsed pe path nm kind src) = NormalizeName nm"
  "Name (punit (parsed pe path nm kind src)) = NormalizeName nm" "UKind (punit (parsed pe path nm kind src)) = kind"
  "wf_unit (punit (parsed pe path nm kind src))"
proof -
  obtain q where q: "pkind q = kind" "pname q = NormalizeName nm" "punit q = new_Unit 1 (NormalizeName nm) path kind"
    and a: "advances q (parsed pe path nm kind src)" using parsed_start by blast
  have "wf_unit (punit q)" by (simp add: q(3) wf_unit_def new_Unit_def maxDuration_def maxInt64_def)
  then show "pkind (parsed pe path nm kind src) = kind" "pname (parsed pe path nm kind src) = NormalizeName nm"
    "Name (punit (parsed pe path nm kind src)) = NormalizeName nm" "UKind (punit (parsed pe path nm kind src)) = kind"
    "wf_unit (punit (parsed pe path nm kind src))"
    using a q by (simp_all add: advances_def new_Unit_def)
qed

section \<open>Unknown names\<close>

definition directives :: "string \<Rightarrow> string list" where
  "directives sec = opt_default [] (map_of knownDirectives sec)"

definition known_section :: "Kind \<Rightarrow> iniSection \<Rightarrow> bool" where
  "known_section kind sec \<longleftrightarrow>
     sname sec \<in> set (sectionsByKind kind) \<and> list_all (\<lambda>e. ekey e \<in> set (directives (sname sec))) (entries sec)"

lemma fold_error:
  assumes "\<And>x q. advances q (f x q)" "x \<in> set xs" "\<And>q. has_error (pissues (f x q))"
  shows "has_error (pissues (fold f xs q))"
  using assms(2)
proof (induction xs arbitrary: q)
  case (Cons y xs)
  then show ?case
    using assms(3) advances_fold [OF assms(1), where p = "f x q" and xs = xs] by (auto simp: advances_def)
qed simp

lemma apply_entries_error:
  assumes "e \<in> set es" "ekey e \<notin> set known"
  shows "has_error (pissues (apply_entries sec known es q))"
  unfolding apply_entries_fold
proof (rule fold_error [OF _ assms(1)])
  show "has_error (pissues (if ekey e \<notin> set known then unknown_directive sec e q else apply_entry sec e q))" for q
    using assms(2) by (simp add: unknown_directive_def errorf_def)
qed (simp add: advances_apply_entry)

lemma section_allowed_error: "sname sec \<notin> set (sectionsByKind kind) \<Longrightarrow> has_error (pissues (section_allowed kind sec q))"
  by (simp add: section_allowed_def errorf_def split: option.split)

lemma apply_section_error:
  assumes "\<not> known_section kind sec"
  shows "has_error (pissues (apply_section kind sec q))"
proof (cases "sname sec \<in> set (sectionsByKind kind)")
  case True
  then obtain e where e: "e \<in> set (entries sec)" "ekey e \<notin> set (directives (sname sec))"
    using assms by (auto simp: known_section_def list_all_iff)
  obtain known where "map_of knownDirectives (sname sec) = Some known"
    using True by (cases kind) (auto simp: knownDirectives_def)
  then show ?thesis
    using e apply_entries_error by (simp add: apply_section_def directives_def opt_default_def Let_def)
next
  case False
  let ?q = "section_allowed kind sec q"
  have "advances ?q (fold (unknown_directive (sname sec)) (entries sec) ?q)" by (rule advances_fold) simp
  moreover have "advances ?q (apply_entries (sname sec) known (entries sec) (open_section (sname sec) ?q))" for known
    by (rule advances_trans [OF advances_open_section advances_apply_entries])
  ultimately show ?thesis
    using section_allowed_error [OF False] by (simp add: apply_section_def Let_def advances_def split: option.split)
qed

lemma parsed_passed:
  assumes "\<not> has_error (pissues (finish pe (parsed pe path nm kind src)))"
  shows "\<not> has_error (snd (parseINI src path))" "list_all (known_section kind) (sections (fst (parseINI src path)))"
proof -
  let ?q = "(new_parser path (NormalizeName nm) kind)\<lparr>pissues := snd (parseINI src path)\<rparr>"
  have p: "parsed pe path nm kind src = fold (apply_section kind) (sections (fst (parseINI src path))) ?q"
    by (simp add: parsed_def split: prod.split)
  have ok: "\<not> has_error (pissues (parsed pe path nm kind src))"
    using assms advances_finish by (auto simp: advances_def)
  have "advances ?q (parsed pe path nm kind src)" unfolding p by (rule advances_fold) (rule advances_apply_section)
  then show "\<not> has_error (snd (parseINI src path))" using ok by (auto simp: advances_def)
  show "list_all (known_section kind) (sections (fst (parseINI src path)))"
    using fold_error [where f = "apply_section kind", OF advances_apply_section _ apply_section_error] ok
    unfolding p list_all_iff by blast
qed

text \<open>
  C15: nothing unknown is ignored.  If the report of a unit file has no error, the file is well-formed
  INI, each of its sections is one that the unit's kind allows, and each assignment in it is a directive
  of that section; a misspelt or misplaced name is always an error.
\<close>

theorem Parse_rejects_unknown:
  assumes "KindFromName nm = Inr kind" "\<not> HasError (Parse pe path nm src)"
  shows "\<not> has_error (snd (parseINI src path)) \<and> list_all (known_section kind) (sections (fst (parseINI src path)))"
proof -
  have "Issues (Parse pe path nm src) = pissues (finish pe (parsed pe path nm kind src))"
    using assms(1) by (simp add: Parse_def parseReport_def parsed_def Let_def split: prod.split)
  then show ?thesis using assms(2) parsed_passed unfolding HasError_def by metis
qed

definition sample_env :: parse_env where
  "sample_env = \<lparr>jsonArray = \<lambda>_. Inl ''not an array'', statFile = \<lambda>_. False,
     urlLib = \<lparr>url_Parse = \<lambda>_. Inl ''not a URL'', url_String = URLRest\<rparr>\<rparr>"

definition sample_service :: string where
  "sample_service = join_nl [''[Unit]'', ''After=db'', ''[Service]'', ''ExecStart=C:/web.exe'', ''MemoryMax=64M'',
     ''WatchdogMode=tcp'', ''WatchdogSec=5'', ''WatchdogEndpoint=localhost:80'']"

lemma sample_service_accepted: "\<not> HasError (Parse sample_env ''web.service'' ''web.service'' sample_service)"
  by code_simp

theorem Parse_rejects_unknown_witness:
  "list_all (known_section KindService) (sections (fst (parseINI sample_service ''web.service'')))"
proof -
  have "KindFromName ''web.service'' = Inr KindService" by code_simp
  from Parse_rejects_unknown [OF this sample_service_accepted] show ?thesis by simp
qed

section \<open>Accepted units\<close>

text \<open>
  C16: whatever a unit file contains, the unit that is reported has the kind and the normalised name of
  the file, a supported format version, dependency and install lists of normalised names that are never
  empty, targets that are a single path component, and a start limit within range.
\<close>

theorem Parse_unit_wf:
  assumes "RUnit (Parse pe path nm src) = Some u"
  shows "wf_unit u \<and> Name u = NormalizeName nm \<and> KindFromName nm = Inr (UKind u)"
proof -
  obtain kind where k: "KindFromName nm = Inr kind" and u: "u = punit (finish pe (parsed pe path nm kind src))"
    using assms parseReport_cases unfolding Parse_def by metis
  then show ?thesis
    using advances_finish [of "parsed pe path nm kind src" pe] parsed_keeps [of pe path nm kind src] by (simp add: advances_def)
qed

theorem Parse_unit_wf_witness:
  "\<exists>u. RUnit (Parse sample_env ''web.service'' ''web.service'' sample_service) = Some u \<and> wf_unit u \<and> Name u = ''web.service''"
proof -
  have k: "KindFromName ''web.service'' = Inr KindService" "NormalizeName ''web.service'' = ''web.service''" by code_simp+
  then obtain u where u: "RUnit (Parse sample_env ''web.service'' ''web.service'' sample_service) = Some u"
    using parseReport_unit unfolding Parse_def by blast
  from Parse_unit_wf [OF u] k(2) u show ?thesis by simp
qed

text \<open>
  C14: a service unit without errors can be run.  Its commands, working directory and names fit its type,
  an exponential back-off has a positive base and a finite cap, every resource limit is in range and none
  is left on a unit whose process winunitd does not own, and readiness and watchdog probes reach only
  loopback addresses with positive finite intervals.
\<close>

theorem Parse_service_ok:
  assumes "RUnit (Parse pe path nm src) = Some u" "\<not> HasError (Parse pe path nm src)" "UKind u = KindService"
  shows "\<exists>spec. Service u = Some spec \<and> service_ok pe spec"
proof -
  obtain kind where u: "u = punit (finish pe (parsed pe path nm kind src))"
    and i: "Issues (Parse pe path nm src) = pissues (finish pe (parsed pe path nm kind src))"
    using assms(1) parseReport_cases unfolding Parse_def by metis
  let ?p = "parsed pe path nm kind src"
  have "UKind u = UKind (punit ?p)" using advances_finish [of ?p pe] by (simp add: advances_def u)
  then have f: "finish_kind pe ?p = finishService pe ?p"
    using assms(3) parsed_keeps(1,4) [of pe path nm kind src] by (simp add: finish_kind_def)
  then have "\<not> has_error (pissues (finishService pe ?p))"
    using finish_kind_passed [of pe ?p] assms(2) i by (simp add: HasError_def)
  from finishService_ok [OF this] show ?thesis using finish_keeps(1) [of pe ?p] by (simp add: u f)
qed

theorem Parse_service_ok_witness:
  "\<exists>u spec. RUnit (Parse sample_env ''web.service'' ''web.service'' sample_service) = Some u
     \<and> Service u = Some spec \<and> service_ok sample_env spec"
proof -
  have k: "KindFromName ''web.service'' = Inr KindService" by code_simp
  define u where "u = punit (finish sample_env (parsed sample_env ''web.service'' ''web.service'' KindService sample_service))"
  have u: "RUnit (Parse sample_env ''web.service'' ''web.service'' sample_service) = Some u"
    using parseReport_unit [OF k] unfolding Parse_def u_def by blast
  have "UKind u = KindService"
    using advances_finish parsed_keeps(4) unfolding u_def advances_def by metis
  from Parse_service_ok [OF u sample_service_accepted this] u show ?thesis by blast
qed

end
