(* ===== verification/Unit_Verify.thy ===== *)
theory Unit_Verify
  imports Unit_Report
begin

text \<open>
  Trigger units and the checks around a single file: what a timer, registry, event-log or path unit
  without errors contains, the scope checks, \<open>VerifyPath\<close> of \<open>internal/unit/verify.go\<close> and the preview of
  \<open>ConvertToV2\<close> in \<open>internal/unit/migrate.go\<close>.
\<close>

section \<open>Trigger units\<close>

lemma each_passed:
  assumes "parse_each em lbl parse vs (xs, p) = (zs, q)" "\<not> has_error (pissues q)"
  shows "\<exists>ys. zs = xs @ ys \<and> list_all2 (\<lambda>v y. parse (fst v) = Inr y) vs ys"
  using assms
proof (induction vs arbitrary: xs p)
  case (Cons v vs)
  have bad: "parse_each em lbl parse vs (xs, errorf l m p) \<noteq> (zs, q)" for l m
    using Cons.prems(2) advances_eachD [of em lbl parse vs xs "errorf l m p" zs q] by (auto simp: advances_def errorf_def)
  then obtain y where y: "parse (fst v) = Inr y" "parse_each em lbl parse vs (xs @ [y], p) = (zs, q)"
    using Cons.prems(1) by (auto split: if_splits sum.splits)
  from Cons.IH [OF y(2) Cons.prems(2)] obtain ys where "zs = (xs @ [y]) @ ys" "list_all2 (\<lambda>v y. parse (fst v) = Inr y) vs ys"
    by blast
  then show ?case using y(1) by (intro exI [of _ "y # ys"]) simp
qed simp

lemma each_passed_new:
  assumes "parse_each em lbl parse vs ([], p) = (ys, q)" "\<not> has_error (pissues q)"
  shows "(ys = [] \<longleftrightarrow> vs = []) \<and> list_all (\<lambda>y. \<exists>raw. parse raw = Inr y) ys"
proof -
  from each_passed [OF assms] have l: "list_all2 (\<lambda>v y. parse (fst v) = Inr y) vs ys" by simp
  then show ?thesis by (fastforce simp: list_all_iff list_all2_conv_all_nth in_set_conv_nth)
qed

definition registry_ok :: "name \<Rightarrow> RegistrySpec \<Rightarrow> bool" where
  "registry_ok nm r \<longleftrightarrow>
     RegUnit r = CompanionService nm \<and> RegChanged r \<noteq> [] \<and> list_all (\<lambda>k. \<exists>raw. ParseKey raw = Inr k) (RegChanged r)"

definition eventlog_ok :: "name \<Rightarrow> EventLogSpec \<Rightarrow> bool" where
  "eventlog_ok nm e \<longleftrightarrow>
     EvtUnit e = CompanionService nm \<and> Triggers e \<noteq> [] \<and> list_all (\<lambda>t. \<exists>raw. ParseTrigger raw = Inr t) (Triggers e)"

definition path_ok :: "name \<Rightarrow> PathSpec \<Rightarrow> bool" where
  "path_ok nm s \<longleftrightarrow>
     PathUnit s = CompanionService nm \<and> (PathChanged s \<noteq> [] \<or> PathExists s \<noteq> [])
     \<and> list_all (\<lambda>p. windowsAbs (PRaw p)) (PathChanged s @ PathExists s)"

definition timer_ok :: "TimerSpec \<Rightarrow> bool" where
  "timer_ok t \<longleftrightarrow>
     canonical (TimerUnit t) \<and> TimerUnit t \<noteq> [] \<and> length (OnCalendar t) \<le> MaxCalendarExpressions \<and> list_all wf_calendar (OnCalendar t)
     \<and> (OnBootSecSet t \<or> OnStartupSecSet t \<or> OnUnitActiveSecSet t \<or> OnCalendar t \<noteq> [])"

lemma finishRegistry_ok:
  assumes "\<not> has_error (pissues (finishRegistry p))"
  shows "\<exists>r. Registry (punit (finishRegistry p)) = Some r \<and> registry_ok (pname p) r"
  using assms each_passed_new [where parse = ParseKey and p = p]
  by (auto simp: finishRegistry_def registry_ok_def errorf_def Let_def split: option.splits prod.splits)

lemma finishEventLog_ok:
  assumes "\<not> has_error (pissues (finishEventLog p))"
  shows "\<exists>e. EventLog (punit (finishEventLog p)) = Some e \<and> eventlog_ok (pname p) e"
  using assms each_passed_new [where parse = ParseTrigger and p = p]
  by (auto simp: finishEventLog_def eventlog_ok_def errorf_def Let_def split: option.splits prod.splits)

lemma parsed_paths_abs:
  "list_all (\<lambda>s. \<exists>raw. PathParse raw = Inr s) ps \<Longrightarrow> list_all (\<lambda>p. windowsAbs (PRaw p)) ps"
  "list_all (\<lambda>s. \<exists>raw. ParseExists raw = Inr s) ps \<Longrightarrow> list_all (\<lambda>p. windowsAbs (PRaw p)) ps"
  using parseAbs_ok by (auto simp: list_all_iff PathParse_def ParseExists_def)

lemma finishPath_ok:
  assumes "\<not> has_error (pissues (finishPath p))"
  shows "\<exists>s. PathWatch (punit (finishPath p)) = Some s \<and> path_ok (pname p) s"
proof (cases "ppth p")
  case None
  then show ?thesis using assms by (simp add: finishPath_def errorf_def Let_def)
next
  case (Some ph)
  let ?p1 = "error_when (bExistsAll ph \<and> FormatVersion (punit p) \<noteq> 2) ''PathExistsAll requires FormatVersion=2'' p"
  let ?p2 = "error_when (bExistsAll ph \<and> bExistsAny ph) ''PathExists and PathExistsAll cannot be combined'' ?p1"
  obtain ch p3 where c: "parse_each ''empty path'' ''invalid PathChanged: '' PathParse (bChanged ph) ([], ?p2) = (ch, p3)" by fastforce
  obtain ex p4 where e: "parse_each ''empty path'' ''invalid PathExists: '' ParseExists (bExists ph) ([], p3) = (ex, p4)" by fastforce
  have ok: "\<not> has_error (pissues p4)" "\<not> (bChanged ph = [] \<and> bExists ph = [])"
    using assms Some c e by (auto simp: finishPath_def Let_def)
  have "\<not> has_error (pissues p3)" using advances_eachD [OF e] ok(1) by (auto simp: advances_def)
  from each_passed_new [OF c this] each_passed_new [OF e ok(1)] ok(2) show ?thesis
    using Some c e parsed_paths_abs by (auto simp: finishPath_def path_ok_def Let_def)
qed

lemma calendars_passed:
  assumes "\<not> has_error (pissues (snd (add_calendars i cs tp)))" "length (OnCalendar (fst tp)) = i"
    "i \<le> MaxCalendarExpressions" "list_all wf_calendar (OnCalendar (fst tp))"
  shows "\<exists>cals. fst (add_calendars i cs tp) = (fst tp)\<lparr>OnCalendar := OnCalendar (fst tp) @ cals\<rparr> \<and> (cals = [] \<longleftrightarrow> cs = [])
    \<and> i + length cals \<le> MaxCalendarExpressions \<and> list_all wf_calendar (OnCalendar (fst tp) @ cals)"
  using assms
proof (induction cs arbitrary: i tp)
  case Nil
  then show ?case by simp
next
  case (Cons c cs)
  have bad: "has_error (pissues (snd (add_calendars j cs (x, errorf l m q))))" for j x l m q
    using advances_calendars [of "(x, errorf l m q)" j cs] by (simp add: advances_def errorf_def)
  with Cons.prems(1) obtain cal where cal: "ParseCalendar (fst c) = Inr cal" "i < MaxCalendarExpressions"
    and step: "add_calendars i (c # cs) tp = add_calendars (Suc i) cs ((fst tp)\<lparr>OnCalendar := OnCalendar (fst tp) @ [cal]\<rparr>, snd tp)"
    by (auto simp: errorf_def split: if_splits sum.splits)
  let ?tp = "((fst tp)\<lparr>OnCalendar := OnCalendar (fst tp) @ [cal]\<rparr>, snd tp)"
  have "wf_calendar cal" using ParseCalendar_accepted [OF cal(1)] by simp
  then obtain cals where c: "fst (add_calendars (Suc i) cs ?tp) = (fst tp)\<lparr>OnCalendar := (OnCalendar (fst tp) @ [cal]) @ cals\<rparr>"
    "Suc i + length cals \<le> MaxCalendarExpressions" "list_all wf_calendar ((OnCalendar (fst tp) @ [cal]) @ cals)"
    using Cons.IH [of "Suc i" ?tp] Cons.prems cal(2) step by (auto simp: Suc_le_eq)
  then show ?case unfolding step by (intro exI [of _ "cal # cals"]) simp
qed

lemma CompanionService_ok: "canonical (CompanionService nm) \<and> CompanionService nm \<noteq> []"
proof -
  have "CHR ''.'' \<in> set (base @ ''.service'')" for base by simp
  then have "TrimSpace (base @ ''.service'') \<noteq> []" for base
    using TrimSpace_blank [of "base @ ''.service''" "CHR ''.''"] by (auto simp: IsSpace_def is_ascii_def)
  then show ?thesis
    unfolding CompanionService_def Let_def using NormalizeName_fixpoint canonical_NormalizeName by blast
qed

text \<open>The part of a timer that its durations and flags decide, and the passes over it.\<close>

lemma timer_duration_passed:
  assumes "\<not> has_error (pissues (snd (timer_duration v lbl upd tp)))"
  shows "if fst v = [] then timer_duration v lbl upd tp = tp
    else \<exists>d. timer_duration v lbl upd tp = (upd d (fst tp), snd tp)"
  using assms by (auto simp: timer_duration_def errorf_def split: sum.splits)

lemma timer_tail:
  assumes "\<not> has_error (pissues (snd (timer_trigger bt (timer_unit bt (timer_persistent bt tp)))))"
  defines "spec \<equiv> fst (timer_trigger bt (timer_unit bt (timer_persistent bt tp)))"
  shows "canonical (TimerUnit spec) \<and> TimerUnit spec \<noteq> []" "OnCalendar spec = OnCalendar (fst tp)"
    "(OnBootSecSet spec, OnStartupSecSet spec, OnUnitActiveSecSet spec) =
       (OnBootSecSet (fst tp), OnStartupSecSet (fst tp), OnUnitActiveSecSet (fst tp))"
    "fst (bOnBoot bt) \<noteq> [] \<or> fst (bOnStartup bt) \<noteq> [] \<or> fst (bOnUnitActive bt) \<noteq> [] \<or> bCalendars bt \<noteq> []"
  using assms CompanionService_ok
  by (auto simp: timer_trigger_def timer_unit_def timer_persistent_def defaultTimerUnit_def errorf_def Let_def
      split: if_splits sum.splits)

lemma finishTimer_ok:
  assumes "\<not> has_error (pissues (finishTimer p))"
  shows "\<exists>t. Timer (punit (finishTimer p)) = Some t \<and> timer_ok t"
proof (cases "ptimer p")
  case None
  then show ?thesis using assms by (simp add: finishTimer_def set_timer_def defaultTimerUnit_def errorf_def)
next
  case (Some bt)
  define d1 where "d1 = timer_duration (bOnBoot bt) ''OnBootSec'' (\<lambda>d spec. spec\<lparr>OnBootSec := d, OnBootSecSet := True\<rparr>) (new_TimerSpec, p)"
  define d2 where "d2 = timer_duration (bOnStartup bt) ''OnStartupSec'' (\<lambda>d spec. spec\<lparr>OnStartupSec := d, OnStartupSecSet := True\<rparr>) d1"
  define d3 where "d3 = timer_duration (bOnUnitActive bt) ''OnUnitActiveSec'' (\<lambda>d spec. spec\<lparr>OnUnitActiveSec := d, OnUnitActiveSecSet := True\<rparr>) d2"
  define c where "c = add_calendars 0 (bCalendars bt) d3"
  define f where "f = timer_trigger bt (timer_unit bt (timer_persistent bt c))"
  have t: "finishTimer p = set_timer f" by (simp add: finishTimer_def Some f_def c_def d3_def d2_def d1_def)
  have okf: "\<not> has_error (pissues (snd f))" using assms by (simp add: t set_timer_def)
  have "advances (snd c) (snd f)" unfolding f_def
    by (rule advances_trans [OF advances_timer_parts(2) advances_trans [OF advances_timer_parts(3) advances_timer_parts(4)]])
  then have okc: "\<not> has_error (pissues (snd c))" using okf by (auto simp: advances_def)
  then have ok3: "\<not> has_error (pissues (snd d3))"
    using advances_calendars [of d3 0 "bCalendars bt", folded c_def] by (auto simp: advances_def)
  have "advances (snd d2) (snd d3)" "advances (snd d1) (snd d2)" unfolding d3_def d2_def by (rule advances_timer_parts(1))+
  then have ok2: "\<not> has_error (pissues (snd d2))" and ok1: "\<not> has_error (pissues (snd d1))"
    using ok3 by (auto simp: advances_def)
  have 1: "OnCalendar (fst d1) = []" "fst (bOnBoot bt) \<noteq> [] \<Longrightarrow> OnBootSecSet (fst d1)"
    using timer_duration_passed [OF ok1 [unfolded d1_def], folded d1_def] by (auto simp: new_TimerSpec_def split: if_splits)
  have 2: "OnCalendar (fst d2) = []" "fst (bOnStartup bt) \<noteq> [] \<Longrightarrow> OnStartupSecSet (fst d2)" "OnBootSecSet (fst d2) = OnBootSecSet (fst d1)"
    using timer_duration_passed [OF ok2 [unfolded d2_def], folded d2_def] 1(1) by (auto split: if_splits)
  have 3: "OnCalendar (fst d3) = []" "fst (bOnUnitActive bt) \<noteq> [] \<Longrightarrow> OnUnitActiveSecSet (fst d3)"
    "OnBootSecSet (fst d3) = OnBootSecSet (fst d2)" "OnStartupSecSet (fst d3) = OnStartupSecSet (fst d2)"
    using timer_duration_passed [OF ok3 [unfolded d3_def], folded d3_def] 2(1) by (auto split: if_splits)
  obtain cals where "fst c = (fst d3)\<lparr>OnCalendar := cals\<rparr>" "cals = [] \<longleftrightarrow> bCalendars bt = []"
    "length cals \<le> MaxCalendarExpressions" "list_all wf_calendar cals"
    using calendars_passed [OF okc [unfolded c_def]] 3(1) unfolding c_def [symmetric] by auto
  then have "timer_ok (fst f)"
    using timer_tail [OF okf [unfolded f_def], folded f_def] 1(2) 2(2,3) 3(2-4) by (auto simp: timer_ok_def)
  then show ?thesis by (simp add: t set_timer_def)
qed

definition trigger_ok :: "Unit \<Rightarrow> bool" where
  "trigger_ok u =
     (case UKind u of
        KindTimer \<Rightarrow> (\<exists>t. Timer u = Some t \<and> timer_ok t)
      | KindRegistry \<Rightarrow> (\<exists>r. Registry u = Some r \<and> registry_ok (Name u) r)
      | KindEventLog \<Rightarrow> (\<exists>e. EventLog u = Some e \<and> eventlog_ok (Name u) e)
      | KindPath \<Rightarrow> (\<exists>s. PathWatch u = Some s \<and> path_ok (Name u) s)
      | KindService \<Rightarrow> True
      | KindTarget \<Rightarrow> True)"

text \<open>
  C17: a timer, registry, event-log or path unit without errors has at least one trigger, and exactly
  triggers that were parsed: well-formed calendars, at most as many as the timer engine takes, registry
  keys and event-log triggers that their parsers accepted, absolute paths.  It starts a unit with a
  normalised, non-empty name.
\<close>

theorem Parse_trigger_ok:
  assumes "RUnit (Parse pe path nm src) = Some u" "\<not> HasError (Parse pe path nm src)"
  shows "trigger_ok u"
proof -
  obtain kind where u: "u = punit (finish pe (parsed pe path nm kind src))"
    and i: "Issues (Parse pe path nm src) = pissues (finish pe (parsed pe path nm kind src))"
    using assms(1) parseReport_cases unfolding Parse_def by metis
  let ?p = "parsed pe path nm kind src"
  have k: "UKind u = kind" "Name u = pname ?p" "pkind ?p = kind"
    using advances_finish [of ?p pe] parsed_keeps [of pe path nm kind src] by (simp_all add: advances_def u)
  have "\<not> has_error (pissues (finish_kind pe ?p))"
    using finish_kind_passed [of pe ?p] assms(2) i by (simp add: HasError_def)
  then show ?thesis
    using k finish_keeps [of pe ?p] finishTimer_ok finishRegistry_ok finishEventLog_ok finishPath_ok
    by (cases kind) (simp_all add: trigger_ok_def finish_kind_def u)
qed

definition sample_timer :: string where
  "sample_timer = join_nl [''[Timer]'', ''OnCalendar=Mon..Fri 03:00'', ''Unit=backup'']"

theorem Parse_trigger_ok_witness:
  "\<exists>u t. RUnit (Parse sample_env ''nightly.timer'' ''nightly.timer'' sample_timer) = Some u \<and> Timer u = Some t \<and> timer_ok t"
proof -
  have k: "KindFromName ''nightly.timer'' = Inr KindTimer" by code_simp
  define u where "u = punit (finish sample_env (parsed sample_env ''nightly.timer'' ''nightly.timer'' KindTimer sample_timer))"
  have u: "RUnit (Parse sample_env ''nightly.timer'' ''nightly.timer'' sample_timer) = Some u"
    using parseReport_unit [OF k] unfolding Parse_def u_def by blast
  have "\<not> HasError (Parse sample_env ''nightly.timer'' ''nightly.timer'' sample_timer)" by code_simp
  from Parse_trigger_ok [OF u this] have "trigger_ok u" .
  moreover have "UKind u = KindTimer" using advances_finish parsed_keeps(4) unfolding u_def advances_def by metis
  ultimately show ?thesis using u by (simp add: trigger_ok_def)
qed

section \<open>Scope checks\<close>

definition issue_error :: "string \<Rightarrow> string \<Rightarrow> Issue" where
  "issue_error path msg = \<lparr>IssuePath = path, Line = 0, Sev = SeverityError, Message = msg\<rparr>"

definition companionKind :: "Kind \<Rightarrow> bool" where
  "companionKind k \<longleftrightarrow> k = KindRegistry \<or> k = KindEventLog \<or> k = KindPath"

definition RegistryScopeIssues :: "Unit option \<Rightarrow> bool \<Rightarrow> Issue list" where
  "RegistryScopeIssues uo userScope =
     (case uo of None \<Rightarrow> []
      | Some u \<Rightarrow>
          (case Registry u of None \<Rightarrow> []
           | Some r \<Rightarrow>
               map (\<lambda>_. issue_error (UPath u)
                 ''HKCU is not valid in the system manager (LocalSystem hive); use HKLM or a user manager'')
                 (filter (\<lambda>key. \<not> AllowedInScope key userScope) (RegChanged r))))"

definition EventLogScopeIssues :: "Unit option \<Rightarrow> bool \<Rightarrow> Issue list" where
  "EventLogScopeIssues uo userScope =
     (case uo of None \<Rightarrow> []
      | Some u \<Rightarrow>
          (case EventLog u of None \<Rightarrow> []
           | Some e \<Rightarrow>
               (if \<not> userScope then []
                else map (\<lambda>tr. issue_error (UPath u)
                       (Channel tr @ '' is not valid in a user manager; use Application or a custom log''))
                       (filter RestrictedInUserScope (Triggers e)))))"

definition UserScopeIssues :: "Unit option \<Rightarrow> bool \<Rightarrow> Issue list" where
  "UserScopeIssues uo userScope =
     (case uo of None \<Rightarrow> []
      | Some u \<Rightarrow>
          (case Service u of None \<Rightarrow> []
           | Some s \<Rightarrow>
               (if \<not> userScope \<or> \<not> UserDeclared s then []
                else [issue_error (UPath u) ''User is only supported in system units; a user manager runs as its user''])))"

definition HasReadinessProbe :: "ServiceSpec option \<Rightarrow> bool" where
  "HasReadinessProbe so =
     (case so of None \<Rightarrow> False | Some s \<Rightarrow> ReadinessMode s = WatchdogModeTCP \<or> ReadinessMode s = WatchdogModeHTTP)"

definition WaitsForReadiness :: "ServiceSpec option \<Rightarrow> bool" where
  "WaitsForReadiness so = (case so of None \<Rightarrow> False | Some s \<Rightarrow> SType s = TypeNotify \<or> HasReadinessProbe so)"

section \<open>Verifying a file\<close>

text \<open>
  The file system as \<open>VerifyPath\<close> uses it: opening a file, reading at most a number of bytes, closing it
  (each with its error), and whether a file of a given name stands in the directory of a path.
\<close>

record file_env =
  fOpen :: "string \<Rightarrow> string option"
  fRead :: "string \<Rightarrow> nat \<Rightarrow> string \<times> string option"
  fClose :: "string \<Rightarrow> string option"
  fSibling :: "string \<Rightarrow> name \<Rightarrow> bool"

definition MaxFileBytes :: nat where
  "MaxFileBytes = push_bit 10 64"

definition exceeds :: "string \<Rightarrow> string" where
  "exceeds what = what @ '' exceeds '' @ Itoa MaxFileBytes @ '' bytes''"

definition read_unit :: "file_env \<Rightarrow> string \<Rightarrow> string \<times> string option" where
  "read_unit fs path =
     (case fOpen fs path of
        Some e \<Rightarrow> ([], Some e)
      | None \<Rightarrow>
          (case fRead fs path (MaxFileBytes + 1) of (contents, e) \<Rightarrow>
             (contents, if MaxFileBytes < length contents then Some (exceeds ''unit file'')
                        else if e = None then fClose fs path else e)))"

definition companionIssues :: "file_env \<Rightarrow> string \<Rightarrow> name \<Rightarrow> Issue list" where
  "companionIssues fs path nm =
     (let companion = CompanionService nm in
      if \<not> fSibling fs path companion then [issue_error path (''missing companion '' @ companion)] else [])"

definition VerifyPath :: "parse_env \<Rightarrow> file_env \<Rightarrow> string \<Rightarrow> Report" where
  "VerifyPath pe fs path =
     (case read_unit fs path of
        (_, Some e) \<Rightarrow> \<lparr>RUnit = None, Issues = [issue_error path e]\<rparr>
      | (contents, None) \<Rightarrow>
          (let rep = Parse pe path (UnitNameFromPath path) contents in
           case RUnit rep of
             None \<Rightarrow> rep
           | Some u \<Rightarrow>
               (if companionKind (UKind u) then rep\<lparr>Issues := Issues rep @ companionIssues fs path (Name u)\<rparr> else rep)))"

text \<open>
  C40: a file that verifies is complete and startable.  Without errors the whole file was read, it is at
  most 64 KiB, parsing it reports no error, and for a registry, event-log or path unit the service that it
  starts stands next to it.
\<close>

theorem VerifyPath_ok:
  assumes "\<not> HasError (VerifyPath pe fs path)"
  shows "\<exists>contents. fOpen fs path = None \<and> fRead fs path (MaxFileBytes + 1) = (contents, None) \<and> fClose fs path = None
    \<and> length contents \<le> 65536 \<and> \<not> HasError (Parse pe path (UnitNameFromPath path) contents)
    \<and> (case RUnit (Parse pe path (UnitNameFromPath path) contents) of
         Some u \<Rightarrow> companionKind (UKind u) \<longrightarrow> fSibling fs path (CompanionService (Name u))
       | None \<Rightarrow> False)"
proof -
  obtain contents where r: "read_unit fs path = (contents, None)"
    using assms by (cases "read_unit fs path")
      (auto simp: VerifyPath_def HasError_def issue_error_def split: option.splits)
  then have f: "fOpen fs path = None" "fRead fs path (MaxFileBytes + 1) = (contents, None)" "fClose fs path = None"
    "length contents \<le> MaxFileBytes"
    by (auto simp: read_unit_def split: option.splits prod.splits if_splits)
  let ?rep = "Parse pe path (UnitNameFromPath path) contents"
  have "\<not> HasError ?rep" "(case RUnit ?rep of Some u \<Rightarrow> companionKind (UKind u) \<longrightarrow> fSibling fs path (CompanionService (Name u)) | None \<Rightarrow> True)"
    using assms r by (auto simp: VerifyPath_def HasError_def companionIssues_def issue_error_def Let_def split: option.splits if_splits)
  moreover have "RUnit ?rep \<noteq> None"
    using calculation(1) by (auto simp: Parse_def parseReport_def HasError_def Let_def split: sum.splits prod.splits)
  ultimately show ?thesis using f by (auto simp: MaxFileBytes_def push_bit_eq_mult split: option.splits)
qed

definition sample_files :: file_env where
  "sample_files = \<lparr>fOpen = \<lambda>_. None, fRead = \<lambda>_ n. (take n sample_timer, None), fClose = \<lambda>_. None, fSibling = \<lambda>_ _. True\<rparr>"

theorem VerifyPath_ok_witness:
  "\<exists>contents. fRead sample_files ''C:/units/nightly.timer'' (MaxFileBytes + 1) = (contents, None)
     \<and> \<not> HasError (Parse sample_env ''C:/units/nightly.timer'' (UnitNameFromPath ''C:/units/nightly.timer'') contents)"
proof -
  have "\<not> HasError (VerifyPath sample_env sample_files ''C:/units/nightly.timer'')" by code_simp
  from VerifyPath_ok [OF this] show ?thesis by blast
qed

section \<open>Converting to format version 2\<close>

record Migration =
  SourceVersion :: int
  TargetVersion :: int
  Changes :: "string list"
  Output :: "string option"
  MIssues :: "Issue list"

record migration_scan =
  replacements :: "(nat \<times> string) list"
  marker :: bool
  weight :: "iniEntry option"
  quota :: "iniEntry option"

definition replace_line :: "nat \<Rightarrow> string \<Rightarrow> migration_scan \<Rightarrow> migration_scan" where
  "replace_line i s m = m\<lparr>replacements := (i, s) # replacements m\<rparr>"

definition scan_entry :: "string \<Rightarrow> iniEntry \<Rightarrow> migration_scan \<Rightarrow> migration_scan" where
  "scan_entry sec e m =
     (let i = eline e - 1 in
      if sec = ''Unit'' \<and> ekey e = ''FormatVersion'' then replace_line i ''FormatVersion=2'' (m\<lparr>marker := True\<rparr>)
      else if sec = ''Path'' \<and> ekey e = ''PathExists'' then replace_line i (''PathExistsAll='' @ evalue e) m
      else if sec = ''Service'' \<and> ekey e = ''CPUWeight'' then replace_line i [] (m\<lparr>weight := Some e\<rparr>)
      else if sec = ''Service'' \<and> ekey e = ''CPUQuota'' then replace_line i [] (m\<lparr>quota := Some e\<rparr>)
      else m)"

definition scan_doc :: "iniFile \<Rightarrow> migration_scan" where
  "scan_doc doc =
     fold (\<lambda>sec m. fold (scan_entry (sname sec)) (entries sec) m) (sections doc)
       \<lparr>replacements = [], marker = False, weight = None, quota = None\<rparr>"

definition change_weight :: "ServiceSpec option \<Rightarrow> migration_scan \<times> string list \<Rightarrow> migration_scan \<times> string list" where
  "change_weight svc mc =
     (case weight (fst mc) of
        None \<Rightarrow> mc
      | Some e \<Rightarrow>
          (case svc of
             Some s \<Rightarrow>
               (if CPUWeightSet s then
                  (let n = WindowsCPUWeight_of (CPUWeight s) in
                   (replace_line (eline e - 1) (''WindowsCPUWeight='' @ Itoa (unat n)) (fst mc),
                    snd mc @ [''CPUWeight='' @ Itoa (unat (CPUWeight s)) @ '' becomes WindowsCPUWeight='' @ Itoa (unat n)
                      @ ''; effective native weight is unchanged'']))
                else (fst mc, snd mc @ [''remove CPUWeight assignments that have no effective resource policy'']))
           | None \<Rightarrow> (fst mc, snd mc @ [''remove CPUWeight assignments that have no effective resource policy''])))"

definition change_quota :: "ServiceSpec option \<Rightarrow> migration_scan \<times> string list \<Rightarrow> migration_scan \<times> string list" where
  "change_quota svc mc =
     (case quota (fst mc) of
        None \<Rightarrow> mc
      | Some e \<Rightarrow>
          (case svc of
             Some s \<Rightarrow>
               (if CPUQuotaSet s then
                  (let q = Itoa (unat (CPUQuota s)) @ ''%'' in
                   (replace_line (eline e - 1) (''WindowsCPUQuota='' @ q) (fst mc),
                    snd mc @ [''CPUQuota='' @ q @ '' becomes WindowsCPUQuota='' @ q @ ''; effective native quota is unchanged'']))
                else (fst mc, snd mc @ [''remove CPUQuota assignments that have no effective resource policy'']))
           | None \<Rightarrow> (fst mc, snd mc @ [''remove CPUQuota assignments that have no effective resource policy''])))"

text \<open>The number of further lines that a line starting with continuations takes.\<close>

fun continued :: "string list \<Rightarrow> nat" where
  "continued (l # l' # ls) = (if isLineContinuation l then Suc (continued (l' # ls)) else 0)"
| "continued _ = 0"

function emit :: "(nat \<times> string) list \<Rightarrow> nat \<Rightarrow> string list \<Rightarrow> string" where
  "emit rep i [] = []"
| "emit rep i (l # ls) =
     (case map_of rep i of
        Some s \<Rightarrow>
          (let k = continued (l # ls) in
           (if s \<noteq> [] then s @ [newline] else []) @ emit rep (i + 1 + k) (drop k ls))
      | None \<Rightarrow> l @ (if ls \<noteq> [] then [newline] else []) @ emit rep (i + 1) ls)"
  by pat_completeness auto
termination by (relation "measure (\<lambda>(_, _, ls). length ls)") auto

definition ConvertToV2 :: "parse_env \<Rightarrow> string \<Rightarrow> string \<Rightarrow> string \<Rightarrow> Migration" where
  "ConvertToV2 pe path nm src =
     (let m0 = \<lparr>SourceVersion = 0, TargetVersion = 2, Changes = [], Output = None, MIssues = []\<rparr>;
          fail = (\<lambda>m what. m\<lparr>Output := None, MIssues := MIssues m @ [issue_error path (exceeds what)]\<rparr>);
          report = Parse pe path nm src; m1 = m0\<lparr>MIssues := Issues report\<rparr> in
      if MaxFileBytes < length src then fail m0 ''unit file''
      else if HasError report then m1
      else case RUnit report of
             None \<Rightarrow> m1
           | Some u \<Rightarrow>
               (let m2 = m1\<lparr>SourceVersion := FormatVersion u\<rparr> in
                if FormatVersion u = 2 then m2\<lparr>Output := Some src\<rparr>
                else
                  (let pathChange = (case PathWatch u of
                         Some s \<Rightarrow> (if PathExists s \<noteq> [] then [''rename PathExists to PathExistsAll to preserve the existing AND predicate''] else [])
                       | None \<Rightarrow> []);
                       mc = change_quota (Service u) (change_weight (Service u)
                              (scan_doc (fst (parseINI src path)), ''select FormatVersion=2 explicitly'' # pathChange));
                       lead = (if marker (fst mc) then [] else ''[Unit]'' @ [newline] @ ''FormatVersion=2'' @ [newline, newline]);
                       out = lead @ emit (replacements (fst mc)) 0 (splitLines (stripBOM src));
                       m3 = m2\<lparr>Changes := snd mc, Output := Some out\<rparr>;
                       converted = Parse pe path nm out in
                   if MaxFileBytes < length out then fail m3 ''converted unit''
                   else if HasError converted then m3\<lparr>Output := None, MIssues := MIssues m3 @ Issues converted\<rparr>
                   else m3)))"

definition rewritten :: "string \<Rightarrow> iniEntry \<Rightarrow> bool" where
  "rewritten sec e \<longleftrightarrow>
     (sec, ekey e) \<in> set [(''Unit'', ''FormatVersion''), (''Path'', ''PathExists''), (''Service'', ''CPUWeight''), (''Service'', ''CPUQuota'')]"

definition unaffected :: "iniFile \<Rightarrow> bool" where
  "unaffected doc \<longleftrightarrow> list_all (\<lambda>sec. list_all (\<lambda>e. \<not> rewritten (sname sec) e) (entries sec)) (sections doc)"

lemma scan_entry_same: "\<not> rewritten sec e \<Longrightarrow> scan_entry sec e m = m"
  by (auto simp: scan_entry_def rewritten_def Let_def)

lemma fold_same: "(\<And>x. x \<in> set xs \<Longrightarrow> f x m = m) \<Longrightarrow> fold f xs m = m"
  by (induction xs) simp_all

lemma scan_doc_unaffected:
  assumes "unaffected doc"
  shows "scan_doc doc = \<lparr>replacements = [], marker = False, weight = None, quota = None\<rparr>"
  unfolding scan_doc_def
  using assms by (intro fold_same) (auto simp: unaffected_def list_all_iff scan_entry_same intro!: fold_same)

lemma emit_plain: "emit [] i ls = join_nl ls"
  by (induction ls arbitrary: i rule: join_nl.induct) simp_all

text \<open>
  a conversion that is offered is valid and changes nothing else.  The offered text parses without
  errors and fits the size limit; a unit of version 2 is offered unchanged, and a unit that uses no
  directive whose meaning differs keeps every line, after an explicit format version.
\<close>

theorem ConvertToV2_output:
  assumes "Output (ConvertToV2 pe path nm src) = Some out"
  shows "\<not> HasError (Parse pe path nm out) \<and> \<not> HasError (Parse pe path nm src) \<and> length out \<le> 65536
    \<and> (SourceVersion (ConvertToV2 pe path nm src) = 2 \<longrightarrow> out = src)
    \<and> (SourceVersion (ConvertToV2 pe path nm src) \<noteq> 2 \<and> unaffected (fst (parseINI src path)) \<longrightarrow>
         out = ''[Unit]'' @ [newline] @ ''FormatVersion=2'' @ [newline, newline] @ join_nl (splitLines (stripBOM src)))"
proof -
  have size: "MaxFileBytes = 65536" by (simp add: MaxFileBytes_def push_bit_eq_mult)
  obtain u where u: "RUnit (Parse pe path nm src) = Some u" and ok: "\<not> HasError (Parse pe path nm src)" "length src \<le> MaxFileBytes"
    using assms by (auto simp: ConvertToV2_def Let_def split: if_splits option.splits)
  show ?thesis
  proof (cases "FormatVersion u = 2")
    case True
    then show ?thesis using assms u ok size by (auto simp: ConvertToV2_def Let_def)
  next
    case False
    then have v: "SourceVersion (ConvertToV2 pe path nm src) = FormatVersion u"
      using u ok by (simp add: ConvertToV2_def Let_def)
    have "\<not> HasError (Parse pe path nm out)" "length out \<le> MaxFileBytes"
      using assms u ok False by (auto simp: ConvertToV2_def Let_def split: if_splits)
    moreover have "out = ''[Unit]'' @ [newline] @ ''FormatVersion=2'' @ [newline, newline] @ join_nl (splitLines (stripBOM src))"
      if "unaffected (fst (parseINI src path))"
      using assms u ok False scan_doc_unaffected [OF that]
      by (auto simp: ConvertToV2_def Let_def change_weight_def change_quota_def emit_plain split: if_splits)
    ultimately show ?thesis using ok False v size by simp
  qed
qed

theorem ConvertToV2_output_witness:
  "\<not> HasError (Parse sample_env ''nightly.timer'' ''nightly.timer'' (''[Unit]'' @ [newline] @ ''FormatVersion=2'' @ [newline, newline] @ sample_timer))"
proof -
  have "Output (ConvertToV2 sample_env ''nightly.timer'' ''nightly.timer'' sample_timer)
      = Some (''[Unit]'' @ [newline] @ ''FormatVersion=2'' @ [newline, newline] @ sample_timer)" by code_simp
  from ConvertToV2_output [OF this] show ?thesis by blast
qed

end
