(* ===== verification/Journal_Buffer.thy ===== *)
theory Journal_Buffer
  imports Prelude
begin

text \<open>
  The write buffer of a journal file, \<open>recordBuffer\<close> of \<open>internal/journal/buffer.go\<close>.  The writer behind
  it is the operating system: the pair \<open>(n, err)\<close> that one call of \<open>Write\<close> returns is an argument of
  \<open>Flush\<close>.  \<open>buffer_run\<close> performs a sequence of calls and keeps, next to the buffer, the bytes that
  reached the file and the records that were accepted.
\<close>

section \<open>The buffer\<close>

record bufferedRecord =
  recRemaining :: nat
  recMessageBytes :: nat

record recordBuffer =
  bufData :: string
  bufRecords :: "bufferedRecord list"

type_synonym write_result = "int \<times> string option"

definition journalBufferSize :: nat where
  "journalBufferSize = 4096"

definition ErrShortWrite :: string where
  "ErrShortWrite = ''short write''"

text \<open>The loop that takes \<open>left\<close> written bytes off the records at the front.\<close>

fun consume :: "nat \<Rightarrow> bufferedRecord list \<Rightarrow> bufferedRecord list" where
  "consume left [] = []"
| "consume left (r # rs) =
     (if left = 0 then r # rs
      else if left < recRemaining r then r\<lparr>recRemaining := recRemaining r - left\<rparr> # rs
      else consume (left - recRemaining r) rs)"

definition Flush :: "write_result \<Rightarrow> recordBuffer \<Rightarrow> string option \<times> recordBuffer" where
  "Flush w b =
     (if bufData b = [] then (None, b)
      else case w of (n, err) \<Rightarrow>
        (if n < 0 \<or> int (length (bufData b)) < n then (Some ErrShortWrite, b)
         else (if nat n < length (bufData b) \<and> err = None then Some ErrShortWrite else err,
               \<lparr>bufData = drop (nat n) (bufData b), bufRecords = consume (nat n) (bufRecords b)\<rparr>)))"

definition add_record :: "string \<Rightarrow> nat \<Rightarrow> recordBuffer \<Rightarrow> recordBuffer" where
  "add_record raw mb b =
     \<lparr>bufData = bufData b @ raw, bufRecords = bufRecords b @ [\<lparr>recRemaining = length raw, recMessageBytes = mb\<rparr>]\<rparr>"

definition buffer_append :: "write_result \<Rightarrow> string \<Rightarrow> nat \<Rightarrow> recordBuffer \<Rightarrow> string option \<times> recordBuffer" where
  "buffer_append w raw mb b =
     (if bufData b \<noteq> [] \<and> journalBufferSize < length (bufData b) + length raw then
        (case Flush w b of (Some e, b') \<Rightarrow> (Some e, b') | (None, b') \<Rightarrow> (None, add_record raw mb b'))
      else (None, add_record raw mb b))"

definition pendingLoss :: "recordBuffer \<Rightarrow> nat \<times> nat" where
  "pendingLoss b = (length (bufRecords b), sum_list (map recMessageBytes (bufRecords b)))"

section \<open>Sequences of calls\<close>

datatype buffer_call = CallAppend string nat write_result | CallFlush write_result

record buffer_state =
  buf :: recordBuffer
  sink :: string
  accepted :: "(string \<times> nat) list"

text \<open>What one call of \<open>Write\<close> hands to the file: the first \<open>n\<close> bytes, nothing if \<open>n\<close> is out of range.\<close>

definition delivered :: "write_result \<Rightarrow> recordBuffer \<Rightarrow> string" where
  "delivered w b =
     (if fst w < 0 \<or> int (length (bufData b)) < fst w then [] else take (nat (fst w)) (bufData b))"

fun buffer_step :: "buffer_call \<Rightarrow> buffer_state \<Rightarrow> buffer_state" where
  "buffer_step (CallFlush w) s = s\<lparr>buf := snd (Flush w (buf s)), sink := sink s @ delivered w (buf s)\<rparr>"
| "buffer_step (CallAppend raw mb w) s =
     (case buffer_append w raw mb (buf s) of (e, b') \<Rightarrow>
        s\<lparr>buf := b',
          sink := sink s @ (if bufData (buf s) \<noteq> [] \<and> journalBufferSize < length (bufData (buf s)) + length raw
                            then delivered w (buf s) else []),
          accepted := accepted s @ (if e = None then [(raw, mb)] else [])\<rparr>)"

definition empty_buffer :: buffer_state where
  "empty_buffer = \<lparr>buf = \<lparr>bufData = [], bufRecords = []\<rparr>, sink = [], accepted = []\<rparr>"

definition buffer_run :: "buffer_call list \<Rightarrow> buffer_state" where
  "buffer_run calls = fold buffer_step calls empty_buffer"

section \<open>Nothing is lost\<close>

text \<open>
  \<open>pending rs acc\<close>: the records \<open>rs\<close> of the buffer are the accepted ones \<open>acc\<close>, the first possibly
  written in part.
\<close>

fun pending :: "bufferedRecord list \<Rightarrow> (string \<times> nat) list \<Rightarrow> bool" where
  "pending [] acc \<longleftrightarrow> acc = []"
| "pending (r # rs) acc \<longleftrightarrow>
     (\<exists>raw rest. acc = (raw, recMessageBytes r) # rest \<and> 0 < recRemaining r \<and> recRemaining r \<le> length raw
        \<and> rs = map (\<lambda>(raw, mb). \<lparr>recRemaining = length raw, recMessageBytes = mb\<rparr>) rest)"

definition raws :: "(string \<times> nat) list \<Rightarrow> string" where
  "raws acc = concat (map fst acc)"

text \<open>The buffer holds exactly the accepted bytes that are not in the file yet.\<close>

definition wf_buffer :: "buffer_state \<Rightarrow> bool" where
  "wf_buffer s \<longleftrightarrow>
     (\<exists>done_recs rest.
        accepted s = done_recs @ rest \<and> pending (bufRecords (buf s)) rest
        \<and> sum_list (map recRemaining (bufRecords (buf s))) = length (bufData (buf s))
        \<and> sink s @ bufData (buf s) = raws (accepted s))
     \<and> (length (bufData (buf s)) \<le> journalBufferSize \<or> length (bufRecords (buf s)) = 1)"

lemma wf_bufferI:
  assumes "accepted s = d @ rest" "pending (bufRecords (buf s)) rest"
    "sum_list (map recRemaining (bufRecords (buf s))) = length (bufData (buf s))"
    "sink s @ bufData (buf s) = raws (accepted s)"
    "length (bufData (buf s)) \<le> journalBufferSize \<or> length (bufRecords (buf s)) = 1"
  shows "wf_buffer s"
  using assms unfolding wf_buffer_def by blast

lemma raws_simps [simp]: "raws [] = []" "raws (a # as) = fst a @ raws as" "raws (as @ bs) = raws as @ raws bs"
  by (simp_all add: raws_def)

lemma consume_sum:
  "n \<le> sum_list (map recRemaining rs) \<Longrightarrow> sum_list (map recRemaining (consume n rs)) = sum_list (map recRemaining rs) - n"
  by (induction n rs rule: consume.induct) auto

lemma fresh_pending:
  "\<forall>a \<in> set acc. fst a \<noteq> [] \<Longrightarrow> pending (map (\<lambda>(raw, mb). \<lparr>recRemaining = length raw, recMessageBytes = mb\<rparr>) acc) acc"
  by (cases acc) auto

lemma consume_fresh:
  assumes "\<forall>a \<in> set acc. fst a \<noteq> []"
  shows "\<exists>done_recs rest. acc = done_recs @ rest
    \<and> pending (consume n (map (\<lambda>(raw, mb). \<lparr>recRemaining = length raw, recMessageBytes = mb\<rparr>) acc)) rest"
  using assms
proof (induction acc arbitrary: n)
  case (Cons a acc)
  obtain raw mb where a: "a = (raw, mb)" by fastforce
  consider "n = 0" | "0 < n" "n < length raw" | "length raw \<le> n" "0 < n" by linarith
  then show ?case
  proof cases
    case 1
    then show ?thesis using fresh_pending [OF Cons.prems] by (intro exI [of _ "[]"] exI [of _ "a # acc"]) (auto simp: a)
  next
    case 2
    then show ?thesis by (intro exI [of _ "[]"] exI [of _ "a # acc"]) (auto simp: a)
  next
    case 3
    from Cons.IH [of "n - length raw"] Cons.prems obtain d r where "acc = d @ r"
      "pending (consume (n - length raw) (map (\<lambda>(raw, mb). \<lparr>recRemaining = length raw, recMessageBytes = mb\<rparr>) acc)) r" by auto
    then show ?thesis using 3 by (intro exI [of _ "a # d"] exI [of _ r]) (auto simp: a)
  qed
qed simp

lemma consume_pending:
  assumes "pending rs acc" "\<forall>a \<in> set acc. fst a \<noteq> []"
  shows "\<exists>done_recs rest. acc = done_recs @ rest \<and> pending (consume n rs) rest"
proof (cases rs)
  case (Cons r rs')
  then obtain raw rest where acc: "acc = (raw, recMessageBytes r) # rest" "0 < recRemaining r" "recRemaining r \<le> length raw"
    and rs': "rs' = map (\<lambda>(raw, mb). \<lparr>recRemaining = length raw, recMessageBytes = mb\<rparr>) rest"
    using assms(1) by auto
  show ?thesis
  proof (cases "n < recRemaining r")
    case True
    then have "pending (consume n rs) acc" using Cons acc rs' by auto
    then show ?thesis by (intro exI [of _ "[]"] exI [of _ acc]) simp
  next
    case False
    have "\<forall>a \<in> set rest. fst a \<noteq> []" using assms(2) acc by simp
    from consume_fresh [OF this, of "n - recRemaining r"] obtain d q where "rest = d @ q" "pending (consume (n - recRemaining r) rs') q"
      using rs' by blast
    then show ?thesis using False Cons acc by (intro exI [of _ "(raw, recMessageBytes r) # d"] exI [of _ q]) simp
  qed
qed (use assms in simp)

lemma pending_length: "pending rs acc \<Longrightarrow> length rs = length acc \<and> sum_list (map recMessageBytes rs) = sum_list (map snd acc)"
  by (cases rs) (auto simp: comp_def case_prod_beta)

lemma pending_sum:
  "pending (r # rs) acc \<Longrightarrow> sum_list (map recRemaining (r # rs)) = recRemaining r + length (raws (tl acc))"
  by (auto simp: raws_def length_concat comp_def case_prod_beta)

lemma pending_add:
  assumes "pending rs acc" "raw \<noteq> []"
  shows "pending (rs @ [\<lparr>recRemaining = length raw, recMessageBytes = mb\<rparr>]) (acc @ [(raw, mb)])"
  using assms by (cases rs) auto

text \<open>The steps of the two calls.\<close>

definition plain_call :: "buffer_call \<Rightarrow> bool" where
  "plain_call c \<longleftrightarrow> (case c of CallAppend raw _ _ \<Rightarrow> raw \<noteq> [] | CallFlush _ \<Rightarrow> True)"

definition plain_records :: "buffer_state \<Rightarrow> bool" where
  "plain_records s \<longleftrightarrow> (\<forall>a \<in> set (accepted s). fst a \<noteq> [])"

lemma flush_wf:
  assumes "wf_buffer s" "plain_records s"
  shows "wf_buffer (s\<lparr>buf := snd (Flush w (buf s)), sink := sink s @ delivered w (buf s)\<rparr>)"
    "fst (Flush w (buf s)) = None \<Longrightarrow> bufData (snd (Flush w (buf s))) = []"
proof -
  obtain d r where a: "accepted s = d @ r" "pending (bufRecords (buf s)) r" "sink s @ bufData (buf s) = raws (accepted s)"
    and sum: "sum_list (map recRemaining (bufRecords (buf s))) = length (bufData (buf s))"
    and size: "length (bufData (buf s)) \<le> journalBufferSize \<or> length (bufRecords (buf s)) = 1"
    using assms(1) unfolding wf_buffer_def by blast
  show "fst (Flush w (buf s)) = None \<Longrightarrow> bufData (snd (Flush w (buf s))) = []"
    by (auto simp: Flush_def split: if_splits prod.splits)
  show "wf_buffer (s\<lparr>buf := snd (Flush w (buf s)), sink := sink s @ delivered w (buf s)\<rparr>)"
  proof (cases "bufData (buf s) = [] \<or> fst w < 0 \<or> int (length (bufData (buf s))) < fst w")
    case True
    then have "snd (Flush w (buf s)) = buf s" "delivered w (buf s) = []"
      by (auto simp: Flush_def delivered_def split: prod.split)
    then show ?thesis using assms(1) by (simp add: wf_buffer_def)
  next
    case False
    let ?n = "nat (fst w)"
    have f: "snd (Flush w (buf s)) = \<lparr>bufData = drop ?n (bufData (buf s)), bufRecords = consume ?n (bufRecords (buf s))\<rparr>"
      "delivered w (buf s) = take ?n (bufData (buf s))" "?n \<le> length (bufData (buf s))"
      using False by (auto simp: Flush_def delivered_def split: prod.split)
    obtain d' r' where p: "r = d' @ r'" "pending (consume ?n (bufRecords (buf s))) r'"
      using consume_pending [OF a(2), of ?n] assms(2) a(1) by (auto simp: plain_records_def)
    have "length (consume ?n (bufRecords (buf s))) = length r'" "length (bufRecords (buf s)) = length r"
      using pending_length p(2) a(2) by blast+
    then have "length (drop ?n (bufData (buf s))) \<le> journalBufferSize \<or> length (consume ?n (bufRecords (buf s))) = 1"
      using size p f(3) sum pending_length [OF p(2)] consume_sum [of ?n "bufRecords (buf s)"] by (cases r') auto
    moreover have "sum_list (map recRemaining (consume ?n (bufRecords (buf s)))) = length (drop ?n (bufData (buf s)))"
      using consume_sum [of ?n "bufRecords (buf s)"] sum f(3) by simp
    ultimately show ?thesis
      unfolding f using a p by (intro wf_bufferI [where d = "d @ d'" and rest = r']) simp_all
  qed
qed

lemma add_record_wf:
  assumes "wf_buffer s" "raw \<noteq> []" "bufData (buf s) = [] \<or> length (bufData (buf s)) + length raw \<le> journalBufferSize"
  shows "wf_buffer (s\<lparr>buf := add_record raw mb (buf s), accepted := accepted s @ [(raw, mb)]\<rparr>)"
proof -
  obtain d r where a: "accepted s = d @ r" "pending (bufRecords (buf s)) r" "sink s @ bufData (buf s) = raws (accepted s)"
    and sum: "sum_list (map recRemaining (bufRecords (buf s))) = length (bufData (buf s))"
    using assms(1) unfolding wf_buffer_def by blast
  have "bufData (buf s) = [] \<Longrightarrow> bufRecords (buf s) = []"
    using a(2) sum by (cases "bufRecords (buf s)") auto
  then have "length (bufData (buf s) @ raw) \<le> journalBufferSize \<or> length (bufRecords (buf s)) = 0" using assms(3) by auto
  then show ?thesis
    unfolding add_record_def using a sum pending_add [OF a(2) assms(2), of mb]
    by (intro wf_bufferI [where d = d and rest = "r @ [(raw, mb)]"]) auto
qed

lemma buffer_step_wf:
  assumes "wf_buffer s" "plain_records s" "plain_call c"
  shows "wf_buffer (buffer_step c s) \<and> plain_records (buffer_step c s)"
proof (cases c)
  case (CallFlush w)
  then show ?thesis using flush_wf(1) [OF assms(1,2)] assms(2) by (simp add: plain_records_def)
next
  case (CallAppend raw mb w)
  have raw: "raw \<noteq> []" using assms(3) CallAppend by (simp add: plain_call_def)
  show ?thesis
  proof (cases "bufData (buf s) \<noteq> [] \<and> journalBufferSize < length (bufData (buf s)) + length raw")
    case False
    then show ?thesis
      using add_record_wf [OF assms(1) raw, of mb] assms(2) raw CallAppend
      by (auto simp: buffer_append_def plain_records_def not_less)
  next
    case True
    let ?s = "s\<lparr>buf := snd (Flush w (buf s)), sink := sink s @ delivered w (buf s)\<rparr>"
    have f: "wf_buffer ?s" by (rule flush_wf(1) [OF assms(1,2)])
    show ?thesis
    proof (cases "fst (Flush w (buf s))")
      case None
      then have "bufData (buf ?s) = []" using flush_wf(2) [OF assms(1,2)] by simp
      from add_record_wf [OF f raw, of mb] this show ?thesis
        using True None CallAppend assms(2) raw
        by (cases "Flush w (buf s)") (auto simp: buffer_append_def plain_records_def wf_buffer_def)
    next
      case (Some e)
      then show ?thesis using True CallAppend assms(2) f by (cases "Flush w (buf s)") (auto simp: buffer_append_def plain_records_def)
    qed
  qed
qed

lemma buffer_run_wf:
  assumes "\<forall>c \<in> set calls. plain_call c"
  shows "wf_buffer (buffer_run calls)"
proof -
  have "wf_buffer s \<and> plain_records s \<Longrightarrow> wf_buffer (fold buffer_step calls s) \<and> plain_records (fold buffer_step calls s)" for s
    using assms by (induction calls arbitrary: s) (auto simp: buffer_step_wf)
  moreover have "wf_buffer empty_buffer \<and> plain_records empty_buffer"
    by (auto simp: wf_buffer_def plain_records_def empty_buffer_def)
  ultimately show ?thesis unfolding buffer_run_def by blast
qed

text \<open>
  the journal buffer neither loses nor duplicates bytes, whatever the file does.  After any sequence
  of appends and flushes, with any short writes and errors, the bytes in the file followed by the bytes in
  the buffer are exactly the accepted records in order; the loss reported when the file is abandoned
  counts exactly the accepted records that are not completely in the file; and the buffer holds at most
  4096 bytes or a single record.
\<close>

theorem journal_buffer_exact:
  assumes "\<forall>c \<in> set calls. plain_call c"
  defines "s \<equiv> buffer_run calls"
  shows "sink s @ bufData (buf s) = raws (accepted s)
    \<and> (\<exists>complete rest. accepted s = complete @ rest \<and> length (raws complete) \<le> length (sink s)
        \<and> (case rest of [] \<Rightarrow> True | a # _ \<Rightarrow> length (sink s) < length (raws complete) + length (fst a))
        \<and> pendingLoss (buf s) = (length rest, sum_list (map snd rest)))
    \<and> (length (bufData (buf s)) \<le> 4096 \<or> length (bufRecords (buf s)) = 1)"
proof -
  have w: "wf_buffer s" unfolding s_def by (rule buffer_run_wf [OF assms(1)])
  then obtain d r where a: "accepted s = d @ r" "pending (bufRecords (buf s)) r" "sink s @ bufData (buf s) = raws (accepted s)"
    and sum: "sum_list (map recRemaining (bufRecords (buf s))) = length (bufData (buf s))"
    unfolding wf_buffer_def by blast
  have len: "length (sink s) + length (bufData (buf s)) = length (raws d) + length (raws r)"
    using arg_cong [OF a(3), of length] by (simp add: a(1))
  have "length (raws d) \<le> length (sink s) \<and> (case r of [] \<Rightarrow> True | x # _ \<Rightarrow> length (sink s) < length (raws d) + length (fst x))"
  proof (cases "bufRecords (buf s)")
    case Nil
    then show ?thesis using a(2) sum len by simp
  next
    case (Cons b bs)
    then have "sum_list (map recRemaining (bufRecords (buf s))) = recRemaining b + length (raws (tl r))"
      using pending_sum a(2) by metis
    then show ?thesis using Cons a(2) sum len by auto
  qed
  then show ?thesis
    using w a pending_length [OF a(2)] by (auto simp: pendingLoss_def wf_buffer_def journalBufferSize_def)
qed

theorem journal_buffer_exact_witness:
  "pendingLoss (buf (buffer_run [CallAppend ''abc'' 1 (0, None), CallAppend ''de'' 2 (0, None), CallFlush (4, Some ''disk full'')])) = (1, 2)
     \<and> sink (buffer_run [CallAppend ''abc'' 1 (0, None), CallAppend ''de'' 2 (0, None), CallFlush (4, Some ''disk full'')]) = ''abcd''"
proof -
  let ?c = "[CallAppend ''abc'' 1 (0, None), CallAppend ''de'' 2 (0, None), CallFlush (4, Some ''disk full'')]"
  have "\<forall>c \<in> set ?c. plain_call c" by (simp add: plain_call_def)
  from journal_buffer_exact [OF this] have "sink (buffer_run ?c) @ bufData (buf (buffer_run ?c)) = raws (accepted (buffer_run ?c))" by blast
  moreover have "bufData (buf (buffer_run ?c)) = ''e''" "raws (accepted (buffer_run ?c)) = ''abcde''"
    "pendingLoss (buf (buffer_run ?c)) = (1, 2)" by code_simp+
  ultimately show ?thesis by simp
qed

end
