(* ===== verification/Journal_Stats.thy ===== *)
theory Journal_Stats
  imports Prelude
begin

text \<open>
  The loss counters of the journal: \<open>CaptureStats\<close> of \<open>internal/journal/queue.go\<close> with \<open>RetainNames\<close>,
  \<open>addStats\<close> and \<open>addStatsLocked\<close> of \<open>internal/journal/retention.go\<close>, and the parts of \<open>unicode/utf8\<close>
  they use.  The counters are Go's \<open>uint64\<close>, so they are 64-bit words.
\<close>

section \<open>UTF-8\<close>

definition byte_in :: "nat \<Rightarrow> nat \<Rightarrow> char \<Rightarrow> bool" where
  "byte_in lo hi c \<longleftrightarrow> lo \<le> (of_char c :: nat) \<and> (of_char c :: nat) \<le> hi"

abbreviation cont_byte :: "char \<Rightarrow> bool" where
  "cont_byte \<equiv> byte_in 0x80 0xBF"

text \<open>The length of the valid encoding at the front of a byte string, as \<open>DecodeRune\<close> accepts it.\<close>

fun rune_len :: "string \<Rightarrow> nat option" where
  "rune_len [] = None"
| "rune_len (a # s) =
     (if byte_in 0x00 0x7F a then Some 1
      else case s of
        b # t \<Rightarrow>
          (if byte_in 0xC2 0xDF a then (if cont_byte b then Some 2 else None)
           else case t of
             c # u \<Rightarrow>
               (if byte_in 0xE0 0xEF a then
                  (if (if byte_in 0xE0 0xE0 a then byte_in 0xA0 0xBF b else if byte_in 0xED 0xED a then byte_in 0x80 0x9F b else cont_byte b)
                      \<and> cont_byte c then Some 3 else None)
                else case u of
                  d # _ \<Rightarrow>
                    (if byte_in 0xF0 0xF4 a
                        \<and> (if byte_in 0xF0 0xF0 a then byte_in 0x90 0xBF b else if byte_in 0xF4 0xF4 a then byte_in 0x80 0x8F b else cont_byte b)
                        \<and> cont_byte c \<and> cont_byte d then Some 4 else None)
                | [] \<Rightarrow> None)
           | [] \<Rightarrow> None)
      | [] \<Rightarrow> None)"

lemma rune_len_range: "rune_len s = Some n \<Longrightarrow> 1 \<le> n \<and> n \<le> length s"
  by (auto split: if_splits list.splits elim!: rune_len.elims)

function ValidString :: "string \<Rightarrow> bool" where
  "ValidString s =
     (if s = [] then True else case rune_len s of Some n \<Rightarrow> ValidString (drop n s) | None \<Rightarrow> False)"
  by pat_completeness auto
termination by (relation "measure length") (auto dest: rune_len_range)

declare ValidString.simps [simp del]

lemma ValidString_Nil [simp]: "ValidString []"
  by (simp add: ValidString.simps)

definition replacement :: string where
  "replacement = [CHR 0xEF, CHR 0xBF, CHR 0xBD]"

text \<open>\<open>ToValidUTF8\<close>: each run of invalid bytes becomes one replacement; \<open>skip\<close> says that the last byte was invalid.\<close>

function to_valid :: "bool \<Rightarrow> string \<Rightarrow> string" where
  "to_valid skip s =
     (if s = [] then []
      else case rune_len s of
             Some n \<Rightarrow> take n s @ to_valid False (drop n s)
           | None \<Rightarrow> (if skip then [] else replacement) @ to_valid True (tl s))"
  by pat_completeness auto
termination by (relation "measure (\<lambda>(_, s). length s)") (auto dest: rune_len_range)

declare to_valid.simps [simp del]

definition ToValidUTF8 :: "string \<Rightarrow> string" where
  "ToValidUTF8 s = to_valid False s"

section \<open>The counters\<close>

record CaptureStats =
  EvictedFiles :: "64 word"
  EvictedBytes :: "64 word"
  DroppedRecords :: "64 word"
  DroppedBytes :: "64 word"
  StorageErrors :: "64 word"
  LastStorageError :: string

definition no_stats :: CaptureStats where
  "no_stats = \<lparr>EvictedFiles = 0, EvictedBytes = 0, DroppedRecords = 0, DroppedBytes = 0, StorageErrors = 0, LastStorageError = []\<rparr>"

definition addStats :: "CaptureStats \<Rightarrow> CaptureStats \<Rightarrow> CaptureStats" where
  "addStats to delta =
     \<lparr>EvictedFiles = EvictedFiles to + EvictedFiles delta, EvictedBytes = EvictedBytes to + EvictedBytes delta,
      DroppedRecords = DroppedRecords to + DroppedRecords delta, DroppedBytes = DroppedBytes to + DroppedBytes delta,
      StorageErrors = StorageErrors to + StorageErrors delta,
      LastStorageError = (if LastStorageError delta \<noteq> [] then LastStorageError delta else LastStorageError to)\<rparr>"

definition maxStatsNames :: nat where
  "maxStatsNames = 2048"

definition maxStorageErrorBytes :: nat where
  "maxStorageErrorBytes = 4096"

definition MaxRetainedNames :: nat where
  "MaxRetainedNames = 1024"

definition canonicalUnit :: "string \<Rightarrow> string" where
  "canonicalUnit u = ToLower (TrimSpace u)"

function trim_valid :: "string \<Rightarrow> string" where
  "trim_valid s = (if ValidString s then s else trim_valid (butlast s))"
  by pat_completeness auto
termination
proof (relation "measure length")
  fix s
  assume "\<not> ValidString s"
  then show "(butlast s, s) \<in> measure length" by (cases s) auto
qed simp

declare trim_valid.simps [simp del]

definition clip_error :: "string \<Rightarrow> string" where
  "clip_error msg =
     (if msg = [] then []
      else let v = ToValidUTF8 msg in
           if maxStorageErrorBytes < length v then trim_valid (take maxStorageErrorBytes v) else v)"

record stats_store =
  dropped :: "(string \<times> CaptureStats) list"
  statsOrder :: "string list"
  retainedNames :: "string list"
  totalStats :: CaptureStats

definition new_stats :: stats_store where
  "new_stats = \<lparr>dropped = [], statsOrder = [], retainedNames = [], totalStats = no_stats\<rparr>"

text \<open>The eviction loop: the oldest name that is not retained gives way.\<close>

fun evict_oldest :: "string list \<Rightarrow> string list \<Rightarrow> string option" where
  "evict_oldest retained [] = None"
| "evict_oldest retained (old # rest) = (if old \<notin> set retained then Some old else evict_oldest retained rest)"

definition make_room :: "stats_store \<Rightarrow> stats_store" where
  "make_room s =
     (if length (dropped s) = maxStatsNames then
        (case evict_oldest (retainedNames s) (statsOrder s) of
           Some old \<Rightarrow> s\<lparr>dropped := AList.delete old (dropped s), statsOrder := remove1 old (statsOrder s)\<rparr>
         | None \<Rightarrow> s)
      else s)"

definition stats_of :: "stats_store \<Rightarrow> string \<Rightarrow> CaptureStats" where
  "stats_of s nm = (case map_of (dropped s) nm of Some st \<Rightarrow> st | None \<Rightarrow> no_stats)"

definition addStatsLocked :: "string \<Rightarrow> CaptureStats \<Rightarrow> stats_store \<Rightarrow> stats_store" where
  "addStatsLocked nm0 delta0 s0 =
     (let nm = canonicalUnit nm0;
          delta = delta0\<lparr>LastStorageError := clip_error (LastStorageError delta0)\<rparr>;
          s1 = s0\<lparr>totalStats := addStats (totalStats s0) delta\<rparr>;
          s2 = (if map_of (dropped s1) nm = None then
                  (let s' = make_room s1 in s'\<lparr>statsOrder := statsOrder s' @ [nm]\<rparr>)
                else s1)
      in s2\<lparr>dropped := AList.update nm (addStats (stats_of s2 nm) delta) (dropped s2)\<rparr>)"

definition RetainNames :: "string list \<Rightarrow> stats_store \<Rightarrow> string option \<times> stats_store" where
  "RetainNames names s =
     (if MaxRetainedNames < length names then (Some ''journal retention exceeds 1024 names'', s)
      else (None, s\<lparr>retainedNames := remdups (map canonicalUnit names)\<rparr>))"

definition CaptureStats_of :: "string \<Rightarrow> stats_store \<Rightarrow> CaptureStats" where
  "CaptureStats_of unit s = stats_of s (canonicalUnit unit)"

section \<open>Sequences of updates\<close>

datatype stats_op = AddStats string CaptureStats | Retain "string list"

fun stats_step :: "stats_op \<Rightarrow> stats_store \<Rightarrow> stats_store" where
  "stats_step (AddStats nm delta) s = addStatsLocked nm delta s"
| "stats_step (Retain names) s = snd (RetainNames names s)"

definition stats_run :: "stats_op list \<Rightarrow> stats_store" where
  "stats_run ops = fold stats_step ops new_stats"

section \<open>Clipped errors\<close>

lemma trim_valid_ok: "ValidString (trim_valid s) \<and> length (trim_valid s) \<le> length s"
proof (induction s rule: trim_valid.induct)
  case (1 s)
  show ?case
  proof (cases "ValidString s")
    case False
    then have "trim_valid s = trim_valid (butlast s)" by (subst trim_valid.simps) simp
    then show ?thesis using 1 [OF False] by auto
  qed (simp add: trim_valid.simps)
qed

lemma rune_len_append: "rune_len s = Some n \<Longrightarrow> rune_len (take n s @ t) = Some n"
  by (erule rune_len.elims) (auto split: if_splits list.splits simp: byte_in_def)

lemma rune_len_replacement [simp]: "rune_len (replacement @ t) = Some 3"
  by (simp add: replacement_def byte_in_def)

lemma ValidString_replacement: "ValidString (replacement @ t) = ValidString t"
  by (subst ValidString.simps) (simp add: replacement_def byte_in_def)

lemma ValidString_take:
  assumes "rune_len s = Some n"
  shows "ValidString (take n s @ t) = ValidString t"
proof -
  have "take n s \<noteq> []" "length (take n s) = n" using rune_len_range [OF assms] by auto
  then show ?thesis
    using rune_len_append [OF assms, of t] by (subst ValidString.simps) simp
qed

lemma ValidString_to_valid: "ValidString (to_valid b s)"
proof (induction b s rule: to_valid.induct)
  case (1 b s)
  then show ?case
    by (subst to_valid.simps) (auto simp: ValidString_take ValidString_replacement split: option.split)
qed

lemma clip_error_ok: "ValidString (clip_error msg) \<and> length (clip_error msg) \<le> 4096"
  using trim_valid_ok [of "take 4096 (to_valid False msg)"] ValidString_to_valid [of False msg]
  by (auto simp: clip_error_def ToValidUTF8_def maxStorageErrorBytes_def Let_def)

section \<open>The history is bounded\<close>

definition wf_stats :: "stats_store \<Rightarrow> bool" where
  "wf_stats s \<longleftrightarrow>
     distinct (map fst (dropped s)) \<and> distinct (statsOrder s) \<and> set (statsOrder s) = fst ` set (dropped s)
     \<and> length (dropped s) \<le> maxStatsNames \<and> distinct (retainedNames s) \<and> length (retainedNames s) \<le> MaxRetainedNames"

lemma evict_oldest_Some: "evict_oldest r xs = Some x \<Longrightarrow> x \<in> set xs \<and> x \<notin> set r"
  by (induction xs) (auto split: if_splits)

lemma evict_oldest_None: "evict_oldest r xs = None \<longleftrightarrow> set xs \<subseteq> set r"
  by (induction xs) auto

lemma wf_stats_length: "wf_stats s \<Longrightarrow> length (statsOrder s) = length (dropped s)"
  unfolding wf_stats_def by (metis distinct_card length_map set_map)

text \<open>At most \<open>MaxRetainedNames\<close> names are retained, so a full history always has a victim.\<close>

lemma make_room_cases:
  assumes "wf_stats s"
  obtains (room) "length (dropped s) < maxStatsNames" "make_room s = s"
  | (victim) old where "old \<in> set (statsOrder s)" "old \<notin> set (retainedNames s)"
      "make_room s = s\<lparr>dropped := AList.delete old (dropped s), statsOrder := remove1 old (statsOrder s)\<rparr>"
proof (cases "length (dropped s) = maxStatsNames")
  case False
  then show thesis using assms room by (auto simp: make_room_def wf_stats_def)
next
  case True
  have "\<not> set (statsOrder s) \<subseteq> set (retainedNames s)"
  proof
    assume "set (statsOrder s) \<subseteq> set (retainedNames s)"
    then have "card (set (statsOrder s)) \<le> card (set (retainedNames s))" by (simp add: card_mono)
    moreover have "card (set (statsOrder s)) = 2048" "card (set (retainedNames s)) \<le> 1024"
      using True wf_stats_length [OF assms] assms distinct_card [of "statsOrder s"] distinct_card [of "retainedNames s"]
      by (auto simp: wf_stats_def maxStatsNames_def MaxRetainedNames_def)
    ultimately show False by simp
  qed
  then obtain old where "evict_oldest (retainedNames s) (statsOrder s) = Some old"
    using evict_oldest_None by fastforce
  then show thesis using True victim [of old] evict_oldest_Some by (simp add: make_room_def)
qed

lemma delete_less: "x \<in> fst ` set al \<Longrightarrow> length (AList.delete x al) < length al"
  unfolding AList.delete_eq by (force intro: length_filter_less)

lemma delete_keys_set: "fst ` set (AList.delete x al) = fst ` set al - {x}"
  by (auto simp: AList.delete_eq image_iff)

lemma make_room_wf:
  assumes "wf_stats s"
  shows "wf_stats (make_room s) \<and> length (dropped (make_room s)) < maxStatsNames"
  using assms
proof (cases rule: make_room_cases)
  case (victim old)
  then have "length (AList.delete old (dropped s)) < length (dropped s)"
    using assms by (intro delete_less) (auto simp: wf_stats_def)
  with victim assms show ?thesis
    using AList.distinct_delete [of "dropped s" old] delete_keys_set [of old "dropped s"]
    by (auto simp: wf_stats_def)
qed (use assms in simp)

lemma make_room_frame:
  assumes "wf_stats s"
  shows "x \<in> set (retainedNames s) \<Longrightarrow> map_of (dropped (make_room s)) x = map_of (dropped s) x"
    and "map_of (dropped s) x = None \<Longrightarrow> map_of (dropped (make_room s)) x = None"
    and "retainedNames (make_room s) = retainedNames s"
    and "totalStats (make_room s) = totalStats s"
  using assms by (auto elim!: make_room_cases simp: AList.delete_conv')

lemma length_update: "length (AList.update k v al) = (if k \<in> fst ` set al then length al else Suc (length al))"
  using arg_cong [OF AList.update_keys [of k v al], of length] by simp

text \<open>One update on either branch: the name is known, or it joins the history after \<open>make_room\<close>.\<close>

lemma addStatsLocked_wf: "wf_stats s \<Longrightarrow> wf_stats (addStatsLocked nm delta s)"
proof (cases "map_of (dropped s) (canonicalUnit nm)")
  case None
  let ?s1 = "s\<lparr>totalStats := addStats (totalStats s) (delta\<lparr>LastStorageError := clip_error (LastStorageError delta)\<rparr>)\<rparr>"
  assume "wf_stats s"
  then have wf: "wf_stats ?s1" by (simp add: wf_stats_def)
  have "map_of (dropped (make_room ?s1)) (canonicalUnit nm) = None"
    using make_room_frame(2) [OF wf] None by simp
  then have new: "canonicalUnit nm \<notin> fst ` set (dropped (make_room ?s1))" by (simp add: map_of_eq_None_iff)
  show ?thesis
    using make_room_wf [OF wf] new None
    by (auto simp: addStatsLocked_def Let_def wf_stats_def length_update AList.distinct_update AList.dom_update)
next
  case (Some st)
  then have "canonicalUnit nm \<in> fst ` set (dropped s)" using map_of_SomeD by force
  moreover assume "wf_stats s"
  ultimately show ?thesis using Some
    by (auto simp: addStatsLocked_def Let_def wf_stats_def length_update AList.distinct_update AList.dom_update)
qed

lemma addStatsLocked_frame:
  "retainedNames (addStatsLocked nm delta s) = retainedNames s"
  "totalStats (addStatsLocked nm delta s) =
     addStats (totalStats s) (delta\<lparr>LastStorageError := clip_error (LastStorageError delta)\<rparr>)"
  by (auto simp: addStatsLocked_def Let_def make_room_def split: option.split)

lemma addStatsLocked_retained:
  assumes "wf_stats s" "x \<in> set (retainedNames s)"
  shows "stats_of (addStatsLocked nm delta s) x =
           (if canonicalUnit nm = x then addStats (stats_of s x) (delta\<lparr>LastStorageError := clip_error (LastStorageError delta)\<rparr>)
            else stats_of s x)"
proof -
  let ?s1 = "s\<lparr>totalStats := addStats (totalStats s) (delta\<lparr>LastStorageError := clip_error (LastStorageError delta)\<rparr>)\<rparr>"
  have wf: "wf_stats ?s1" using assms(1) by (simp add: wf_stats_def)
  have "map_of (dropped (make_room ?s1)) x = map_of (dropped s) x"
    using make_room_frame(1) [OF wf] assms(2) by simp
  then show ?thesis
    by (auto simp: addStatsLocked_def Let_def stats_of_def AList.update_conv')
qed

lemma RetainNames_wf: "wf_stats s \<Longrightarrow> wf_stats (snd (RetainNames names s))"
  using length_remdups_leq [of "map canonicalUnit names"]
  by (auto simp: RetainNames_def wf_stats_def simp del: length_remdups_leq)

lemma stats_step_wf: "wf_stats s \<Longrightarrow> wf_stats (stats_step op s)"
  by (cases op) (simp_all add: addStatsLocked_wf RetainNames_wf)

lemma stats_run_wf: "wf_stats (stats_run ops)"
proof -
  have "wf_stats (fold stats_step ops s)" if "wf_stats s" for s
    using that by (induction ops arbitrary: s) (simp_all add: stats_step_wf)
  moreover have "wf_stats new_stats" by (simp add: new_stats_def wf_stats_def)
  ultimately show ?thesis by (simp add: stats_run_def)
qed

definition stats_deltas :: "stats_op list \<Rightarrow> CaptureStats list" where
  "stats_deltas ops = concat (map (\<lambda>op. case op of AddStats _ d \<Rightarrow> [d] | Retain _ \<Rightarrow> []) ops)"

lemma stats_run_total: "DroppedRecords (totalStats (stats_run ops)) = sum_list (map DroppedRecords (stats_deltas ops))"
proof -
  have "DroppedRecords (totalStats (fold stats_step ops s)) =
          DroppedRecords (totalStats s) + sum_list (map DroppedRecords (stats_deltas ops))" for s
  proof (induction ops arbitrary: s)
    case (Cons op ops)
    then show ?case
      by (cases op) (simp_all add: stats_deltas_def addStatsLocked_frame addStats_def RetainNames_def add.assoc)
  qed (simp add: stats_deltas_def)
  then show ?thesis by (simp add: stats_run_def new_stats_def no_stats_def)
qed

lemma adds_retained:
  assumes "wf_stats s" "x \<in> set (retainedNames s)"
  shows "DroppedRecords (stats_of (fold stats_step (map (\<lambda>(nm, d). AddStats nm d) adds) s) x) =
           DroppedRecords (stats_of s x) + (\<Sum>(nm, d) \<leftarrow> filter (\<lambda>(nm, d). canonicalUnit nm = x) adds. DroppedRecords d)"
  using assms
proof (induction adds arbitrary: s)
  case (Cons a adds)
  obtain nm d where a: "a = (nm, d)" by (cases a)
  have "wf_stats (addStatsLocked nm d s)" "x \<in> set (retainedNames (addStatsLocked nm d s))"
    using Cons.prems by (simp_all add: addStatsLocked_wf addStatsLocked_frame)
  from Cons.IH [OF this] show ?case
    using addStatsLocked_retained [OF Cons.prems, of nm d] by (simp add: a addStats_def add.assoc)
qed simp

lemma last_error_ok:
  "ValidString (LastStorageError (totalStats (stats_run ops))) \<and> length (LastStorageError (totalStats (stats_run ops))) \<le> 4096"
proof -
  let ?ok = "\<lambda>s. ValidString (LastStorageError (totalStats s)) \<and> length (LastStorageError (totalStats s)) \<le> 4096"
  have "?ok (fold stats_step ops s)" if "?ok s" for s
    using that
  proof (induction ops arbitrary: s)
    case (Cons op ops)
    have "?ok (stats_step op s)"
      using Cons.prems clip_error_ok
      by (cases op) (auto simp: addStatsLocked_frame addStats_def RetainNames_def)
    from Cons.IH [OF this] show ?case by simp
  qed simp
  moreover have "?ok new_stats" by (simp add: new_stats_def no_stats_def)
  ultimately show ?thesis by (simp add: stats_run_def)
qed

text \<open>
  C24: the loss counters are bounded and never lose a protected count.  After any sequence of updates and
  \<open>RetainNames\<close> calls at most 2048 names have a counter and each has one place in the eviction order; the
  lifetime total is the sum of all reported drops, evicted names included; the last storage error is valid
  UTF-8 of at most 4096 bytes; and from a successful \<open>RetainNames\<close> on, the counter of a retained name grows by
  exactly the drops reported under that name, however many other names report drops.
\<close>

theorem capture_stats_exact:
  assumes "length names \<le> 1024" "n \<in> set names"
    and s: "s = stats_run (ops @ Retain names # map (\<lambda>(nm, d). AddStats nm d) adds)"
  shows "length (dropped s) \<le> 2048 \<and> distinct (statsOrder s) \<and> set (statsOrder s) = fst ` set (dropped s)
    \<and> DroppedRecords (totalStats s) =
        sum_list (map DroppedRecords (stats_deltas ops)) + (\<Sum>(nm, d) \<leftarrow> adds. DroppedRecords d)
    \<and> ValidString (LastStorageError (totalStats s)) \<and> length (LastStorageError (totalStats s)) \<le> 4096
    \<and> DroppedRecords (CaptureStats_of n s) =
        DroppedRecords (CaptureStats_of n (stats_run ops))
        + (\<Sum>(nm, d) \<leftarrow> filter (\<lambda>(nm, d). canonicalUnit nm = canonicalUnit n) adds. DroppedRecords d)"
proof -
  have bounds: "length (dropped s) \<le> 2048 \<and> distinct (statsOrder s) \<and> set (statsOrder s) = fst ` set (dropped s)"
    using stats_run_wf unfolding s wf_stats_def maxStatsNames_def by blast
  have totals: "DroppedRecords (totalStats s) =
      sum_list (map DroppedRecords (stats_deltas ops)) + (\<Sum>(nm, d) \<leftarrow> adds. DroppedRecords d)"
    unfolding s stats_run_total
    by (simp add: stats_deltas_def comp_def case_prod_beta concat_map_singleton split_beta')
  let ?s1 = "snd (RetainNames names (stats_run ops))"
  have "wf_stats ?s1" "canonicalUnit n \<in> set (retainedNames ?s1)" "dropped ?s1 = dropped (stats_run ops)"
    using assms(1,2) RetainNames_wf [OF stats_run_wf, of names ops] by (simp_all add: RetainNames_def MaxRetainedNames_def)
  then have "DroppedRecords (CaptureStats_of n s) =
      DroppedRecords (CaptureStats_of n (stats_run ops))
      + (\<Sum>(nm, d) \<leftarrow> filter (\<lambda>(nm, d). canonicalUnit nm = canonicalUnit n) adds. DroppedRecords d)"
    using adds_retained [of ?s1 "canonicalUnit n" adds]
    by (simp add: s stats_run_def CaptureStats_of_def stats_of_def)
  with bounds totals last_error_ok show ?thesis unfolding s by blast
qed

theorem capture_stats_exact_witness:
  "DroppedRecords (CaptureStats_of ''a'' (stats_run
      ([AddStats ''a'' (no_stats\<lparr>DroppedRecords := 2\<rparr>)] @ Retain [''a''] # map (\<lambda>(nm, d). AddStats nm d)
        [('' A'', no_stats\<lparr>DroppedRecords := 3\<rparr>), (''b'', no_stats\<lparr>DroppedRecords := 4\<rparr>)]))) = 5"
proof -
  let ?ops = "[AddStats ''a'' (no_stats\<lparr>DroppedRecords := 2\<rparr>)]"
  let ?adds = "[('' A'', no_stats\<lparr>DroppedRecords := 3\<rparr>), (''b'', no_stats\<lparr>DroppedRecords := 4\<rparr>)]"
  have "length [''a''] \<le> 1024" "''a'' \<in> set [''a'']" by simp_all
  note * = capture_stats_exact [OF this refl, of ?ops ?adds]
  have "DroppedRecords (CaptureStats_of ''a'' (stats_run ?ops))
      + (\<Sum>(nm, d) \<leftarrow> filter (\<lambda>(nm, d). canonicalUnit nm = canonicalUnit ''a'') ?adds. DroppedRecords d) = 5"
    by code_simp
  with * show ?thesis by simp
qed

end
