(* ===== verification/Journal_Queue.thy ===== *)
theory Journal_Queue
  imports Journal_Stats "HOL-Library.Sublist" "HOL-Library.Multiset"
begin

text \<open>
  The admission queue between the capture readers and the journal writer: \<open>internal/journal/fair_queue.go\<close> with
  the types and limits of \<open>internal/journal/queue.go\<close> and \<open>Entry\<close> of \<open>internal/journal/store.go\<close>.  A
  \<open>*captureGroup\<close> is an address (a natural number) into the heap of groups; \<open>captureQueues\<close> is an association
  list and \<open>captureOrder\<close> the list of its keys in turn order.  The order in which Go ranges over the map
  \<open>captureQueues\<close> is an argument \<open>iter\<close> of the operations that range over it, and every lemma holds for each
  such order.  The store's lock makes each operation one step; the writer owns at most one popped record.
\<close>

section \<open>Data\<close>

record Entry =
  Timestamp :: int
  EUnit :: string
  PID :: int
  Stream :: string
  Message :: string
  InvocationID :: string
  Severity :: string
  Session :: string
  UserSID :: string
  Continuation :: bool
  Partial :: bool

type_synonym gid = nat

record captureGroup =
  gwg :: int
  gbytes :: int
  grecords :: int

record captureWrite =
  entry :: Entry
  wgroup :: gid

record capturePending =
  items :: "captureWrite list"
  pbytes :: int

record capture_store =
  groups :: "gid \<Rightarrow> captureGroup"
  captureQueues :: "(gid \<times> capturePending) list"
  captureOrder :: "gid list"
  queuedBytes :: int
  queuedRecords :: int
  queueClosed :: bool
  stats :: stats_store

definition captureQueueRecords :: int where
  "captureQueueRecords = 16384"

definition invocationQueueRecords :: int where
  "invocationQueueRecords = 12288"

definition captureQueueBytes :: int where
  "captureQueueBytes = 16 * 2 ^ 20"

definition invocationQueueBytes :: int where
  "invocationQueueBytes = 4 * 2 ^ 20"

definition maxQueuedCaptureGroups :: nat where
  "maxQueuedCaptureGroups = 2048"

abbreviation wsize :: "captureWrite \<Rightarrow> int" where
  "wsize w \<equiv> int (length (Message (entry w)))"

section \<open>Operations\<close>

definition dropCaptureLocked :: "captureWrite \<Rightarrow> capture_store \<Rightarrow> capture_store" where
  "dropCaptureLocked w s =
     s\<lparr>stats := addStatsLocked (EUnit (entry w))
                  (no_stats\<lparr>DroppedRecords := 1, DroppedBytes := of_nat (length (Message (entry w)))\<rparr>) (stats s)\<rparr>"

definition storageError :: "string \<Rightarrow> string option \<Rightarrow> capture_store \<Rightarrow> capture_store" where
  "storageError unit e s =
     (case e of
        None \<Rightarrow> s
      | Some message \<Rightarrow>
          s\<lparr>stats := addStatsLocked unit (no_stats\<lparr>StorageErrors := 1, LastStorageError := message\<rparr>) (stats s)\<rparr>)"

definition add_group :: "int \<Rightarrow> int \<Rightarrow> captureGroup \<Rightarrow> captureGroup" where
  "add_group n k g = \<lparr>gwg = gwg g + k, gbytes = gbytes g + n, grecords = grecords g + k\<rparr>"

definition releaseCaptureLocked :: "captureWrite \<Rightarrow> capture_store \<Rightarrow> capture_store" where
  "releaseCaptureLocked w s =
     s\<lparr>queuedBytes := queuedBytes s - wsize w, queuedRecords := queuedRecords s - 1,
       groups := (groups s)(wgroup w := add_group (- wsize w) (- 1) (groups s (wgroup w)))\<rparr>"

definition removeCaptureQueueLocked :: "gid \<Rightarrow> capture_store \<Rightarrow> capture_store" where
  "removeCaptureQueueLocked g s =
     s\<lparr>captureQueues := AList.delete g (captureQueues s), captureOrder := remove1 g (captureOrder s)\<rparr>"

text \<open>The body of the range loop of \<open>makeCaptureRoomLocked\<close>: the candidate so far against queue \<open>k\<close>.\<close>

definition victim_step ::
  "capture_store \<Rightarrow> gid \<Rightarrow> int \<Rightarrow> bool \<Rightarrow> gid \<Rightarrow> (gid \<times> capturePending) option \<Rightarrow> (gid \<times> capturePending) option" where
  "victim_step s grp sz bytePressure k victim =
     (case map_of (captureQueues s) k of
        None \<Rightarrow> victim
      | Some q \<Rightarrow>
          if k = grp \<or> length (items q) \<le> 1 then victim
          else if bytePressure then
            (if pbytes q \<le> gbytes (groups s grp) + sz then victim
             else case victim of
                    None \<Rightarrow> Some (k, q)
                  | Some (_, v) \<Rightarrow> if pbytes v < pbytes q then Some (k, q) else victim)
          else
            (if int (length (items q)) \<le> grecords (groups s grp) + 1 then victim
             else case victim of
                    None \<Rightarrow> Some (k, q)
                  | Some (_, v) \<Rightarrow> if length (items v) < length (items q) then Some (k, q) else victim))"

definition find_victim :: "(capture_store \<Rightarrow> gid list) \<Rightarrow> gid \<Rightarrow> int \<Rightarrow> capture_store \<Rightarrow> (gid \<times> capturePending) option" where
  "find_victim iter grp sz s =
     fold (victim_step s grp sz (captureQueueBytes < queuedBytes s + sz)) (iter s) None"

definition evict_newest :: "gid \<Rightarrow> capturePending \<Rightarrow> capture_store \<Rightarrow> capture_store" where
  "evict_newest k q s =
     (let work = last (items q)
      in releaseCaptureLocked work (dropCaptureLocked work
           (s\<lparr>captureQueues := AList.update k \<lparr>items = butlast (items q), pbytes = pbytes q - wsize work\<rparr> (captureQueues s)\<rparr>)))"

definition full :: "int \<Rightarrow> capture_store \<Rightarrow> bool" where
  "full sz s \<longleftrightarrow> captureQueueBytes < queuedBytes s + sz \<or> captureQueueRecords \<le> queuedRecords s"

definition pending_works :: "capture_store \<Rightarrow> captureWrite list" where
  "pending_works s = concat (map (items \<circ> snd) (captureQueues s))"

lemma victim_step_Some:
  assumes "victim_step s grp sz bp k v = Some (g, q)"
    and "\<And>g' q'. v = Some (g', q') \<Longrightarrow> map_of (captureQueues s) g' = Some q' \<and> g' \<noteq> grp \<and> 1 < length (items q')"
  shows "map_of (captureQueues s) g = Some q \<and> g \<noteq> grp \<and> 1 < length (items q)"
  using assms by (fastforce simp: victim_step_def split: option.splits if_splits)

lemma find_victim_Some:
  assumes "find_victim iter grp sz s = Some (g, q)"
  shows "map_of (captureQueues s) g = Some q \<and> g \<noteq> grp \<and> 1 < length (items q)"
proof -
  let ?ok = "\<lambda>v. \<forall>g' q'. v = Some (g', q') \<longrightarrow> map_of (captureQueues s) g' = Some q' \<and> g' \<noteq> grp \<and> 1 < length (items q')"
  have "?ok (fold (victim_step s grp sz bp) ks v)" if "?ok v" for bp ks v
    using that
  proof (induction ks arbitrary: v)
    case (Cons k ks)
    have "?ok (victim_step s grp sz bp k v)" using victim_step_Some Cons.prems by blast
    from Cons.IH [OF this] show ?case by simp
  qed simp
  from this [of None] show ?thesis using assms unfolding find_victim_def by blast
qed

lemma concat_items_update:
  "map_of al g = Some q \<Longrightarrow>
     mset (concat (map (items \<circ> snd) (AList.update g q' al))) + mset (items q) = mset (concat (map (items \<circ> snd) al)) + mset (items q')"
  by (induction al) auto

lemma concat_items_update_length:
  "map_of al g = Some q \<Longrightarrow>
     length (concat (map (items \<circ> snd) (AList.update g q' al))) + length (items q) = length (concat (map (items \<circ> snd) al)) + length (items q')"
  using concat_items_update [of al g q q'] by (metis size_mset size_union)

function makeCaptureRoomLocked ::
  "(capture_store \<Rightarrow> gid list) \<Rightarrow> gid \<Rightarrow> int \<Rightarrow> capture_store \<Rightarrow> bool \<times> capture_store" where
  "makeCaptureRoomLocked iter grp sz s =
     (if full sz s then
        (case find_victim iter grp sz s of
           None \<Rightarrow> (False, s)
         | Some (k, q) \<Rightarrow> makeCaptureRoomLocked iter grp sz (evict_newest k q s))
      else (True, s))"
  by pat_completeness auto
termination
proof (relation "measure (\<lambda>(_, _, _, s). length (pending_works s))")
  fix iter grp sz s vi k q
  assume "find_victim iter grp sz s = Some vi" "(k, q) = vi"
  then have v: "map_of (captureQueues s) k = Some q" "1 < length (items q)" using find_victim_Some by blast+
  show "((iter, grp, sz, evict_newest k q s), iter, grp, sz, s) \<in> measure (\<lambda>(_, _, _, s). length (pending_works s))"
    using concat_items_update_length [OF v(1), of "\<lparr>items = butlast (items q), pbytes = pbytes q - wsize (last (items q))\<rparr>"] v(2)
    by (simp add: pending_works_def evict_newest_def Let_def releaseCaptureLocked_def dropCaptureLocked_def)
qed simp

declare makeCaptureRoomLocked.simps [simp del]

definition admit :: "captureWrite \<Rightarrow> capture_store \<Rightarrow> capture_store" where
  "admit w s =
     (let g = wgroup w; n = wsize w;
          s1 = (case map_of (captureQueues s) g of
                  Some _ \<Rightarrow> s
                | None \<Rightarrow> s\<lparr>captureOrder := captureOrder s @ [g],
                            captureQueues := AList.update g \<lparr>items = [], pbytes = 0\<rparr> (captureQueues s)\<rparr>);
          q = the (map_of (captureQueues s1) g)
      in s1\<lparr>captureQueues := AList.update g \<lparr>items = items q @ [w], pbytes = pbytes q + n\<rparr> (captureQueues s1),
            queuedBytes := queuedBytes s1 + n, queuedRecords := queuedRecords s1 + 1,
            groups := (groups s1)(g := add_group n 1 (groups s1 g))\<rparr>)"

definition refused :: "captureWrite \<Rightarrow> capture_store \<Rightarrow> bool" where
  "refused w s \<longleftrightarrow>
     queueClosed s \<or> captureQueueBytes < wsize w
     \<or> invocationQueueBytes < gbytes (groups s (wgroup w)) + wsize w
     \<or> invocationQueueRecords \<le> grecords (groups s (wgroup w))
     \<or> (map_of (captureQueues s) (wgroup w) = None \<and> maxQueuedCaptureGroups \<le> length (captureQueues s))"

definition enqueue :: "(capture_store \<Rightarrow> gid list) \<Rightarrow> Entry \<Rightarrow> gid \<Rightarrow> capture_store \<Rightarrow> capture_store" where
  "enqueue iter e grp s =
     (let w = \<lparr>entry = e, wgroup = grp\<rparr>
      in if refused w s then dropCaptureLocked w s
         else case makeCaptureRoomLocked iter grp (wsize w) s of
                (False, s') \<Rightarrow> dropCaptureLocked w s'
              | (True, s') \<Rightarrow> admit w s')"

text \<open>\<open>nextCapture\<close> returns a record, ends once the queue is closed and empty, or waits for a wake-up.\<close>

datatype next_capture = Work captureWrite capture_store | Ended | Waiting

definition nextCapture :: "capture_store \<Rightarrow> next_capture" where
  "nextCapture s =
     (case captureOrder s of
        [] \<Rightarrow> if queueClosed s then Ended else Waiting
      | g # rest \<Rightarrow>
          (let q = the (map_of (captureQueues s) g);
               work = hd (items q);
               q' = \<lparr>items = tl (items q), pbytes = pbytes q - wsize work\<rparr>;
               s' = s\<lparr>captureQueues := AList.update g q' (captureQueues s)\<rparr>
           in Work work
                (if items q' = [] then removeCaptureQueueLocked g s' else s'\<lparr>captureOrder := rest @ [g]\<rparr>)))"

text \<open>The second half of an iteration of \<open>writeCaptures\<close>, after \<open>append\<close> returned \<open>e\<close> for the popped record.\<close>

definition finish_write :: "captureWrite \<Rightarrow> string option \<Rightarrow> capture_store \<Rightarrow> capture_store" where
  "finish_write w e s =
     (let s1 = storageError (EUnit (entry w)) e s;
          s2 = (if e \<noteq> None then dropCaptureLocked w s1 else s1)
      in releaseCaptureLocked w s2)"

section \<open>Readers and writer together\<close>

record capture_machine =
  qstore :: capture_store
  inflight :: "captureWrite option"
  taken :: "captureWrite list"
  written :: "captureWrite list"

datatype capture_act =
  Enqueue "capture_store \<Rightarrow> gid list" Entry gid
| Pop
| Finish "string option"
| CloseQueue
| KeepCounters "string list"

fun capture_step :: "capture_act \<Rightarrow> capture_machine \<Rightarrow> capture_machine" where
  "capture_step (Enqueue iter e g) m = m\<lparr>qstore := enqueue iter e g (qstore m)\<rparr>"
| "capture_step Pop m =
     (if inflight m \<noteq> None then m
      else case nextCapture (qstore m) of
             Work w s' \<Rightarrow> m\<lparr>qstore := s', inflight := Some w, taken := taken m @ [w]\<rparr>
           | Ended \<Rightarrow> m
           | Waiting \<Rightarrow> m)"
| "capture_step (Finish e) m =
     (case inflight m of
        None \<Rightarrow> m
      | Some w \<Rightarrow> m\<lparr>qstore := finish_write w e (qstore m), inflight := None,
                    written := written m @ (if e = None then [w] else [])\<rparr>)"
| "capture_step CloseQueue m = m\<lparr>qstore := (qstore m)\<lparr>queueClosed := True\<rparr>\<rparr>"
| "capture_step (KeepCounters names) m = m\<lparr>qstore := (qstore m)\<lparr>stats := snd (RetainNames names (stats (qstore m)))\<rparr>\<rparr>"

definition no_group :: captureGroup where
  "no_group = \<lparr>gwg = 0, gbytes = 0, grecords = 0\<rparr>"

definition capture_init :: capture_machine where
  "capture_init =
     \<lparr>qstore = \<lparr>groups = (\<lambda>_. no_group), captureQueues = [], captureOrder = [], queuedBytes = 0, queuedRecords = 0,
                queueClosed = False, stats = new_stats\<rparr>,
      inflight = None, taken = [], written = []\<rparr>"

definition capture_run :: "capture_act list \<Rightarrow> capture_machine" where
  "capture_run acts = fold capture_step acts capture_init"

section \<open>Accounting\<close>

definition queue_ok :: "gid \<Rightarrow> capturePending \<Rightarrow> bool" where
  "queue_ok g q \<longleftrightarrow> items q \<noteq> [] \<and> pbytes q = sum_list (map wsize (items q)) \<and> (\<forall>w \<in> set (items q). wgroup w = g)"

definition wf_queues :: "capture_store \<Rightarrow> bool" where
  "wf_queues s \<longleftrightarrow>
     distinct (map fst (captureQueues s)) \<and> distinct (captureOrder s) \<and> set (captureOrder s) = fst ` set (captureQueues s)
     \<and> (\<forall>g q. map_of (captureQueues s) g = Some q \<longrightarrow> queue_ok g q)"

text \<open>\<open>acct h s\<close>: the counters describe exactly the records \<open>h\<close>.\<close>

definition acct :: "captureWrite multiset \<Rightarrow> capture_store \<Rightarrow> bool" where
  "acct h s \<longleftrightarrow>
     queuedRecords s = int (size h) \<and> queuedBytes s = (\<Sum>w \<in># h. wsize w)
     \<and> (\<forall>g. let hg = filter_mset (\<lambda>w. wgroup w = g) h
            in groups s g = \<lparr>gwg = int (size hg), gbytes = (\<Sum>w \<in># hg. wsize w), grecords = int (size hg)\<rparr>)"

definition limits :: "capture_store \<Rightarrow> bool" where
  "limits s \<longleftrightarrow>
     queuedBytes s \<le> captureQueueBytes \<and> queuedRecords s \<le> captureQueueRecords
     \<and> length (captureQueues s) \<le> maxQueuedCaptureGroups
     \<and> (\<forall>g. gbytes (groups s g) \<le> invocationQueueBytes \<and> grecords (groups s g) \<le> invocationQueueRecords)"

definition queue_inv :: "captureWrite multiset \<Rightarrow> capture_store \<Rightarrow> bool" where
  "queue_inv f s \<longleftrightarrow> wf_queues s \<and> acct (mset (pending_works s) + f) s \<and> limits s"

lemma acct_release: "acct (add_mset w h) s \<Longrightarrow> acct h (releaseCaptureLocked w s)"
  by (auto simp: acct_def releaseCaptureLocked_def add_group_def Let_def)

lemma drop_frame [simp]:
  "groups (dropCaptureLocked w s) = groups s" "captureQueues (dropCaptureLocked w s) = captureQueues s"
  "captureOrder (dropCaptureLocked w s) = captureOrder s" "queuedBytes (dropCaptureLocked w s) = queuedBytes s"
  "queuedRecords (dropCaptureLocked w s) = queuedRecords s" "queueClosed (dropCaptureLocked w s) = queueClosed s"
  by (simp_all add: dropCaptureLocked_def)

lemma storageError_frame [simp]:
  "groups (storageError u e s) = groups s" "captureQueues (storageError u e s) = captureQueues s"
  "captureOrder (storageError u e s) = captureOrder s" "queuedBytes (storageError u e s) = queuedBytes s"
  "queuedRecords (storageError u e s) = queuedRecords s" "queueClosed (storageError u e s) = queueClosed s"
  by (simp_all add: storageError_def split: option.split)

lemma release_frame [simp]:
  "captureQueues (releaseCaptureLocked w s) = captureQueues s" "captureOrder (releaseCaptureLocked w s) = captureOrder s"
  "queueClosed (releaseCaptureLocked w s) = queueClosed s" "stats (releaseCaptureLocked w s) = stats s"
  "queuedBytes (releaseCaptureLocked w s) = queuedBytes s - wsize w" "queuedRecords (releaseCaptureLocked w s) = queuedRecords s - 1"
  "groups (releaseCaptureLocked w s) = (groups s)(wgroup w := add_group (- wsize w) (- 1) (groups s (wgroup w)))"
  by (simp_all add: releaseCaptureLocked_def)

lemma acct_same:
  "acct h s \<Longrightarrow> groups t = groups s \<Longrightarrow> queuedBytes t = queuedBytes s \<Longrightarrow> queuedRecords t = queuedRecords s \<Longrightarrow> acct h t"
  by (simp add: acct_def)

lemma queue_inv_same:
  assumes "queue_inv f s" "groups t = groups s" "captureQueues t = captureQueues s" "captureOrder t = captureOrder s"
    "queuedBytes t = queuedBytes s" "queuedRecords t = queuedRecords s"
  shows "queue_inv f t"
proof -
  have "pending_works t = pending_works s" using assms by (simp add: pending_works_def)
  then show ?thesis
    using assms acct_same [of "mset (pending_works s) + f" s t] by (simp add: queue_inv_def wf_queues_def limits_def)
qed

lemma queue_inv_drop: "queue_inv f s \<Longrightarrow> queue_inv f (dropCaptureLocked w s)"
  by (erule queue_inv_same) simp_all

lemma limits_release: "limits s \<Longrightarrow> limits (releaseCaptureLocked w s)"
  unfolding limits_def by (simp add: add_group_def) (smt (verit) of_nat_0_le_iff)

lemma queue_inv_release:
  assumes "queue_inv (add_mset w f) s"
  shows "queue_inv f (releaseCaptureLocked w s)"
  using assms acct_release [of w "mset (pending_works s) + f" s] limits_release [of s w]
  by (simp add: queue_inv_def wf_queues_def pending_works_def)

lemma queue_inv_finish: "queue_inv {#w#} s \<Longrightarrow> queue_inv {#} (finish_write w e s)"
  unfolding finish_write_def Let_def
  by (intro queue_inv_release, erule queue_inv_same) simp_all

text \<open>Replacing one queue by a shorter one with the same group keeps the queues well formed.\<close>

lemma wf_queues_replace:
  assumes "wf_queues s" "map_of (captureQueues s) g = Some q" "queue_ok g q'"
  shows "wf_queues (s\<lparr>captureQueues := AList.update g q' (captureQueues s)\<rparr>)"
proof -
  have "g \<in> fst ` set (captureQueues s)" using assms(2) map_of_SomeD by force
  then show ?thesis
    using assms by (auto simp: wf_queues_def AList.distinct_update AList.dom_update AList.update_conv')
qed

lemma queue_ok_butlast:
  assumes "queue_ok g q" "1 < length (items q)"
  shows "queue_ok g \<lparr>items = butlast (items q), pbytes = pbytes q - wsize (last (items q))\<rparr>"
proof -
  obtain ws w where "items q = ws @ [w]" "ws \<noteq> []" using assms(2) by (cases "items q" rule: rev_cases) auto
  then show ?thesis using assms(1) by (auto simp: queue_ok_def)
qed

lemma evict_newest_inv:
  assumes "queue_inv f s" "map_of (captureQueues s) g = Some q" "1 < length (items q)"
  shows "queue_inv f (evict_newest g q s)"
proof -
  let ?q = "\<lparr>items = butlast (items q), pbytes = pbytes q - wsize (last (items q))\<rparr>"
  let ?s = "s\<lparr>captureQueues := AList.update g ?q (captureQueues s)\<rparr>"
  have g: "g \<in> fst ` set (captureQueues s)" using assms(2) map_of_SomeD by force
  have ok: "queue_ok g q" using assms by (auto simp: queue_inv_def wf_queues_def)
  have split: "mset (items q) = add_mset (last (items q)) (mset (butlast (items q)))"
    using assms(3) by (metis append_butlast_last_id list.size(3) mset.simps mset_append not_one_less_zero union_mset_add_mset_right add.right_neutral)
  have "add_mset (last (items q)) (mset (pending_works ?s)) = mset (pending_works s)"
    using concat_items_update [OF assms(2), of ?q] by (simp add: split pending_works_def)
  then have "mset (pending_works ?s) + add_mset (last (items q)) f = mset (pending_works s) + f" by simp
  then have "acct (mset (pending_works ?s) + add_mset (last (items q)) f) ?s"
    using assms(1) acct_same [of "mset (pending_works s) + f" s ?s] by (simp only: queue_inv_def) simp
  moreover have "wf_queues ?s"
    using assms ok by (intro wf_queues_replace queue_ok_butlast) (auto simp: queue_inv_def)
  moreover have "limits ?s" using assms(1) g by (simp add: queue_inv_def limits_def length_update)
  ultimately have "queue_inv (add_mset (last (items q)) f) ?s" by (simp add: queue_inv_def)
  then show ?thesis unfolding evict_newest_def Let_def by (intro queue_inv_release queue_inv_drop)
qed

text \<open>What an eviction leaves alone: the turns, the set of queues, and everything of the requesting group.\<close>

lemma evict_newest_frame:
  assumes "map_of (captureQueues s) k = Some q" "k \<noteq> g" "queue_ok k q"
  shows "captureOrder (evict_newest k q s) = captureOrder s"
    and "queueClosed (evict_newest k q s) = queueClosed s"
    and "map fst (captureQueues (evict_newest k q s)) = map fst (captureQueues s)"
    and "map_of (captureQueues (evict_newest k q s)) g = map_of (captureQueues s) g"
    and "groups (evict_newest k q s) g = groups s g"
proof -
  have "k \<in> fst ` set (captureQueues s)" using assms(1) map_of_SomeD by force
  moreover have "wgroup (last (items q)) = k" using assms(3) by (simp add: queue_ok_def)
  ultimately show "captureOrder (evict_newest k q s) = captureOrder s" "queueClosed (evict_newest k q s) = queueClosed s"
    "map fst (captureQueues (evict_newest k q s)) = map fst (captureQueues s)"
    "map_of (captureQueues (evict_newest k q s)) g = map_of (captureQueues s) g"
    "groups (evict_newest k q s) g = groups s g"
    using assms(2) by (simp_all add: evict_newest_def Let_def AList.update_keys AList.update_conv')
qed

lemma makeCaptureRoomLocked_inv:
  assumes "queue_inv f s" "makeCaptureRoomLocked iter g sz s = (ok, t)"
  shows "queue_inv f t \<and> (ok \<longrightarrow> \<not> full sz t)
    \<and> captureOrder t = captureOrder s \<and> map fst (captureQueues t) = map fst (captureQueues s)
    \<and> map_of (captureQueues t) g = map_of (captureQueues s) g \<and> groups t g = groups s g
    \<and> queueClosed t = queueClosed s"
  using assms
proof (induction iter g sz s arbitrary: ok t rule: makeCaptureRoomLocked.induct)
  case (1 iter g sz s)
  show ?case
  proof (cases "full sz s \<and> find_victim iter g sz s \<noteq> None")
    case False
    then show ?thesis using "1.prems" by (subst (asm) makeCaptureRoomLocked.simps) (auto split: if_splits option.splits)
  next
    case True
    then obtain k q where v: "find_victim iter g sz s = Some (k, q)" by auto
    note vic = find_victim_Some [OF v]
    then have ok: "queue_ok k q" using "1.prems"(1) by (simp add: queue_inv_def wf_queues_def)
    have "makeCaptureRoomLocked iter g sz (evict_newest k q s) = (ok, t)"
      using "1.prems"(2) True v by (subst (asm) makeCaptureRoomLocked.simps) simp
    from "1.IH" [OF _ v refl _ this] show ?thesis
      using True vic "1.prems"(1) evict_newest_inv [of f s k q] evict_newest_frame [of s k q g, OF _ _ ok] by simp
  qed
qed

lemma wf_queues_groups: "wf_queues s \<Longrightarrow> map_of (captureQueues s) g = None \<longleftrightarrow> g \<notin> set (captureOrder s)"
  by (simp add: wf_queues_def map_of_eq_None_iff)

lemma queue_ok_snoc:
  "queue_ok g q \<or> (items q = [] \<and> pbytes q = 0) \<Longrightarrow> wgroup w = g \<Longrightarrow> queue_ok g \<lparr>items = items q @ [w], pbytes = pbytes q + wsize w\<rparr>"
  by (auto simp: queue_ok_def)

lemma acct_add:
  assumes "acct h s" "queuedBytes t = queuedBytes s + wsize w" "queuedRecords t = queuedRecords s + 1"
    "groups t = (groups s)(wgroup w := add_group (wsize w) 1 (groups s (wgroup w)))"
  shows "acct (add_mset w h) t"
  using assms by (auto simp: acct_def add_group_def Let_def)

lemma update_new: "map_of al g = None \<Longrightarrow> AList.update g q al = al @ [(g, q)]"
  by (induction al) (auto split: if_splits)

lemma update_last: "map_of al g = None \<Longrightarrow> AList.update g q (al @ [(g, p)]) = al @ [(g, q)]"
  by (induction al) (auto split: if_splits)

text \<open>\<open>admit\<close> on its two branches, and the view of the state the proofs use.\<close>

lemma admit_queues:
  "captureQueues (admit w s) =
     (case map_of (captureQueues s) (wgroup w) of
        Some q \<Rightarrow> AList.update (wgroup w) \<lparr>items = items q @ [w], pbytes = pbytes q + wsize w\<rparr> (captureQueues s)
      | None \<Rightarrow> captureQueues s @ [(wgroup w, \<lparr>items = [w], pbytes = wsize w\<rparr>)])"
  by (auto simp: admit_def Let_def update_new update_last AList.update_conv' map_add_def split: option.split)

lemma admit_fields:
  "captureOrder (admit w s) = captureOrder s @ (if map_of (captureQueues s) (wgroup w) = None then [wgroup w] else [])"
  "queuedBytes (admit w s) = queuedBytes s + wsize w" "queuedRecords (admit w s) = queuedRecords s + 1"
  "groups (admit w s) = (groups s)(wgroup w := add_group (wsize w) 1 (groups s (wgroup w)))"
  "stats (admit w s) = stats s" "queueClosed (admit w s) = queueClosed s"
  by (auto simp: admit_def Let_def split: option.split)

lemma admit_works: "mset (pending_works (admit w s)) = add_mset w (mset (pending_works s))"
proof (cases "map_of (captureQueues s) (wgroup w)")
  case (Some q)
  then show ?thesis
    using concat_items_update [OF Some, of "\<lparr>items = items q @ [w], pbytes = pbytes q + wsize w\<rparr>"]
    by (simp add: pending_works_def admit_queues)
qed (simp add: pending_works_def admit_queues)

lemma admit_wf:
  assumes "wf_queues s"
  shows "wf_queues (admit w s)"
proof (cases "map_of (captureQueues s) (wgroup w)")
  case None
  then show ?thesis
    using assms wf_queues_groups [OF assms, of "wgroup w"]
    by (auto simp: wf_queues_def admit_queues admit_fields queue_ok_def map_add_Some_iff split: if_splits)
next
  case (Some q)
  have "wf_queues (s\<lparr>captureQueues := captureQueues (admit w s)\<rparr>)"
    using assms Some wf_queues_replace [OF assms Some] queue_ok_snoc [of "wgroup w" q w]
    by (auto simp: admit_queues wf_queues_def)
  then show ?thesis using Some by (simp add: wf_queues_def admit_fields)
qed

lemma admit_inv:
  assumes "queue_inv f s" "\<not> full (wsize w) s" "\<not> refused w s"
  shows "queue_inv f (admit w s)"
proof -
  have "acct (add_mset w (mset (pending_works s) + f)) (admit w s)"
    using assms(1) by (intro acct_add [where s = s]) (simp_all add: queue_inv_def admit_fields)
  moreover have "length (captureQueues (admit w s)) \<le> maxQueuedCaptureGroups"
  proof (cases "map_of (captureQueues s) (wgroup w)")
    case None
    then show ?thesis using assms(3) by (simp add: admit_queues refused_def)
  next
    case (Some q)
    then have "wgroup w \<in> fst ` set (captureQueues s)" using map_of_SomeD by force
    then show ?thesis using assms(1) Some by (simp add: admit_queues length_update queue_inv_def limits_def)
  qed
  then have "limits (admit w s)"
    using assms by (auto simp: limits_def admit_fields add_group_def refused_def full_def queue_inv_def)
  ultimately show ?thesis using assms(1) admit_wf by (simp add: queue_inv_def admit_works)
qed

lemma refused_cong:
  assumes "map fst (captureQueues t) = map fst (captureQueues s)" "map_of (captureQueues t) (wgroup w) = map_of (captureQueues s) (wgroup w)"
    "groups t (wgroup w) = groups s (wgroup w)" "queueClosed t = queueClosed s"
  shows "refused w t = refused w s"
  using assms map_eq_imp_length_eq [OF assms(1)] by (simp add: refused_def)

lemma enqueue_cases:
  assumes "queue_inv f s"
  obtains (refuse) "refused \<lparr>entry = e, wgroup = g\<rparr> s" "enqueue iter e g s = dropCaptureLocked \<lparr>entry = e, wgroup = g\<rparr> s"
  | (no_room) t where "makeCaptureRoomLocked iter g (int (length (Message e))) s = (False, t)" "queue_inv f t"
      "enqueue iter e g s = dropCaptureLocked \<lparr>entry = e, wgroup = g\<rparr> t"
  | (room) t where "makeCaptureRoomLocked iter g (int (length (Message e))) s = (True, t)" "queue_inv f t"
      "\<not> full (int (length (Message e))) t" "\<not> refused \<lparr>entry = e, wgroup = g\<rparr> t"
      "enqueue iter e g s = admit \<lparr>entry = e, wgroup = g\<rparr> t"
proof (cases "refused \<lparr>entry = e, wgroup = g\<rparr> s")
  case True
  then show thesis using refuse by (simp add: enqueue_def)
next
  case False
  obtain ok t where r: "makeCaptureRoomLocked iter g (int (length (Message e))) s = (ok, t)" by fastforce
  note inv = makeCaptureRoomLocked_inv [OF assms r]
  then have "\<not> refused \<lparr>entry = e, wgroup = g\<rparr> t" using False refused_cong [of t s "\<lparr>entry = e, wgroup = g\<rparr>"] by simp
  then show thesis using no_room [of t] room [of t] False r inv by (cases ok) (simp_all add: enqueue_def)
qed

lemma enqueue_inv:
  assumes "queue_inv f s"
  shows "queue_inv f (enqueue iter e g s)"
  using assms by (rule enqueue_cases [where e = e and g = g and iter = iter]) (simp_all add: queue_inv_drop assms admit_inv)

lemma delete_update_same: "AList.delete g (AList.update g q al) = AList.delete g al"
  by (induction al) (auto simp: AList.delete_eq)

lemma concat_items_delete:
  assumes "distinct (map fst al)" "map_of al g = Some q"
  shows "mset (concat (map (items \<circ> snd) (AList.delete g al))) + mset (items q) = mset (concat (map (items \<circ> snd) al))"
  using assms
proof (induction al)
  case (Cons a al)
  show ?case
  proof (cases "fst a = g")
    case True
    then have "AList.delete g al = al" using Cons.prems(1) by (intro AList.delete_id) auto
    then show ?thesis using True Cons.prems(2) by (cases a) (auto simp: AList.delete_eq)
  next
    case False
    then have "AList.delete g (a # al) = a # AList.delete g al" by (simp add: AList.delete_eq split_beta)
    then show ?thesis using False Cons by (cases a) (auto simp: ac_simps)
  qed
qed simp

lemma nextCapture_cases:
  assumes "wf_queues s" "nextCapture s = Work w t"
  obtains g rest q ws where "captureOrder s = g # rest" "map_of (captureQueues s) g = Some q" "items q = w # ws" "wgroup w = g"
    "t = (if ws = [] then s\<lparr>captureQueues := AList.delete g (captureQueues s), captureOrder := rest\<rparr>
          else s\<lparr>captureQueues := AList.update g \<lparr>items = ws, pbytes = pbytes q - wsize w\<rparr> (captureQueues s),
                 captureOrder := rest @ [g]\<rparr>)"
proof -
  obtain g rest where o: "captureOrder s = g # rest"
    using assms(2) by (auto simp: nextCapture_def split: list.splits if_splits)
  then obtain q where q: "map_of (captureQueues s) g = Some q"
    using wf_queues_groups [OF assms(1), of g] by fastforce
  then obtain v ws where i: "items q = v # ws" "wgroup v = g"
    using assms(1) by (cases "items q") (auto simp: wf_queues_def queue_ok_def)
  have "v = w" using assms(2) o q i by (simp add: nextCapture_def Let_def)
  then show thesis
    using that [OF o q, of ws] assms(2) o q i
    by (auto simp: nextCapture_def Let_def removeCaptureQueueLocked_def delete_update_same)
qed

lemma nextCapture_inv:
  assumes "queue_inv {#} s" "nextCapture s = Work w t"
  shows "queue_inv {#w#} t"
proof -
  have wf: "wf_queues s" using assms(1) by (simp add: queue_inv_def)
  obtain g rest q ws where n: "captureOrder s = g # rest" "map_of (captureQueues s) g = Some q" "items q = w # ws" "wgroup w = g"
    and t: "t = (if ws = [] then s\<lparr>captureQueues := AList.delete g (captureQueues s), captureOrder := rest\<rparr>
          else s\<lparr>captureQueues := AList.update g \<lparr>items = ws, pbytes = pbytes q - wsize w\<rparr> (captureQueues s),
                 captureOrder := rest @ [g]\<rparr>)"
    using nextCapture_cases [OF wf assms(2)] .
  have g: "g \<in> fst ` set (captureQueues s)" using n(2) map_of_SomeD by force
  have "mset (pending_works t) + {#w#} = mset (pending_works s)"
    using concat_items_delete [OF _ n(2)] concat_items_update [OF n(2), of "\<lparr>items = ws, pbytes = pbytes q - wsize w\<rparr>"] n(3) wf
    by (auto simp: t pending_works_def wf_queues_def)
  then have "acct (mset (pending_works t) + {#w#}) t"
    using assms(1) by (auto simp: queue_inv_def t intro: acct_same [where s = s])
  moreover have "limits t"
    using assms(1) g delete_less [OF g] by (auto simp: queue_inv_def limits_def t length_update)
  moreover have "queue_ok g \<lparr>items = ws, pbytes = pbytes q - wsize w\<rparr>" if "ws \<noteq> []"
    using that wf n by (auto simp: wf_queues_def queue_ok_def)
  then have "wf_queues t" if "ws \<noteq> []"
    using that wf n(1) wf_queues_replace [OF wf n(2), of "\<lparr>items = ws, pbytes = pbytes q - wsize w\<rparr>"]
    by (auto simp: t wf_queues_def)
  moreover have "wf_queues t" if "ws = []"
    using that wf n(1) by (auto simp: t wf_queues_def AList.distinct_delete delete_keys_set AList.delete_conv' restrict_map_def)
  ultimately show ?thesis by (cases "ws = []") (simp_all add: queue_inv_def)
qed

definition held_inflight :: "capture_machine \<Rightarrow> captureWrite list" where
  "held_inflight m = (case inflight m of None \<Rightarrow> [] | Some w \<Rightarrow> [w])"

definition machine_inv :: "capture_machine \<Rightarrow> bool" where
  "machine_inv m \<longleftrightarrow> queue_inv (mset (held_inflight m)) (qstore m)"

lemma capture_step_inv: "machine_inv m \<Longrightarrow> machine_inv (capture_step a m)"
proof (cases a)
  case (Enqueue iter e g)
  then show "machine_inv m \<Longrightarrow> ?thesis" by (simp add: machine_inv_def held_inflight_def enqueue_inv)
next
  case Pop
  then show "machine_inv m \<Longrightarrow> ?thesis"
    using nextCapture_inv by (auto simp: machine_inv_def held_inflight_def split: option.splits next_capture.splits)
next
  case (Finish e)
  then show "machine_inv m \<Longrightarrow> ?thesis"
    using queue_inv_finish by (auto simp: machine_inv_def held_inflight_def split: option.splits)
qed (auto simp: machine_inv_def held_inflight_def elim: queue_inv_same)

lemma capture_run_snoc: "capture_run (acts @ [a]) = capture_step a (capture_run acts)"
  by (simp add: capture_run_def)

lemma capture_run_inv: "machine_inv (capture_run acts)"
proof (induction acts rule: rev_induct)
  case Nil
  show ?case
    by (simp add: capture_run_def capture_init_def machine_inv_def held_inflight_def queue_inv_def wf_queues_def acct_def
        limits_def pending_works_def no_group_def captureQueueBytes_def captureQueueRecords_def invocationQueueBytes_def
        invocationQueueRecords_def)
qed (simp add: capture_run_snoc capture_step_inv)

end
