(* ===== verification/Journal_Fair.thy ===== *)
theory Journal_Fair
  imports Journal_Queue
begin

text \<open>
  What the capture queue guarantees its users: the limits hold in every reachable state, no record disappears
  without being counted, each invocation's records are written in the order they were captured, and the writer
  serves the invocations in turn.
\<close>

section \<open>Pending records of one invocation\<close>

definition pending_of :: "capture_store \<Rightarrow> gid \<Rightarrow> captureWrite list" where
  "pending_of s g = (case map_of (captureQueues s) g of Some q \<Rightarrow> items q | None \<Rightarrow> [])"

definition dropped_total :: "capture_store \<Rightarrow> 64 word" where
  "dropped_total s = DroppedRecords (totalStats (stats s))"

lemma dropped_total_drop [simp]: "dropped_total (dropCaptureLocked w s) = dropped_total s + 1"
  by (simp add: dropped_total_def dropCaptureLocked_def addStatsLocked_frame addStats_def no_stats_def)

lemma dropped_total_release [simp]: "dropped_total (releaseCaptureLocked w s) = dropped_total s"
  by (simp add: dropped_total_def)

lemma dropped_total_storageError [simp]: "dropped_total (storageError u e s) = dropped_total s"
  by (simp add: dropped_total_def storageError_def addStatsLocked_frame addStats_def no_stats_def split: option.split)

lemma pending_of_same: "captureQueues t = captureQueues s \<Longrightarrow> pending_of t g = pending_of s g"
  by (simp add: pending_of_def)

lemma evict_newest_pending:
  assumes "map_of (captureQueues s) k = Some q"
  shows "pending_of (evict_newest k q s) g = (if g = k then butlast (pending_of s k) else pending_of s g)"
  using assms by (simp add: pending_of_def evict_newest_def Let_def AList.update_conv')

lemma evict_newest_count:
  assumes "map_of (captureQueues s) k = Some q" "1 < length (items q)"
  shows "of_nat (length (pending_works (evict_newest k q s))) + dropped_total (evict_newest k q s)
       = of_nat (length (pending_works s)) + (dropped_total s :: 64 word)"
proof -
  let ?q = "\<lparr>items = butlast (items q), pbytes = pbytes q - wsize (last (items q))\<rparr>"
  have "length (pending_works s) = Suc (length (pending_works (evict_newest k q s)))"
    using concat_items_update_length [OF assms(1), of ?q] assms(2)
    by (simp add: pending_works_def evict_newest_def Let_def)
  moreover have "dropped_total (evict_newest k q s) = dropped_total s + 1"
    by (simp add: evict_newest_def Let_def) (simp add: dropped_total_def)
  ultimately show ?thesis by simp
qed

lemma makeCaptureRoomLocked_pending:
  assumes "makeCaptureRoomLocked iter g sz s = (ok, t)"
  shows "(\<forall>k. prefix (pending_of t k) (pending_of s k)) \<and> pending_of t g = pending_of s g
    \<and> of_nat (length (pending_works t)) + dropped_total t = of_nat (length (pending_works s)) + (dropped_total s :: 64 word)"
  using assms
proof (induction iter g sz s arbitrary: ok t rule: makeCaptureRoomLocked.induct)
  case (1 iter g sz s)
  show ?case
  proof (cases "full sz s \<and> find_victim iter g sz s \<noteq> None")
    case False
    then have "t = s" using "1.prems" by (subst (asm) makeCaptureRoomLocked.simps) (auto split: if_splits option.splits)
    then show ?thesis by simp
  next
    case True
    then obtain k q where v: "find_victim iter g sz s = Some (k, q)" by auto
    note vic = find_victim_Some [OF v]
    let ?s = "evict_newest k q s"
    have r: "makeCaptureRoomLocked iter g sz ?s = (ok, t)"
      using "1.prems" True v by (subst (asm) makeCaptureRoomLocked.simps) simp
    have p: "prefix (pending_of ?s j) (pending_of s j)" for j
      using evict_newest_pending [of s k q j] vic by (simp add: prefixeq_butlast)
    have "pending_of ?s g = pending_of s g" using evict_newest_pending [of s k q g] vic by simp
    with "1.IH" [OF _ v refl r] show ?thesis
      using True p evict_newest_count [of s k q] vic prefix_order.trans by (metis (no_types))
  qed
qed

lemma enqueue_pending:
  assumes "queue_inv f s"
  shows "\<exists>b. (\<forall>k. \<exists>p. prefix p (pending_of s k) \<and>
             pending_of (enqueue iter e g s) k = p @ (if k = g \<and> b then [\<lparr>entry = e, wgroup = g\<rparr>] else []))
     \<and> of_nat (length (pending_works (enqueue iter e g s))) + dropped_total (enqueue iter e g s)
       = of_nat (length (pending_works s)) + (dropped_total s + 1 :: 64 word)"
  using assms
proof (cases rule: enqueue_cases [where e = e and g = g and iter = iter])
  case refuse
  then show ?thesis
    by (intro exI [of _ False]) (auto simp: pending_of_def pending_works_def)
next
  case (no_room t)
  then show ?thesis
    using makeCaptureRoomLocked_pending [OF no_room(1)]
    by (intro exI [of _ False]) (auto simp: pending_of_def pending_works_def)
next
  case (room t)
  let ?w = "\<lparr>entry = e, wgroup = g\<rparr>"
  note r = makeCaptureRoomLocked_pending [OF room(1)]
  have p: "pending_of (admit ?w t) k = pending_of t k @ (if k = g then [?w] else [])" for k
    by (auto simp: pending_of_def admit_queues AList.update_conv' map_add_def split: option.split)
  have "length (pending_works (admit ?w t)) = Suc (length (pending_works t))"
    using arg_cong [OF admit_works [of ?w t], of size] by simp
  moreover have "dropped_total (admit ?w t) = dropped_total t" by (simp add: dropped_total_def admit_fields)
  ultimately show ?thesis using r p room(5) by (intro exI [of _ True]) (auto simp: add.assoc add.left_commute)
qed

lemma nextCapture_pending:
  assumes "wf_queues s" "nextCapture s = Work w t"
  shows "pending_of s k = (if k = wgroup w then [w] else []) @ pending_of t k"
    and "length (pending_works s) = Suc (length (pending_works t))"
    and "dropped_total t = dropped_total s"
proof -
  obtain g rest q ws where n: "captureOrder s = g # rest" "map_of (captureQueues s) g = Some q" "items q = w # ws" "wgroup w = g"
    and t: "t = (if ws = [] then s\<lparr>captureQueues := AList.delete g (captureQueues s), captureOrder := rest\<rparr>
          else s\<lparr>captureQueues := AList.update g \<lparr>items = ws, pbytes = pbytes q - wsize w\<rparr> (captureQueues s),
                 captureOrder := rest @ [g]\<rparr>)"
    using nextCapture_cases [OF assms] .
  show "pending_of s k = (if k = wgroup w then [w] else []) @ pending_of t k"
    using n by (auto simp: t pending_of_def AList.delete_conv' AList.update_conv')
  have "mset (pending_works s) = add_mset w (mset (pending_works t))"
    using concat_items_delete [OF _ n(2)] concat_items_update [OF n(2), of "\<lparr>items = ws, pbytes = pbytes q - wsize w\<rparr>"] n(3) assms(1)
    by (auto simp: t pending_works_def wf_queues_def)
  from arg_cong [OF this, of size] show "length (pending_works s) = Suc (length (pending_works t))" by simp
  show "dropped_total t = dropped_total s" by (simp add: t dropped_total_def)
qed

section \<open>Order and conservation\<close>

definition enqueued :: "capture_act list \<Rightarrow> captureWrite list" where
  "enqueued acts = concat (map (\<lambda>a. case a of Enqueue _ e g \<Rightarrow> [\<lparr>entry = e, wgroup = g\<rparr>] | _ \<Rightarrow> []) acts)"

definition of_group :: "gid \<Rightarrow> captureWrite list \<Rightarrow> captureWrite list" where
  "of_group g ws = filter (\<lambda>w. wgroup w = g) ws"

text \<open>Everything of group \<open>g\<close> the machine has written, is writing or still holds, in that order.\<close>

definition group_line :: "capture_machine \<Rightarrow> gid \<Rightarrow> captureWrite list" where
  "group_line m g = of_group g (written m @ held_inflight m) @ pending_of (qstore m) g"

definition conserved :: "capture_act list \<Rightarrow> capture_machine \<Rightarrow> bool" where
  "conserved acts m \<longleftrightarrow>
     (of_nat (length (enqueued acts)) :: 64 word) =
       of_nat (length (written m)) + of_nat (length (held_inflight m)) + of_nat (length (pending_works (qstore m)))
       + dropped_total (qstore m)"

lemma machine_inv_wf: "machine_inv m \<Longrightarrow> wf_queues (qstore m)"
  by (simp add: machine_inv_def queue_inv_def)

lemma subseq_prefix_line: "prefix p q \<Longrightarrow> subseq (ws @ q) es \<Longrightarrow> subseq (ws @ p) es"
  by (meson list_emb_append_mono prefix_imp_subseq subseq_order.order_refl subseq_order.trans)

lemma pop_cases:
  obtains (idle) "capture_step Pop m = m"
  | (take) w t where "inflight m = None" "nextCapture (qstore m) = Work w t"
      "capture_step Pop m = m\<lparr>qstore := t, inflight := Some w, taken := taken m @ [w]\<rparr>"
  by (cases "inflight m"; cases "nextCapture (qstore m)") auto

lemma group_line_step:
  assumes "machine_inv m" "subseq (group_line m g) (of_group g (enqueued acts))"
  shows "subseq (group_line (capture_step a m) g) (of_group g (enqueued (acts @ [a])))"
proof (cases a)
  case (Enqueue iter e h)
  let ?w = "\<lparr>entry = e, wgroup = h\<rparr>"
  have inv: "queue_inv (mset (held_inflight m)) (qstore m)" using assms(1) by (simp add: machine_inv_def)
  obtain b p where p: "prefix p (pending_of (qstore m) g)"
    "pending_of (enqueue iter e h (qstore m)) g = p @ (if g = h \<and> b then [?w] else [])"
    using enqueue_pending [OF inv, of iter e h] by blast
  have "subseq (of_group g (written m @ held_inflight m) @ p) (of_group g (enqueued acts))"
    using subseq_prefix_line [OF p(1)] assms(2) by (simp add: group_line_def)
  moreover have "subseq (if g = h \<and> b then [?w] else []) (of_group g [?w])" by (simp add: of_group_def)
  ultimately have "subseq ((of_group g (written m @ held_inflight m) @ p) @ (if g = h \<and> b then [?w] else []))
      (of_group g (enqueued acts) @ of_group g [?w])" by (rule list_emb_append_mono)
  then show ?thesis using p(2)
    by (simp add: Enqueue group_line_def held_inflight_def enqueued_def of_group_def)
next
  case Pop
  have "group_line (capture_step Pop m) g = group_line m g"
    by (rule pop_cases [of m])
       (auto simp: group_line_def held_inflight_def of_group_def dest: nextCapture_pending(1) [OF machine_inv_wf [OF assms(1)], of _ _ g])
  then show ?thesis using assms(2) Pop by (simp add: enqueued_def)
next
  case (Finish e)
  have "subseq (group_line (capture_step (Finish e) m) g) (group_line m g)"
  proof (cases "inflight m")
    case None
    then show ?thesis by simp
  next
    case (Some w)
    have "pending_of (finish_write w e (qstore m)) g = pending_of (qstore m) g"
      by (simp add: pending_of_def finish_write_def Let_def)
    then show ?thesis using Some
      by (auto simp: group_line_def held_inflight_def of_group_def intro: list_emb_append_mono)
  qed
  then show ?thesis using assms(2) Finish by (auto simp: enqueued_def intro: subseq_order.trans)
qed (use assms(2) in \<open>simp_all add: group_line_def held_inflight_def enqueued_def pending_of_def\<close>)

lemma conserved_step:
  assumes "machine_inv m" "conserved acts m"
  shows "conserved (acts @ [a]) (capture_step a m)"
proof (cases a)
  case (Enqueue iter e g)
  have "queue_inv (mset (held_inflight m)) (qstore m)" using assms(1) by (simp add: machine_inv_def)
  from enqueue_pending [OF this, of iter e g] show ?thesis
    using assms(2) by (auto simp: Enqueue conserved_def held_inflight_def enqueued_def add.assoc)
next
  case Pop
  show ?thesis
  proof (cases rule: pop_cases [of m])
    case idle
    then show ?thesis using assms(2) Pop by (simp add: conserved_def enqueued_def)
  next
    case (take w t)
    note n = nextCapture_pending(2,3) [OF machine_inv_wf [OF assms(1)] take(2)]
    then show ?thesis using assms(2) take(1,3) Pop by (simp add: conserved_def held_inflight_def enqueued_def)
  qed
next
  case (Finish e)
  have "pending_works (finish_write w e s) = pending_works s"
    "dropped_total (finish_write w e s) = dropped_total s + (if e = None then 0 else 1)" for w s
    by (simp_all add: pending_works_def finish_write_def Let_def)
  then show ?thesis
    using assms(2) by (auto simp: Finish conserved_def held_inflight_def enqueued_def split: option.splits)
qed (use assms(2) in \<open>simp_all add: conserved_def held_inflight_def enqueued_def pending_works_def dropped_total_def RetainNames_def\<close>)

lemma capture_run_conserved: "conserved acts (capture_run acts)"
proof (induction acts rule: rev_induct)
  case Nil
  show ?case
    by (simp add: conserved_def capture_run_def capture_init_def enqueued_def held_inflight_def pending_works_def
        dropped_total_def new_stats_def no_stats_def)
qed (simp add: capture_run_snoc conserved_step capture_run_inv)

section \<open>Turns\<close>

text \<open>One step against a known front \<open>xs\<close> of the turn order: nothing is taken and the front stays, or the next of
  the front is served and leaves it.\<close>

lemma enqueue_order:
  assumes "queue_inv f s"
  shows "\<exists>zs. captureOrder (enqueue iter e g s) = captureOrder s @ zs"
  using assms
proof (cases rule: enqueue_cases [where e = e and g = g and iter = iter])
  case (no_room t)
  then show ?thesis using makeCaptureRoomLocked_inv [OF assms no_room(1)] by simp
next
  case (room t)
  then show ?thesis using makeCaptureRoomLocked_inv [OF assms room(1)] by (simp add: admit_fields)
qed simp

lemma nextCapture_order:
  assumes "wf_queues s" "nextCapture s = Work w t"
  obtains rest zs where "captureOrder s = wgroup w # rest" "captureOrder t = rest @ zs"
  using nextCapture_cases [OF assms]
proof cases
  case (1 g rest q ws)
  then show thesis using that [of rest "if ws = [] then [] else [g]"] by simp
qed

lemma finish_order [simp]: "captureOrder (finish_write w e s) = captureOrder s"
  by (simp add: finish_write_def Let_def)

lemma capture_step_turn:
  assumes "machine_inv m" "captureOrder (qstore m) = xs @ zs"
  shows "(\<exists>zs'. taken (capture_step a m) = taken m \<and> captureOrder (qstore (capture_step a m)) = xs @ zs')
    \<or> (\<exists>w zs'. taken (capture_step a m) = taken m @ [w] \<and> prefix (take (length xs) [wgroup w]) xs
          \<and> captureOrder (qstore (capture_step a m)) = tl xs @ zs')"
proof (cases a)
  case (Enqueue iter e g)
  have "queue_inv (mset (held_inflight m)) (qstore m)" using assms(1) by (simp add: machine_inv_def)
  from enqueue_order [OF this, of iter e g] show ?thesis using assms(2) Enqueue by auto
next
  case Pop
  show ?thesis
  proof (cases rule: pop_cases [of m])
    case idle
    then show ?thesis using Pop assms(2) by simp
  next
    case (take w t)
    from nextCapture_order [OF machine_inv_wf [OF assms(1)] take(2)]
    obtain rest ys where "captureOrder (qstore m) = wgroup w # rest" "captureOrder t = rest @ ys" .
    then show ?thesis using take(3) Pop assms(2) by (cases xs) auto
  qed
qed (use assms(2) in \<open>auto split: option.splits\<close>)

lemma capture_turns:
  assumes "machine_inv m" "captureOrder (qstore m) = xs @ zs"
  shows "\<exists>new. taken (fold capture_step acts m) = taken m @ new \<and> prefix (take (length xs) (map wgroup new)) xs"
  using assms
proof (induction acts arbitrary: m xs zs)
  case (Cons a acts)
  have inv: "machine_inv (capture_step a m)" by (rule capture_step_inv [OF Cons.prems(1)])
  from capture_step_turn [OF Cons.prems, of a] show ?case
  proof (elim disjE exE conjE)
    fix zs' assume "taken (capture_step a m) = taken m" "captureOrder (qstore (capture_step a m)) = xs @ zs'"
    with Cons.IH [OF inv this(2)] show ?thesis by simp
  next
    fix w zs'
    assume s: "taken (capture_step a m) = taken m @ [w]" "prefix (take (length xs) [wgroup w]) xs"
      "captureOrder (qstore (capture_step a m)) = tl xs @ zs'"
    obtain new where "taken (fold capture_step acts (capture_step a m)) = taken m @ w # new"
      "prefix (take (length (tl xs)) (map wgroup new)) (tl xs)"
      using Cons.IH [OF inv s(3)] s(1) by auto
    then show ?thesis using s(2) by (intro exI [of _ "w # new"]) (cases xs; simp)
  qed
qed (intro exI [of _ "[]"], simp)

lemma rounds_drain:
  assumes "machine_inv m" "inflight m = None" "length (pending_works (qstore m)) \<le> length es"
  shows "pending_works (qstore (fold capture_step (concat (map (\<lambda>e. [Pop, Finish e]) es)) m)) = []
    \<and> inflight (fold capture_step (concat (map (\<lambda>e. [Pop, Finish e]) es)) m) = None"
  using assms
proof (induction es arbitrary: m)
  case (Cons e es)
  let ?m = "capture_step (Finish e) (capture_step Pop m)"
  have inv: "machine_inv ?m" by (intro capture_step_inv Cons.prems)
  have "inflight ?m = None \<and> length (pending_works (qstore ?m)) \<le> length es"
  proof (cases rule: pop_cases [of m])
    case idle
    then have no: "nextCapture (qstore m) = Ended \<or> nextCapture (qstore m) = Waiting"
      using Cons.prems(2) by (cases "nextCapture (qstore m)") (auto dest: arg_cong [where f = taken])
    then have "captureOrder (qstore m) = []" by (auto simp: nextCapture_def Let_def split: list.splits)
    then have "pending_works (qstore m) = []"
      using machine_inv_wf [OF Cons.prems(1)] by (simp add: pending_works_def wf_queues_def)
    then show ?thesis using idle Cons.prems(2) by (simp del: capture_step.simps(2))
  next
    case (take w t)
    have "pending_works (finish_write w e t) = pending_works t"
      by (simp add: pending_works_def finish_write_def Let_def)
    then show ?thesis
      using take Cons.prems(3) nextCapture_pending(2) [OF machine_inv_wf [OF Cons.prems(1)] take(2)] by (simp del: capture_step.simps(2))
  qed
  with Cons.IH [OF inv] show ?case by (simp del: capture_step.simps)
qed simp

lemma no_pending:
  assumes "wf_queues s" "pending_works s = []"
  shows "captureQueues s = []"
proof (cases "captureQueues s")
  case (Cons a al)
  then have "map_of (captureQueues s) (fst a) = Some (snd a)" by (cases a) simp
  then have "queue_ok (fst a) (snd a)" using assms(1) unfolding wf_queues_def by blast
  then show ?thesis using assms(2) Cons by (simp add: pending_works_def queue_ok_def)
qed

lemma closed_stays:
  assumes "queueClosed (qstore m)"
  shows "queueClosed (qstore (fold capture_step (concat (map (\<lambda>e. [Pop, Finish e]) es)) m))"
  using assms
proof (induction es arbitrary: m)
  case (Cons e es)
  have "queueClosed (qstore (capture_step Pop m))"
    using Cons.prems
    by (rule_tac pop_cases [of m]) (auto simp: nextCapture_def Let_def removeCaptureQueueLocked_def split: list.splits if_splits)
  then have "queueClosed (qstore (capture_step (Finish e) (capture_step Pop m)))"
    by (auto simp: finish_write_def Let_def simp del: capture_step.simps(2) split: option.split)
  from Cons.IH [OF this] show ?case by (simp del: capture_step.simps)
qed simp

section \<open>Properties\<close>

text \<open>
  C20: no captured record disappears silently and the queue keeps its limits.  After any interleaving of readers
  enqueuing, the writer popping and finishing writes (with or without an error), evictions, closing and counter
  retention: at most 16384 records and 16 MiB are held in at most 2048 queues, at most 12288 records and 4 MiB for
  one invocation, and the counters are those of the records held; and the number of records ever captured is the
  number written, plus the number queued or in flight, plus the \<open>DroppedRecords\<close> total of the queue (modulo \<open>2^64\<close>, as
  the counter is).  What closing the journal files adds to the same counter, for records a failed last sync leaves in a
  write buffer, is outside the queue.
\<close>

theorem capture_queue_exact:
  "let m = capture_run acts; s = qstore m; h = mset (held_inflight m @ pending_works s)
   in queuedRecords s \<le> 16384 \<and> queuedBytes s \<le> 16 * 2 ^ 20 \<and> length (captureQueues s) \<le> 2048
      \<and> grecords (groups s g) \<le> 12288 \<and> gbytes (groups s g) \<le> 4 * 2 ^ 20
      \<and> queuedRecords s = int (size h) \<and> queuedBytes s = (\<Sum>w \<in># h. wsize w)
      \<and> grecords (groups s g) = int (size (filter_mset (\<lambda>w. wgroup w = g) h)) \<and> gwg (groups s g) = grecords (groups s g)
      \<and> of_nat (length (enqueued acts)) =
          of_nat (length (written m)) + of_nat (nat (queuedRecords s)) + DroppedRecords (totalStats (stats s))"
proof -
  have "machine_inv (capture_run acts)" by (rule capture_run_inv)
  moreover have "conserved acts (capture_run acts)" by (rule capture_run_conserved)
  ultimately show ?thesis
    by (auto simp: machine_inv_def queue_inv_def limits_def acct_def Let_def conserved_def dropped_total_def ac_simps
        captureQueueBytes_def captureQueueRecords_def invocationQueueBytes_def invocationQueueRecords_def maxQueuedCaptureGroups_def)
qed

text \<open>
  C21: what one invocation captured reaches its journal in order.  For every invocation, the records written so far,
  then the one being written, then those pending form a subsequence of the records its readers enqueued: queue
  pressure, write errors and the turns of other invocations drop records but never reorder or duplicate them.
\<close>

theorem capture_fifo:
  "subseq (of_group g (written (capture_run acts) @ held_inflight (capture_run acts)) @ pending_of (qstore (capture_run acts)) g)
     (of_group g (enqueued acts))"
proof (induction acts rule: rev_induct)
  case Nil
  show ?case by (simp add: capture_run_def capture_init_def held_inflight_def pending_of_def of_group_def)
next
  case (snoc a acts)
  then show ?case
    using group_line_step [OF capture_run_inv, of acts g acts a] by (simp add: group_line_def capture_run_snoc)
qed

text \<open>
  C22: the writer serves the invocations in turn.  From any reachable state, whatever the readers do meanwhile, the
  next records the writer takes come from the invocations waiting now, one each, in their turn order, before any
  invocation is served twice or a later one is served; and those waiting are exactly the invocations with pending
  records.
\<close>

theorem capture_round_robin:
  "let m = capture_run pre; new = drop (length (taken m)) (taken (capture_run (pre @ acts)));
       waiting = captureOrder (qstore m)
   in prefix (take (length waiting) (map wgroup new)) waiting \<and> distinct waiting
      \<and> (g \<in> set waiting \<longleftrightarrow> pending_of (qstore m) g \<noteq> [])"
proof -
  let ?m = "capture_run pre"
  have wf: "wf_queues (qstore ?m)" by (rule machine_inv_wf [OF capture_run_inv])
  obtain new where "taken (fold capture_step acts ?m) = taken ?m @ new"
    "prefix (take (length (captureOrder (qstore ?m))) (map wgroup new)) (captureOrder (qstore ?m))"
    using capture_turns [OF capture_run_inv, of pre "captureOrder (qstore ?m)" "[]" acts] by auto
  moreover have "capture_run (pre @ acts) = fold capture_step acts ?m" by (simp add: capture_run_def)
  moreover have "g \<in> set (captureOrder (qstore ?m)) \<longleftrightarrow> pending_of (qstore ?m) g \<noteq> []"
    using wf wf_queues_groups [OF wf, of g] by (auto simp: pending_of_def wf_queues_def queue_ok_def split: option.splits)
  ultimately show ?thesis using wf by (simp add: wf_queues_def Let_def)
qed

text \<open>
  C23: closing drains.  Once the queue is closed with the writer idle, as many write rounds as records are pending,
  each ending with or without a storage error, leave nothing queued and make the writer's next \<open>nextCapture\<close> return
  the end of the queue: a failing disk cannot keep the writer from finishing.
\<close>

theorem capture_close_drains:
  assumes "inflight (capture_run acts) = None" "length (pending_works (qstore (capture_run acts))) \<le> length es"
  shows "let m = capture_run (acts @ CloseQueue # concat (map (\<lambda>e. [Pop, Finish e]) es))
         in nextCapture (qstore m) = Ended \<and> queuedRecords (qstore m) = 0 \<and> queuedBytes (qstore m) = 0"
proof -
  let ?c = "capture_step CloseQueue (capture_run acts)"
  let ?m = "fold capture_step (concat (map (\<lambda>e. [Pop, Finish e]) es)) ?c"
  have m: "capture_run (acts @ CloseQueue # concat (map (\<lambda>e. [Pop, Finish e]) es)) = ?m"
    by (simp add: capture_run_def)
  have d: "pending_works (qstore ?m) = []" "inflight ?m = None"
    using rounds_drain [OF capture_step_inv [OF capture_run_inv], of CloseQueue acts es] assms
    by (simp_all add: pending_works_def)
  have inv: "machine_inv ?m" using capture_run_inv m by metis
  have "captureQueues (qstore ?m) = []" by (rule no_pending [OF machine_inv_wf [OF inv] d(1)])
  then have "captureOrder (qstore ?m) = []" using machine_inv_wf [OF inv] by (simp add: wf_queues_def)
  moreover have "queueClosed (qstore ?m)" by (rule closed_stays) simp
  ultimately show ?thesis
    using inv d unfolding m by (simp add: nextCapture_def machine_inv_def held_inflight_def queue_inv_def acct_def)
qed

definition sample_acts :: "capture_act list" where
  "sample_acts =
     (let e = (\<lambda>msg. \<lparr>Timestamp = 0, EUnit = ''a.service'', PID = 1, Stream = ''stdout'', Message = msg, InvocationID = [],
                      Severity = [], Session = [], UserSID = [], Continuation = False, Partial = False\<rparr>)
      in map (\<lambda>(msg, g). Enqueue (\<lambda>s. map fst (captureQueues s)) (e msg) g) [(''x'', 0), (''yy'', 1), (''z'', 0)])"

theorem capture_close_drains_witness:
  "inflight (capture_run sample_acts) = None \<and> length (pending_works (qstore (capture_run sample_acts))) = 3
   \<and> (let m = capture_run (sample_acts @ CloseQueue # concat (map (\<lambda>e. [Pop, Finish e]) [None, Some ''disk full'', None]))
      in nextCapture (qstore m) = Ended \<and> queuedRecords (qstore m) = 0 \<and> queuedBytes (qstore m) = 0)"
proof -
  have h: "inflight (capture_run sample_acts) = None" "length (pending_works (qstore (capture_run sample_acts))) = 3"
    by code_simp+
  then have "length (pending_works (qstore (capture_run sample_acts))) \<le> length [None, Some ''disk full'', None]" by simp
  with h show ?thesis by (intro conjI capture_close_drains) simp_all
qed

end
