(* ===== verification/Journal_Names.thy ===== *)
theory Journal_Names
  imports Journal_Stats
begin

text \<open>
  The names the journal uses: file names (\<open>internal/journal/name.go\<close>, \<open>retainedDiskName\<close> of
  \<open>internal/journal/disk_retention.go\<close>) and invocation identifiers (\<open>internal/journal/id.go\<close>).  Strings are
  byte strings, as \<open>name.go\<close> treats them.
\<close>

section \<open>File names\<close>

definition safeFileByte :: "char \<Rightarrow> bool" where
  "safeFileByte c \<longleftrightarrow> is_lower_ascii c \<or> is_upper_ascii c \<or> is_digit c \<or> c \<in> set ''-_.@''"

definition hex_upper :: "nat \<Rightarrow> char" where
  "hex_upper n = (if n < 10 then char_of (48 + n) else char_of (55 + n))"

text \<open>The format \<open>%%%02X\<close>.\<close>

definition pct :: "char \<Rightarrow> string" where
  "pct c = [CHR ''%'', hex_upper (of_char c div 16), hex_upper (of_char c mod 16)]"

definition encode_byte :: "char \<Rightarrow> string" where
  "encode_byte c = (if safeFileByte c then [c] else pct c)"

definition reservedDeviceName :: "string \<Rightarrow> bool" where
  "reservedDeviceName stem =
     (let s = ToLower stem
      in s \<in> set [''con'', ''prn'', ''aux'', ''nul'']
         \<or> (length s = 4 \<and> (take 3 s = ''com'' \<or> take 3 s = ''lpt'') \<and> is_digit (s ! 3) \<and> s ! 3 \<noteq> CHR ''0''))"

definition trailing :: "string \<Rightarrow> bool" where
  "trailing name \<longleftrightarrow> name \<noteq> [] \<and> (last name = CHR ''.'' \<or> last name = CHR '' '')"

lemma hex_upper_code: "n < 16 \<Longrightarrow> (of_char (hex_upper n) :: nat) = (if n < 10 then 48 + n else 55 + n)"
  by (simp add: hex_upper_def)

lemma hex_upper_not_trailing: "n < 16 \<Longrightarrow> hex_upper n \<noteq> CHR ''.'' \<and> hex_upper n \<noteq> CHR '' ''"
  using hex_upper_code [of n] by (auto split: if_splits)

lemma pct_not_trailing: "\<not> trailing (s @ pct c)"
  using hex_upper_not_trailing [of "of_char c mod 16"] by (simp add: trailing_def pct_def)

function encode_trailing :: "string \<Rightarrow> string" where
  "encode_trailing name = (if trailing name then encode_trailing (butlast name @ pct (last name)) else name)"
  by pat_completeness auto
termination by (relation "measure (\<lambda>name. if trailing name then 1 else 0)") (auto simp: pct_not_trailing)

declare encode_trailing.simps [simp del]

definition stem_of :: "string \<Rightarrow> string" where
  "stem_of name = takeWhile (\<lambda>c. c \<noteq> CHR ''.'') name"

definition encodeReservedFileName :: "string \<Rightarrow> string" where
  "encodeReservedFileName name0 =
     (let name = encode_trailing name0
      in if reservedDeviceName (stem_of name) \<and> name \<noteq> [] then pct (hd name) @ tl name else name)"

definition unitFileName :: "string \<Rightarrow> string" where
  "unitFileName unit0 =
     (let unit = canonicalUnit unit0
      in if unit = [] then ''_unknown.log''
         else let name = concat (map encode_byte unit)
              in (if name = [] \<or> name = ''.'' \<or> name = ''..'' then ''_unknown'' else encodeReservedFileName name) @ ''.log'')"

text \<open>\<open>ParseUint\<close> in base 16 on the two bytes after a percent sign.\<close>

definition hex_val :: "char \<Rightarrow> nat option" where
  "hex_val c =
     (if is_digit c then Some (digit_val c)
      else if is_lower_ascii c \<and> (of_char c :: nat) \<le> 102 then Some (of_char c - 87)
      else if is_upper_ascii c \<and> (of_char c :: nat) \<le> 70 then Some (of_char c - 55)
      else None)"

fun decode_bytes :: "string \<Rightarrow> string" where
  "decode_bytes [] = []"
| "decode_bytes [c] = [c]"
| "decode_bytes [c, d] = [c, d]"
| "decode_bytes (c # a # b # s) =
     (if c = CHR ''%'' then
        (case (hex_val a, hex_val b) of
           (Some x, Some y) \<Rightarrow> char_of (16 * x + y) # decode_bytes s
         | _ \<Rightarrow> c # decode_bytes (a # b # s))
      else c # decode_bytes (a # b # s))"

definition CutSuffix :: "string \<Rightarrow> string \<Rightarrow> string option" where
  "CutSuffix s suf = (if HasSuffix s suf then Some (take (length s - length suf) s) else None)"

definition decodeUnitFileName :: "string \<Rightarrow> string option" where
  "decodeUnitFileName filename =
     (case CutSuffix filename ''.log'' of
        None \<Rightarrow> None
      | Some name \<Rightarrow> if name = ''_unknown'' then Some [] else Some (decode_bytes name))"

definition DefaultKeep :: nat where
  "DefaultKeep = 3"

text \<open>The archive loop: the first generation \<open>i\<close> whose suffix the name has.\<close>

fun cut_generation :: "string \<Rightarrow> nat list \<Rightarrow> string option" where
  "cut_generation name [] = None"
| "cut_generation name (i # is) =
     (case CutSuffix name (''.'' @ Itoa i) of Some b \<Rightarrow> Some b | None \<Rightarrow> cut_generation name is)"

definition retainedDiskName :: "string \<Rightarrow> string option" where
  "retainedDiskName name =
     (case (if HasSuffix name ''.log'' then Some name else cut_generation name [1..<DefaultKeep + 1]) of
        None \<Rightarrow> None
      | Some base \<Rightarrow>
          (case decodeUnitFileName base of
             None \<Rightarrow> None
           | Some decoded \<Rightarrow>
               (let unit = (if base = ''_unknown.log'' then ''_unknown'' else decoded)
                in if unit \<noteq> [] \<and> unitFileName unit = base then Some unit else None)))"

section \<open>Invocation identifiers\<close>

definition EnvInvocationID :: string where
  "EnvInvocationID = ''WINUNIT_INVOCATION_ID''"

definition ValidInvocationID :: "string \<Rightarrow> bool" where
  "ValidInvocationID ident \<longleftrightarrow>
     length ident = 36 \<and> ident ! 8 = CHR ''-'' \<and> ident ! 13 = CHR ''-'' \<and> ident ! 18 = CHR ''-'' \<and> ident ! 23 = CHR ''-''
     \<and> list_all (\<lambda>(i, r). i \<in> set [8, 13, 18, 23] \<or> hex_val r \<noteq> None) (enumerate 0 ident)"

definition hex_bytes :: "8 word list \<Rightarrow> string" where
  "hex_bytes bs = concat (map (\<lambda>b. [hex_digit (unat b div 16), hex_digit (unat b mod 16)]) bs)"

text \<open>\<open>NewInvocationID\<close> on the sixteen random bytes it read.\<close>

definition NewInvocationID :: "8 word list \<Rightarrow> string" where
  "NewInvocationID b0 =
     (let b1 = b0[6 := or (and (b0 ! 6) 0x0f) 0x40];
          b = b1[8 := or (and (b1 ! 8) 0x3f) 0x80];
          part = (\<lambda>i j. hex_bytes (take (j - i) (drop i b)))
      in part 0 4 @ ''-'' @ part 4 6 @ ''-'' @ part 6 8 @ ''-'' @ part 8 10 @ ''-'' @ part 10 16)"

text \<open>The loop of \<open>InjectEnv\<close>: the first entry of that name is replaced, otherwise the pair is appended.\<close>

fun inject :: "string \<Rightarrow> string list \<Rightarrow> string list" where
  "inject kv [] = [kv]"
| "inject kv (e # es) =
     (if EqualFold (fst (Cut e ''='')) EnvInvocationID then kv # es else e # inject kv es)"

definition InjectEnv :: "string list \<Rightarrow> string \<Rightarrow> string list" where
  "InjectEnv env ident = (if ident = [] then env else inject (EnvInvocationID @ ''='' @ ident) env)"

section \<open>Encodings\<close>

text \<open>\<open>encodes n cs\<close>: the file name \<open>n\<close> spells the bytes \<open>cs\<close>, each raw if safe or by its percent code.\<close>

inductive encodes :: "string \<Rightarrow> string \<Rightarrow> bool" where
  enc_Nil: "encodes [] []"
| enc_raw: "encodes n cs \<Longrightarrow> safeFileByte c \<Longrightarrow> encodes (c # n) (c # cs)"
| enc_pct: "encodes n cs \<Longrightarrow> encodes (pct c @ n) (c # cs)"

lemma encodes_append: "encodes n cs \<Longrightarrow> encodes m ds \<Longrightarrow> encodes (n @ m) (cs @ ds)"
  by (induction n cs rule: encodes.induct) (auto intro: encodes.intros)

lemma hex_val_upper: "n < 16 \<Longrightarrow> hex_val (hex_upper n) = Some n"
  by (auto simp: hex_val_def is_digit_def digit_val_def is_lower_ascii_def is_upper_ascii_def hex_upper_code)

lemma char_nibbles [simp]: "(of_char c :: nat) div 16 < 16" "(of_char c :: nat) mod 16 < 16"
  using nat_of_char_less_256 [of c] by (simp_all add: less_mult_imp_div_less)

lemma safe_not_pct: "safeFileByte c \<Longrightarrow> c \<noteq> CHR ''%''"
  by (auto simp: safeFileByte_def is_lower_ascii_def is_upper_ascii_def is_digit_def)

lemma decode_pct: "decode_bytes (pct c @ s) = c # decode_bytes s"
proof -
  have "hex_val (hex_upper (of_char c div 16)) = Some (of_char c div 16)"
    "hex_val (hex_upper (of_char c mod 16)) = Some (of_char c mod 16)" by (simp_all add: hex_val_upper)
  then show ?thesis by (simp add: pct_def)
qed

lemma decode_raw: "c \<noteq> CHR ''%'' \<Longrightarrow> decode_bytes (c # s) = c # decode_bytes s"
  by (cases s rule: decode_bytes.cases) auto

lemma decode_encodes: "encodes n cs \<Longrightarrow> decode_bytes n = cs"
  by (induction n cs rule: encodes.induct) (simp_all add: decode_raw decode_pct safe_not_pct)

lemma encodes_concat: "encodes (concat (map encode_byte cs)) cs"
  by (induction cs) (auto simp: encode_byte_def intro: encodes.intros)

lemma encodes_pct1: "encodes (pct c) [c]"
  using enc_pct [OF enc_Nil, of c] by simp

lemma encode_trailing_encodes:
  "encodes (encode_trailing (concat (map encode_byte cs))) cs \<and> \<not> trailing (encode_trailing (concat (map encode_byte cs)))"
proof (cases "trailing (concat (map encode_byte cs))")
  case False
  then show ?thesis using encodes_concat by (simp add: encode_trailing.simps)
next
  case True
  then obtain ds c where cs: "cs = ds @ [c]" by (cases cs rule: rev_cases) (auto simp: trailing_def)
  have safe: "safeFileByte c"
    using True pct_not_trailing [of "concat (map encode_byte ds)" c] by (rule_tac ccontr) (simp add: cs encode_byte_def)
  have "encode_trailing (concat (map encode_byte cs)) = concat (map encode_byte ds) @ pct c"
    using True safe encode_trailing.simps [of "concat (map encode_byte cs)"]
      encode_trailing.simps [of "concat (map encode_byte ds) @ pct c"]
    by (simp add: cs encode_byte_def pct_not_trailing)
  then show ?thesis
    using encodes_append [OF encodes_concat [of ds] encodes_pct1 [of c]] pct_not_trailing by (simp add: cs)
qed

lemma reserved_stem_not_pct: "reservedDeviceName (stem_of (CHR ''%'' # s)) = False"
  by (auto simp: reservedDeviceName_def stem_of_def ToLower_def lower_char_def is_upper_ascii_def Let_def)

lemma encodes_hd: "encodes (c # n) cs \<Longrightarrow> c \<noteq> CHR ''%'' \<Longrightarrow> \<exists>ds. cs = c # ds \<and> encodes n ds"
  by (erule encodes.cases) (auto simp: pct_def)

lemma encodeReservedFileName_encodes:
  "encodes (encodeReservedFileName (concat (map encode_byte cs))) cs
   \<and> \<not> reservedDeviceName (stem_of (encodeReservedFileName (concat (map encode_byte cs))))"
proof -
  let ?n = "encode_trailing (concat (map encode_byte cs))"
  have e: "encodes ?n cs" using encode_trailing_encodes by blast
  show ?thesis
  proof (cases "reservedDeviceName (stem_of ?n) \<and> ?n \<noteq> []")
    case False
    moreover have "\<not> reservedDeviceName (stem_of [])" by (simp add: stem_of_def reservedDeviceName_def ToLower_def)
    ultimately show ?thesis using e by (auto simp: encodeReservedFileName_def Let_def)
  next
    case True
    then obtain c m where n: "?n = c # m" by (cases ?n) auto
    then have "c \<noteq> CHR ''%''" using True reserved_stem_not_pct by auto
    then obtain ds where "cs = c # ds" "encodes m ds" using encodes_hd e n by metis
    then show ?thesis using True n enc_pct [of m ds c] reserved_stem_not_pct
      by (simp add: encodeReservedFileName_def Let_def pct_def)
  qed
qed

text \<open>The name of a usable unit: its encoding and \<open>.log\<close>; the three others share the fallback name.\<close>

lemma encode_byte_dot: "concat (map encode_byte cs) = ''.'' \<longleftrightarrow> cs = ''.''" "concat (map encode_byte cs) = ''..'' \<longleftrightarrow> cs = ''..''"
proof -
  have dot: "concat (map encode_byte ''.'') = ''.''" "concat (map encode_byte ''..'') = ''..''"
    by (simp_all add: encode_byte_def safeFileByte_def)
  show "concat (map encode_byte cs) = ''.'' \<longleftrightarrow> cs = ''.''" "concat (map encode_byte cs) = ''..'' \<longleftrightarrow> cs = ''..''"
    using dot decode_encodes [OF encodes_concat [of cs]] by auto
qed

lemma unitFileName_usable:
  assumes "canonicalUnit u \<notin> {[], ''.'', ''..''}"
  obtains n where "unitFileName u = n @ ''.log''" "encodes n (canonicalUnit u)" "\<not> reservedDeviceName (stem_of n)"
proof
  let ?n = "concat (map encode_byte (canonicalUnit u))"
  have "encode_byte c \<noteq> []" for c by (simp add: encode_byte_def pct_def)
  then have "?n \<noteq> []" using assms by (cases "canonicalUnit u") auto
  then show "unitFileName u = encodeReservedFileName ?n @ ''.log''"
    using assms unfolding unitFileName_def Let_def encode_byte_dot by auto
  show "encodes (encodeReservedFileName ?n) (canonicalUnit u)"
    "\<not> reservedDeviceName (stem_of (encodeReservedFileName ?n))" using encodeReservedFileName_encodes by blast+
qed

lemma unitFileName_fallback:
  assumes "canonicalUnit u \<in> {[], ''.'', ''..''}"
  shows "unitFileName u = ''_unknown.log''"
  using assms by (auto simp: unitFileName_def Let_def encode_byte_def safeFileByte_def)

lemma canonicalUnit_idem [simp]: "canonicalUnit (canonicalUnit u) = canonicalUnit u"
  by (simp add: canonicalUnit_def TrimSpace_ToLower)

lemma unitFileName_canonical: "unitFileName (canonicalUnit u) = unitFileName u"
  by (simp add: unitFileName_def)

lemma CutSuffix_append [simp]: "CutSuffix (n @ s) s = Some n"
  by (simp add: CutSuffix_def HasSuffix_def suffix_def)

lemma suffix_iff_rev: "suffix s (n @ t) \<longleftrightarrow> prefix (rev s) (rev t @ rev n)"
  by (simp add: suffix_to_prefix)

lemma retained_log: "HasSuffix (n @ ''.log'') ''.log''"
  by (simp add: HasSuffix_def suffix_def)

lemma retained_usable:
  assumes "canonicalUnit u \<notin> {[], ''.'', ''..''}"
  shows "retainedDiskName (unitFileName u) = Some (canonicalUnit u)"
proof -
  obtain n where n: "unitFileName u = n @ ''.log''" "encodes n (canonicalUnit u)" by (rule unitFileName_usable [OF assms])
  show ?thesis
  proof (cases "n = ''_unknown''")
    case True
    then have "canonicalUnit u = ''_unknown''" using decode_encodes [OF n(2)] by simp
    then show ?thesis
      using n(1) True unitFileName_canonical [of u] retained_log [of n]
      by (simp add: retainedDiskName_def decodeUnitFileName_def CutSuffix_def)
  next
    case False
    then show ?thesis
      using n(1) decode_encodes [OF n(2)] unitFileName_canonical [of u] assms retained_log [of n] CutSuffix_append [of n "''.log''"]
      by (simp add: retainedDiskName_def decodeUnitFileName_def)
  qed
qed

lemma Itoa_generation: "Itoa (Suc 0) = ''1''" "Itoa 2 = ''2''" "Itoa 3 = ''3''"
  by code_simp+

lemma retained_archive:
  assumes "HasSuffix name ''.log''" "1 \<le> i" "i \<le> 3"
  shows "retainedDiskName (name @ ''.'' @ Itoa i) = retainedDiskName name"
proof -
  have i: "i = 1 \<or> i = 2 \<or> i = 3" using assms by auto
  then have "\<not> HasSuffix (name @ ''.'' @ Itoa i) ''.log''" by (elim disjE) (simp_all add: HasSuffix_def Itoa_generation suffix_iff_rev)
  moreover have "cut_generation (name @ ''.'' @ Itoa i) [1..<DefaultKeep + 1] = Some name"
  proof -
    have "[1..<DefaultKeep + 1] = [1, 2, 3]" by (simp add: DefaultKeep_def upt_rec)
    then show ?thesis using i by (elim disjE) (simp_all add: CutSuffix_def HasSuffix_def Itoa_generation suffix_iff_rev)
  qed
  ultimately show ?thesis using assms(1) by (simp add: retainedDiskName_def)
qed

lemma encodes_bytes: "encodes n cs \<Longrightarrow> list_all (\<lambda>c. safeFileByte c \<or> c = CHR ''%'') n"
proof (induction n cs rule: encodes.induct)
  case (enc_pct n cs c)
  have "safeFileByte (hex_upper k)" if "k < 16" for k
    using that by (auto simp: safeFileByte_def is_digit_def is_upper_ascii_def is_lower_ascii_def hex_upper_code)
  then show ?case using enc_pct by (simp add: pct_def)
qed simp_all

lemma stem_append: "stem_of (n @ ''.log'') = stem_of n"
  by (induction n) (simp_all add: stem_of_def)

text \<open>
  C25: journal file names are safe and identify their unit.  For every unit name, the file name consists of letters,
  digits, \<open>-_.@\<close> and percent codes, ends in \<open>.log\<close> and its stem is never a reserved device name.  Reading the file
  name or one of its archives \<open>.1\<close> to \<open>.3\<close> back gives the canonical unit name, except exactly for the three names
  (empty, \<open>.\<close>, \<open>..\<close>) that \<open>Store.file\<close> refuses: so two units never share a journal.
\<close>

theorem journal_name_unique:
  "list_all (\<lambda>c. safeFileByte c \<or> c = CHR ''%'') (unitFileName u) \<and> HasSuffix (unitFileName u) ''.log''
   \<and> \<not> reservedDeviceName (stem_of (unitFileName u))
   \<and> (retainedDiskName (unitFileName u) = Some (canonicalUnit u) \<longleftrightarrow> canonicalUnit u \<notin> {[], ''.'', ''..''})
   \<and> retainedDiskName (unitFileName u @ ''.1'') = retainedDiskName (unitFileName u)
   \<and> retainedDiskName (unitFileName u @ ''.2'') = retainedDiskName (unitFileName u)
   \<and> retainedDiskName (unitFileName u @ ''.3'') = retainedDiskName (unitFileName u)"
proof -
  have "list_all (\<lambda>c. safeFileByte c \<or> c = CHR ''%'') (unitFileName u) \<and> HasSuffix (unitFileName u) ''.log''
      \<and> \<not> reservedDeviceName (stem_of (unitFileName u))
      \<and> (retainedDiskName (unitFileName u) = Some (canonicalUnit u) \<longleftrightarrow> canonicalUnit u \<notin> {[], ''.'', ''..''})"
  proof (cases "canonicalUnit u \<in> {[], ''.'', ''..''}")
    case True
    have "retainedDiskName ''_unknown.log'' = Some ''_unknown''" by code_simp
    moreover have "list_all (\<lambda>c. safeFileByte c \<or> c = CHR ''%'') ''_unknown.log'' \<and> HasSuffix ''_unknown.log'' ''.log''
        \<and> \<not> reservedDeviceName (stem_of ''_unknown.log'')" by code_simp
    ultimately show ?thesis using True by (auto simp: unitFileName_fallback [OF True])
  next
    case False
    then obtain n where "unitFileName u = n @ ''.log''" "encodes n (canonicalUnit u)" "\<not> reservedDeviceName (stem_of n)"
      by (rule unitFileName_usable)
    moreover have "list_all (\<lambda>c. safeFileByte c \<or> c = CHR ''%'') ''.log''" by code_simp
    ultimately show ?thesis using encodes_bytes stem_append retained_log retained_usable [OF False] False by auto
  qed
  moreover from this have "HasSuffix (unitFileName u) ''.log''" by blast
  ultimately show ?thesis
    using retained_archive [of "unitFileName u" 1] retained_archive [of "unitFileName u" 2] retained_archive [of "unitFileName u" 3]
    by (simp add: Itoa_generation)
qed

section \<open>Invocation identifiers are valid\<close>

lemma hex_val_digit: "n < 16 \<Longrightarrow> hex_val (hex_digit n) = Some n"
proof -
  assume n: "n < 16"
  then have "(of_char (hex_digit n) :: nat) = (if n < 10 then n + 48 else n + 87)" by (simp add: hex_digit_def)
  then show ?thesis using n
    by (auto simp: hex_val_def is_digit_def digit_val_def is_lower_ascii_def is_upper_ascii_def)
qed

definition hex_string :: "string \<Rightarrow> bool" where
  "hex_string s \<longleftrightarrow> list_all (\<lambda>c. hex_val c \<noteq> None) s"

lemma hex_bytes_ok: "hex_string (hex_bytes bs) \<and> length (hex_bytes bs) = 2 * length bs"
proof (induction bs)
  case (Cons b bs)
  have "unat b < 16 * 16" using unsigned_less [of b, where ?'a = nat] by simp
  then have "unat b div 16 < 16" by (rule less_mult_imp_div_less)
  then show ?case using Cons by (simp add: hex_bytes_def hex_val_digit hex_string_def)
qed (simp add: hex_bytes_def hex_string_def)

lemma hex_enumerate:
  "hex_string xs \<Longrightarrow> list_all (\<lambda>(i, r). i \<in> set [8, 13, 18, 23] \<or> hex_val r \<noteq> None) (enumerate k xs)"
  unfolding hex_string_def by (induction xs arbitrary: k) auto

lemma ValidInvocationID_parts:
  assumes "hex_string a" "hex_string b" "hex_string c" "hex_string d" "hex_string e"
    "length a = 8" "length b = 4" "length c = 4" "length d = 4" "length e = 12"
  shows "ValidInvocationID (a @ ''-'' @ b @ ''-'' @ c @ ''-'' @ d @ ''-'' @ e)"
  using assms(1-5) [THEN hex_enumerate] assms(6-10)
  by (simp add: ValidInvocationID_def nth_append enumerate_append_eq)

lemma NewInvocationID_valid: "length b = 16 \<Longrightarrow> ValidInvocationID (NewInvocationID b)"
  unfolding NewInvocationID_def Let_def
  by (rule ValidInvocationID_parts) (simp_all add: hex_bytes_ok)

end
