(* ===== verification/Journal_File.thy ===== *)
theory Journal_File
  imports Journal_Buffer Journal_Names
begin

text \<open>
  One unit's journal file: \<open>unitFile\<close> of \<open>internal/journal/store.go\<close> with its buffered writes, retries after a
  failed write, rotation and retirement, \<open>repairJournalTail\<close> of \<open>internal/journal/recovery.go\<close> and
  \<open>syncAndRetireUnit\<close> of \<open>internal/journal/retention.go\<close>.  The file system shows the generations of the unit:
  \<open>gens s 0\<close> is the current file and \<open>gens s i\<close> the archive \<open>.i\<close>.  What the operating system answers to the native
  calls of one operation, and the clock, are arguments.  The calls into the disk quota are recorded in \<open>diskCalls\<close>
  and the errors handed to \<open>storageError\<close> in \<open>reports\<close>; the quota itself and the pruning of historical files are not
  modelled.
\<close>

section \<open>State\<close>

datatype disk_call =
  Reserve int bool
| Release int
| Observe int
| Rotated nat nat bool

record jfile =
  handle :: "recordBuffer option"
  fsize :: int
  ftimer :: "int option"
  fclosed :: bool
  fretired :: bool
  writeErr :: "string option"
  retryDelay :: int
  retryAt :: int
  rotating :: bool
  rotateStep :: int
  archivesProtected :: bool
  gens :: "nat \<Rightarrow> string option"
  reports :: "string list"
  diskCalls :: "disk_call list"
  losses :: "(nat \<times> nat) list"

record jconf =
  maxSize :: int
  keep :: int
  flushEvery :: int

definition DefaultMaxSize :: int where
  "DefaultMaxSize = 10 * 2 ^ 20"

definition DefaultFlushEvery :: int where
  "DefaultFlushEvery = 100000000"

definition zeroTime :: int where
  "zeroTime = - 62135596800000000000"

definition second :: int where
  "second = 1000000000"

definition keep_of :: "jconf \<Rightarrow> nat" where
  "keep_of cf = (if keep cf \<le> 0 then DefaultKeep else nat (keep cf))"

definition max_of :: "jconf \<Rightarrow> int" where
  "max_of cf = (if maxSize cf \<le> 0 then DefaultMaxSize else maxSize cf)"

definition every_of :: "jconf \<Rightarrow> int" where
  "every_of cf = (if flushEvery cf \<le> 0 then DefaultFlushEvery else flushEvery cf)"

text \<open>A record just created by \<open>Store.file\<close>; the files on disk stay.\<close>

definition fresh_file :: "jfile \<Rightarrow> jfile" where
  "fresh_file s =
     s\<lparr>handle := None, fsize := 0, ftimer := None, fclosed := False, fretired := False, writeErr := None, retryDelay := 0,
       retryAt := zeroTime, rotating := False, rotateStep := 0, archivesProtected := False\<rparr>"

definition content :: "jfile \<Rightarrow> nat \<Rightarrow> string" where
  "content s i = (case gens s i of Some c \<Rightarrow> c | None \<Rightarrow> [])"

definition buffered :: "jfile \<Rightarrow> string" where
  "buffered s = (case handle s of Some b \<Rightarrow> bufData b | None \<Rightarrow> [])"

section \<open>Answers of the environment\<close>

record open_env =
  protectErr :: "string option"
  openReserve :: "string option"
  openErr :: "string option"
  statErr :: "string option"
  repairWrite :: write_result

record rotate_env =
  syncWrite :: write_result
  syncErr :: "string option"
  closeErr :: "string option"
  stepErr :: "nat \<Rightarrow> string option"
  reopen :: open_env

record file_env =
  fnow :: int
  resume :: rotate_env
  firstOpen :: open_env
  retryWrite :: write_result
  rotateEnv :: rotate_env
  appendReserve :: "string option"
  appendWrite :: write_result

type_synonym fstep = "jfile \<Rightarrow> string option \<times> jfile"

text \<open>Go's \<open>if err := f(); err != nil { return err }\<close> followed by the rest.\<close>

definition andThen :: "fstep \<Rightarrow> fstep \<Rightarrow> fstep" where
  "andThen f g s = (case f s of (Some e, s') \<Rightarrow> (Some e, s') | (None, s') \<Rightarrow> g s')"

definition only_if :: "(jfile \<Rightarrow> bool) \<Rightarrow> fstep \<Rightarrow> fstep" where
  "only_if b f s = (if b s then f s else (None, s))"

definition fail_with :: "string option \<Rightarrow> fstep" where
  "fail_with e s = (e, s)"

definition change :: "(jfile \<Rightarrow> jfile) \<Rightarrow> fstep" where
  "change f s = (None, f s)"

definition disk :: "disk_call \<Rightarrow> jfile \<Rightarrow> jfile" where
  "disk c s = s\<lparr>diskCalls := diskCalls s @ [c]\<rparr>"

section \<open>Flushing\<close>

definition scheduleFlushLocked :: "jconf \<Rightarrow> int \<Rightarrow> jfile \<Rightarrow> jfile" where
  "scheduleFlushLocked cf now s =
     (if ftimer s \<noteq> None \<or> fclosed s then s
      else let every = every_of cf; retry = retryAt s - now
           in s\<lparr>ftimer := Some (if every < retry then retry else every)\<rparr>)"

definition writeFailureLocked :: "jconf \<Rightarrow> int \<Rightarrow> string \<Rightarrow> jfile \<Rightarrow> jfile" where
  "writeFailureLocked cf now e s =
     (let delay = min (max second (retryDelay s * 2)) (30 * second)
      in scheduleFlushLocked cf now (s\<lparr>writeErr := Some e, retryDelay := delay, retryAt := now + delay, ftimer := None\<rparr>))"

text \<open>Bytes the writer accepted reach the current file.\<close>

definition deliver :: "write_result \<Rightarrow> recordBuffer \<Rightarrow> jfile \<Rightarrow> jfile" where
  "deliver w b s = s\<lparr>gens := (gens s)(0 := Some (content s 0 @ delivered w b))\<rparr>"

definition flushLocked :: "jconf \<Rightarrow> int \<Rightarrow> write_result \<Rightarrow> fstep" where
  "flushLocked cf now w s =
     (case handle s of
        None \<Rightarrow> (None, s)
      | Some b \<Rightarrow>
          (let s1 = (deliver w b s)\<lparr>handle := Some (snd (Flush w b))\<rparr>
           in case fst (Flush w b) of
                Some e \<Rightarrow> (Some e, writeFailureLocked cf now e s1)
              | None \<Rightarrow> (None, s1\<lparr>writeErr := None, retryDelay := 0, retryAt := zeroTime\<rparr>)))"

text \<open>The timer started by \<open>scheduleFlushLocked\<close>.\<close>

definition flush_timer :: "jconf \<Rightarrow> int \<Rightarrow> write_result \<Rightarrow> jfile \<Rightarrow> jfile" where
  "flush_timer cf now w s =
     (if ftimer s = None then s
      else let s1 = s\<lparr>ftimer := None\<rparr>
           in if fclosed s1 then s1
              else case flushLocked cf now w s1 of
                     (None, s2) \<Rightarrow> s2
                   | (Some e, s2) \<Rightarrow> s2\<lparr>reports := reports s2 @ [e]\<rparr>)"

section \<open>Opening\<close>

text \<open>\<open>repairJournalTail\<close>: the size, whether a newline was added, or an error.\<close>

definition repairJournalTail :: "open_env \<Rightarrow> jfile \<Rightarrow> (string + int \<times> bool) \<times> jfile" where
  "repairJournalTail env s =
     (let c = content s 0
      in case statErr env of
           Some e \<Rightarrow> (Inl e, s)
         | None \<Rightarrow>
             if c = [] then (Inr (0, False), s)
             else if last c = CHR 0x0A then (Inr (int (length c), False), s)
             else case repairWrite env of (n, e) \<Rightarrow>
               (let s1 = s\<lparr>gens := (gens s)(0 := Some (c @ (if n = 1 then [CHR 0x0A] else [])))\<rparr>
                in case (if e = None \<and> n \<noteq> 1 then Some ErrShortWrite else e) of
                     Some e' \<Rightarrow> (Inl (''repair interrupted journal boundary: '' @ e'), s1)
                   | None \<Rightarrow> (Inr (int (length c) + 1, True), s1)))"

definition protectArchives :: "open_env \<Rightarrow> fstep" where
  "protectArchives env s =
     (if archivesProtected s then (None, s)
      else case protectErr env of Some e \<Rightarrow> (Some e, s) | None \<Rightarrow> (None, s\<lparr>archivesProtected := True\<rparr>))"

definition open_native :: "open_env \<Rightarrow> fstep" where
  "open_native env s =
     (case openErr env of
        Some e \<Rightarrow> (Some e, disk (Release 1) s)
      | None \<Rightarrow>
          (let s1 = s\<lparr>gens := (gens s)(0 := Some (content s 0))\<rparr>
           in case repairJournalTail env s1 of
                (Inl e, s2) \<Rightarrow> (Some e, s2)
              | (Inr (sz, repaired), s2) \<Rightarrow>
                  (None, disk (Observe sz)
                     (s2\<lparr>reports := reports s2 @ (if repaired then [''recovered journal record boundary after interrupted write''] else []),
                         handle := Some \<lparr>bufData = [], bufRecords = []\<rparr>, fsize := sz\<rparr>))))"

definition reserve :: "string option \<Rightarrow> int \<Rightarrow> bool \<Rightarrow> fstep" where
  "reserve e n opening s = (case e of Some msg \<Rightarrow> (Some msg, s) | None \<Rightarrow> (None, disk (Reserve n opening) s))"

definition openLocked :: "open_env \<Rightarrow> fstep" where
  "openLocked env = andThen (protectArchives env) (andThen (reserve (openReserve env) 1 True) (open_native env))"

section \<open>Rotation\<close>

definition sync_open :: "jconf \<Rightarrow> int \<Rightarrow> rotate_env \<Rightarrow> fstep" where
  "sync_open cf now env =
     andThen (flushLocked cf now (syncWrite env)) (only_if (\<lambda>s. handle s \<noteq> None) (fail_with (syncErr env)))"

definition close_handle :: "rotate_env \<Rightarrow> fstep" where
  "close_handle env s =
     (if handle s = None then (None, s)
      else case closeErr env of Some e \<Rightarrow> (Some e, s) | None \<Rightarrow> (None, s\<lparr>handle := None\<rparr>))"

text \<open>One native step: the outcome is an error, a missing source, or success.\<close>

datatype native = Failed string | NotExist | Done

definition rotate_native :: "nat \<Rightarrow> string option \<Rightarrow> nat \<Rightarrow> (nat \<Rightarrow> string option) \<Rightarrow> native \<times> (nat \<Rightarrow> string option)" where
  "rotate_native k e i g =
     (case e of
        Some msg \<Rightarrow> (Failed msg, g)
      | None \<Rightarrow>
          if g i = None then (NotExist, g)
          else if i = k then (Done, g(k := None))
          else (Done, g(i := None, Suc i := g i)))"

function rotate_loop :: "nat \<Rightarrow> (nat \<Rightarrow> string option) \<Rightarrow> fstep" where
  "rotate_loop k errs s =
     (if rotateStep s < 0 then (None, s)
      else let i = nat (rotateStep s)
           in case rotate_native k (errs i) i (gens s) of
                (Failed msg, _) \<Rightarrow> (Some (''journal rotation step '' @ Itoa i @ '': '' @ msg), s)
              | (r, g) \<Rightarrow> rotate_loop k errs (disk (Rotated i k (r = Done)) (s\<lparr>gens := g, rotateStep := rotateStep s - 1\<rparr>)))"
  by pat_completeness auto
termination by (relation "measure (\<lambda>(_, _, s). nat (rotateStep s + 1))") (auto simp: disk_def)

declare rotate_loop.simps [simp del]

definition rotateLocked :: "jconf \<Rightarrow> int \<Rightarrow> rotate_env \<Rightarrow> fstep" where
  "rotateLocked cf now env =
     andThen
       (only_if (\<lambda>s. \<not> rotating s)
          (andThen (sync_open cf now env)
             (andThen (close_handle env) (change (\<lambda>s. s\<lparr>rotating := True, rotateStep := int (keep_of cf)\<rparr>)))))
       (andThen (rotate_loop (keep_of cf) (stepErr env))
          (andThen (openLocked (reopen env)) (change (\<lambda>s. s\<lparr>rotating := False\<rparr>))))"

definition syncLocked :: "jconf \<Rightarrow> int \<Rightarrow> rotate_env \<Rightarrow> fstep" where
  "syncLocked cf now env s = (if rotating s then rotateLocked cf now env s else sync_open cf now env s)"

section \<open>Writing, retiring and closing\<close>

definition append_raw :: "jconf \<Rightarrow> int \<Rightarrow> write_result \<Rightarrow> string \<Rightarrow> nat \<Rightarrow> fstep" where
  "append_raw cf now w raw mb s =
     (case handle s of
        None \<Rightarrow> (None, s)
      | Some b \<Rightarrow>
          (let flushes = (bufData b \<noteq> [] \<and> journalBufferSize < length (bufData b) + length raw);
               s1 = (if flushes then deliver w b s else s)\<lparr>handle := Some (snd (buffer_append w raw mb b))\<rparr>
           in case fst (buffer_append w raw mb b) of
                Some e \<Rightarrow> (Some e, writeFailureLocked cf now e (disk (Release (int (length raw))) s1))
              | None \<Rightarrow> (None, scheduleFlushLocked cf now (s1\<lparr>fsize := fsize s1 + int (length raw)\<rparr>))))"

definition retry_failed :: "jconf \<Rightarrow> int \<Rightarrow> write_result \<Rightarrow> fstep" where
  "retry_failed cf now w s =
     (case writeErr s of
        None \<Rightarrow> (None, s)
      | Some e \<Rightarrow> if now < retryAt s then (Some e, s) else flushLocked cf now w s)"

definition errFileRetired :: string where
  "errFileRetired = ''journal file retired''"

definition write_file :: "jconf \<Rightarrow> file_env \<Rightarrow> string \<Rightarrow> nat \<Rightarrow> fstep" where
  "write_file cf env raw mb s =
     (if fretired s then (Some errFileRetired, s)
      else if fclosed s then (Some ''journal file closed'', s)
      else andThen (only_if rotating (rotateLocked cf (fnow env) (resume env)))
          (andThen (only_if (\<lambda>s. handle s = None) (openLocked (firstOpen env)))
          (andThen (retry_failed cf (fnow env) (retryWrite env))
          (andThen (only_if (\<lambda>s. 0 < fsize s \<and> max_of cf < fsize s + int (length raw)) (rotateLocked cf (fnow env) (rotateEnv env)))
          (andThen (reserve (appendReserve env) (int (length raw)) False)
             (append_raw cf (fnow env) (appendWrite env) raw mb))))) s)"

text \<open>\<open>Store.append\<close> writes to the unit's current record, a new one when the last was retired.\<close>

definition append_record :: "jconf \<Rightarrow> file_env \<Rightarrow> string \<Rightarrow> nat \<Rightarrow> fstep" where
  "append_record cf env raw mb s = write_file cf env raw mb (if fretired s then fresh_file s else s)"

definition syncAndRetireUnit :: "jconf \<Rightarrow> int \<Rightarrow> rotate_env \<Rightarrow> fstep" where
  "syncAndRetireUnit cf now env s =
     (if fclosed s \<or> fretired s then (None, s)
      else andThen (syncLocked cf now env)
             (andThen (close_handle env) (change (\<lambda>s. s\<lparr>ftimer := None, handle := None, fretired := True\<rparr>))) s)"

definition close_file :: "jconf \<Rightarrow> int \<Rightarrow> rotate_env \<Rightarrow> string option \<Rightarrow> fstep" where
  "close_file cf now env e2 s0 =
     (let (err, s) = syncLocked cf now env (s0\<lparr>fclosed := True, ftimer := None\<rparr>);
          s1 = (case (err, handle s) of (Some _, Some b) \<Rightarrow> s\<lparr>losses := losses s @ [pendingLoss b]\<rparr> | _ \<Rightarrow> s)
      in if handle s1 = None then (err, s1)
         else (if err = None then e2 else err, s1\<lparr>handle := None\<rparr>))"

end
