(* ===== verification/Journal_Records.thy ===== *)
theory Journal_Records
  imports Journal_File
begin

text \<open>
  What \<open>Journal_File\<close> keeps: the records on disk and in the buffer are the most recent ones accepted, each archive
  holds whole records, and a rotation interrupted by errors resumes without shifting a generation twice.  The
  operations are sequences of fallible steps, so their contracts are triples with a postcondition for success and one
  for an error.
\<close>

section \<open>Contracts of fallible steps\<close>

definition contract :: "(jfile \<Rightarrow> bool) \<Rightarrow> fstep \<Rightarrow> (jfile \<Rightarrow> bool) \<Rightarrow> (jfile \<Rightarrow> bool) \<Rightarrow> bool" where
  "contract P f Q E \<longleftrightarrow> (\<forall>s e t. P s \<longrightarrow> f s = (e, t) \<longrightarrow> (if e = None then Q t else E t))"

lemma contractI: "(\<And>s e t. P s \<Longrightarrow> f s = (e, t) \<Longrightarrow> if e = None then Q t else E t) \<Longrightarrow> contract P f Q E"
  by (simp add: contract_def)

lemma contractD: "contract P f Q E \<Longrightarrow> P s \<Longrightarrow> f s = (e, t) \<Longrightarrow> (if e = None then Q t else E t)"
  by (simp add: contract_def)

lemma contract_andThen:
  assumes "contract P f Q E" "contract Q g R E"
  shows "contract P (andThen f g) R E"
proof (rule contractI)
  fix s e t assume P: "P s" and r: "andThen f g s = (e, t)"
  obtain e1 s1 where f: "f s = (e1, s1)" by fastforce
  show "if e = None then R t else E t"
  proof (cases e1)
    case None
    then have "Q s1" "g s1 = (e, t)" using contractD [OF assms(1) P f] r f by (simp_all add: andThen_def)
    then show ?thesis by (rule contractD [OF assms(2)])
  next
    case (Some x)
    then show ?thesis using contractD [OF assms(1) P f] r f by (auto simp: andThen_def)
  qed
qed

lemma contract_only_if:
  assumes "contract (\<lambda>s. P s \<and> b s) f Q E" "\<And>s. P s \<Longrightarrow> \<not> b s \<Longrightarrow> Q s"
  shows "contract P (only_if b f) Q E"
proof (rule contractI)
  fix s e t assume "P s" "only_if b f s = (e, t)"
  then show "if e = None then Q t else E t"
    using contractD [OF assms(1), of s e t] assms(2) [of s] by (cases "b s") (auto simp: only_if_def)
qed

lemma contract_change: "(\<And>s. P s \<Longrightarrow> Q (f s)) \<Longrightarrow> contract P (change f) Q E"
  by (auto simp: contract_def change_def)

lemma contract_weaken:
  assumes "contract P f Q E" "\<And>s. P' s \<Longrightarrow> P s" "\<And>s. Q s \<Longrightarrow> Q' s" "\<And>s. E s \<Longrightarrow> E' s"
  shows "contract P' f Q' E'"
proof (rule contractI)
  fix s e t assume "P' s" "f s = (e, t)"
  then show "if e = None then Q' t else E' t" using contractD [OF assms(1,2), of s e t] assms(3,4) [of t] by auto
qed

section \<open>The invariant\<close>

definition line :: "string \<Rightarrow> bool" where
  "line r \<longleftrightarrow> r \<noteq> [] \<and> last r = CHR 0x0A"

definition holds_records :: "jconf \<Rightarrow> (nat \<Rightarrow> string list) \<Rightarrow> string list \<Rightarrow> jfile \<Rightarrow> bool" where
  "holds_records cf recs acc s \<longleftrightarrow>
     (\<forall>i. 0 < i \<longrightarrow> i \<le> keep_of cf \<longrightarrow> content s i = concat (recs i))
     \<and> content s 0 @ buffered s = concat (recs 0)
     \<and> suffix (concat (map recs (rev [0..<Suc (keep_of cf)]))) acc
     \<and> (\<forall>i \<le> keep_of cf. int (length (concat (recs i))) \<le> max_of cf \<or> length (recs i) \<le> 1)"

definition open_ok :: "jfile \<Rightarrow> bool" where
  "open_ok s \<longleftrightarrow>
     (handle s \<noteq> None \<longrightarrow> gens s 0 \<noteq> None \<and> fsize s = int (length (content s 0)) + int (length (buffered s)))"

text \<open>While a rotation is under way the generation it fills next is vacant.\<close>

definition turn_ok :: "jconf \<Rightarrow> jfile \<Rightarrow> bool" where
  "turn_ok cf s \<longleftrightarrow>
     (rotating s \<longrightarrow> - 1 \<le> rotateStep s \<and> rotateStep s \<le> int (keep_of cf)
        \<and> (0 \<le> rotateStep s \<and> rotateStep s < int (keep_of cf) \<longrightarrow> gens s (nat (rotateStep s) + 1) = None)
        \<and> (rotateStep s = - 1 \<longrightarrow> content s 0 = []))"

definition file_inv :: "jconf \<Rightarrow> string list \<Rightarrow> jfile \<Rightarrow> bool" where
  "file_inv cf acc s \<longleftrightarrow> (\<exists>recs. holds_records cf recs acc s) \<and> list_all line acc \<and> open_ok s \<and> turn_ok cf s"

lemma file_invI: "holds_records cf recs acc s \<Longrightarrow> list_all line acc \<Longrightarrow> open_ok s \<Longrightarrow> turn_ok cf s \<Longrightarrow> file_inv cf acc s"
  unfolding file_inv_def by blast

lemma holds_records_same:
  "holds_records cf recs acc s \<Longrightarrow> (\<And>i. content t i = content s i) \<Longrightarrow> buffered t = buffered s \<Longrightarrow> holds_records cf recs acc t"
  by (simp add: holds_records_def)

lemma keep_of_pos [simp]: "0 < keep_of cf" "keep_of cf \<noteq> 0" "keep_of cf = 0 \<longleftrightarrow> False"
  by (simp_all add: keep_of_def DefaultKeep_def)

lemma file_inv_same:
  assumes "file_inv cf acc s" "handle t = handle s" "gens t = gens s" "fsize t = fsize s" "rotating t = rotating s"
    "rotateStep t = rotateStep s"
  shows "file_inv cf acc t"
proof -
  have "content t i = content s i" for i using assms by (simp add: content_def)
  moreover have "buffered t = buffered s" using assms by (simp add: buffered_def)
  ultimately show ?thesis
    using assms unfolding file_inv_def open_ok_def turn_ok_def by (metis holds_records_same)
qed

lemma schedule_frame [simp]:
  "handle (scheduleFlushLocked cf now s) = handle s" "gens (scheduleFlushLocked cf now s) = gens s"
  "fsize (scheduleFlushLocked cf now s) = fsize s" "rotating (scheduleFlushLocked cf now s) = rotating s"
  "rotateStep (scheduleFlushLocked cf now s) = rotateStep s"
  by (simp_all add: scheduleFlushLocked_def Let_def)

lemma failure_frame [simp]:
  "handle (writeFailureLocked cf now e s) = handle s" "gens (writeFailureLocked cf now e s) = gens s"
  "fsize (writeFailureLocked cf now e s) = fsize s" "rotating (writeFailureLocked cf now e s) = rotating s"
  "rotateStep (writeFailureLocked cf now e s) = rotateStep s"
  by (simp_all add: writeFailureLocked_def Let_def)

lemma disk_frame [simp]:
  "handle (disk c s) = handle s" "gens (disk c s) = gens s" "fsize (disk c s) = fsize s"
  "rotating (disk c s) = rotating s" "rotateStep (disk c s) = rotateStep s"
  by (simp_all add: disk_def)

lemma Flush_split: "delivered w b @ bufData (snd (Flush w b)) = bufData b"
  by (auto simp: delivered_def Flush_def split: prod.splits)

lemma Flush_done: "fst (Flush w b) = None \<Longrightarrow> bufData (snd (Flush w b)) = []"
  by (auto simp: Flush_def split: if_splits prod.splits)

text \<open>Moving bytes from the buffer to the current file changes nothing the invariant sees.\<close>

lemma file_inv_move:
  assumes "file_inv cf acc s" "handle s = Some b" "handle t = Some b'" "d @ bufData b' = bufData b"
    "gens t = (gens s)(0 := Some (content s 0 @ d))" "fsize t = fsize s" "rotating t = rotating s" "rotateStep t = rotateStep s"
    "rotating s \<longrightarrow> d = []"
  shows "file_inv cf acc t"
proof -
  have c: "content t i = (if i = 0 then content s 0 @ d else content s i)" for i using assms(5) by (simp add: content_def)
  have "content t 0 @ buffered t = content s 0 @ buffered s" using assms by (simp add: c buffered_def)
  moreover have len: "length (content t 0) + length (buffered t) = length (content s 0) + length (buffered s)"
    using arg_cong [OF assms(4), of length] assms(2,3) by (simp add: c buffered_def)
  moreover obtain recs where "holds_records cf recs acc s" using assms(1) by (auto simp: file_inv_def)
  ultimately have "holds_records cf recs acc t" by (auto simp: holds_records_def c)
  moreover have "fsize s = int (length (content s 0)) + int (length (buffered s))" "list_all line acc"
    using assms(1,2) by (simp_all add: file_inv_def open_ok_def)
  moreover have "rotating s \<longrightarrow> content t 0 = content s 0" using assms(9) c by simp
  ultimately show ?thesis using assms(1,3,5-8) len unfolding file_inv_def open_ok_def turn_ok_def by auto
qed

section \<open>Flushing and closing\<close>

abbreviation quiet :: "jconf \<Rightarrow> string list \<Rightarrow> jfile \<Rightarrow> bool" where
  "quiet cf acc s \<equiv> file_inv cf acc s \<and> (rotating s \<longrightarrow> handle s = None)"

lemma flushLocked_result:
  assumes "handle s = Some b" "flushLocked cf now w s = (e, t)"
  shows "handle t = Some (snd (Flush w b)) \<and> gens t = (gens s)(0 := Some (content s 0 @ delivered w b)) \<and> fsize t = fsize s
    \<and> rotating t = rotating s \<and> rotateStep t = rotateStep s \<and> e = fst (Flush w b)"
  using assms by (cases "fst (Flush w b)") (auto simp: flushLocked_def Let_def deliver_def)

lemma flushLocked_contract:
  "contract (\<lambda>s. quiet cf acc s \<and> \<not> rotating s) (flushLocked cf now w)
     (\<lambda>s. quiet cf acc s \<and> \<not> rotating s \<and> buffered s = []) (\<lambda>s. quiet cf acc s \<and> \<not> rotating s)"
proof (rule contractI)
  fix s e t assume q: "quiet cf acc s \<and> \<not> rotating s" and r: "flushLocked cf now w s = (e, t)"
  show "if e = None then quiet cf acc t \<and> \<not> rotating t \<and> buffered t = [] else quiet cf acc t \<and> \<not> rotating t"
  proof (cases "handle s")
    case None
    then show ?thesis using q r by (auto simp: flushLocked_def buffered_def)
  next
    case (Some b)
    note f = flushLocked_result [OF Some r]
    have "file_inv cf acc t"
      using q f by (intro file_inv_move [of cf acc s b t "snd (Flush w b)" "delivered w b"]) (simp_all add: Some Flush_split)
    moreover have "e = None \<Longrightarrow> buffered t = []" using f Flush_done [of w b] by (simp add: buffered_def)
    ultimately show ?thesis using f q by simp
  qed
qed

abbreviation live :: "jconf \<Rightarrow> string list \<Rightarrow> jfile \<Rightarrow> bool" where
  "live cf acc s \<equiv> file_inv cf acc s \<and> \<not> rotating s \<and> handle s \<noteq> None"

abbreviation shut :: "jconf \<Rightarrow> string list \<Rightarrow> jfile \<Rightarrow> bool" where
  "shut cf acc s \<equiv> file_inv cf acc s \<and> handle s = None"

lemma sync_open_contract:
  "contract (\<lambda>s. quiet cf acc s \<and> \<not> rotating s) (sync_open cf now env)
     (\<lambda>s. quiet cf acc s \<and> \<not> rotating s \<and> buffered s = []) (quiet cf acc)"
  unfolding sync_open_def
proof (rule contract_andThen)
  show "contract (\<lambda>s. quiet cf acc s \<and> \<not> rotating s) (flushLocked cf now (syncWrite env))
      (\<lambda>s. quiet cf acc s \<and> \<not> rotating s \<and> buffered s = []) (quiet cf acc)"
    by (rule contract_weaken [OF flushLocked_contract]) auto
  show "contract (\<lambda>s. quiet cf acc s \<and> \<not> rotating s \<and> buffered s = [])
      (only_if (\<lambda>s. handle s \<noteq> None) (fail_with (syncErr env)))
      (\<lambda>s. quiet cf acc s \<and> \<not> rotating s \<and> buffered s = []) (quiet cf acc)"
    by (auto simp: contract_def only_if_def fail_with_def)
qed

lemma file_inv_shut:
  assumes "file_inv cf acc s" "buffered s = []"
  shows "file_inv cf acc (s\<lparr>handle := None\<rparr>)"
proof -
  obtain recs where "holds_records cf recs acc s" using assms(1) by (auto simp: file_inv_def)
  then have "holds_records cf recs acc (s\<lparr>handle := None\<rparr>)"
    by (rule holds_records_same) (simp_all add: content_def buffered_def assms(2) [unfolded buffered_def])
  then show ?thesis
    using assms(1) by (auto simp: file_inv_def open_ok_def turn_ok_def content_def)
qed

lemma close_handle_contract:
  "contract (\<lambda>s. quiet cf acc s \<and> \<not> rotating s \<and> buffered s = []) (close_handle env)
     (\<lambda>s. shut cf acc s \<and> \<not> rotating s) (quiet cf acc)"
  by (rule contractI, cases "closeErr env") (auto simp: close_handle_def file_inv_shut split: if_splits)

section \<open>Rotation\<close>

lemma suffix_lines: "suffix rs acc \<Longrightarrow> list_all line acc \<Longrightarrow> r \<in> set rs \<Longrightarrow> r \<noteq> []"
  by (auto simp: suffix_def list_all_iff line_def)

lemma recs_of_empty:
  assumes "holds_records cf recs acc s" "list_all line acc" "i \<le> keep_of cf" "concat (recs i) = []"
  shows "recs i = []"
proof -
  have "set (recs i) \<subseteq> set (concat (map recs (rev [0..<Suc (keep_of cf)])))" using assms(3) by force
  moreover have "suffix (concat (map recs (rev [0..<Suc (keep_of cf)]))) acc" using assms(1) by (simp add: holds_records_def)
  ultimately have "\<And>r. r \<in> set (recs i) \<Longrightarrow> r \<noteq> []" using suffix_lines assms(2) by blast
  then show ?thesis using assms(4) by (cases "recs i") auto
qed

lemma rev_upt_split: "i < k \<Longrightarrow> rev [0..<Suc k] = rev [Suc (Suc i)..<Suc k] @ [Suc i, i] @ rev [0..<i]"
proof -
  assume "i < k"
  then have "[0..<Suc k] = [0..<i] @ [i, Suc i] @ [Suc (Suc i)..<Suc k]"
    using upt_add_eq_append [of 0 i "Suc k - i"] by (simp add: upt_conv_Cons del: upt_Suc)
  then show ?thesis by simp
qed

lemma shift_records:
  assumes "i < k" "recs (Suc i) = []"
  shows "concat (map (recs(Suc i := recs i, i := [])) (rev [0..<Suc k])) = concat (map recs (rev [0..<Suc k]))"
proof -
  have "map (recs(Suc i := recs i, i := [])) (rev [Suc (Suc i)..<Suc k]) = map recs (rev [Suc (Suc i)..<Suc k])"
    "map (recs(Suc i := recs i, i := [])) (rev [0..<i]) = map recs (rev [0..<i])" by auto
  then show ?thesis unfolding rev_upt_split [OF assms(1)] map_append concat_append using assms(2) by simp
qed

lemma drop_oldest: "suffix (concat (map (recs(k := [])) (rev [0..<Suc k]))) (concat (map recs (rev [0..<Suc k])))"
proof -
  have "map (recs(k := [])) (rev [0..<k]) = map recs (rev [0..<k])" by auto
  then show ?thesis by (simp add: suffix_def)
qed

text \<open>One step of a rotation keeps the records: removing drops the oldest, moving fills a vacant generation.\<close>

lemma rotate_step_inv:
  assumes "shut cf acc s" "rotating s" "0 \<le> rotateStep s"
    and "rotate_native (keep_of cf) e (nat (rotateStep s)) (gens s) = (r, g)" "r = NotExist \<or> r = Done"
  shows "shut cf acc (s\<lparr>gens := g, rotateStep := rotateStep s - 1\<rparr>)"
proof -
  let ?k = "keep_of cf" and ?i = "nat (rotateStep s)"
  let ?t = "s\<lparr>gens := g, rotateStep := rotateStep s - 1\<rparr>"
  obtain recs where h: "holds_records cf recs acc s" using assms(1) by (auto simp: file_inv_def)
  have ln: "list_all line acc" and i: "?i \<le> ?k" and buf: "buffered s = []"
    using assms(1-3) by (auto simp: file_inv_def turn_ok_def buffered_def)
  have vac: "?i < ?k \<Longrightarrow> gens s (Suc ?i) = None"
    using assms(1-3) by (simp add: file_inv_def turn_ok_def)
  consider (absent) "g = gens s" "gens s ?i = None"
    | (oldest) "?i = ?k" "g = (gens s)(?k := None)"
    | (move) "?i < ?k" "g = (gens s)(?i := None, Suc ?i := gens s ?i)"
    using assms(4,5) i by (auto simp: rotate_native_def split: option.splits if_splits)
  then have "(\<exists>recs'. holds_records cf recs' acc ?t) \<and> g ?i = None"
  proof cases
    case absent
    then show ?thesis using h by (auto simp: holds_records_def buffered_def content_def)
  next
    case oldest
    have "holds_records cf (recs(?k := [])) acc ?t"
      using h buf oldest suffix_order.trans [OF drop_oldest]
      by (auto simp: holds_records_def buffered_def content_def simp del: upt_Suc)
    then show ?thesis using oldest by auto
  next
    case move
    have "content s (Suc ?i) = []" using vac move(1) by (simp add: content_def)
    then have "concat (recs (Suc ?i)) = []" using h move(1) unfolding holds_records_def by (metis Suc_leI zero_less_Suc)
    then have e: "recs (Suc ?i) = []" using recs_of_empty [OF h ln] move(1) by simp
    let ?recs = "recs(Suc ?i := recs ?i, ?i := [])"
    have ci: "concat (recs j) = content s j" if "j \<le> ?k" for j
      using h buf that by (cases "j = 0") (simp_all add: holds_records_def)
    have ct: "content ?t j = (if j = Suc ?i then content s ?i else if j = ?i then [] else content s j)" for j
      using move by (simp add: content_def)
    have "buffered ?t = []" using assms(1) by (simp add: buffered_def)
    then have "\<forall>j \<le> ?k. content ?t j = concat (?recs j)" using ct ci move(1) by simp
    moreover have "\<forall>j \<le> ?k. int (length (concat (?recs j))) \<le> max_of cf \<or> length (?recs j) \<le> 1"
      using h move(1) by (simp add: holds_records_def)
    moreover have "suffix (concat (map ?recs (rev [0..<Suc ?k]))) acc"
      using h unfolding shift_records [of ?i ?k recs, OF move(1) e] holds_records_def by blast
    ultimately have "holds_records cf ?recs acc ?t"
      using \<open>buffered ?t = []\<close> unfolding holds_records_def by simp
    then show ?thesis using move by auto
  qed
  moreover have "nat (rotateStep s - 1) + 1 = ?i" if "0 < rotateStep s" using that by simp
  ultimately have "turn_ok cf ?t" using assms(1-3) i by (auto simp: turn_ok_def file_inv_def content_def)
  then show ?thesis using \<open>(\<exists>recs'. holds_records cf recs' acc ?t) \<and> g ?i = None\<close> assms(1) ln
    by (auto simp: file_inv_def open_ok_def)
qed

lemma rotate_loop_contract:
  "contract (\<lambda>s. shut cf acc s \<and> rotating s) (rotate_loop (keep_of cf) errs)
     (\<lambda>s. shut cf acc s \<and> rotating s \<and> rotateStep s = - 1) (\<lambda>s. shut cf acc s \<and> rotating s)"
proof (rule contractI)
  fix s e t assume "shut cf acc s \<and> rotating s" "rotate_loop (keep_of cf) errs s = (e, t)"
  then show "if e = None then shut cf acc t \<and> rotating t \<and> rotateStep t = - 1 else shut cf acc t \<and> rotating t"
  proof (induction "keep_of cf" errs s rule: rotate_loop.induct)
    case (1 errs s)
    obtain r g where n: "rotate_native (keep_of cf) (errs (nat (rotateStep s))) (nat (rotateStep s)) (gens s) = (r, g)"
      by fastforce
    let ?s = "disk (Rotated (nat (rotateStep s)) (keep_of cf) (r = Done)) (s\<lparr>gens := g, rotateStep := rotateStep s - 1\<rparr>)"
    consider (ended) "rotateStep s < 0" | (failed) msg where "0 \<le> rotateStep s" "r = Failed msg"
      | (step) "0 \<le> rotateStep s" "r = NotExist \<or> r = Done" by (cases r) force+
    then show ?case
    proof cases
      case ended
      moreover have "- 1 \<le> rotateStep s" using 1(3) by (simp add: file_inv_def turn_ok_def)
      ultimately show ?thesis using 1(3,4) by (simp add: rotate_loop.simps)
    next
      case failed
      then show ?thesis using 1(3,4) n by (auto simp: rotate_loop.simps Let_def)
    next
      case step
      have "shut cf acc (s\<lparr>gens := g, rotateStep := rotateStep s - 1\<rparr>)"
        using rotate_step_inv [OF _ _ step(1) n step(2)] 1(3) by blast
      then have inv: "shut cf acc ?s \<and> rotating ?s" using 1(3) by (auto elim: file_inv_same)
      have "rotate_loop (keep_of cf) errs ?s = (e, t)"
        using 1(4) n step by (subst (asm) rotate_loop.simps) (auto simp: Let_def)
      then show ?thesis using 1(1,2) step n inv by (auto simp: Let_def)
    qed
  qed
qed

section \<open>Opening\<close>

lemma concat_lines: "rs \<noteq> [] \<Longrightarrow> list_all line rs \<Longrightarrow> last (concat rs) = CHR 0x0A \<and> concat rs \<noteq> []"
  by (induction rs rule: rev_induct) (auto simp: line_def)

lemma file_tail:
  assumes "shut cf acc s"
  shows "content s 0 = [] \<or> last (content s 0) = CHR 0x0A"
proof -
  obtain recs where h: "holds_records cf recs acc s" and ln: "list_all line acc" using assms by (auto simp: file_inv_def)
  have c: "content s 0 = concat (recs 0)" using h assms by (simp add: holds_records_def buffered_def)
  have "set (recs 0) \<subseteq> set acc"
    using h by (auto simp: holds_records_def suffix_def)
  then have "list_all line (recs 0)" using ln by (auto simp: list_all_iff)
  then show ?thesis using concat_lines [of "recs 0"] c by (cases "recs 0 = []") auto
qed

lemma touch_inv:
  assumes "shut cf acc s"
  shows "shut cf acc (s\<lparr>gens := (gens s)(0 := Some (content s 0))\<rparr>)"
proof -
  let ?t = "s\<lparr>gens := (gens s)(0 := Some (content s 0))\<rparr>"
  have "content ?t i = content s i" "buffered ?t = buffered s" for i by (simp_all add: content_def buffered_def)
  then show ?thesis using assms holds_records_same [of cf _ acc s ?t]
    by (auto simp: file_inv_def open_ok_def turn_ok_def)
qed

lemma open_inv:
  assumes "shut cf acc s" "gens s 0 \<noteq> None"
  shows "file_inv cf acc (s\<lparr>handle := Some \<lparr>bufData = [], bufRecords = []\<rparr>, fsize := int (length (content s 0))\<rparr>)"
proof -
  let ?t = "s\<lparr>handle := Some \<lparr>bufData = [], bufRecords = []\<rparr>, fsize := int (length (content s 0))\<rparr>"
  have "content ?t i = content s i" "buffered ?t = buffered s" for i using assms(1) by (simp_all add: content_def buffered_def)
  then show ?thesis using assms holds_records_same [of cf _ acc s ?t]
    by (auto simp: file_inv_def open_ok_def turn_ok_def buffered_def)
qed

lemma open_native_contract:
  "contract (\<lambda>s. shut cf acc s \<and> (rotating s \<longrightarrow> rotateStep s = - 1)) (open_native env)
     (\<lambda>s. file_inv cf acc s \<and> handle s \<noteq> None \<and> (rotating s \<longrightarrow> fsize s = 0))
     (shut cf acc)"
proof (rule contractI)
  fix s e t assume p: "shut cf acc s \<and> (rotating s \<longrightarrow> rotateStep s = - 1)" and r: "open_native env s = (e, t)"
  let ?s = "s\<lparr>gens := (gens s)(0 := Some (content s 0))\<rparr>"
  have i: "shut cf acc ?s" using p touch_inv by blast
  have c0: "content ?s 0 = content s 0" by (simp add: content_def)
  show "if e = None then file_inv cf acc t \<and> handle t \<noteq> None \<and> (rotating t \<longrightarrow> fsize t = 0) else shut cf acc t"
  proof (cases "openErr env")
    case (Some x)
    then show ?thesis using p r by (auto simp: open_native_def elim: file_inv_same)
  next
    case None
    show ?thesis
    proof (cases "statErr env")
      case (Some x)
      then have "e = Some x" "t = ?s" using None r by (auto simp: open_native_def repairJournalTail_def Let_def)
      then show ?thesis using i by simp
    next
      case st: None
      have "repairJournalTail env ?s = (Inr (int (length (content s 0)), False), ?s)"
        using file_tail [of cf acc s] p st unfolding repairJournalTail_def Let_def c0 by auto
      then have t: "e = None" "t = disk (Observe (int (length (content s 0))))
          (?s\<lparr>reports := reports s, handle := Some \<lparr>bufData = [], bufRecords = []\<rparr>, fsize := int (length (content s 0))\<rparr>)"
        using r None by (auto simp: open_native_def Let_def)
      have "file_inv cf acc t"
        using open_inv [OF i, unfolded c0] by (rule file_inv_same) (simp_all add: t)
      moreover have "rotating t \<longrightarrow> fsize t = 0" using p t by (auto simp: file_inv_def turn_ok_def)
      ultimately show ?thesis using t by simp
    qed
  qed
qed

lemma openLocked_contract:
  "contract (\<lambda>s. shut cf acc s \<and> (rotating s \<longrightarrow> rotateStep s = - 1)) (openLocked env)
     (\<lambda>s. file_inv cf acc s \<and> handle s \<noteq> None \<and> (rotating s \<longrightarrow> fsize s = 0)) (shut cf acc)"
  unfolding openLocked_def
proof (intro contract_andThen)
  show "contract (\<lambda>s. shut cf acc s \<and> (rotating s \<longrightarrow> rotateStep s = - 1)) (protectArchives env)
      (\<lambda>s. shut cf acc s \<and> (rotating s \<longrightarrow> rotateStep s = - 1)) (shut cf acc)"
    by (rule contractI) (auto simp: protectArchives_def split: if_splits option.splits elim: file_inv_same)
  show "contract (\<lambda>s. shut cf acc s \<and> (rotating s \<longrightarrow> rotateStep s = - 1)) (reserve (openReserve env) 1 True)
      (\<lambda>s. shut cf acc s \<and> (rotating s \<longrightarrow> rotateStep s = - 1)) (shut cf acc)"
    by (rule contractI) (auto simp: reserve_def split: option.splits elim: file_inv_same)
qed (rule open_native_contract)

lemma open_native_rotating: "open_native env s = (e, t) \<Longrightarrow> rotating t = rotating s"
  by (auto simp: open_native_def repairJournalTail_def Let_def split: option.splits if_splits prod.splits sum.splits)

lemma openLocked_rotating: "openLocked env s = (e, t) \<Longrightarrow> rotating t = rotating s"
  by (auto simp: openLocked_def andThen_def protectArchives_def reserve_def dest!: open_native_rotating
      split: option.splits if_splits prod.splits)

lemma start_rotation: "shut cf acc s \<Longrightarrow> file_inv cf acc (s\<lparr>rotating := True, rotateStep := int (keep_of cf)\<rparr>)"
proof -
  let ?t = "s\<lparr>rotating := True, rotateStep := int (keep_of cf)\<rparr>"
  have "content ?t i = content s i" "buffered ?t = buffered s" for i by (simp_all add: content_def buffered_def)
  then show "shut cf acc s \<Longrightarrow> file_inv cf acc ?t"
    using holds_records_same [of cf _ acc s ?t] by (auto simp: file_inv_def open_ok_def turn_ok_def)
qed

lemma end_rotation: "file_inv cf acc s \<Longrightarrow> file_inv cf acc (s\<lparr>rotating := False\<rparr>)"
proof -
  let ?t = "s\<lparr>rotating := False\<rparr>"
  have "content ?t i = content s i" "buffered ?t = buffered s" for i by (simp_all add: content_def buffered_def)
  then show "file_inv cf acc s \<Longrightarrow> file_inv cf acc ?t"
    using holds_records_same [of cf _ acc s ?t] by (auto simp: file_inv_def open_ok_def turn_ok_def)
qed

lemma rotateLocked_contract:
  "contract (quiet cf acc) (rotateLocked cf now env) (\<lambda>s. live cf acc s \<and> fsize s = 0) (quiet cf acc)"
  unfolding rotateLocked_def
proof (intro contract_andThen)
  let ?rot = "\<lambda>s. shut cf acc s \<and> rotating s"
  have "contract (\<lambda>s. quiet cf acc s \<and> \<not> rotating s)
      (andThen (sync_open cf now env) (andThen (close_handle env) (change (\<lambda>s. s\<lparr>rotating := True, rotateStep := int (keep_of cf)\<rparr>))))
      ?rot (quiet cf acc)"
    by (rule contract_andThen [OF sync_open_contract contract_andThen [OF close_handle_contract contract_change]])
       (auto intro: start_rotation)
  then show "contract (quiet cf acc) (only_if (\<lambda>s. \<not> rotating s)
      (andThen (sync_open cf now env) (andThen (close_handle env) (change (\<lambda>s. s\<lparr>rotating := True, rotateStep := int (keep_of cf)\<rparr>)))))
      ?rot (quiet cf acc)"
    by (rule contract_only_if) auto
  show "contract ?rot (rotate_loop (keep_of cf) (stepErr env)) (\<lambda>s. ?rot s \<and> rotateStep s = - 1) (quiet cf acc)"
    by (rule contract_weaken [OF rotate_loop_contract]) auto
  show "contract (\<lambda>s. ?rot s \<and> rotateStep s = - 1) (openLocked (reopen env))
      (\<lambda>s. file_inv cf acc s \<and> handle s \<noteq> None \<and> fsize s = 0) (quiet cf acc)"
  proof (rule contractI)
    fix s e t assume p: "?rot s \<and> rotateStep s = - 1" and r: "openLocked (reopen env) s = (e, t)"
    have "rotating t" using p r by (auto dest: openLocked_rotating)
    then show "if e = None then file_inv cf acc t \<and> handle t \<noteq> None \<and> fsize t = 0 else quiet cf acc t"
      using contractD [OF openLocked_contract _ r, of cf acc] p by (auto split: if_splits)
  qed
  show "contract (\<lambda>s. file_inv cf acc s \<and> handle s \<noteq> None \<and> fsize s = 0) (change (\<lambda>s. s\<lparr>rotating := False\<rparr>))
      (\<lambda>s. live cf acc s \<and> fsize s = 0) (quiet cf acc)"
    by (rule contract_change) (auto intro: end_rotation)
qed

section \<open>Writing\<close>

lemma buffer_append_split:
  "(if bufData b \<noteq> [] \<and> journalBufferSize < length (bufData b) + length raw then delivered w b else [])
     @ bufData (snd (buffer_append w raw mb b))
   = bufData b @ (if fst (buffer_append w raw mb b) = None then raw else [])"
proof (cases "bufData b \<noteq> [] \<and> journalBufferSize < length (bufData b) + length raw")
  case True
  obtain e b' where f: "Flush w b = (e, b')" by fastforce
  then show ?thesis using True Flush_split [of w b] by (cases e) (auto simp: buffer_append_def add_record_def)
qed (auto simp: buffer_append_def add_record_def)

lemma append_inv:
  assumes "live cf acc s" "handle s = Some b" "line raw" "fsize s = 0 \<or> fsize s + int (length raw) \<le> max_of cf"
    and "d @ bufData b' = bufData b @ raw" "handle t = Some b'" "gens t = (gens s)(0 := Some (content s 0 @ d))"
    "fsize t = fsize s + int (length raw)" "rotating t = rotating s" "rotateStep t = rotateStep s"
  shows "file_inv cf (acc @ [raw]) t"
proof -
  obtain recs where h: "holds_records cf recs acc s" and ln: "list_all line acc" and
    sz: "fsize s = int (length (content s 0)) + int (length (buffered s))"
    using assms(1) by (auto simp: file_inv_def open_ok_def)
  let ?recs = "recs(0 := recs 0 @ [raw])"
  have c: "content t i = (if i = 0 then content s 0 @ d else content s i)" for i using assms(7) by (simp add: content_def)
  have whole: "content t 0 @ buffered t = content s 0 @ buffered s @ raw" using assms(2,5,6) by (simp add: c buffered_def)
  have "rev [0..<Suc (keep_of cf)] = rev [1..<Suc (keep_of cf)] @ [0]" by (simp add: upt_conv_Cons del: upt_Suc)
  moreover have "map ?recs (rev [1..<Suc (keep_of cf)]) = map recs (rev [1..<Suc (keep_of cf)])" by auto
  ultimately have "concat (map ?recs (rev [0..<Suc (keep_of cf)])) = concat (map recs (rev [0..<Suc (keep_of cf)])) @ [raw]"
    by (simp del: upt_Suc)
  moreover have "suffix (concat (map recs (rev [0..<Suc (keep_of cf)]))) acc" using h unfolding holds_records_def by blast
  ultimately have suf: "suffix (concat (map ?recs (rev [0..<Suc (keep_of cf)]))) (acc @ [raw])"
    by (simp add: suffix_def del: upt_Suc)
  have c0: "concat (recs 0) = content s 0 @ buffered s" using h by (simp add: holds_records_def)
  then have sz0: "fsize s = int (length (concat (recs 0)))" using sz by simp
  then have one: "recs 0 = []" if "fsize s = 0" using recs_of_empty [OF h ln, of 0] that by simp
  have "int (length (concat (recs i))) \<le> max_of cf \<or> length (recs i) \<le> 1" if "i \<le> keep_of cf" for i
    using h that unfolding holds_records_def by blast
  moreover have "int (length (concat (?recs 0))) \<le> max_of cf \<or> length (?recs 0) \<le> 1"
  proof (cases "fsize s = 0")
    case False
    then have "fsize s + int (length raw) \<le> max_of cf" using assms(4) by blast
    then show ?thesis unfolding sz0 by simp
  qed (use one in simp)
  ultimately have bnd: "int (length (concat (?recs i))) \<le> max_of cf \<or> length (?recs i) \<le> 1" if "i \<le> keep_of cf" for i
    using that by (cases "i = 0") simp_all
  have "content t i = concat (?recs i)" if "0 < i" "i \<le> keep_of cf" for i
    using h that c by (simp add: holds_records_def)
  moreover have "content t 0 @ buffered t = concat (?recs 0)" using whole c0 by simp
  ultimately have "holds_records cf ?recs (acc @ [raw]) t"
    using suf bnd unfolding holds_records_def by blast
  moreover have "length (content t 0) + length (buffered t) = length (content s 0) + length (buffered s) + length raw"
    using arg_cong [OF whole, of length] by simp
  then have "open_ok t" using sz assms(6-8) by (simp add: open_ok_def)
  moreover have "turn_ok cf t" using assms(1,9) by (simp add: turn_ok_def)
  ultimately show ?thesis using ln assms(3) by (intro file_invI [where recs = ?recs]) simp_all
qed

lemma append_raw_result:
  assumes "handle s = Some b" "append_raw cf now w raw mb s = (e, t)" "(gens s)(0 := Some (content s 0)) = gens s"
  shows "handle t = Some (snd (buffer_append w raw mb b))
    \<and> gens t = (gens s)(0 := Some (content s 0 @ (if bufData b \<noteq> [] \<and> journalBufferSize < length (bufData b) + length raw
                                                 then delivered w b else [])))
    \<and> rotating t = rotating s \<and> rotateStep t = rotateStep s \<and> e = fst (buffer_append w raw mb b)
    \<and> fsize t = fsize s + (if e = None then int (length raw) else 0)"
proof (cases "bufData b \<noteq> [] \<and> journalBufferSize < length (bufData b) + length raw")
  case True
  then show ?thesis using assms(1,2)
    by (cases "fst (buffer_append w raw mb b)") (auto simp: append_raw_def Let_def deliver_def)
next
  case False
  then show ?thesis using assms
    by (cases "fst (buffer_append w raw mb b)") (auto simp: append_raw_def Let_def)
qed

lemma append_raw_contract:
  assumes "line raw"
  shows "contract (\<lambda>s. live cf acc s \<and> (fsize s = 0 \<or> fsize s + int (length raw) \<le> max_of cf)) (append_raw cf now w raw mb)
    (quiet cf (acc @ [raw])) (quiet cf acc)"
proof (rule contractI)
  fix s e t assume p: "live cf acc s \<and> (fsize s = 0 \<or> fsize s + int (length raw) \<le> max_of cf)"
    and r: "append_raw cf now w raw mb s = (e, t)"
  obtain b where b: "handle s = Some b" using p by auto
  let ?d = "if bufData b \<noteq> [] \<and> journalBufferSize < length (bufData b) + length raw then delivered w b else []"
  have g0: "(gens s)(0 := Some (content s 0)) = gens s"
    using p by (auto simp: file_inv_def open_ok_def content_def)
  have t: "handle t = Some (snd (buffer_append w raw mb b))" "gens t = (gens s)(0 := Some (content s 0 @ ?d))"
    "rotating t = rotating s" "rotateStep t = rotateStep s" "e = fst (buffer_append w raw mb b)"
    "fsize t = fsize s + (if e = None then int (length raw) else 0)"
    using append_raw_result [OF b r g0] by blast+
  show "if e = None then quiet cf (acc @ [raw]) t else quiet cf acc t"
  proof (cases e)
    case None
    then show ?thesis
      using append_inv [OF _ b assms _ _ t(1,2), of cf acc] buffer_append_split [of b raw w mb] t p by simp
  next
    case (Some x)
    then show ?thesis
      using file_inv_move [of cf acc s b t "snd (buffer_append w raw mb b)" ?d] buffer_append_split [of b raw w mb] t p b by simp
  qed
qed

lemma retry_failed_contract:
  "contract (live cf acc) (retry_failed cf now w) (live cf acc) (quiet cf acc)"
proof (rule contractI)
  fix s e t assume p: "live cf acc s" and r: "retry_failed cf now w s = (e, t)"
  show "if e = None then live cf acc t else quiet cf acc t"
  proof (cases "writeErr s = None \<or> (\<exists>x. writeErr s = Some x \<and> now < retryAt s)")
    case True
    then show ?thesis using p r by (auto simp: retry_failed_def split: option.splits)
  next
    case False
    then have f: "flushLocked cf now w s = (e, t)" using r by (auto simp: retry_failed_def split: if_splits)
    obtain b where "handle s = Some b" using p by auto
    from flushLocked_result [OF this f] show ?thesis using contractD [OF flushLocked_contract _ f, of acc] p by (auto split: if_splits)
  qed
qed

lemma reserve_contract: "contract (\<lambda>s. live cf acc s \<and> Z s) (reserve e n opening) (\<lambda>s. live cf acc s \<and> Z s) (quiet cf acc)"
  if "\<And>s c. Z (disk c s) = Z s"
  by (rule contractI) (auto simp: reserve_def that split: option.splits elim: file_inv_same)

lemma write_file_contract:
  assumes "line raw"
  shows "contract (quiet cf acc) (write_file cf env raw mb) (quiet cf (acc @ [raw])) (quiet cf acc)"
proof -
  let ?max = "\<lambda>s. fsize s = 0 \<or> fsize s + int (length raw) \<le> max_of cf"
  have 1: "contract (quiet cf acc) (only_if rotating (rotateLocked cf (fnow env) (resume env)))
      (\<lambda>s. quiet cf acc s \<and> \<not> rotating s) (quiet cf acc)"
    by (rule contract_only_if, rule contract_weaken [OF rotateLocked_contract]) auto
  have 2: "contract (\<lambda>s. quiet cf acc s \<and> \<not> rotating s) (only_if (\<lambda>s. handle s = None) (openLocked (firstOpen env)))
      (live cf acc) (quiet cf acc)"
  proof (rule contract_only_if)
    show "contract (\<lambda>s. (quiet cf acc s \<and> \<not> rotating s) \<and> handle s = None) (openLocked (firstOpen env)) (live cf acc) (quiet cf acc)"
    proof (rule contractI)
      fix s e t assume p: "(quiet cf acc s \<and> \<not> rotating s) \<and> handle s = None" and r: "openLocked (firstOpen env) s = (e, t)"
      then show "if e = None then live cf acc t else quiet cf acc t"
        using contractD [OF openLocked_contract _ r, of cf acc] openLocked_rotating [OF r] by (auto split: if_splits)
    qed
  qed auto
  have 3: "contract (live cf acc) (only_if (\<lambda>s. 0 < fsize s \<and> max_of cf < fsize s + int (length raw))
      (rotateLocked cf (fnow env) (rotateEnv env))) (\<lambda>s. live cf acc s \<and> ?max s) (quiet cf acc)"
    by (rule contract_only_if, rule contract_weaken [OF rotateLocked_contract])
       (auto simp: file_inv_def open_ok_def)
  have 4: "contract (\<lambda>s. live cf acc s \<and> ?max s) (reserve (appendReserve env) (int (length raw)) False)
      (\<lambda>s. live cf acc s \<and> ?max s) (quiet cf acc)"
    by (rule reserve_contract) simp
  note chain = contract_andThen [OF 1 contract_andThen [OF 2 contract_andThen [OF retry_failed_contract
    contract_andThen [OF 3 contract_andThen [OF 4 append_raw_contract [OF assms]]]]]]
  show ?thesis
  proof (rule contractI)
    fix s e t assume q: "quiet cf acc s" and w: "write_file cf env raw mb s = (e, t)"
    show "if e = None then quiet cf (acc @ [raw]) t else quiet cf acc t"
    proof (cases "fretired s \<or> fclosed s")
      case True
      then show ?thesis using q w by (auto simp: write_file_def split: if_splits)
    next
      case False
      show ?thesis by (rule contractD [OF chain q]) (use w False in \<open>simp add: write_file_def\<close>)
    qed
  qed
qed

section \<open>Retirement\<close>

definition keeps_retired :: "fstep \<Rightarrow> bool" where
  "keeps_retired f \<longleftrightarrow> (\<forall>s. fretired (snd (f s)) = fretired s)"

lemma keeps_retiredD: "keeps_retired f \<Longrightarrow> f s = (e, t) \<Longrightarrow> fretired t = fretired s"
  unfolding keeps_retired_def by (metis snd_conv)

lemma retired_andThen: "keeps_retired f \<Longrightarrow> keeps_retired g \<Longrightarrow> keeps_retired (andThen f g)"
  by (auto simp: keeps_retired_def andThen_def split_beta option.case_eq_if)

lemma retired_only_if: "keeps_retired f \<Longrightarrow> keeps_retired (only_if b f)"
  by (simp add: keeps_retired_def only_if_def)

lemma retired_failure [simp]:
  "fretired (scheduleFlushLocked cf now s) = fretired s" "fretired (writeFailureLocked cf now e s) = fretired s"
  "fretired (disk c s) = fretired s"
  by (simp_all add: scheduleFlushLocked_def writeFailureLocked_def disk_def Let_def)

lemma retired_flush: "keeps_retired (flushLocked cf now w)"
  by (auto simp: keeps_retired_def flushLocked_def Let_def deliver_def split: option.split)

lemma retired_open: "keeps_retired (openLocked env)"
  unfolding openLocked_def
  by (intro retired_andThen)
     (auto simp: keeps_retired_def protectArchives_def reserve_def open_native_def repairJournalTail_def Let_def
       split: option.split sum.split prod.split)

lemma retired_sync_open: "keeps_retired (sync_open cf now env)"
  unfolding sync_open_def by (intro retired_andThen retired_only_if retired_flush) (simp add: keeps_retired_def fail_with_def)

lemma retired_loop: "keeps_retired (rotate_loop k errs)"
  unfolding keeps_retired_def
proof
  fix s show "fretired (snd (rotate_loop k errs s)) = fretired s"
  proof (induction k errs s rule: rotate_loop.induct)
    case (1 k errs s)
    obtain r g where n: "rotate_native k (errs (nat (rotateStep s))) (nat (rotateStep s)) (gens s) = (r, g)" by fastforce
    show ?case
      using 1 n by (subst rotate_loop.simps) (cases r; auto simp: Let_def)
  qed
qed

lemma retired_rotate: "keeps_retired (rotateLocked cf now env)"
  unfolding rotateLocked_def
  by (intro retired_andThen retired_only_if retired_sync_open retired_loop retired_open)
     (auto simp: keeps_retired_def close_handle_def change_def split: option.split)

lemma retired_write: "keeps_retired (write_file cf env raw mb)"
proof -
  have "keeps_retired (andThen (only_if rotating (rotateLocked cf (fnow env) (resume env)))
      (andThen (only_if (\<lambda>s. handle s = None) (openLocked (firstOpen env)))
      (andThen (retry_failed cf (fnow env) (retryWrite env))
      (andThen (only_if (\<lambda>s. 0 < fsize s \<and> max_of cf < fsize s + int (length raw)) (rotateLocked cf (fnow env) (rotateEnv env)))
      (andThen (reserve (appendReserve env) (int (length raw)) False)
         (append_raw cf (fnow env) (appendWrite env) raw mb))))))"
    using retired_flush
    by (intro retired_andThen retired_only_if retired_rotate retired_open)
       (auto simp: keeps_retired_def retry_failed_def reserve_def append_raw_def deliver_def Let_def split: option.split)
  then show ?thesis by (auto simp: keeps_retired_def write_file_def)
qed

section \<open>Runs\<close>

datatype file_op =
  JWrite file_env string nat
| JTimer int write_result
| JSync int rotate_env
| JRetire int rotate_env

text \<open>The file and the records whose write returned no error, oldest first.\<close>

fun file_step :: "jconf \<Rightarrow> file_op \<Rightarrow> jfile \<times> string list \<Rightarrow> jfile \<times> string list" where
  "file_step cf (JWrite env raw mb) (s, acc) =
     (case append_record cf env raw mb s of (e, t) \<Rightarrow> (t, if e = None then acc @ [raw] else acc))"
| "file_step cf (JTimer now w) (s, acc) = (flush_timer cf now w s, acc)"
| "file_step cf (JSync now env) (s, acc) = (if fclosed s \<or> fretired s then s else snd (syncLocked cf now env s), acc)"
| "file_step cf (JRetire now env) (s, acc) = (snd (syncAndRetireUnit cf now env s), acc)"

definition no_file :: jfile where
  "no_file =
     \<lparr>handle = None, fsize = 0, ftimer = None, fclosed = False, fretired = False, writeErr = None, retryDelay = 0,
      retryAt = zeroTime, rotating = False, rotateStep = 0, archivesProtected = False, gens = (\<lambda>_. None), reports = [],
      diskCalls = [], losses = []\<rparr>"

definition file_run :: "jconf \<Rightarrow> file_op list \<Rightarrow> jfile \<times> string list" where
  "file_run cf ops = fold (file_step cf) ops (no_file, [])"

fun op_line :: "file_op \<Rightarrow> bool" where
  "op_line (JWrite env raw mb) = line raw"
| "op_line _ = True"

definition run_inv :: "jconf \<Rightarrow> jfile \<times> string list \<Rightarrow> bool" where
  "run_inv cf st \<longleftrightarrow> quiet cf (snd st) (fst st) \<and> (fretired (fst st) \<longrightarrow> shut cf (snd st) (fst st) \<and> \<not> rotating (fst st))"

lemma fresh_inv:
  assumes "shut cf acc s" "\<not> rotating s"
  shows "quiet cf acc (fresh_file s) \<and> \<not> fretired (fresh_file s)"
proof -
  have "content (fresh_file s) i = content s i" "buffered (fresh_file s) = buffered s" for i
    using assms by (simp_all add: fresh_file_def content_def buffered_def)
  then show ?thesis using assms holds_records_same [of cf _ acc s "fresh_file s"]
    by (auto simp: file_inv_def open_ok_def turn_ok_def fresh_file_def)
qed

lemma empty_buffered: "file_inv cf acc s \<Longrightarrow> handle s \<noteq> None \<Longrightarrow> fsize s = 0 \<Longrightarrow> buffered s = []"
proof -
  assume "file_inv cf acc s" "handle s \<noteq> None" "fsize s = 0"
  then have "int (length (content s 0)) + int (length (buffered s)) = 0" by (simp add: file_inv_def open_ok_def)
  then show "buffered s = []" by (metis length_0_conv of_nat_0_le_iff of_nat_eq_0_iff add_nonneg_eq_0_iff)
qed

lemma syncLocked_contract:
  "contract (quiet cf acc) (syncLocked cf now env) (\<lambda>s. quiet cf acc s \<and> \<not> rotating s \<and> buffered s = []) (quiet cf acc)"
proof (rule contractI)
  fix s e t assume q: "quiet cf acc s" and r: "syncLocked cf now env s = (e, t)"
  show "if e = None then quiet cf acc t \<and> \<not> rotating t \<and> buffered t = [] else quiet cf acc t"
  proof (cases "rotating s")
    case True
    then have "rotateLocked cf now env s = (e, t)" using r by (simp add: syncLocked_def)
    from contractD [OF rotateLocked_contract q this] show ?thesis
      using empty_buffered by (cases e) auto
  next
    case False
    then have "sync_open cf now env s = (e, t)" using r by (simp add: syncLocked_def)
    from contractD [OF sync_open_contract _ this, of acc] show ?thesis using q False by blast
  qed
qed

lemma retired_sync: "keeps_retired (syncLocked cf now env)"
  using retired_rotate retired_sync_open by (simp add: keeps_retired_def syncLocked_def)

lemma flush_quiet: "quiet cf acc s \<Longrightarrow> flushLocked cf now w s = (e, t) \<Longrightarrow> quiet cf acc t"
proof (cases "rotating s")
  case False
  assume q: "quiet cf acc s" and r: "flushLocked cf now w s = (e, t)"
  show ?thesis using contractD [OF flushLocked_contract _ r, of acc] q False by (auto split: if_splits)
qed (simp add: flushLocked_def)

lemma flush_timer_inv:
  assumes "run_inv cf (s, acc)"
  shows "run_inv cf (flush_timer cf now w s, acc)"
proof -
  let ?s = "s\<lparr>ftimer := None\<rparr>"
  obtain e t where f: "flushLocked cf now w ?s = (e, t)" by fastforce
  have q: "quiet cf acc ?s" using assms by (auto simp: run_inv_def elim: file_inv_same)
  have r: "fretired t = fretired s" using keeps_retiredD [OF retired_flush f] by simp
  have "quiet cf acc t" by (rule flush_quiet [OF q f])
  moreover have "fretired t \<Longrightarrow> t = ?s" using f assms r by (auto simp: run_inv_def flushLocked_def)
  ultimately have "run_inv cf (t, acc)" "run_inv cf (t\<lparr>reports := x\<rparr>, acc)" "run_inv cf (?s, acc)" for x
    using assms q r by (auto simp: run_inv_def elim: file_inv_same)
  then show ?thesis using assms f by (auto simp: flush_timer_def Let_def split: option.split)
qed

lemma retire_inv:
  assumes "run_inv cf (s, acc)"
  shows "run_inv cf (snd (syncAndRetireUnit cf now env s), acc)"
proof (cases "fclosed s \<or> fretired s")
  case True
  then show ?thesis using assms by (auto simp: syncAndRetireUnit_def)
next
  case False
  obtain e1 s1 where f1: "syncLocked cf now env s = (e1, s1)" by fastforce
  obtain e2 s2 where f2: "close_handle env s1 = (e2, s2)" by fastforce
  have c1: "if e1 = None then quiet cf acc s1 \<and> \<not> rotating s1 \<and> buffered s1 = [] else quiet cf acc s1"
    using contractD [OF syncLocked_contract _ f1, of acc] assms by (simp add: run_inv_def)
  have r1: "\<not> fretired s1" using keeps_retiredD [OF retired_sync f1] False by simp
  have r2: "fretired s2 = fretired s1" using f2 by (auto simp: close_handle_def split: if_splits option.splits)
  show ?thesis
  proof (cases e1)
    case (Some x)
    then show ?thesis using False f1 c1 r1 by (simp add: syncAndRetireUnit_def andThen_def run_inv_def)
  next
    case None
    have c2: "if e2 = None then shut cf acc s2 \<and> \<not> rotating s2 else quiet cf acc s2"
      using contractD [OF close_handle_contract _ f2, of cf acc] c1 None by simp
    show ?thesis
    proof (cases e2)
      case (Some x)
      then show ?thesis using False f1 f2 c2 r1 r2 None by (simp add: syncAndRetireUnit_def andThen_def run_inv_def)
    next
      case n2: None
      have "file_inv cf acc (s2\<lparr>ftimer := None, handle := None, fretired := True\<rparr>)"
        using c2 n2 by (auto elim: file_inv_same)
      then show ?thesis using False f1 f2 c2 None n2 by (simp add: syncAndRetireUnit_def andThen_def change_def run_inv_def)
    qed
  qed
qed

lemma file_step_inv:
  assumes "run_inv cf (s, acc)" "op_line op"
  shows "run_inv cf (file_step cf op (s, acc))"
proof (cases op)
  case (JWrite env raw mb)
  let ?s = "if fretired s then fresh_file s else s"
  obtain e t where w: "write_file cf env raw mb ?s = (e, t)" by fastforce
  have q: "quiet cf acc ?s \<and> \<not> fretired ?s"
    using assms(1) fresh_inv [of cf acc s] by (auto simp: run_inv_def)
  have "\<not> fretired t" using keeps_retiredD [OF retired_write w] q by simp
  then show ?thesis
    using contractD [OF write_file_contract _ w, of acc] q assms(2) JWrite w
    by (auto simp: run_inv_def append_record_def split: if_splits)
next
  case (JTimer now w)
  then show ?thesis using flush_timer_inv [OF assms(1)] by simp
next
  case (JSync now env)
  obtain e t where w: "syncLocked cf now env s = (e, t)" by fastforce
  have "fretired t = fretired s" by (rule keeps_retiredD [OF retired_sync w])
  then show ?thesis
    using contractD [OF syncLocked_contract _ w, of acc] assms(1) JSync w by (auto simp: run_inv_def split: if_splits)
next
  case (JRetire now env)
  then show ?thesis using retire_inv [OF assms(1)] by simp
qed

lemma file_run_inv: "list_all op_line ops \<Longrightarrow> run_inv cf (file_run cf ops)"
proof -
  have "run_inv cf st \<Longrightarrow> list_all op_line ops \<Longrightarrow> run_inv cf (fold (file_step cf) ops st)" for st
  proof (induction ops arbitrary: st)
    case (Cons op ops)
    then show ?case using file_step_inv [of cf "fst st" "snd st" op] by simp
  qed simp
  moreover have "holds_records cf (\<lambda>_. []) [] no_file"
    by (simp add: holds_records_def no_file_def content_def buffered_def)
  then have "run_inv cf (no_file, [])"
    by (auto simp: run_inv_def file_inv_def open_ok_def turn_ok_def no_file_def)
  ultimately show "list_all op_line ops \<Longrightarrow> run_inv cf (file_run cf ops)" by (simp add: file_run_def)
qed

text \<open>
  C18: a unit's journal keeps its most recent records, whole and in order.  Take any sequence of writes, timer flushes,
  syncs and retirements, with any short writes, write, sync, close, open and rotation errors in between.  The
  records whose write was reported successful form a list; the archives from the oldest to the newest, the current file
  and the write buffer together hold a final part of that list, each archive holds whole records, and no generation is
  larger than the configured size unless it is a single record.  So only rotation drops records, and only the oldest.
  The final close of the file, which gives up the buffer when its last sync fails, and the pruning of historical files by
  the disk quota are not among the operations.
\<close>

theorem journal_records_kept:
  assumes "list_all op_line ops" "file_run cf ops = (s, acc)"
  shows "\<exists>recs. (\<forall>i. 0 < i \<longrightarrow> i \<le> keep_of cf \<longrightarrow> content s i = concat (recs i))
     \<and> content s 0 @ buffered s = concat (recs 0)
     \<and> suffix (concat (map recs (rev [0..<Suc (keep_of cf)]))) acc
     \<and> (\<forall>i \<le> keep_of cf. int (length (concat (recs i))) \<le> max_of cf \<or> length (recs i) \<le> 1)"
  using file_run_inv [OF assms(1), of cf] unfolding assms(2) run_inv_def file_inv_def holds_records_def by auto

section \<open>Interrupted rotations\<close>

definition partly_rotated :: "nat \<Rightarrow> int \<Rightarrow> (nat \<Rightarrow> string option) \<Rightarrow> nat \<Rightarrow> string option" where
  "partly_rotated k j g i =
     (if k < i \<or> int i \<le> j then g i else if int i = j + 1 then None else g (i - 1))"

fun rotated_step :: "disk_call \<Rightarrow> nat" where
  "rotated_step (Rotated i _ _) = i"
| "rotated_step _ = 0"

definition rotation_from :: "nat \<Rightarrow> jfile \<Rightarrow> jfile \<Rightarrow> bool" where
  "rotation_from k s0 s \<longleftrightarrow>
     - 1 \<le> rotateStep s \<and> rotateStep s \<le> int k \<and> gens s = partly_rotated k (rotateStep s) (gens s0)
     \<and> (\<exists>cs. diskCalls s = diskCalls s0 @ cs \<and> map rotated_step cs = take (nat (int k - rotateStep s)) (rev [0..<Suc k]))"

lemma rotate_native_partly:
  assumes "rotate_native k e i (partly_rotated k (int i) g) = (r, g')" "r = NotExist \<or> r = Done" "i \<le> k"
  shows "g' = partly_rotated k (int i - 1) g"
proof -
  have "g i = None \<and> g' = partly_rotated k (int i) g
      \<or> i = k \<and> g' = (partly_rotated k (int i) g)(k := None)
      \<or> i < k \<and> g' = (partly_rotated k (int i) g)(i := None, Suc i := g i)"
    using assms by (auto simp: rotate_native_def partly_rotated_def split: option.splits if_splits)
  then show ?thesis
  proof (elim disjE conjE)
    assume a: "g i = None" "g' = partly_rotated k (int i) g"
    have "x - 1 = i" if "int x = int i + 1" for x using that by simp
    then show ?thesis using a by (auto simp: partly_rotated_def fun_eq_iff)
  qed (auto simp: partly_rotated_def fun_eq_iff)
qed

lemma take_rev_upt: "n \<le> k \<Longrightarrow> take (Suc n) (rev [0..<Suc k]) = take n (rev [0..<Suc k]) @ [k - n]"
  by (simp add: take_Suc_conv_app_nth rev_nth del: upt_Suc)

lemma rotation_step:
  assumes "rotation_from k s0 s" "0 \<le> rotateStep s"
    and "rotate_native k e (nat (rotateStep s)) (gens s) = (r, g)" "r = NotExist \<or> r = Done"
  shows "rotation_from k s0 (disk (Rotated (nat (rotateStep s)) k b) (s\<lparr>gens := g, rotateStep := rotateStep s - 1\<rparr>))"
proof -
  let ?i = "nat (rotateStep s)"
  have i: "int ?i = rotateStep s" "?i \<le> k" using assms(1,2) by (auto simp: rotation_from_def)
  have "gens s = partly_rotated k (int ?i) (gens s0)" using assms(1) i by (simp add: rotation_from_def)
  then have "g = partly_rotated k (int ?i - 1) (gens s0)" using rotate_native_partly assms(3,4) i(2) by metis
  moreover obtain cs where "diskCalls s = diskCalls s0 @ cs" "map rotated_step cs = take (k - ?i) (rev [0..<Suc k])"
    using assms(1) i by (auto simp: rotation_from_def nat_diff_distrib simp del: upt_Suc)
  moreover have "take (Suc (k - ?i)) (rev [0..<Suc k]) = take (k - ?i) (rev [0..<Suc k]) @ [?i]"
    using take_rev_upt [of "k - ?i" k] i(2) by (simp del: upt_Suc)
  moreover have "nat (int k - (rotateStep s - 1)) = Suc (k - ?i)" using i by linarith
  ultimately show ?thesis
    using assms(1,2) i(1) unfolding rotation_from_def by (auto simp: disk_def simp del: upt_Suc)
qed

lemma rotate_loop_from:
  assumes "rotation_from k s0 s"
  shows "rotation_from k s0 (snd (rotate_loop k errs s)) \<and> (errs = (\<lambda>_. None) \<longrightarrow> rotateStep (snd (rotate_loop k errs s)) = - 1)"
  using assms
proof (induction k errs s rule: rotate_loop.induct)
  case (1 k errs s)
  obtain r g where n: "rotate_native k (errs (nat (rotateStep s))) (nat (rotateStep s)) (gens s) = (r, g)" by fastforce
  let ?s = "disk (Rotated (nat (rotateStep s)) k (r = Done)) (s\<lparr>gens := g, rotateStep := rotateStep s - 1\<rparr>)"
  consider (ended) "rotateStep s < 0" | (failed) msg where "0 \<le> rotateStep s" "r = Failed msg"
    | (step) "0 \<le> rotateStep s" "r = NotExist \<or> r = Done" by (cases r) force+
  then show ?case
  proof cases
    case ended
    then show ?thesis using "1.prems" by (subst (1 2) rotate_loop.simps) (auto simp: rotation_from_def)
  next
    case failed
    then have "errs \<noteq> (\<lambda>_. None)" using n by (auto simp: rotate_native_def split: if_splits)
    moreover have "snd (rotate_loop k errs s) = s" using failed n by (simp add: rotate_loop.simps Let_def)
    ultimately show ?thesis using "1.prems" by simp
  next
    case step
    have e: "rotate_loop k errs s = rotate_loop k errs ?s"
      using step n by (subst rotate_loop.simps) (auto simp: Let_def)
    have "rotation_from k s0 ?s" by (rule rotation_step [OF "1.prems" step(1) n step(2)])
    then show ?thesis unfolding e using "1.IH" step n by (auto simp: Let_def)
  qed
qed

text \<open>
  C19: an interrupted rotation resumes where it stopped.  Start a rotation with \<open>keep\<close> archives, let any number of
  attempts fail at any native step, then let one attempt run without native errors.  Every generation has moved up by
  exactly one place, only the oldest is gone, and the disk accounting saw each step exactly once, from the oldest
  generation to the current file: retries neither shift a generation twice nor count a step twice.
\<close>

theorem rotation_resumes:
  assumes "rotateStep s = int k"
  shows "let t = snd (rotate_loop k (\<lambda>_. None) (fold (\<lambda>errs s. snd (rotate_loop k errs s)) attempts s))
         in rotateStep t = - 1
            \<and> gens t = (\<lambda>i. if i = 0 then None else if i \<le> k then gens s (i - 1) else gens s i)
            \<and> (\<exists>cs. diskCalls t = diskCalls s @ cs \<and> map rotated_step cs = rev [0..<Suc k])"
proof -
  have "rotation_from k s s0 \<Longrightarrow> rotation_from k s (fold (\<lambda>errs s. snd (rotate_loop k errs s)) attempts s0)" for s0
    by (induction attempts arbitrary: s0) (simp_all add: rotate_loop_from)
  moreover have "rotation_from k s s"
    using assms by (auto simp: rotation_from_def partly_rotated_def fun_eq_iff)
  ultimately have f: "rotation_from k s (fold (\<lambda>errs s. snd (rotate_loop k errs s)) attempts s)" by blast
  define t where "t = snd (rotate_loop k (\<lambda>_. None) (fold (\<lambda>errs s. snd (rotate_loop k errs s)) attempts s))"
  have done_all: "rotateStep t = - 1" and "rotation_from k s t"
    using rotate_loop_from [OF f, of "\<lambda>_. None"] by (simp_all add: t_def)
  then have g: "gens t = partly_rotated k (- 1) (gens s)"
    and cs: "\<exists>cs. diskCalls t = diskCalls s @ cs \<and> map rotated_step cs = take (nat (int k - - 1)) (rev [0..<Suc k])"
    unfolding rotation_from_def by metis+
  have "partly_rotated k (- 1) g = (\<lambda>i. if i = 0 then None else if i \<le> k then g (i - 1) else g i)" for g
    by (auto simp: partly_rotated_def fun_eq_iff)
  moreover have "take (nat (int k - - 1)) (rev [0..<Suc k]) = rev [0..<Suc k]" by (simp add: nat_add_distrib del: upt_Suc)
  ultimately show ?thesis using done_all g cs unfolding Let_def t_def [symmetric] by simp
qed

definition sample_gens :: jfile where
  "sample_gens = no_file\<lparr>rotating := True, rotateStep := 2, gens := [0 \<mapsto> ''c'', 1 \<mapsto> ''b'', 2 \<mapsto> ''a'']\<rparr>"

theorem rotation_resumes_witness:
  "let t = snd (rotate_loop 2 (\<lambda>_. None) (fold (\<lambda>errs s. snd (rotate_loop 2 errs s)) [[1 \<mapsto> ''busy''], [0 \<mapsto> ''busy'']] sample_gens))
   in gens t 0 = None \<and> gens t 1 = Some ''c'' \<and> gens t 2 = Some ''b''"
proof -
  have "rotateStep sample_gens = int 2" by (simp add: sample_gens_def)
  from rotation_resumes [OF this, of "[[1 \<mapsto> ''busy''], [0 \<mapsto> ''busy'']]"]
  show ?thesis by (auto simp: Let_def sample_gens_def)
qed

definition sample_conf :: jconf where
  "sample_conf = \<lparr>maxSize = 6, keep = 1, flushEvery = 0\<rparr>"

definition sample_open :: open_env where
  "sample_open = \<lparr>protectErr = None, openReserve = None, openErr = None, statErr = None, repairWrite = (0, None)\<rparr>"

definition sample_rotate :: "write_result \<Rightarrow> (nat \<Rightarrow> string option) \<Rightarrow> rotate_env" where
  "sample_rotate w errs = \<lparr>syncWrite = w, syncErr = None, closeErr = None, stepErr = errs, reopen = sample_open\<rparr>"

definition sample_write :: "write_result \<Rightarrow> (nat \<Rightarrow> string option) \<Rightarrow> string \<Rightarrow> file_op" where
  "sample_write w errs msg =
     JWrite \<lparr>fnow = 0, resume = sample_rotate w errs, firstOpen = sample_open, retryWrite = (0, None),
             rotateEnv = sample_rotate w errs, appendReserve = None, appendWrite = (0, None)\<rparr> (msg @ [CHR 0x0A]) 3"

definition sample_ops :: "file_op list" where
  "sample_ops =
     [sample_write (0, None) (\<lambda>_. None) ''one'', sample_write (4, None) [0 \<mapsto> ''busy''] ''two'',
      sample_write (4, None) (\<lambda>_. None) ''two'', sample_write (4, None) (\<lambda>_. None) ''six'']"

lemma one_gen: "concat (map recs (rev [0..<Suc 1])) = recs 1 @ recs 0"
  by simp

theorem journal_records_kept_witness:
  "list_all op_line sample_ops
   \<and> snd (file_run sample_conf sample_ops) = [''one'' @ [CHR 0x0A], ''two'' @ [CHR 0x0A], ''six'' @ [CHR 0x0A]]
   \<and> (let s = fst (file_run sample_conf sample_ops)
      in (\<exists>recs :: nat \<Rightarrow> string list. content s 1 = concat (recs 1) \<and> content s 0 @ buffered s = concat (recs 0)
            \<and> suffix (recs 1 @ recs 0) [''one'' @ [CHR 0x0A], ''two'' @ [CHR 0x0A], ''six'' @ [CHR 0x0A]])
         \<and> content s 1 = ''two'' @ [CHR 0x0A] \<and> content s 0 @ buffered s = ''six'' @ [CHR 0x0A])"
proof -
  let ?acc = "[''one'' @ [CHR 0x0A], ''two'' @ [CHR 0x0A], ''six'' @ [CHR 0x0A]]"
  have l: "list_all op_line sample_ops" by code_simp
  have a: "snd (file_run sample_conf sample_ops) = ?acc" by code_simp
  have c: "content (fst (file_run sample_conf sample_ops)) 1 = ''two'' @ [CHR 0x0A]"
    "content (fst (file_run sample_conf sample_ops)) 0 @ buffered (fst (file_run sample_conf sample_ops)) = ''six'' @ [CHR 0x0A]"
    by code_simp+
  have k: "keep_of sample_conf = 1" by (simp add: keep_of_def sample_conf_def)
  have "file_run sample_conf sample_ops = (fst (file_run sample_conf sample_ops), ?acc)" using a by (metis prod.collapse)
  from journal_records_kept [OF l this, unfolded k] obtain recs where
    r: "\<forall>i. 0 < i \<longrightarrow> i \<le> 1 \<longrightarrow> content (fst (file_run sample_conf sample_ops)) i = concat (recs i)"
    "content (fst (file_run sample_conf sample_ops)) 0 @ buffered (fst (file_run sample_conf sample_ops)) = concat (recs 0)"
    "suffix (concat (map recs (rev [0..<Suc 1]))) ?acc" by blast
  have "content (fst (file_run sample_conf sample_ops)) 1 = concat (recs 1)" using r(1) by simp
  moreover have "suffix (recs 1 @ recs 0) ?acc" using r(3) unfolding one_gen .
  ultimately show ?thesis using r(2) l a c unfolding Let_def by (intro conjI exI [of _ recs]) assumption+
qed

end
