(* ===== verification/Timer_Schedule.thy ===== *)
theory Timer_Schedule
  imports Calendar_Parse
begin

text \<open>
  One timer's schedule: \<open>internal/timers/schedule.go\<close>.  Instants and durations are integers counted
  in nanoseconds, and 0 is Go's zero time, for which \<open>IsZero\<close> holds.  A \<open>Clock\<close> is one frozen
  observation, as \<open>planCalendars\<close> captures it.  The two searches of a calendar expression are the
  record \<open>cal_search\<close>: the schedule calls them and relies only on the laws of the locale
  \<open>calendar_search\<close>.
\<close>

named_theorems timer_defs \<open>definitions of the schedule\<close>

record TSpec =
  ConfigRevision :: string
  TName :: name
  TUnit :: name
  OnBootSec :: int
  OnStartupSec :: int
  OnUnitActiveSec :: int
  OnCalendar :: "Calendar list"
  TPersistent :: bool
  OnBootSecSet :: bool
  OnStartupSecSet :: bool
  OnUnitActiveSecSet :: bool

record Activation =
  ActID :: string
  ActUnit :: name
  ActResult :: string
  ActScheduled :: int
  ActActual :: int

record Runtime =
  RtActivation :: Activation
  LastScheduled :: int
  LastActual :: int
  LastSuccess :: int
  LastUnitActive :: int
  FiredBoot :: bool
  FiredStartup :: bool

record Clock =
  clk_now :: int
  sinceBoot :: int
  sinceStart :: int

record cal_search =
  Next :: "Calendar \<Rightarrow> int \<Rightarrow> int"
  Previous :: "Calendar \<Rightarrow> int \<Rightarrow> int"

definition no_Activation :: Activation where
  "no_Activation = \<lparr>ActID = [], ActUnit = [], ActResult = [], ActScheduled = 0, ActActual = 0\<rparr>"

definition new_Runtime :: Runtime where
  "new_Runtime = \<lparr>RtActivation = no_Activation, LastScheduled = 0, LastActual = 0, LastSuccess = 0,
     LastUnitActive = 0, FiredBoot = False, FiredStartup = False\<rparr>"

section \<open>The next deadline\<close>

definition bootDue :: "TSpec \<Rightarrow> Clock \<Rightarrow> int \<Rightarrow> int" where [timer_defs]:
  "bootDue spec clk now =
     (let elapsed = sinceBoot clk
      in if OnBootSec spec \<le> elapsed then now else now + (OnBootSec spec - elapsed))"

definition startupDue :: "TSpec \<Rightarrow> Clock \<Rightarrow> int \<Rightarrow> int" where [timer_defs]:
  "startupDue spec clk now =
     (let elapsed = sinceStart clk
      in if OnStartupSec spec \<le> elapsed then now else now + (OnStartupSec spec - elapsed))"

definition persistentCatchup :: "cal_search \<Rightarrow> Calendar \<Rightarrow> Runtime \<Rightarrow> int \<Rightarrow> int option" where
  [timer_defs]: "persistentCatchup cs cal rt now =
     (if LastActual rt = 0 then None
      else let prev = Previous cs cal now
           in if prev = 0 \<or> \<not> LastActual rt < prev then None else Some now)"

text \<open>The closure \<open>consider\<close> works on the three variables \<open>earliest\<close>, \<open>wall\<close> and \<open>found\<close>.\<close>

definition consider_time :: "int \<Rightarrow> int \<times> bool \<Rightarrow> int \<times> int \<times> bool \<Rightarrow> int \<times> int \<times> bool" where
  "consider_time now tw s =
     (case (tw, s) of ((t0, wallBased), (earliest, wall, found)) \<Rightarrow>
        if t0 = 0 then s
        else let t = (if t0 < now then now else t0)
             in (if \<not> found \<or> t < earliest then t else earliest,
                 if wallBased \<and> (wall = 0 \<or> t < wall) then t else wall,
                 True))"

text \<open>The calls of \<open>consider\<close>, in the order of the code.\<close>

definition calendarTrigger :: "cal_search \<Rightarrow> TSpec \<Rightarrow> Runtime \<Rightarrow> int \<Rightarrow> Calendar \<Rightarrow> int \<times> bool" where
  [timer_defs]: "calendarTrigger cs spec rt now cal =
     (if TPersistent spec
      then case persistentCatchup cs cal rt now of
          Some catchup \<Rightarrow> (catchup, True)
        | None \<Rightarrow> (Next cs cal now, True)
      else (Next cs cal now, True))"

definition deadlineTriggers :: "cal_search \<Rightarrow> TSpec \<Rightarrow> Runtime \<Rightarrow> Clock \<Rightarrow> (int \<times> bool) list" where
  [timer_defs]: "deadlineTriggers cs spec rt clk =
     (let now = clk_now clk; due = LastUnitActive rt + OnUnitActiveSec spec
      in (if OnBootSecSet spec \<and> \<not> FiredBoot rt then [(bootDue spec clk now, False)] else [])
         @ (if OnStartupSecSet spec \<and> \<not> FiredStartup rt then [(startupDue spec clk now, False)] else [])
         @ (if OnUnitActiveSecSet spec \<and> LastUnitActive rt \<noteq> 0
               \<and> (LastActual rt = 0 \<or> LastActual rt < due)
            then [(due, True)] else [])
         @ map (calendarTrigger cs spec rt now) (OnCalendar spec))"

definition nextDeadline :: "cal_search \<Rightarrow> TSpec \<Rightarrow> Runtime \<Rightarrow> Clock \<Rightarrow> int \<times> int \<times> bool" where
  "nextDeadline cs spec rt clk =
     fold (consider_time (clk_now clk)) (deadlineTriggers cs spec rt clk) (0, 0, False)"

definition MarkFired :: "TSpec \<Rightarrow> Clock \<Rightarrow> int \<Rightarrow> int \<Rightarrow> Runtime \<Rightarrow> Runtime" where [timer_defs]:
  "MarkFired spec clk scheduled actual rt0 =
     (let rt = rt0\<lparr>LastScheduled := scheduled, LastActual := actual\<rparr>;
          rt = (if OnBootSecSet spec \<and> \<not> FiredBoot rt \<and> \<not> actual < bootDue spec clk actual
                then rt\<lparr>FiredBoot := True\<rparr> else rt)
      in if OnStartupSecSet spec \<and> \<not> FiredStartup rt \<and> \<not> actual < startupDue spec clk actual
         then rt\<lparr>FiredStartup := True\<rparr> else rt)"

section \<open>What the deadline is\<close>

text \<open>
  The closure computes two minima: \<open>earliest\<close> over all the triggers that are set, \<open>wall\<close> over those
  that depend on the wall clock, each moved up to the present when it has passed.
\<close>

definition trigger_times :: "int \<Rightarrow> (int \<times> bool) list \<Rightarrow> int set" where
  "trigger_times now ts = {max now t | t w. (t, w) \<in> set ts \<and> t \<noteq> 0}"

definition wall_times :: "int \<Rightarrow> (int \<times> bool) list \<Rightarrow> int set" where
  "wall_times now ts = {max now t | t. (t, True) \<in> set ts \<and> t \<noteq> 0}"

definition min_or_zero :: "int set \<Rightarrow> int" where
  "min_or_zero A = (if A = {} then 0 else Min A)"

lemma finite_trigger_times [simp]: "finite (trigger_times now ts)"
proof -
  have "trigger_times now ts \<subseteq> (\<lambda>(t, w). max now t) ` set ts"
    by (force simp: trigger_times_def)
  then show ?thesis by (rule finite_subset) simp
qed

lemma finite_wall_times [simp]: "finite (wall_times now ts)"
  by (rule finite_subset [OF _ finite_trigger_times [of now ts]])
     (auto simp: wall_times_def trigger_times_def)

lemma trigger_times_snoc:
  "trigger_times now (ts @ [(t, w)]) =
     (if t = 0 then trigger_times now ts else insert (max now t) (trigger_times now ts))"
  by (auto simp: trigger_times_def)

lemma wall_times_snoc:
  "wall_times now (ts @ [(t, w)]) =
     (if t = 0 \<or> \<not> w then wall_times now ts else insert (max now t) (wall_times now ts))"
  by (auto simp: wall_times_def)

lemma min_or_zero_insert:
  "finite A \<Longrightarrow>
     min_or_zero (insert x A) = (if A = {} \<or> x < min_or_zero A then x else min_or_zero A)"
  by (auto simp: min_or_zero_def min_def simp del: Min_le_iff Min_ge_iff Min_gr_iff Min_less_iff)

lemma min_or_zero_in: "finite A \<Longrightarrow> A \<noteq> {} \<Longrightarrow> min_or_zero A \<in> A"
  by (simp add: min_or_zero_def)

lemma wall_times_pos: "0 < now \<Longrightarrow> x \<in> wall_times now ts \<Longrightarrow> x \<noteq> 0"
  by (auto simp: wall_times_def)

lemma consider_time_pair:
  "consider_time now (t, w) (e, wl, f) =
     (if t = 0 then (e, wl, f)
      else (if \<not> f \<or> max now t < e then max now t else e,
            if w \<and> (wl = 0 \<or> max now t < wl) then max now t else wl, True))"
  by (auto simp: consider_time_def Let_def max_def)

lemma consider_fold:
  assumes "0 < now"
  shows "fold (consider_time now) ts (0, 0, False) =
           (min_or_zero (trigger_times now ts), min_or_zero (wall_times now ts),
            trigger_times now ts \<noteq> {})"
proof (induction ts rule: rev_induct)
  case Nil
  show ?case by (simp add: trigger_times_def wall_times_def min_or_zero_def)
next
  case (snoc tw ts)
  obtain t w where tw: "tw = (t, w)" by (cases tw)
  have w0: "min_or_zero (wall_times now ts) = 0 \<longleftrightarrow> wall_times now ts = {}"
    using min_or_zero_in [OF finite_wall_times] wall_times_pos [OF assms] min_or_zero_def
    by metis
  show ?case
    by (simp add: snoc.IH tw consider_time_pair trigger_times_snoc wall_times_snoc
        min_or_zero_insert w0)
qed

lemma nextDeadline_exact:
  "0 < clk_now clk \<Longrightarrow>
     nextDeadline cs spec rt clk =
       (min_or_zero (trigger_times (clk_now clk) (deadlineTriggers cs spec rt clk)),
        min_or_zero (wall_times (clk_now clk) (deadlineTriggers cs spec rt clk)),
        trigger_times (clk_now clk) (deadlineTriggers cs spec rt clk) \<noteq> {})"
  by (simp add: nextDeadline_def consider_fold)

lemma nextDeadline_not_past:
  assumes "0 < clk_now clk" "nextDeadline cs spec rt clk = (t, wall, True)"
  shows "clk_now clk \<le> t" "wall = 0 \<or> t \<le> wall"
proof -
  let ?ts = "deadlineTriggers cs spec rt clk" and ?now = "clk_now clk"
  have t: "t = min_or_zero (trigger_times ?now ?ts)" "trigger_times ?now ?ts \<noteq> {}"
    and w: "wall = min_or_zero (wall_times ?now ?ts)"
    using assms by (auto simp: nextDeadline_exact)
  have "t \<in> trigger_times ?now ?ts" using t min_or_zero_in by simp
  then show "?now \<le> t" by (auto simp: trigger_times_def)
  show "wall = 0 \<or> t \<le> wall"
  proof (cases "wall_times ?now ?ts = {}")
    case True
    then show ?thesis by (simp add: w min_or_zero_def)
  next
    case False
    then have "wall \<in> wall_times ?now ?ts" using w min_or_zero_in by simp
    then have "wall \<in> trigger_times ?now ?ts" by (auto simp: wall_times_def trigger_times_def)
    then show ?thesis using t by (simp add: min_or_zero_def)
  qed
qed

section \<open>One-shot triggers\<close>

lemma MarkFired_keeps [simp]:
  "LastUnitActive (MarkFired spec clk sch act rt) = LastUnitActive rt"
  "LastActual (MarkFired spec clk sch act rt) = act"
  "LastScheduled (MarkFired spec clk sch act rt) = sch"
  "LastSuccess (MarkFired spec clk sch act rt) = LastSuccess rt"
  "RtActivation (MarkFired spec clk sch act rt) = RtActivation rt"
  by (simp_all add: MarkFired_def Let_def)

lemma MarkFired_boot:
  "FiredBoot (MarkFired spec clk sch act rt) \<longleftrightarrow>
     FiredBoot rt \<or> (OnBootSecSet spec \<and> OnBootSec spec \<le> sinceBoot clk)"
  by (auto simp: MarkFired_def bootDue_def Let_def)

lemma MarkFired_startup:
  "FiredStartup (MarkFired spec clk sch act rt) \<longleftrightarrow>
     FiredStartup rt \<or> (OnStartupSecSet spec \<and> OnStartupSec spec \<le> sinceStart clk)"
  by (auto simp: MarkFired_def startupDue_def Let_def)

section \<open>The contract of the calendar searches\<close>

locale calendar_search =
  fixes cs :: cal_search
  assumes next_later: "Next cs c t \<noteq> 0 \<Longrightarrow> t < Next cs c t"
    and previous_earlier: "Previous cs c t \<noteq> 0 \<Longrightarrow> Previous cs c t < t"
begin

lemma no_catchup_after_fire:
  "0 < now \<Longrightarrow> persistentCatchup cs cal (MarkFired spec clk sch now rt) now = None"
  using previous_earlier [of cal now]
  by (auto simp: persistentCatchup_def MarkFired_def Let_def)

text \<open>
  Once an occurrence is consumed at an instant, nothing of the schedule is due at that instant any
  more: every trigger left lies strictly in the future.
\<close>

lemma fired_triggers_future:
  assumes now: "0 < clk_now clk"
    and "(t, w) \<in> set (deadlineTriggers cs spec (MarkFired spec clk scheduled (clk_now clk) rt) clk)"
    and "t \<noteq> 0"
  shows "clk_now clk < t"
  using assms next_later [of _ "clk_now clk"]
  by (auto simp: deadlineTriggers_def calendarTrigger_def no_catchup_after_fire [OF now]
      bootDue_def startupDue_def MarkFired_boot MarkFired_startup Let_def split: if_splits)

lemma fired_not_due_again:
  assumes now: "0 < clk_now clk"
    and nd: "nextDeadline cs spec (MarkFired spec clk scheduled (clk_now clk) rt) clk = (t, wall, True)"
  shows "clk_now clk < t \<and> (wall = 0 \<or> clk_now clk < wall)"
proof -
  let ?ts = "deadlineTriggers cs spec (MarkFired spec clk scheduled (clk_now clk) rt) clk"
  have "t = min_or_zero (trigger_times (clk_now clk) ?ts)" "trigger_times (clk_now clk) ?ts \<noteq> {}"
    using nd by (auto simp: nextDeadline_exact now)
  then have "t \<in> trigger_times (clk_now clk) ?ts" using min_or_zero_in by simp
  then have "clk_now clk < t"
    using fired_triggers_future [OF now] by (force simp: trigger_times_def)
  then show ?thesis using nextDeadline_not_past [OF now nd] by auto
qed

end

end
