(* ===== verification/Timer_Engine.thy ===== *)
theory Timer_Engine
  imports Timer_Schedule
begin

text \<open>
  The timer engine: \<open>internal/timers/engine.go\<close>, its planner \<open>calendar_work.go\<close> and its storage
  worker \<open>storage_work.go\<close>.

  One definition models each critical section of the engine's mutex.  The goroutines are explicit:
  a callback or a recorder is a \<open>job\<close> that waits for the storage lock, saves, and then delivers or
  commits; the calendar planner and the loader keep what they captured between two critical
  sections.  A run is a list of acts, one critical section each, in any order: an act that is not
  enabled leaves the engine as it is.  What the code reads from the clock and what the store answers
  are arguments of the act.

  The map \<open>armed\<close> is an association list.  Where the code ranges over it, the list order is used;
  the order only decides which generation number an arm receives, and generations are only compared
  for equality.  A pointer to an \<open>armed\<close> object is the arm count at its creation (\<open>inst\<close>).  The heap is a
  bag whose element 0 is its least one.  Counters are unbounded.  \<open>hist\<close> is a record of what the
  engine accepted, saved and delivered, newest first; the code never reads it.
\<close>

named_theorems engine_defs \<open>definitions of the engine\<close>

record Fire =
  FireID :: string
  FireName :: name
  FireUnit :: name
  FireToken :: nat

record pqItem =
  pqName :: name
  pqWhen :: int
  pqGen :: nat

record armed =
  inst :: nat
  item :: "pqItem option"
  planning :: bool
  aloading :: bool
  storageError :: string
  firing :: bool
  retry :: "(Fire \<times> int) option"
  token :: nat
  aspec :: TSpec
  art :: Runtime
  nextAt :: int
  wallNext :: int
  aok :: bool
  gen :: nat
  schedGen :: nat

datatype phase = WaitStorage | Saving nat | Persisted | Finishing

record job =
  jid :: nat
  jcallback :: bool
  jevent :: Fire
  jrt :: Runtime
  jinst :: nat
  jphase :: phase

record plan_capture =
  pcName :: name
  pcInst :: nat
  pcGen :: nat
  pcClockGen :: nat
  pcSpec :: TSpec
  pcRt :: Runtime

datatype tevent = Accepted Fire int int | Saved name Runtime | Fired Fire

record engine =
  running :: bool
  hasFire :: bool
  hasStore :: bool
  storageIO :: bool
  scheduling :: bool
  scheduleCursor :: name
  eloading :: bool
  namespace :: string
  nextActivation :: nat
  arms :: "(name \<times> armed) list"
  pq :: "pqItem list"
  clockGen :: nat
  activeFires :: nat
  nextArm :: nat
  nextGen :: nat
  jobs :: "job list"
  nextJob :: nat
  plan :: "plan_capture option"
  load :: "(name \<times> nat \<times> bool) option"
  hist :: "tevent list"

definition maxWait :: int where "maxWait = 30000000000"
definition maxTimerCallbacks :: nat where "maxTimerCallbacks = 32"
definition MaxArmedTimers :: nat where "MaxArmedTimers = 1024"
definition timerMaxCalendars :: nat where "timerMaxCalendars = 64"
definition admissionRetryDelay :: int where "admissionRetryDelay = 250000000"

definition NewEngine :: "string \<Rightarrow> bool \<Rightarrow> bool \<Rightarrow> engine" where
  "NewEngine ns store fire = \<lparr>running = True, hasFire = fire, hasStore = store, storageIO = False,
     scheduling = False, scheduleCursor = [], eloading = False, namespace = ns, nextActivation = 0,
     arms = [], pq = [], clockGen = 0, activeFires = 0, nextArm = 0, nextGen = 0, jobs = [],
     nextJob = 0, plan = None, load = None, hist = []\<rparr>"

abbreviation arm_of :: "engine \<Rightarrow> name \<Rightarrow> armed option" where
  "arm_of e nm \<equiv> map_of (arms e) nm"

definition put_arm :: "name \<Rightarrow> armed \<Rightarrow> engine \<Rightarrow> engine" where [engine_defs]:
  "put_arm nm a e = e\<lparr>arms := AList.update nm a (arms e)\<rparr>"

section \<open>The deadline heap\<close>

definition pqLess :: "pqItem \<Rightarrow> pqItem \<Rightarrow> bool" where
  "pqLess x y = (if pqWhen x = pqWhen y then pqName x < pqName y else pqWhen x < pqWhen y)"

definition heap_top :: "pqItem list \<Rightarrow> pqItem" where
  "heap_top q = fold (\<lambda>it best. if pqLess it best then it else best) (tl q) (hd q)"

definition removeDeadlineLocked :: "name \<Rightarrow> engine \<Rightarrow> engine" where [engine_defs]:
  "removeDeadlineLocked nm e =
     (case arm_of e nm of None \<Rightarrow> e
      | Some a \<Rightarrow> (case item a of None \<Rightarrow> e
          | Some it \<Rightarrow> put_arm nm (a\<lparr>item := None\<rparr>) (e\<lparr>pq := remove1 it (pq e)\<rparr>)))"

definition installDeadlineLocked :: "name \<Rightarrow> int \<Rightarrow> nat \<Rightarrow> engine \<Rightarrow> engine" where [engine_defs]:
  "installDeadlineLocked nm t g e0 =
     (let e = removeDeadlineLocked nm e0
      in case arm_of e nm of None \<Rightarrow> e
         | Some a \<Rightarrow>
             let it = \<lparr>pqName = TName (aspec a), pqWhen = t, pqGen = g\<rparr>
             in put_arm nm (a\<lparr>item := Some it\<rparr>) (e\<lparr>pq := pq e @ [it]\<rparr>))"

text \<open>What \<open>rescheduleLocked\<close> writes to the arm itself, under the new generation \<open>g\<close>.\<close>

definition schedule_arm :: "cal_search \<Rightarrow> Clock \<Rightarrow> nat \<Rightarrow> nat \<Rightarrow> armed \<Rightarrow> armed" where
  "schedule_arm cs clk g cg a0 =
     (let a = a0\<lparr>gen := g, planning := False, aok := False, nextAt := 0, wallNext := 0\<rparr>
      in if aloading a \<or> storageError a \<noteq> [] then a
         else if retry a = None \<and> OnCalendar (aspec a) \<noteq> [] then a\<lparr>planning := True\<rparr>
         else let (t, wall, ok) =
                    (case retry a of
                       Some (ev, after) \<Rightarrow> (clk_now clk + max 0 (after - sinceStart clk), 0, True)
                     | None \<Rightarrow> nextDeadline cs (aspec a) (art a) clk)
              in a\<lparr>nextAt := t, wallNext := wall, aok := ok, schedGen := cg\<rparr>)"

definition rescheduleLocked :: "cal_search \<Rightarrow> Clock \<Rightarrow> name \<Rightarrow> engine \<Rightarrow> engine" where
  "rescheduleLocked cs clk nm e0 =
     (let e = removeDeadlineLocked nm e0; g = nextGen e + 1; e = e\<lparr>nextGen := g\<rparr>
      in case arm_of e nm of None \<Rightarrow> e
         | Some a0 \<Rightarrow>
             let a = schedule_arm cs clk g (clockGen e) a0;
                 e = put_arm nm a (e\<lparr>scheduling := scheduling e \<or> (planning a \<and> running e)\<rparr>)
             in if aok a then installDeadlineLocked nm (nextAt a) g e else e)"

section \<open>What is due, and how long to wait\<close>

definition wallSensitive :: "TSpec \<Rightarrow> bool" where
  "wallSensitive spec \<longleftrightarrow> OnCalendar spec \<noteq> [] \<or> OnUnitActiveSecSet spec"

definition monotonicWaitLocked :: "Clock \<Rightarrow> TSpec \<Rightarrow> Runtime \<Rightarrow> int \<times> bool" where [engine_defs]:
  "monotonicWaitLocked clk spec rt =
     (let consider = (\<lambda>rem (d, found). if \<not> found \<or> rem < d then (rem, True) else (d, found));
          s = (0, False);
          s = (if OnBootSecSet spec \<and> \<not> FiredBoot rt
               then consider (OnBootSec spec - sinceBoot clk) s else s)
      in if OnStartupSecSet spec \<and> \<not> FiredStartup rt
         then consider (OnStartupSec spec - sinceStart clk) s else s)"

definition monotonicDueLocked :: "Clock \<Rightarrow> TSpec \<Rightarrow> Runtime \<Rightarrow> bool" where [engine_defs]:
  "monotonicDueLocked clk spec rt \<longleftrightarrow>
     (OnBootSecSet spec \<and> \<not> FiredBoot rt \<and> OnBootSec spec \<le> sinceBoot clk)
     \<or> (OnStartupSecSet spec \<and> \<not> FiredStartup rt \<and> OnStartupSec spec \<le> sinceStart clk)"

definition itemWaitLocked :: "Clock \<Rightarrow> armed \<Rightarrow> int" where [engine_defs]:
  "itemWaitLocked clk a =
     (case retry a of
        Some (ev, after) \<Rightarrow> after - sinceStart clk
      | None \<Rightarrow>
          let (wait, relative) = monotonicWaitLocked clk (aspec a) (art a);
              wall = wallNext a - clk_now clk
          in if wallNext a \<noteq> 0 \<and> (\<not> relative \<or> wall < wait) then wall else wait)"

definition itemDueLocked :: "Clock \<Rightarrow> armed \<Rightarrow> bool" where [engine_defs]:
  "itemDueLocked clk a =
     (case retry a of
        Some (ev, after) \<Rightarrow> after \<le> sinceStart clk
      | None \<Rightarrow> monotonicDueLocked clk (aspec a) (art a)
                \<or> (wallNext a \<noteq> 0 \<and> wallNext a \<le> clk_now clk))"

text \<open>An entry the loops over the heap look at: it is current, its arm is idle, a slot is free.\<close>

definition eligible :: "engine \<Rightarrow> pqItem \<Rightarrow> bool" where [engine_defs]:
  "eligible e it =
     (case arm_of e (pqName it) of None \<Rightarrow> False
      | Some a \<Rightarrow> pqGen it = gen a \<and> \<not> firing a \<and> activeFires e < maxTimerCallbacks)"

lemma fold_pick_mem: "fold (\<lambda>it best. if P it best then it else best) xs x \<in> insert x (set xs)"
  by (induction xs arbitrary: x) fastforce+

lemma heap_top_mem: "q \<noteq> [] \<Longrightarrow> heap_top q \<in> set q"
  using fold_pick_mem [of pqLess "tl q" "hd q"] by (cases q) (auto simp: heap_top_def)

function drop_stale :: "(pqItem \<Rightarrow> bool) \<Rightarrow> pqItem list \<Rightarrow> pqItem list" where
  "drop_stale live q =
     (if q = [] then []
      else let it = heap_top q in if live it then q else drop_stale live (remove1 it q))"
  by pat_completeness auto
termination
  by (relation "measure (length \<circ> snd)") (auto simp: length_remove1 heap_top_mem)

declare drop_stale.simps [simp del]

definition dropStaleLocked :: "engine \<Rightarrow> engine" where [engine_defs]:
  "dropStaleLocked e =
     e\<lparr>pq := drop_stale (\<lambda>it. case arm_of e (pqName it) of None \<Rightarrow> False | Some a \<Rightarrow> pqGen it = gen a)
              (pq e)\<rparr>"

definition waitDuration :: "bool \<Rightarrow> Clock \<Rightarrow> engine \<Rightarrow> (int \<times> bool) \<times> engine" where
  "waitDuration hasChanged clk e0 =
     (let e = dropStaleLocked e0;
          (d, found) = fold (\<lambda>it (d, found).
              if \<not> eligible e it then (d, found)
              else let w = max 0 (itemWaitLocked clk (the (arm_of e (pqName it))))
                   in if \<not> found \<or> w < d then (w, True) else (d, found)) (pq e) (maxWait, False)
      in (if \<not> found then (if \<not> hasChanged then (maxWait, True) else (0, False))
          else if \<not> hasChanged \<and> maxWait < d then (maxWait, True) else (d, True), e))"

section \<open>Firing\<close>

record dueTimer =
  dueName :: name
  dueInst :: nat
  dueGen :: nat
  dueScheduled :: int

definition bestDue :: "Clock \<Rightarrow> engine \<Rightarrow> pqItem option" where [engine_defs]:
  "bestDue clk e =
     fold (\<lambda>it best. if eligible e it \<and> itemDueLocked clk (the (arm_of e (pqName it)))
                       \<and> (case best of None \<Rightarrow> True | Some b \<Rightarrow> pqLess it b)
                     then Some it else best) (pq e) None"

definition dueInstant :: "Clock \<Rightarrow> pqItem \<Rightarrow> armed \<Rightarrow> int" where [engine_defs]:
  "dueInstant clk it a =
     (if retry a \<noteq> None then pqWhen it
      else case monotonicWaitLocked clk (aspec a) (art a) of (wait, ok) \<Rightarrow>
        let relative = clk_now clk + wait
        in if ok \<and> wait \<le> 0 \<and> (wallNext a = 0 \<or> relative < wallNext a) then relative
           else wallNext a)"

definition popDueLocked :: "Clock \<Rightarrow> engine \<Rightarrow> dueTimer option \<times> engine" where
  "popDueLocked clk e0 =
     (let e = dropStaleLocked e0
      in case bestDue clk e of None \<Rightarrow> (None, e)
         | Some it \<Rightarrow>
             let nm = pqName it; a0 = the (arm_of e nm);
                 a = (if item a0 = Some it then a0\<lparr>item := None\<rparr> else a0)
             in (Some \<lparr>dueName = nm, dueInst = inst a, dueGen = pqGen it, dueScheduled = dueInstant clk it a\<rparr>,
                 put_arm nm a (e\<lparr>pq := remove1 it (pq e)\<rparr>)))"

definition persistentCal :: "TSpec \<Rightarrow> bool" where
  "persistentCal spec \<longleftrightarrow> TPersistent spec \<and> OnCalendar spec \<noteq> []"

definition activation_id :: "string \<Rightarrow> nat \<Rightarrow> string" where
  "activation_id ns n = ns @ ''-'' @ Itoa n"

text \<open>The part of \<open>consumeLocked\<close> that records the occurrence in its arm and builds the event.\<close>

definition accept :: "Clock \<Rightarrow> dueTimer \<Rightarrow> int \<Rightarrow> engine \<Rightarrow> armed \<Rightarrow> Fire \<times> armed \<times> engine" where
  "accept clk due actual e a =
     (let event = \<lparr>FireID = [], FireName = TName (aspec a), FireUnit = TUnit (aspec a), FireToken = token a\<rparr>
      in case retry a of
           Some (ev, after) \<Rightarrow>
             (ev,
              if FireID ev \<noteq> []
              then a\<lparr>retry := None, art := (art a)\<lparr>LastActual := actual,
                       RtActivation := (RtActivation (art a))\<lparr>ActActual := actual\<rparr>\<rparr>\<rparr>
              else a\<lparr>retry := None\<rparr>, e)
         | None \<Rightarrow>
             let rt = MarkFired (aspec a) clk (dueScheduled due) actual (art a)
             in if persistentCal (aspec a)
                then let n = nextActivation e + 1; ident = activation_id (namespace e) n;
                         ev = event\<lparr>FireID := ident\<rparr>;
                         act = \<lparr>ActID = ident, ActUnit = FireUnit event, ActResult = ''pending'',
                                ActScheduled = dueScheduled due, ActActual = actual\<rparr>
                     in (ev, a\<lparr>art := rt\<lparr>RtActivation := act\<rparr>\<rparr>,
                         e\<lparr>nextActivation := n, hist := Accepted ev (dueScheduled due) actual # hist e\<rparr>)
                else (event, a\<lparr>art := rt\<rparr>,
                      e\<lparr>hist := Accepted event (dueScheduled due) actual # hist e\<rparr>))"

definition spawn :: "bool \<Rightarrow> Fire \<Rightarrow> Runtime \<Rightarrow> nat \<Rightarrow> engine \<Rightarrow> engine" where [engine_defs]:
  "spawn callback ev rt i e =
     e\<lparr>jobs := jobs e @ [\<lparr>jid = nextJob e, jcallback = callback, jevent = ev, jrt = rt, jinst = i,
                          jphase = WaitStorage\<rparr>],
       nextJob := nextJob e + 1\<rparr>"

definition consumeLocked :: "cal_search \<Rightarrow> Clock \<Rightarrow> dueTimer \<Rightarrow> int \<Rightarrow> engine \<Rightarrow> engine" where
  "consumeLocked cs clk due actual e =
     (if \<not> running e then e
      else case arm_of e (dueName due) of None \<Rightarrow> e
        | Some a0 \<Rightarrow>
            if inst a0 \<noteq> dueInst due \<or> gen a0 \<noteq> dueGen due then e
            else if firing a0 \<or> maxTimerCallbacks \<le> activeFires e
            then installDeadlineLocked (dueName due) (dueScheduled due) (dueGen due) e
            else let (ev, a, e1) = accept clk due actual e a0;
                     e2 = spawn True ev (art a) (inst a) (e1\<lparr>activeFires := activeFires e1 + 1\<rparr>);
                     e3 = put_arm (dueName due) (a\<lparr>firing := True\<rparr>) e2
                 in if token a = FireToken ev then rescheduleLocked cs clk (dueName due) e3 else e3)"

subsection \<open>The firing loop ends\<close>

text \<open>Every accepted occurrence marks an idle arm as firing; a stopped engine only drains the heap.\<close>

definition idle_arms :: "engine \<Rightarrow> nat" where
  "idle_arms e = length (filter (\<lambda>(nm, a). \<not> firing a) (arms e))"

lemma idle_update_same:
  "map_of xs nm = Some a \<Longrightarrow> firing a' = firing a \<Longrightarrow>
     length (filter (\<lambda>(nm, a). \<not> firing a) (AList.update nm a' xs)) =
     length (filter (\<lambda>(nm, a). \<not> firing a) xs)"
  by (induction xs) auto

lemma idle_update_less:
  "map_of xs nm = Some a \<Longrightarrow> \<not> firing a \<Longrightarrow> firing a' \<Longrightarrow>
     length (filter (\<lambda>(nm, a). \<not> firing a) (AList.update nm a' xs)) <
     length (filter (\<lambda>(nm, a). \<not> firing a) xs)"
  by (induction xs) auto

lemma idle_put_same: "arm_of e nm = Some a \<Longrightarrow> firing a' = firing a \<Longrightarrow>
    idle_arms (put_arm nm a' e) = idle_arms e"
  by (simp add: idle_arms_def put_arm_def idle_update_same)

lemma idle_put_less: "arm_of e nm = Some a \<Longrightarrow> \<not> firing a \<Longrightarrow> firing a' \<Longrightarrow>
    idle_arms (put_arm nm a' e) < idle_arms e"
  by (simp add: idle_arms_def put_arm_def idle_update_less)

lemma arms_put [simp]: "arm_of (put_arm nm a e) = (arm_of e)(nm \<mapsto> a)"
  by (rule ext) (simp add: put_arm_def update_conv')

lemma put_arm_sel [simp]:
  "running (put_arm nm a e) = running e" "hasFire (put_arm nm a e) = hasFire e"
  "hasStore (put_arm nm a e) = hasStore e" "storageIO (put_arm nm a e) = storageIO e"
  "scheduling (put_arm nm a e) = scheduling e" "eloading (put_arm nm a e) = eloading e"
  "scheduleCursor (put_arm nm a e) = scheduleCursor e"
  "namespace (put_arm nm a e) = namespace e" "nextActivation (put_arm nm a e) = nextActivation e"
  "pq (put_arm nm a e) = pq e" "clockGen (put_arm nm a e) = clockGen e"
  "activeFires (put_arm nm a e) = activeFires e" "nextArm (put_arm nm a e) = nextArm e"
  "nextGen (put_arm nm a e) = nextGen e" "jobs (put_arm nm a e) = jobs e"
  "nextJob (put_arm nm a e) = nextJob e" "plan (put_arm nm a e) = plan e"
  "load (put_arm nm a e) = load e" "hist (put_arm nm a e) = hist e"
  by (simp_all add: put_arm_def)

lemma schedule_arm_sel [simp]:
  "inst (schedule_arm cs clk g cg a) = inst a" "item (schedule_arm cs clk g cg a) = item a"
  "aloading (schedule_arm cs clk g cg a) = aloading a"
  "storageError (schedule_arm cs clk g cg a) = storageError a"
  "firing (schedule_arm cs clk g cg a) = firing a" "retry (schedule_arm cs clk g cg a) = retry a"
  "token (schedule_arm cs clk g cg a) = token a" "aspec (schedule_arm cs clk g cg a) = aspec a"
  "art (schedule_arm cs clk g cg a) = art a" "gen (schedule_arm cs clk g cg a) = g"
  by (simp_all add: schedule_arm_def Let_def split: prod.split)

lemma map_of_update_same [simp]: "map_of (AList.update k v xs) k = Some v"
  by (simp add: update_conv')

lemma no_item: "item a = None \<Longrightarrow> a\<lparr>item := None\<rparr> = a"
  by simp

text \<open>The whole effect of \<open>rescheduleLocked\<close> on an armed timer, as one update of the engine.\<close>

lemma reschedule_effect:
  fixes cs clk nm e a
  assumes "arm_of e nm = Some a"
  defines "a1 \<equiv> schedule_arm cs clk (nextGen e + 1) (clockGen e) (a\<lparr>item := None\<rparr>)"
  defines "it \<equiv> \<lparr>pqName = TName (aspec a), pqWhen = nextAt a1, pqGen = nextGen e + 1\<rparr>"
  shows "rescheduleLocked cs clk nm e =
    e\<lparr>arms := AList.update nm (a1\<lparr>item := if aok a1 then Some it else None\<rparr>) (arms e),
      pq := (case item a of None \<Rightarrow> pq e | Some i \<Rightarrow> remove1 i (pq e)) @ (if aok a1 then [it] else []),
      nextGen := nextGen e + 1,
      scheduling := scheduling e \<or> (planning a1 \<and> running e)\<rparr>"
  using assms(1) unfolding a1_def it_def
  by (cases "item a") (simp_all add: rescheduleLocked_def removeDeadlineLocked_def
      installDeadlineLocked_def Let_def put_arm_def no_item)

lemma installDeadline_effect:
  fixes nm t g e a
  assumes "arm_of e nm = Some a"
  defines "it \<equiv> \<lparr>pqName = TName (aspec a), pqWhen = t, pqGen = g\<rparr>"
  shows "installDeadlineLocked nm t g e =
    e\<lparr>arms := AList.update nm (a\<lparr>item := Some it\<rparr>) (arms e),
      pq := (case item a of None \<Rightarrow> pq e | Some i \<Rightarrow> remove1 i (pq e)) @ [it]\<rparr>"
  using assms
  by (cases "item a") (simp_all add: removeDeadlineLocked_def installDeadlineLocked_def Let_def put_arm_def)

lemma installDeadline_None: "arm_of e nm = None \<Longrightarrow> installDeadlineLocked nm t g e = e"
  by (simp add: installDeadlineLocked_def removeDeadlineLocked_def Let_def)

lemma reschedule_None: "arm_of e nm = None \<Longrightarrow> rescheduleLocked cs clk nm e = e\<lparr>nextGen := nextGen e + 1\<rparr>"
  by (simp add: rescheduleLocked_def removeDeadlineLocked_def Let_def)

lemma reschedule_idle: "idle_arms (rescheduleLocked cs clk nm e) = idle_arms e"
proof (cases "arm_of e nm")
  case (Some a)
  then show ?thesis by (simp add: reschedule_effect idle_arms_def idle_update_same)
qed (simp add: reschedule_None idle_arms_def)

lemma accept_arm:
  assumes "accept clk due actual e a = (ev, a', e')"
  shows "inst a' = inst a" "firing a' = firing a" "token a' = token a" "aspec a' = aspec a"
    "gen a' = gen a" "item a' = item a" "aloading a' = aloading a" "planning a' = planning a"
    "storageError a' = storageError a" "retry a' = None" "arms e' = arms e"
  using assms by (auto simp: accept_def Let_def split: option.splits if_splits)

lemma bestDue_Some:
  assumes "bestDue clk e = Some it"
  shows "it \<in> set (pq e) \<and> eligible e it \<and> itemDueLocked clk (the (arm_of e (pqName it)))"
proof -
  have "fold (\<lambda>it best. if P it \<and> Q it best then Some it else best) xs b = Some y \<Longrightarrow>
          b = Some y \<or> (y \<in> set xs \<and> P y)" for P Q xs b and y :: pqItem
    by (induction xs arbitrary: b) (auto split: if_splits)
  from this [of "\<lambda>it. eligible e it \<and> itemDueLocked clk (the (arm_of e (pqName it)))"
      "\<lambda>it best. case best of None \<Rightarrow> True | Some b \<Rightarrow> pqLess it b" "pq e" None it]
  show ?thesis using assms by (simp add: bestDue_def conj_assoc)
qed

lemma drop_stale_length: "length (drop_stale live q) \<le> length q"
proof (induction live q rule: drop_stale.induct)
  case (1 live q)
  show ?case
  proof (cases "q = [] \<or> live (heap_top q)")
    case True
    then show ?thesis by (subst drop_stale.simps) (auto simp: Let_def)
  next
    case False
    then have "length (drop_stale live (remove1 (heap_top q) q)) \<le> length (remove1 (heap_top q) q)"
      using "1.IH" by simp
    also have "\<dots> \<le> length q" by (simp add: length_remove1)
    finally show ?thesis using False by (subst drop_stale.simps) (simp add: Let_def)
  qed
qed

lemma popDue_Some:
  assumes "popDueLocked clk e = (Some due, e')"
  shows "\<exists>a. arm_of e' (dueName due) = Some a \<and> \<not> firing a \<and> inst a = dueInst due \<and> gen a = dueGen due"
    "activeFires e' < maxTimerCallbacks" "running e' = running e"
    "idle_arms e' = idle_arms e" "length (pq e') < length (pq e)"
proof -
  let ?e = "dropStaleLocked e"
  obtain it where it: "bestDue clk ?e = Some it"
    using assms by (auto simp: popDueLocked_def Let_def split: option.splits)
  with bestDue_Some [OF it] obtain a where mem: "it \<in> set (pq ?e)" and a: "arm_of ?e (pqName it) = Some a"
    "pqGen it = gen a" "\<not> firing a" "activeFires ?e < maxTimerCallbacks"
    by (auto simp: eligible_def split: option.splits)
  define a' where "a' = (if item a = Some it then a\<lparr>item := None\<rparr> else a)"
  have a': "inst a' = inst a" "gen a' = gen a" "firing a' = firing a" by (simp_all add: a'_def)
  have "due = \<lparr>dueName = pqName it, dueInst = inst a', dueGen = pqGen it, dueScheduled = dueInstant clk it a'\<rparr>
      \<and> e' = put_arm (pqName it) a' (?e\<lparr>pq := remove1 it (pq ?e)\<rparr>)"
    using assms it a(1) unfolding popDueLocked_def Let_def a'_def
    by (cases "item a = Some it") simp_all
  then have due: "dueName due = pqName it" "dueInst due = inst a'" "dueGen due = pqGen it"
    and e': "e' = put_arm (pqName it) a' (?e\<lparr>pq := remove1 it (pq ?e)\<rparr>)"
    by simp_all
  show "\<exists>a. arm_of e' (dueName due) = Some a \<and> \<not> firing a \<and> inst a = dueInst due \<and> gen a = dueGen due"
    using a a' by (simp add: due e')
  show "activeFires e' < maxTimerCallbacks" "running e' = running e"
    using a by (simp_all add: e' put_arm_def dropStaleLocked_def)
  have "idle_arms e' = idle_arms (?e\<lparr>pq := remove1 it (pq ?e)\<rparr>)"
    unfolding e' using a a' by (intro idle_put_same) simp_all
  then show "idle_arms e' = idle_arms e" by (simp add: idle_arms_def dropStaleLocked_def)
  have "length (pq e') < length (pq ?e)"
    using mem length_pos_if_in_set [OF mem] by (simp add: e' put_arm_def length_remove1)
  also have "\<dots> \<le> length (pq e)" by (simp add: dropStaleLocked_def drop_stale_length)
  finally show "length (pq e') < length (pq e)" .
qed

lemma consume_idle:
  assumes "arm_of e (dueName due) = Some a" "\<not> firing a" "inst a = dueInst due" "gen a = dueGen due"
    "activeFires e < maxTimerCallbacks"
  shows "if running e then idle_arms (consumeLocked cs clk due actual e) < idle_arms e
         else consumeLocked cs clk due actual e = e"
proof (cases "running e")
  case True
  obtain ev a' e1 where acc: "accept clk due actual e a = (ev, a', e1)"
    by (cases "accept clk due actual e a")
  let ?e2 = "spawn True ev (art a') (inst a') (e1\<lparr>activeFires := activeFires e1 + 1\<rparr>)"
  have "idle_arms (put_arm (dueName due) (a'\<lparr>firing := True\<rparr>) ?e2) < idle_arms ?e2"
    using assms accept_arm [OF acc] by (intro idle_put_less [where a = a]) (simp_all add: spawn_def)
  also have "idle_arms ?e2 = idle_arms e"
    using accept_arm(11) [OF acc] by (simp add: idle_arms_def spawn_def)
  finally show ?thesis using True assms acc
    by (simp add: consumeLocked_def Let_def reschedule_idle)
qed (simp add: consumeLocked_def)

lemma fire_measure:
  assumes pop: "popDueLocked clk e = (Some due, e1)"
  shows "((cs, clk, consumeLocked cs clk due actual e1), cs, clk, e)
          \<in> measures [\<lambda>(cs, clk, e). idle_arms e, \<lambda>(cs, clk, e). length (pq e)]"
proof -
  obtain a where "arm_of e1 (dueName due) = Some a" "\<not> firing a" "inst a = dueInst due" "gen a = dueGen due"
    using popDue_Some(1) [OF pop] by blast
  from consume_idle [OF this popDue_Some(2) [OF pop], of cs clk actual] popDue_Some [OF pop]
  show ?thesis by (auto split: if_splits)
qed

function fireDueLocked :: "cal_search \<Rightarrow> Clock \<Rightarrow> engine \<Rightarrow> engine" where
  "fireDueLocked cs clk e =
     (case popDueLocked clk e of
        (None, e1) \<Rightarrow> e1
      | (Some due, e1) \<Rightarrow> fireDueLocked cs clk (consumeLocked cs clk due (clk_now clk) e1))"
  by pat_completeness auto
termination
  apply (relation "measures [\<lambda>(cs, clk, e). idle_arms e, \<lambda>(cs, clk, e). length (pq e)]")
   apply simp
  apply (rule fire_measure)
  apply simp
  done

declare fireDueLocked.simps [simp del]

section \<open>The operations of the engine\<close>

definition fireDue :: "cal_search \<Rightarrow> Clock \<Rightarrow> engine \<Rightarrow> engine" where
  "fireDue cs clk e = fireDueLocked cs clk e"

definition StopEngine :: "engine \<Rightarrow> engine" where
  "StopEngine e = e\<lparr>running := False\<rparr>"

text \<open>The body of the loop of \<open>ClockChanged\<close> over the arms.\<close>

definition clock_arm :: "cal_search \<Rightarrow> Clock \<Rightarrow> name \<Rightarrow> engine \<Rightarrow> engine" where
  "clock_arm cs clk nm e =
     (case arm_of e nm of None \<Rightarrow> e
      | Some a \<Rightarrow>
          if \<not> wallSensitive (aspec a) then e
          else if item a \<noteq> None \<and> itemDueLocked clk a then put_arm nm (a\<lparr>schedGen := clockGen e\<rparr>) e
          else rescheduleLocked cs clk nm e)"

definition ClockChanged :: "cal_search \<Rightarrow> Clock \<Rightarrow> engine \<Rightarrow> engine" where
  "ClockChanged cs clk e0 =
     (if \<not> running e0 then e0
      else let e = fireDueLocked cs clk (e0\<lparr>clockGen := clockGen e0 + 1\<rparr>)
           in fold (clock_arm cs clk) (map fst (arms e)) e)"

definition Arm :: "cal_search \<Rightarrow> Clock \<Rightarrow> TSpec \<Rightarrow> engine \<Rightarrow> nat \<times> engine" where
  "Arm cs clk spec e0 =
     (let nm = TName spec
      in if nm = [] \<or> timerMaxCalendars < length (OnCalendar spec) then (0, e0)
         else if \<not> running e0 then (0, e0)
         else if arm_of e0 nm = None \<and> MaxArmedTimers \<le> length (arms e0) then (0, e0)
         else let e = e0\<lparr>nextArm := nextArm e0 + 1\<rparr>; tok = nextArm e
              in case arm_of e nm of
                   Some a0 \<Rightarrow>
                     let a = a0\<lparr>token := tok, firing := False, retry := None, aspec := spec\<rparr>;
                         reload = (storageError a \<noteq> [] \<or> ActResult (RtActivation (art a)) = ''pending'');
                         a = (if reload then a\<lparr>storageError := [], aloading := True\<rparr> else a);
                         e = (if reload then e\<lparr>eloading := True\<rparr> else e)
                     in (tok, rescheduleLocked cs clk nm (put_arm nm a e))
                 | None \<Rightarrow>
                     let a = \<lparr>inst = tok, item = None, planning = False, aloading = hasStore e,
                              storageError = [], firing = False, retry = None, token = tok,
                              aspec = spec, art = new_Runtime, nextAt = 0, wallNext = 0, aok = False,
                              gen = 0, schedGen = 0\<rparr>;
                         e = e\<lparr>eloading := eloading e \<or> hasStore e\<rparr>
                     in (tok, rescheduleLocked cs clk nm (put_arm nm a e)))"

definition Disarm :: "name \<Rightarrow> engine \<Rightarrow> engine" where
  "Disarm nm e0 =
     (if nm = [] then e0
      else case arm_of e0 nm of None \<Rightarrow> e0
        | Some a \<Rightarrow> let e = removeDeadlineLocked nm e0 in e\<lparr>arms := AList.delete nm (arms e)\<rparr>)"

definition Retain :: "(name \<Rightarrow> bool) \<Rightarrow> engine \<Rightarrow> engine" where
  "Retain keep e =
     fold (\<lambda>nm e. if keep nm then e
                  else let e = removeDeadlineLocked nm e in e\<lparr>arms := AList.delete nm (arms e)\<rparr>)
          (map fst (arms e)) e"

definition active_arm :: "cal_search \<Rightarrow> Clock \<Rightarrow> name \<Rightarrow> int \<Rightarrow> name \<Rightarrow> engine \<Rightarrow> engine" where
  "active_arm cs clk unit t nm e =
     (case arm_of e nm of None \<Rightarrow> e
      | Some a \<Rightarrow>
          if TUnit (aspec a) \<noteq> unit \<or> \<not> OnUnitActiveSecSet (aspec a) then e
          else rescheduleLocked cs clk nm
                 (put_arm nm (a\<lparr>art := (art a)\<lparr>LastUnitActive := t\<rparr>\<rparr>) e))"

definition UnitActive :: "cal_search \<Rightarrow> Clock \<Rightarrow> name \<Rightarrow> int \<Rightarrow> engine \<Rightarrow> engine" where
  "UnitActive cs clk unit t0 e =
     (if unit = [] then e
      else let t = (if t0 = 0 then clk_now clk else t0)
           in fold (active_arm cs clk unit t) (map fst (arms e)) e)"

definition Current :: "engine \<Rightarrow> name \<Rightarrow> nat \<Rightarrow> bool" where
  "Current e nm tok =
     (case arm_of e nm of None \<Rightarrow> False
      | Some a \<Rightarrow> running e \<and> \<not> aloading a \<and> storageError a = [] \<and> token a = tok)"

definition Armed :: "engine \<Rightarrow> name \<Rightarrow> bool" where
  "Armed e nm \<longleftrightarrow> nm \<noteq> [] \<and> arm_of e nm \<noteq> None"

definition Retry :: "cal_search \<Rightarrow> Clock \<Rightarrow> Fire \<Rightarrow> engine \<Rightarrow> engine" where
  "Retry cs clk ev e =
     (case arm_of e (FireName ev) of None \<Rightarrow> e
      | Some a \<Rightarrow>
          if \<not> running e \<or> token a \<noteq> FireToken ev then e
          else rescheduleLocked cs clk (FireName ev)
                 (put_arm (FireName ev) (a\<lparr>retry := Some (ev, sinceStart clk + admissionRetryDelay)\<rparr>) e))"

text \<open>\<open>RecordResult\<close> up to the point where it releases the lock and starts to save.\<close>

definition RecordResult :: "Clock \<Rightarrow> Fire \<Rightarrow> bool \<Rightarrow> engine \<Rightarrow> engine" where
  "RecordResult clk ev success e =
     (if FireName ev = [] then e
      else case arm_of e (FireName ev) of None \<Rightarrow> e
        | Some a \<Rightarrow>
            if \<not> running e \<or> aloading a \<or> storageError a \<noteq> [] \<or> token a \<noteq> FireToken ev then e
            else let act = RtActivation (art a);
                     rt1 = (if FireID ev \<noteq> []
                            then (art a)\<lparr>RtActivation := act\<lparr>ActResult := if success then ''success'' else ''failed''\<rparr>\<rparr>
                            else art a);
                     rt = (if success then rt1\<lparr>LastSuccess := clk_now clk\<rparr> else rt1)
                 in if FireID ev \<noteq> [] \<and> (ActID act \<noteq> FireID ev \<or> ActResult act \<noteq> ''pending'') then e
                    else if FireID ev = [] \<and> (ActResult act = ''pending'' \<or> \<not> success) then e
                    else spawn False ev rt (inst a) e)"

record Snapshot =
  ScheduleState :: string
  SnapActivation :: Activation
  StorageState :: string
  SnapError :: string
  SnapRevision :: string
  SnapUnit :: name
  SnapNext :: int
  SnapLast :: int

definition no_Snapshot :: Snapshot where
  "no_Snapshot = \<lparr>ScheduleState = [], SnapActivation = no_Activation, StorageState = [], SnapError = [],
     SnapRevision = [], SnapUnit = [], SnapNext = 0, SnapLast = 0\<rparr>"

definition Status :: "engine \<Rightarrow> name \<Rightarrow> Snapshot" where
  "Status e nm =
     (case arm_of e nm of None \<Rightarrow> no_Snapshot
      | Some a \<Rightarrow>
          let out = \<lparr>ScheduleState = ''ready'', SnapActivation = RtActivation (art a),
                     StorageState = ''ready'', SnapError = storageError a,
                     SnapRevision = ConfigRevision (aspec a), SnapUnit = TUnit (aspec a),
                     SnapNext = 0, SnapLast = LastActual (art a)\<rparr>
          in if aloading a \<or> storageError a \<noteq> []
             then (if storageError a \<noteq> []
                   then out\<lparr>StorageState := ''failed'', ScheduleState := ''failed''\<rparr>
                   else out\<lparr>StorageState := ''loading'', ScheduleState := ''waiting''\<rparr>)
             else if planning a \<or> (wallSensitive (aspec a) \<and> schedGen a \<noteq> clockGen e)
             then out\<lparr>ScheduleState := ''planning''\<rparr>
             else if aok a then out\<lparr>SnapNext := nextAt a\<rparr> else out)"

section \<open>The calendar planner\<close>

definition planning_names :: "engine \<Rightarrow> name list" where
  "planning_names e = map fst (filter (\<lambda>(nm, a). planning a) (arms e))"

definition least_name :: "name list \<Rightarrow> name option" where
  "least_name ns = fold (\<lambda>nm best. case best of None \<Rightarrow> Some nm
                                  | Some b \<Rightarrow> if nm < b then Some nm else best) ns None"

definition plan_pick :: "engine \<Rightarrow> engine" where
  "plan_pick e =
     (if \<not> scheduling e \<or> plan e \<noteq> None then e
      else let ns = (if running e then planning_names e else []);
               nxt = (case least_name (filter (\<lambda>nm. scheduleCursor e < nm) ns) of
                        None \<Rightarrow> least_name ns | Some nm \<Rightarrow> Some nm)
           in case nxt of
                None \<Rightarrow> e\<lparr>scheduling := False\<rparr>
              | Some nm \<Rightarrow>
                  (case arm_of e nm of None \<Rightarrow> e
                   | Some a \<Rightarrow> e\<lparr>scheduleCursor := nm,
                        plan := Some \<lparr>pcName = nm, pcInst = inst a, pcGen = gen a,
                                      pcClockGen = clockGen e, pcSpec = aspec a, pcRt = art a\<rparr>\<rparr>))"

definition plan_publish :: "cal_search \<Rightarrow> Clock \<Rightarrow> engine \<Rightarrow> engine" where
  "plan_publish cs clk e0 =
     (case plan e0 of None \<Rightarrow> e0
      | Some p \<Rightarrow>
          let (t, wall, ok) = nextDeadline cs (pcSpec p) (pcRt p) clk; e = e0\<lparr>plan := None\<rparr>
          in case arm_of e (pcName p) of None \<Rightarrow> e
             | Some a \<Rightarrow>
                 if running e \<and> inst a = pcInst p \<and> gen a = pcGen p \<and> clockGen e = pcClockGen p \<and> planning a
                 then let e = put_arm (pcName p) (a\<lparr>planning := False, nextAt := t, aok := ok,
                                schedGen := pcClockGen p, wallNext := wall\<rparr>) e
                      in if ok then installDeadlineLocked (pcName p) t (pcGen p) e else e
                 else e)"

section \<open>The storage worker\<close>

definition validateActivation :: "Activation \<Rightarrow> string option" where
  "validateActivation a =
     (if ActID a = [] \<or> 128 < length (ActID a) \<or> 255 < length (ActUnit a)
         \<or> list_ex (\<lambda>c. c \<in> set [CHR 0x5C, CHR ''/'', CHR '':'', CHR 0x00, CHR 0x0D, CHR 0x0A]) (ActUnit a)
         \<or> ActScheduled a = 0 \<or> ActActual a = 0
      then Some ''invalid timer activation intent''
      else if ActResult a \<noteq> ''pending'' \<and> ActResult a \<noteq> ''success'' \<and> ActResult a \<noteq> ''failed''
      then Some ''invalid timer activation result''
      else None)"

text \<open>
  What \<open>LoadChecked\<close> can answer: an error, or a runtime whose activation is absent or valid and whose
  other fields are the defaults that are not stored.
\<close>

definition loadable :: "Runtime \<Rightarrow> bool" where
  "loadable rt \<longleftrightarrow> (RtActivation rt = no_Activation \<or> validateActivation (RtActivation rt) = None)
     \<and> LastUnitActive rt = 0 \<and> \<not> FiredBoot rt \<and> \<not> FiredStartup rt"

definition load_pick :: "name \<Rightarrow> engine \<Rightarrow> engine" where
  "load_pick nm e =
     (if \<not> eloading e \<or> load e \<noteq> None then e
      else if \<not> (running e \<and> list_ex (\<lambda>(n, a). aloading a) (arms e)) then e\<lparr>eloading := False\<rparr>
      else case arm_of e nm of None \<Rightarrow> e
        | Some a \<Rightarrow> if aloading a then e\<lparr>load := Some (nm, inst a, False)\<rparr> else e)"

definition load_current :: "engine \<Rightarrow> name \<Rightarrow> nat \<Rightarrow> bool" where
  "load_current e nm i =
     (case arm_of e nm of None \<Rightarrow> False | Some a \<Rightarrow> running e \<and> inst a = i \<and> aloading a)"

definition load_lock :: "engine \<Rightarrow> engine" where
  "load_lock e =
     (case load e of
        Some (nm, i, False) \<Rightarrow>
          if storageIO e then e
          else if load_current e nm i then e\<lparr>load := Some (nm, i, True), storageIO := True\<rparr>
          else e\<lparr>load := None\<rparr>
      | _ \<Rightarrow> e)"

text \<open>What the loader writes to the arm for the answer of the store.\<close>

definition loaded_arm :: "Clock \<Rightarrow> name \<Rightarrow> string + Runtime \<Rightarrow> armed \<Rightarrow> armed" where
  "loaded_arm clk nm answer a =
     (case answer of
        Inl message \<Rightarrow> a\<lparr>aloading := False, storageError := message\<rparr>
      | Inr rt \<Rightarrow>
          let b = a\<lparr>aloading := False, art := rt\<lparr>LastUnitActive := LastUnitActive (art a)\<rparr>, storageError := []\<rparr>;
              act = RtActivation rt
          in if ActResult act = ''pending''
             then if \<not> TPersistent (aspec a) \<or> OnCalendar (aspec a) = [] \<or> TUnit (aspec a) \<noteq> ActUnit act
                  then b\<lparr>storageError := ''pending activation does not match the current persistent calendar target''\<rparr>
                  else b\<lparr>retry := Some (\<lparr>FireID = ActID act, FireName = nm, FireUnit = ActUnit act,
                                          FireToken = token a\<rparr>, sinceStart clk)\<rparr>
             else b)"

definition load_done :: "cal_search \<Rightarrow> Clock \<Rightarrow> string + Runtime \<Rightarrow> engine \<Rightarrow> engine" where
  "load_done cs clk answer e0 =
     (case load e0 of
        Some (nm, i, True) \<Rightarrow>
          let e = e0\<lparr>load := None, storageIO := False\<rparr>
          in if load_current e nm i
             then rescheduleLocked cs clk nm (put_arm nm (loaded_arm clk nm answer (the (arm_of e nm))) e)
             else e
      | _ \<Rightarrow> e0)"

definition find_job :: "nat \<Rightarrow> engine \<Rightarrow> job option" where
  "find_job k e = find (\<lambda>j. jid j = k) (jobs e)"

definition set_phase :: "nat \<Rightarrow> phase \<Rightarrow> engine \<Rightarrow> engine" where
  "set_phase k p e = e\<lparr>jobs := map (\<lambda>j. if jid j = k then j\<lparr>jphase := p\<rparr> else j) (jobs e)\<rparr>"

definition drop_job :: "nat \<Rightarrow> engine \<Rightarrow> engine" where
  "drop_job k e = e\<lparr>jobs := filter (\<lambda>j. jid j \<noteq> k) (jobs e)\<rparr>"

text \<open>\<open>persist\<close> returned false: a callback goes to its last section, a recorder returns.\<close>

definition persist_failed :: "job \<Rightarrow> engine \<Rightarrow> engine" where
  "persist_failed j e = (if jcallback j then set_phase (jid j) Finishing e else drop_job (jid j) e)"

text \<open>\<open>persist\<close> up to the call of \<open>Save\<close>.\<close>

definition persist_lock :: "nat \<Rightarrow> engine \<Rightarrow> engine" where
  "persist_lock k e =
     (case find_job k e of None \<Rightarrow> e
      | Some j \<Rightarrow>
          if jphase j \<noteq> WaitStorage \<or> storageIO e then e
          else let ev = jevent j
               in case arm_of e (FireName ev) of None \<Rightarrow> persist_failed j e
                  | Some a \<Rightarrow>
                      if running e \<and> token a = FireToken ev \<and> storageError a = []
                         \<and> (FireID ev = [] \<or> ActID (RtActivation (art a)) = FireID ev)
                      then set_phase k (Saving (inst a)) (e\<lparr>storageIO := True\<rparr>)
                      else persist_failed j e)"

text \<open>\<open>persist\<close> from the answer of \<open>Save\<close> on.\<close>

definition persist_done :: "cal_search \<Rightarrow> Clock \<Rightarrow> nat \<Rightarrow> string option \<Rightarrow> engine \<Rightarrow> engine" where
  "persist_done cs clk k answer e0 =
     (case find_job k e0 of None \<Rightarrow> e0
      | Some j \<Rightarrow>
          (case jphase j of
             Saving i \<Rightarrow>
               let ev = jevent j; nm = FireName ev;
                   e = e0\<lparr>storageIO := False,
                          hist := (if answer = None then Saved nm (jrt j) # hist e0 else hist e0)\<rparr>
               in (case arm_of e nm of None \<Rightarrow> persist_failed j e
                   | Some a \<Rightarrow>
                       if \<not> running e \<or> inst a \<noteq> i \<or> token a \<noteq> FireToken ev then persist_failed j e
                       else case answer of
                           Some message \<Rightarrow>
                             persist_failed j (rescheduleLocked cs clk nm
                               (put_arm nm (a\<lparr>storageError := message\<rparr>) e))
                         | None \<Rightarrow> set_phase k Persisted e)
           | _ \<Rightarrow> e0))"

text \<open>The callback delivers its event to the manager, if its arm is still current.\<close>

definition deliver_event :: "nat \<Rightarrow> engine \<Rightarrow> engine" where
  "deliver_event k e =
     (case find_job k e of None \<Rightarrow> e
      | Some j \<Rightarrow>
          if jcallback j \<and> jphase j = Persisted
          then set_phase k Finishing
                 (if hasFire e \<and> Current e (FireName (jevent j)) (FireToken (jevent j))
                  then e\<lparr>hist := Fired (jevent j) # hist e\<rparr> else e)
          else e)"

definition unrecorded :: string where
  "unrecorded = ''activation callback did not record an outcome; re-arm to recover pending intent''"

text \<open>The last section of the callback goroutine.\<close>

definition finish_callback :: "cal_search \<Rightarrow> Clock \<Rightarrow> nat \<Rightarrow> engine \<Rightarrow> engine" where
  "finish_callback cs clk k e0 =
     (case find_job k e0 of None \<Rightarrow> e0
      | Some j \<Rightarrow>
          if \<not> jcallback j \<or> jphase j \<noteq> Finishing then e0
          else let e = drop_job k (e0\<lparr>activeFires := activeFires e0 - 1\<rparr>); nm = FireName (jevent j)
               in case arm_of e nm of None \<Rightarrow> e
                  | Some a0 \<Rightarrow>
                      if inst a0 \<noteq> jinst j \<or> token a0 \<noteq> FireToken (jevent j) then e
                      else let a = a0\<lparr>firing := False,
                                 storageError := (if storageError a0 = [] \<and> retry a0 = None
                                    \<and> ActResult (RtActivation (art a0)) = ''pending''
                                  then unrecorded else storageError a0)\<rparr>;
                               e = put_arm nm a e
                           in if running e then rescheduleLocked cs clk nm e else e)"

text \<open>The end of \<open>RecordResult\<close>, after \<open>persist\<close> returned true.\<close>

definition commit :: "nat \<Rightarrow> engine \<Rightarrow> engine" where
  "commit k e0 =
     (case find_job k e0 of None \<Rightarrow> e0
      | Some j \<Rightarrow>
          if jcallback j \<or> jphase j \<noteq> Persisted then e0
          else let e = drop_job k e0; ev = jevent j; nm = FireName ev
               in case arm_of e nm of None \<Rightarrow> e
                  | Some a \<Rightarrow>
                      if running e \<and> inst a = jinst j \<and> token a = FireToken ev
                         \<and> (FireID ev = [] \<or> ActID (RtActivation (art a)) = FireID ev)
                      then put_arm nm (a\<lparr>art := (art a)\<lparr>LastSuccess := LastSuccess (jrt j),
                                            RtActivation := RtActivation (jrt j)\<rparr>, retry := None\<rparr>) e
                      else e)"

section \<open>Runs of the engine\<close>

datatype timer_act = AArm TSpec | ADisarm name | ARetain "name list" | AUnitActive name int
  | ARecord Fire bool | ARetry Fire | AClockChanged | AFireDue | AStop
  | APlanPick | APlanPublish | ALoadPick name | ALoadLock | ALoadDone "string + Runtime"
  | APersistLock nat | APersistDone nat "string option" | ADeliver nat | AFinish nat | ACommit nat

text \<open>
  The manager calls \<open>RecordResult\<close> and \<open>Retry\<close> with the event its handler was given; the store
  answers a load with what \<open>LoadChecked\<close> accepts.
\<close>

primrec timer_step :: "cal_search \<Rightarrow> Clock \<Rightarrow> timer_act \<Rightarrow> engine \<Rightarrow> engine" where
  "timer_step cs clk (AArm spec) e = snd (Arm cs clk spec e)"
| "timer_step cs clk (ADisarm nm) e = Disarm nm e"
| "timer_step cs clk (ARetain keep) e = Retain (\<lambda>nm. nm \<in> set keep) e"
| "timer_step cs clk (AUnitActive unit t) e = UnitActive cs clk unit t e"
| "timer_step cs clk (ARecord ev success) e =
     (if Fired ev \<in> set (hist e) then RecordResult clk ev success e else e)"
| "timer_step cs clk (ARetry ev) e = (if Fired ev \<in> set (hist e) then Retry cs clk ev e else e)"
| "timer_step cs clk AClockChanged e = ClockChanged cs clk e"
| "timer_step cs clk AFireDue e = fireDue cs clk e"
| "timer_step cs clk AStop e = StopEngine e"
| "timer_step cs clk APlanPick e = plan_pick e"
| "timer_step cs clk APlanPublish e = plan_publish cs clk e"
| "timer_step cs clk (ALoadPick nm) e = load_pick nm e"
| "timer_step cs clk ALoadLock e = load_lock e"
| "timer_step cs clk (ALoadDone answer) e =
     (case answer of Inl message \<Rightarrow> load_done cs clk answer e
      | Inr rt \<Rightarrow> if loadable rt then load_done cs clk answer e else e)"
| "timer_step cs clk (APersistLock k) e = persist_lock k e"
| "timer_step cs clk (APersistDone k answer) e = persist_done cs clk k answer e"
| "timer_step cs clk (ADeliver k) e = deliver_event k e"
| "timer_step cs clk (AFinish k) e = finish_callback cs clk k e"
| "timer_step cs clk (ACommit k) e = commit k e"

definition timer_run :: "cal_search \<Rightarrow> (Clock \<times> timer_act) list \<Rightarrow> engine \<Rightarrow> engine" where
  "timer_run cs acts e = fold (\<lambda>(clk, act). timer_step cs clk act) acts e"

end
