(* ===== verification/Timer_Invariants.thy ===== *)
theory Timer_Invariants
  imports Timer_Engine
begin

text \<open>
  What every run of the timer engine keeps.  The state splits into a schedule (generations,
  deadlines, the heap) and a core (tokens, callbacks, storage).  \<open>core\<close> forgets the schedule, so that
  the invariant of the core does not see \<open>rescheduleLocked\<close>, and the invariant of the schedule is
  restored by it whatever happened to one arm.
\<close>

section \<open>The two views of the engine\<close>

definition core_arm :: "armed \<Rightarrow> armed" where
  "core_arm a = a\<lparr>item := None, planning := False, nextAt := 0, wallNext := 0, aok := False, gen := 0,
     schedGen := 0\<rparr>"

definition core :: "engine \<Rightarrow> name \<Rightarrow> armed option" where
  "core e = map_option core_arm \<circ> arm_of e"

lemma core_arm_sel [simp]:
  "inst (core_arm a) = inst a" "aloading (core_arm a) = aloading a"
  "storageError (core_arm a) = storageError a" "firing (core_arm a) = firing a"
  "retry (core_arm a) = retry a" "token (core_arm a) = token a" "aspec (core_arm a) = aspec a"
  "art (core_arm a) = art a"
  by (simp_all add: core_arm_def)

lemma core_arm_idem [simp]: "core_arm (core_arm a) = core_arm a"
  by (simp add: core_arm_def)

lemma core_arm_sched [simp]:
  "core_arm (a\<lparr>item := x\<rparr>) = core_arm a" "core_arm (a\<lparr>planning := p\<rparr>) = core_arm a"
  "core_arm (a\<lparr>nextAt := t\<rparr>) = core_arm a" "core_arm (a\<lparr>wallNext := t\<rparr>) = core_arm a"
  "core_arm (a\<lparr>aok := p\<rparr>) = core_arm a" "core_arm (a\<lparr>gen := g\<rparr>) = core_arm a"
  "core_arm (a\<lparr>schedGen := g\<rparr>) = core_arm a"
  by (simp_all add: core_arm_def)

lemma core_schedule_arm [simp]: "core_arm (schedule_arm cs clk g cg a) = core_arm a"
  by (simp add: schedule_arm_def Let_def split: prod.split)

lemma core_Some: "core e nm = Some c \<longleftrightarrow> (\<exists>a. arm_of e nm = Some a \<and> c = core_arm a)"
  by (auto simp: core_def)

lemma core_cong: "arms e = arms e' \<Longrightarrow> core e = core e'"
  by (simp add: core_def)

lemma core_put [simp]: "core (put_arm nm a e) = (core e)(nm \<mapsto> core_arm a)"
  by (rule ext) (simp add: core_def)

lemma core_put_same: "arm_of e nm = Some a \<Longrightarrow> core_arm a' = core_arm a \<Longrightarrow> core (put_arm nm a' e) = core e"
  by (rule ext) (simp add: core_def)

lemma core_update_same:
  "arm_of e nm = Some a \<Longrightarrow> core_arm a' = core_arm a \<Longrightarrow>
     core (e\<lparr>arms := AList.update nm a' (arms e)\<rparr>) = core e"
  using core_put_same [of e nm a a'] by (simp add: put_arm_def)

lemma keys_update: "map_of xs k = Some v \<Longrightarrow> map fst (AList.update k w xs) = map fst xs"
  by (induction xs) auto

definition keys :: "engine \<Rightarrow> name list" where
  "keys e = map fst (arms e)"

lemma keys_put: "arm_of e nm = Some a \<Longrightarrow> keys (put_arm nm a' e) = keys e"
  by (simp add: keys_def put_arm_def keys_update)

lemma reschedule_sel [simp]:
  "running (rescheduleLocked cs clk nm e) = running e"
  "hasFire (rescheduleLocked cs clk nm e) = hasFire e"
  "hasStore (rescheduleLocked cs clk nm e) = hasStore e"
  "storageIO (rescheduleLocked cs clk nm e) = storageIO e"
  "scheduleCursor (rescheduleLocked cs clk nm e) = scheduleCursor e"
  "eloading (rescheduleLocked cs clk nm e) = eloading e"
  "namespace (rescheduleLocked cs clk nm e) = namespace e"
  "nextActivation (rescheduleLocked cs clk nm e) = nextActivation e"
  "clockGen (rescheduleLocked cs clk nm e) = clockGen e"
  "activeFires (rescheduleLocked cs clk nm e) = activeFires e"
  "nextArm (rescheduleLocked cs clk nm e) = nextArm e"
  "jobs (rescheduleLocked cs clk nm e) = jobs e"
  "nextJob (rescheduleLocked cs clk nm e) = nextJob e"
  "plan (rescheduleLocked cs clk nm e) = plan e"
  "load (rescheduleLocked cs clk nm e) = load e"
  "hist (rescheduleLocked cs clk nm e) = hist e"
  by (cases "arm_of e nm"; simp add: reschedule_effect reschedule_None)+

lemma removeDeadline_sel [simp]:
  "running (removeDeadlineLocked nm e) = running e"
  "hasFire (removeDeadlineLocked nm e) = hasFire e"
  "hasStore (removeDeadlineLocked nm e) = hasStore e"
  "storageIO (removeDeadlineLocked nm e) = storageIO e"
  "scheduleCursor (removeDeadlineLocked nm e) = scheduleCursor e"
  "eloading (removeDeadlineLocked nm e) = eloading e"
  "namespace (removeDeadlineLocked nm e) = namespace e"
  "nextActivation (removeDeadlineLocked nm e) = nextActivation e"
  "clockGen (removeDeadlineLocked nm e) = clockGen e"
  "activeFires (removeDeadlineLocked nm e) = activeFires e"
  "nextArm (removeDeadlineLocked nm e) = nextArm e"
  "jobs (removeDeadlineLocked nm e) = jobs e"
  "nextJob (removeDeadlineLocked nm e) = nextJob e"
  "plan (removeDeadlineLocked nm e) = plan e"
  "load (removeDeadlineLocked nm e) = load e"
  "hist (removeDeadlineLocked nm e) = hist e"
  by (simp_all add: removeDeadlineLocked_def split: option.split)

lemma installDeadline_sel [simp]:
  "running (installDeadlineLocked nm t g e) = running e"
  "hasFire (installDeadlineLocked nm t g e) = hasFire e"
  "hasStore (installDeadlineLocked nm t g e) = hasStore e"
  "storageIO (installDeadlineLocked nm t g e) = storageIO e"
  "scheduleCursor (installDeadlineLocked nm t g e) = scheduleCursor e"
  "eloading (installDeadlineLocked nm t g e) = eloading e"
  "namespace (installDeadlineLocked nm t g e) = namespace e"
  "nextActivation (installDeadlineLocked nm t g e) = nextActivation e"
  "clockGen (installDeadlineLocked nm t g e) = clockGen e"
  "activeFires (installDeadlineLocked nm t g e) = activeFires e"
  "nextArm (installDeadlineLocked nm t g e) = nextArm e"
  "jobs (installDeadlineLocked nm t g e) = jobs e"
  "nextJob (installDeadlineLocked nm t g e) = nextJob e"
  "plan (installDeadlineLocked nm t g e) = plan e"
  "load (installDeadlineLocked nm t g e) = load e"
  "hist (installDeadlineLocked nm t g e) = hist e"
  by (simp_all add: installDeadlineLocked_def Let_def split: option.split)

lemma dropStale_sel [simp]:
  "running (dropStaleLocked e) = running e"
  "hasFire (dropStaleLocked e) = hasFire e"
  "hasStore (dropStaleLocked e) = hasStore e"
  "storageIO (dropStaleLocked e) = storageIO e"
  "scheduleCursor (dropStaleLocked e) = scheduleCursor e"
  "eloading (dropStaleLocked e) = eloading e"
  "namespace (dropStaleLocked e) = namespace e"
  "nextActivation (dropStaleLocked e) = nextActivation e"
  "clockGen (dropStaleLocked e) = clockGen e"
  "activeFires (dropStaleLocked e) = activeFires e"
  "nextArm (dropStaleLocked e) = nextArm e"
  "jobs (dropStaleLocked e) = jobs e"
  "nextJob (dropStaleLocked e) = nextJob e"
  "plan (dropStaleLocked e) = plan e"
  "load (dropStaleLocked e) = load e"
  "hist (dropStaleLocked e) = hist e"
  by (simp_all add: dropStaleLocked_def)

lemma dropStale_arms [simp]: "arms (dropStaleLocked e) = arms e"
  by (simp add: dropStaleLocked_def)

lemma core_reschedule [simp]: "core (rescheduleLocked cs clk nm e) = core e"
proof (cases "arm_of e nm")
  case None
  then show ?thesis by (simp add: reschedule_None core_def)
next
  case (Some a)
  then have "arms (rescheduleLocked cs clk nm e) =
      AList.update nm ((schedule_arm cs clk (nextGen e + 1) (clockGen e) (a\<lparr>item := None\<rparr>))
        \<lparr>item := if aok (schedule_arm cs clk (nextGen e + 1) (clockGen e) (a\<lparr>item := None\<rparr>))
                 then Some \<lparr>pqName = TName (aspec a),
                   pqWhen = nextAt (schedule_arm cs clk (nextGen e + 1) (clockGen e) (a\<lparr>item := None\<rparr>)),
                   pqGen = nextGen e + 1\<rparr> else None\<rparr>) (arms e)"
    by (simp add: reschedule_effect)
  with Some show ?thesis
    by (intro ext) (simp add: core_def update_conv')
qed

lemma keys_reschedule [simp]: "keys (rescheduleLocked cs clk nm e) = keys e"
  by (cases "arm_of e nm") (simp_all add: reschedule_effect reschedule_None keys_def keys_update)

lemma core_removeDeadline [simp]: "core (removeDeadlineLocked nm e) = core e"
  by (auto simp: removeDeadlineLocked_def core_def fun_eq_iff put_arm_def update_conv' split: option.split)

lemma keys_removeDeadline [simp]: "keys (removeDeadlineLocked nm e) = keys e"
  by (auto simp: removeDeadlineLocked_def keys_def put_arm_def keys_update split: option.split)

lemma core_installDeadline [simp]: "core (installDeadlineLocked nm t g e) = core e"
  by (cases "arm_of e nm")
     (auto simp: installDeadline_effect core_def fun_eq_iff update_conv' installDeadline_None)

lemma keys_installDeadline [simp]: "keys (installDeadlineLocked nm t g e) = keys e"
  by (cases "arm_of e nm")
     (simp_all add: installDeadline_effect keys_def keys_update installDeadline_None)

lemma core_dropStale [simp]: "core (dropStaleLocked e) = core e"
  by (simp add: core_def)

lemma keys_dropStale [simp]: "keys (dropStaleLocked e) = keys e"
  by (simp add: keys_def)

section \<open>The schedule\<close>

text \<open>
  The heap holds exactly the deadlines of the armed timers, once each and under the current
  generation.  While the engine runs, a timer has a deadline if and only if it has accepted one
  (\<open>aok\<close>), it is the deadline that \<open>Status\<close> reports, and it has none while its state is being loaded, has
  failed, or waits for the planner; a timer that waits for the planner has a planner at work.
\<close>

definition heap_ok :: "engine \<Rightarrow> bool" where
  "heap_ok e \<longleftrightarrow>
     distinct (keys e) \<and> distinct (pq e)
     \<and> (\<forall>nm a. arm_of e nm = Some a \<longrightarrow> TName (aspec a) = nm
          \<and> (\<forall>it. item a = Some it \<longrightarrow> it \<in> set (pq e) \<and> pqName it = nm \<and> pqGen it = gen a))
     \<and> (\<forall>it \<in> set (pq e). \<exists>a. arm_of e (pqName it) = Some a \<and> item a = Some it)"

definition arm_sched :: "bool \<Rightarrow> armed \<Rightarrow> bool" where
  "arm_sched planner a \<longleftrightarrow>
     (aok a \<longleftrightarrow> item a \<noteq> None)
     \<and> (\<forall>it. item a = Some it \<longrightarrow> pqWhen it = nextAt a \<and> \<not> aloading a \<and> storageError a = [] \<and> \<not> planning a)
     \<and> (planning a \<longrightarrow> planner \<and> \<not> aloading a \<and> storageError a = [])"

definition sched_except :: "name set \<Rightarrow> engine \<Rightarrow> bool" where
  "sched_except B e \<longleftrightarrow>
     heap_ok e
     \<and> (running e \<longrightarrow> (\<forall>nm a. nm \<notin> B \<longrightarrow> arm_of e nm = Some a \<longrightarrow> arm_sched (scheduling e) a))"

abbreviation sched_ok :: "engine \<Rightarrow> bool" where
  "sched_ok e \<equiv> sched_except {} e"

lemma heap_okD:
  assumes "heap_ok e"
  shows "distinct (keys e)" "distinct (pq e)"
    "arm_of e nm = Some a \<Longrightarrow> TName (aspec a) = nm"
    "arm_of e nm = Some a \<Longrightarrow> item a = Some it \<Longrightarrow> it \<in> set (pq e) \<and> pqName it = nm \<and> pqGen it = gen a"
    "it \<in> set (pq e) \<Longrightarrow> \<exists>a. arm_of e (pqName it) = Some a \<and> item a = Some it"
  using assms unfolding heap_ok_def by blast+

lemma heap_others:
  assumes h: "heap_ok e" and a: "arm_of e nm = Some a"
  defines "q \<equiv> (case item a of None \<Rightarrow> pq e | Some i \<Rightarrow> remove1 i (pq e))"
  shows "distinct q" "set q = {it \<in> set (pq e). pqName it \<noteq> nm}"
proof -
  show "distinct q" using heap_okD(2) [OF h] by (simp add: q_def split: option.split)
  have mine: "it \<in> set (pq e) \<Longrightarrow> pqName it = nm \<Longrightarrow> item a = Some it" for it
    using heap_okD(5) [OF h] a by fastforce
  show "set q = {it \<in> set (pq e). pqName it \<noteq> nm}"
  proof (cases "item a")
    case None
    then show ?thesis using mine by (auto simp: q_def)
  next
    case (Some i)
    then have "pqName i = nm" using heap_okD(4) [OF h a] by simp
    with Some show ?thesis using mine heap_okD(2) [OF h] by (auto simp: q_def)
  qed
qed

lemma heap_replace:
  assumes h: "heap_ok e" and a: "arm_of e nm = Some a"
    and arms: "arms e' = AList.update nm a' (arms e)"
    and q: "pq e' = (case item a of None \<Rightarrow> pq e | Some i \<Rightarrow> remove1 i (pq e))
                    @ (case item a' of None \<Rightarrow> [] | Some it \<Rightarrow> [it])"
    and a': "TName (aspec a') = nm" "\<And>it. item a' = Some it \<Longrightarrow> pqName it = nm \<and> pqGen it = gen a'"
  shows "heap_ok e'"
proof -
  note others = heap_others [OF h a]
  have arm: "arm_of e' = (arm_of e)(nm \<mapsto> a')" by (rule ext) (simp add: arms update_conv')
  have set_q: "set (pq e') = {it \<in> set (pq e). pqName it \<noteq> nm} \<union> set_option (item a')"
    unfolding q using others(2) by (cases "item a'") auto
  have "keys e' = keys e" using a by (simp add: keys_def arms keys_update)
  then have "distinct (keys e')" using heap_okD(1) [OF h] by simp
  moreover have "distinct (pq e')" using others a'(2) unfolding q by (auto split: option.split)
  moreover have "TName (aspec b) = n \<and> (\<forall>it. item b = Some it \<longrightarrow>
      it \<in> set (pq e') \<and> pqName it = n \<and> pqGen it = gen b)" if "arm_of e' n = Some b" for n b
  proof (cases "n = nm")
    case True
    then show ?thesis using that a' by (auto simp: arm set_q)
  next
    case False
    then have "arm_of e n = Some b" using that by (simp add: arm)
    then show ?thesis using False heap_okD(3,4) [OF h] by (auto simp: set_q)
  qed
  moreover have "\<exists>b. arm_of e' (pqName it) = Some b \<and> item b = Some it" if "it \<in> set (pq e')" for it
    using that heap_okD(5) [OF h] a'(2) by (auto simp: set_q arm)
  ultimately show ?thesis unfolding heap_ok_def by blast
qed

lemma heap_keep:
  assumes h: "heap_ok e" and a: "arm_of e nm = Some a"
    and arms: "arms e' = AList.update nm a' (arms e)" and q: "pq e' = pq e"
    and a': "TName (aspec a') = nm" "item a' = item a" "gen a' = gen a"
  shows "heap_ok e'"
proof -
  have arm: "arm_of e' = (arm_of e)(nm \<mapsto> a')" by (rule ext) (simp add: arms update_conv')
  have "keys e' = keys e" using a by (simp add: keys_def arms keys_update)
  moreover have "\<exists>b. ((arm_of e)(nm \<mapsto> a')) (pqName it) = Some b \<and> item b = Some it"
    if "it \<in> set (pq e)" for it
    using heap_okD(5) [OF h that] a a' by auto
  ultimately show ?thesis
    unfolding heap_ok_def arm q
    using heap_okD(1-4) [OF h] a a' by (auto split: if_splits)
qed

lemma heap_ok_cong: "arms e' = arms e \<Longrightarrow> pq e' = pq e \<Longrightarrow> heap_ok e' = heap_ok e"
  by (simp add: heap_ok_def keys_def)

lemma arm_sched_schedule:
  fixes a cs clk g cg
  defines "a1 \<equiv> schedule_arm cs clk g cg (a\<lparr>item := None\<rparr>)"
  shows "arm_sched (s \<or> planning a1)
    (a1\<lparr>item := if aok a1 then Some \<lparr>pqName = n, pqWhen = nextAt a1, pqGen = g\<rparr> else None\<rparr>)"
  unfolding a1_def
  by (auto simp: arm_sched_def schedule_arm_def Let_def split: prod.split)

lemma sched_exceptD: "sched_except B e \<Longrightarrow> heap_ok e"
  by (simp add: sched_except_def)

text \<open>Changes of the engine that the schedule does not see.\<close>

lemma sched_cong:
  assumes "sched_except B e" "arms e' = arms e" "pq e' = pq e" "scheduling e' = scheduling e"
    "running e' \<longrightarrow> running e"
  shows "sched_except B e'"
  using assms heap_ok_cong [OF assms(2,3)] by (simp add: sched_except_def)

text \<open>Rescheduling repairs the schedule of one timer.\<close>

lemma reschedule_sched:
  assumes "sched_except (insert nm B) e"
  shows "sched_except B (rescheduleLocked cs clk nm e)"
proof (cases "arm_of e nm")
  case None
  have "arm_of e n = Some b \<Longrightarrow> n \<noteq> nm" for n b using None by auto
  then have "sched_except B e" using assms unfolding sched_except_def by blast
  then show ?thesis by (rule sched_cong) (simp_all add: reschedule_None None)
next
  case (Some a)
  have h: "heap_ok e" by (rule sched_exceptD [OF assms])
  let ?e' = "rescheduleLocked cs clk nm e"
  let ?a1 = "schedule_arm cs clk (nextGen e + 1) (clockGen e) (a\<lparr>item := None\<rparr>)"
  let ?a2 = "?a1\<lparr>item := if aok ?a1 then Some \<lparr>pqName = TName (aspec a), pqWhen = nextAt ?a1,
      pqGen = nextGen e + 1\<rparr> else None\<rparr>"
  note eff = reschedule_effect [OF Some, of cs clk]
  have arms: "arms ?e' = AList.update nm ?a2 (arms e)" by (simp add: eff)
  have "heap_ok ?e'"
    by (rule heap_replace [OF h Some arms])
       (use heap_okD(3) [OF h Some] in \<open>auto simp: eff split: if_splits\<close>)
  moreover have "arm_of ?e' = (arm_of e)(nm \<mapsto> ?a2)" by (rule ext) (simp add: arms update_conv')
  moreover have "scheduling ?e' = (scheduling e \<or> planning ?a1 \<and> running e)" by (simp add: eff)
  moreover have "arm_sched (scheduling e \<or> planning ?a1) ?a2" by (rule arm_sched_schedule)
  moreover have "arm_sched s b \<Longrightarrow> arm_sched (s \<or> t) b" for s t b by (auto simp: arm_sched_def)
  ultimately show ?thesis using assms by (auto simp: sched_except_def)
qed

lemma sched_put:
  assumes "sched_except B e" "arm_of e nm = Some a" "TName (aspec a') = TName (aspec a)"
    "item a' = item a" "gen a' = gen a"
  shows "sched_except (insert nm B) (put_arm nm a' e)"
proof -
  have h: "heap_ok e" by (rule sched_exceptD [OF assms(1)])
  have "TName (aspec a') = nm" using assms(3) heap_okD(3) [OF h assms(2)] by simp
  then have "heap_ok (put_arm nm a' e)"
    by (intro heap_keep [OF h assms(2), where a' = a'] assms(4,5)) (simp_all add: put_arm_def)
  moreover have "n \<notin> insert nm B \<Longrightarrow> arm_of (put_arm nm a' e) n = Some b \<Longrightarrow> n \<notin> B \<and> arm_of e n = Some b"
    for n b by (auto split: if_splits)
  ultimately show ?thesis using assms(1) unfolding sched_except_def put_arm_sel by blast
qed

lemma sched_put_resched:
  assumes "sched_except B e" "arm_of e nm = Some a" "TName (aspec a') = TName (aspec a)"
    "item a' = item a" "gen a' = gen a"
  shows "sched_except B (rescheduleLocked cs clk nm (put_arm nm a' e))"
  using assms by (intro reschedule_sched sched_put)


section \<open>The core\<close>

text \<open>
  Arms carry distinct tokens, a retry belongs to the token of its arm, and a timer that is being
  loaded has no callback and has a loader at work.
\<close>

definition arm_core :: "nat \<Rightarrow> bool \<Rightarrow> name \<Rightarrow> armed \<Rightarrow> bool" where
  "arm_core tok loader nm a \<longleftrightarrow>
     nm \<noteq> [] \<and> length (OnCalendar (aspec a)) \<le> timerMaxCalendars \<and> token a \<le> tok
     \<and> (aloading a \<longrightarrow> \<not> firing a \<and> loader)
     \<and> (\<forall>ev t. retry a = Some (ev, t) \<longrightarrow> FireToken ev = token a \<and> FireName ev = nm)"

definition tokens_inj :: "(name \<Rightarrow> armed option) \<Rightarrow> bool" where
  "tokens_inj m \<longleftrightarrow>
     (\<forall>nm nm' a a'. m nm = Some a \<longrightarrow> m nm' = Some a' \<longrightarrow> token a = token a' \<longrightarrow> nm = nm')"

definition arms_inv :: "(name \<Rightarrow> armed option) \<Rightarrow> nat \<Rightarrow> bool \<Rightarrow> bool" where
  "arms_inv m tok loader \<longleftrightarrow> (\<forall>nm a. m nm = Some a \<longrightarrow> arm_core tok loader nm a) \<and> tokens_inj m"

text \<open>
  A timer is firing exactly when a callback of its current token is in flight, and there is one
  callback for a token.
\<close>

abbreviation job_token :: "job \<Rightarrow> nat" where
  "job_token j \<equiv> FireToken (jevent j)"

definition callbacks :: "job list \<Rightarrow> job list" where
  "callbacks js = filter jcallback js"

definition callback_ok :: "(name \<Rightarrow> armed option) \<Rightarrow> nat \<Rightarrow> job \<Rightarrow> bool" where
  "callback_ok m tok j \<longleftrightarrow>
     job_token j \<le> tok
     \<and> (\<forall>nm a. m nm = Some a \<longrightarrow> token a = job_token j \<longrightarrow>
          firing a \<and> FireName (jevent j) = nm \<and> jinst j = inst a)"

definition jobs_inv :: "(name \<Rightarrow> armed option) \<Rightarrow> job list \<Rightarrow> nat \<Rightarrow> bool" where
  "jobs_inv m cbs tok \<longleftrightarrow>
     distinct (map job_token cbs)
     \<and> (\<forall>j \<in> set cbs. callback_ok m tok j)
     \<and> (\<forall>nm a. m nm = Some a \<longrightarrow> firing a \<longrightarrow> token a \<in> job_token ` set cbs)"

definition is_saving :: "job \<Rightarrow> bool" where
  "is_saving j = (case jphase j of Saving i \<Rightarrow> True | _ \<Rightarrow> False)"

definition load_busy :: "engine \<Rightarrow> bool" where
  "load_busy e = (case load e of Some (nm, i, b) \<Rightarrow> b | None \<Rightarrow> False)"

definition storage_inv :: "engine \<Rightarrow> bool" where
  "storage_inv e \<longleftrightarrow>
     length (filter is_saving (jobs e)) + of_bool (load_busy e) = (of_bool (storageIO e) :: nat)"

definition count_inv :: "engine \<Rightarrow> bool" where
  "count_inv e \<longleftrightarrow>
     length (keys e) \<le> MaxArmedTimers
     \<and> activeFires e = length (callbacks (jobs e)) \<and> activeFires e \<le> maxTimerCallbacks
     \<and> distinct (map jid (jobs e)) \<and> (\<forall>j \<in> set (jobs e). jid j < nextJob e)"

definition core_inv :: "engine \<Rightarrow> bool" where
  "core_inv e \<longleftrightarrow>
     arms_inv (core e) (nextArm e) (running e \<longrightarrow> eloading e)
     \<and> jobs_inv (core e) (callbacks (jobs e)) (nextArm e) \<and> count_inv e"

subsection \<open>Changes of one arm\<close>

lemma arms_invD: "arms_inv m tok ld \<Longrightarrow> m nm = Some a \<Longrightarrow> arm_core tok ld nm a"
  by (simp add: arms_inv_def)

lemma tokens_inj_upd:
  assumes "tokens_inj m" "\<And>n b. n \<noteq> nm \<Longrightarrow> m n = Some b \<Longrightarrow> token b \<noteq> token a"
  shows "tokens_inj (m(nm \<mapsto> a))"
  using assms unfolding tokens_inj_def by (metis fun_upd_apply option.inject)

lemma tokens_other:
  "tokens_inj m \<Longrightarrow> m nm = Some a \<Longrightarrow> n \<noteq> nm \<Longrightarrow> m n = Some b \<Longrightarrow> token b \<noteq> token a"
  unfolding tokens_inj_def by blast

lemma arms_inv_upd:
  assumes "arms_inv m tok ld" "m nm = Some a" "token a' = token a" "arm_core tok ld nm a'"
  shows "arms_inv (m(nm \<mapsto> a')) tok ld"
  using assms tokens_inj_upd [of m nm a'] tokens_other [of m nm a]
  by (simp add: arms_inv_def)

lemma jobs_inv_upd:
  assumes "jobs_inv m cbs tok" "m nm = Some a" "token a' = token a" "inst a' = inst a" "firing a' = firing a"
  shows "jobs_inv (m(nm \<mapsto> a')) cbs tok"
  using assms by (auto simp: jobs_inv_def callback_ok_def split: if_splits)

lemma arms_inv_fresh:
  assumes "arms_inv m tok ld" "ld \<longrightarrow> ld'" "token a = tok + 1" "arm_core (tok + 1) ld' nm a"
  shows "arms_inv (m(nm \<mapsto> a)) (tok + 1) ld'"
proof -
  have "arm_core (tok + 1) ld' n b \<and> token b \<noteq> tok + 1" if "m n = Some b" for n b
    using arms_invD [OF assms(1) that] assms(2) by (auto simp: arm_core_def)
  then show ?thesis using assms tokens_inj_upd [of m nm a] by (simp add: arms_inv_def)
qed

lemma jobs_inv_fresh:
  assumes "jobs_inv m cbs tok" "token a = tok + 1" "\<not> firing a"
  shows "jobs_inv (m(nm \<mapsto> a)) cbs (tok + 1)"
proof -
  have "callback_ok (m(nm \<mapsto> a)) (tok + 1) j" if "callback_ok m tok j" for j
    using that assms(2) unfolding callback_ok_def by (simp add: le_SucI)
  then show ?thesis using assms by (simp add: jobs_inv_def)
qed

lemma arms_inv_delete: "arms_inv m tok ld \<Longrightarrow> arms_inv (m(nm := None)) tok ld"
  by (simp add: arms_inv_def tokens_inj_def)

lemma jobs_inv_delete: "jobs_inv m cbs tok \<Longrightarrow> jobs_inv (m(nm := None)) cbs tok"
  by (simp add: jobs_inv_def callback_ok_def)

lemma jobs_inv_start:
  assumes "jobs_inv m cbs tok" "tokens_inj m" "m nm = Some a" "\<not> firing a" "token a \<le> tok"
    and a': "token a' = token a" "inst a' = inst a" "firing a'"
    and j: "job_token j = token a" "FireName (jevent j) = nm" "jinst j = inst a"
  shows "jobs_inv (m(nm \<mapsto> a')) (cbs @ [j]) tok"
proof -
  have fresh: "token a \<notin> job_token ` set cbs"
    using assms(1,3,4) by (auto simp: jobs_inv_def callback_ok_def)
  have "callback_ok (m(nm \<mapsto> a')) tok x" if "x \<in> set cbs" for x
    using that assms(1) fresh a' by (auto simp: jobs_inv_def callback_ok_def)
  moreover have "callback_ok (m(nm \<mapsto> a')) tok j"
    using tokens_other [OF assms(2,3)] assms(5) a' j by (auto simp: callback_ok_def)
  ultimately show ?thesis using assms(1) fresh a' j by (auto simp: jobs_inv_def)
qed

lemma jobs_inv_finish:
  assumes inv: "jobs_inv m (xs @ j # ys) tok" and "tokens_inj m"
    and m': "m' = (case m (FireName (jevent j)) of
                 Some a \<Rightarrow> if token a = job_token j then m(FireName (jevent j) \<mapsto> a') else m | None \<Rightarrow> m)"
    and a': "\<And>a. m (FireName (jevent j)) = Some a \<Longrightarrow> token a = job_token j \<Longrightarrow>
               token a' = token a \<and> inst a' = inst a \<and> \<not> firing a'"
  shows "jobs_inv m' (xs @ ys) tok"
proof -
  let ?n = "FireName (jevent j)"
  have dist: "distinct (map job_token (xs @ ys))" and others: "job_token j \<notin> job_token ` set (xs @ ys)"
    and ok: "\<And>x. x = j \<or> x \<in> set (xs @ ys) \<Longrightarrow> callback_ok m tok x"
    and fire: "\<And>n b. m n = Some b \<Longrightarrow> firing b \<Longrightarrow> token b = job_token j \<or> token b \<in> job_token ` set (xs @ ys)"
    using inv by (auto simp: jobs_inv_def)
  show ?thesis
  proof (cases "\<exists>a. m ?n = Some a \<and> token a = job_token j")
    case True
    then obtain a where a: "m ?n = Some a" "token a = job_token j" by blast
    then have m'_eq: "m' = m(?n \<mapsto> a')" by (simp add: m')
    note a'' = a' [OF a]
    have away: "token b \<noteq> job_token j" if "m n = Some b" "n \<noteq> ?n" for n b
      using tokens_other [OF assms(2) a(1) that(2,1)] a(2) by simp
    have "callback_ok m' tok x" if x: "x \<in> set (xs @ ys)" for x
    proof -
      have "job_token x \<noteq> job_token j" using x others by (metis imageI)
      then show ?thesis using ok [of x] x a'' a(2) unfolding callback_ok_def m'_eq by simp
    qed
    moreover have "token b \<in> job_token ` set (xs @ ys)" if "m' n = Some b" "firing b" for n b
    proof (cases "n = ?n")
      case True
      then show ?thesis using that a'' by (simp add: m'_eq)
    next
      case False
      then have "m n = Some b" using that(1) by (simp add: m'_eq)
      then show ?thesis using fire [OF _ that(2)] away False by blast
    qed
    ultimately show ?thesis using dist unfolding jobs_inv_def by blast
  next
    case False
    then have "m' = m" by (auto simp: m' split: option.splits)
    moreover have "m n = Some b \<Longrightarrow> token b \<noteq> job_token j" for n b
      using False ok [of j] unfolding callback_ok_def by blast
    ultimately show ?thesis using dist ok fire unfolding jobs_inv_def by blast
  qed
qed

subsection \<open>The invariant of the engine\<close>

definition engine_inv :: "engine \<Rightarrow> bool" where
  "engine_inv e \<longleftrightarrow> core_inv e \<and> sched_ok e \<and> storage_inv e"

lemma engine_invD:
  "engine_inv e \<Longrightarrow> core_inv e" "engine_inv e \<Longrightarrow> sched_ok e" "engine_inv e \<Longrightarrow> storage_inv e"
  "engine_inv e \<Longrightarrow> heap_ok e"
  by (simp_all add: engine_inv_def sched_except_def)

lemma arm_core_core [simp]: "arm_core tok ld nm (core_arm a) = arm_core tok ld nm a"
  by (simp add: arm_core_def)

lemma core_inv_arm:
  "core_inv e \<Longrightarrow> arm_of e nm = Some a \<Longrightarrow> arm_core (nextArm e) (running e \<longrightarrow> eloading e) nm a"
  using arms_invD [of "core e" "nextArm e" "running e \<longrightarrow> eloading e" nm "core_arm a"]
  by (simp add: core_inv_def core_def)

lemma core_inv_reschedule [simp]: "core_inv (rescheduleLocked cs clk nm e) = core_inv e"
  by (simp add: core_inv_def count_inv_def)

lemma storage_inv_reschedule [simp]: "storage_inv (rescheduleLocked cs clk nm e) = storage_inv e"
  by (simp add: storage_inv_def load_busy_def)

lemma storage_inv_put [simp]: "storage_inv (put_arm nm a e) = storage_inv e"
  by (simp add: storage_inv_def load_busy_def)

lemma core_inv_put:
  assumes "core_inv e" "arm_of e nm = Some a" "token a' = token a" "inst a' = inst a" "firing a' = firing a"
    "arm_core (nextArm e) (running e \<longrightarrow> eloading e) nm a'"
  shows "core_inv (put_arm nm a' e)"
proof -
  have m: "core e nm = Some (core_arm a)" using assms(2) by (simp add: core_def)
  from assms(1) have "arms_inv ((core e)(nm \<mapsto> core_arm a')) (nextArm e) (running e \<longrightarrow> eloading e)"
    using assms m by (intro arms_inv_upd [where a = "core_arm a"]) (simp_all add: core_inv_def)
  moreover from assms(1) have "jobs_inv ((core e)(nm \<mapsto> core_arm a')) (callbacks (jobs e)) (nextArm e)"
    using assms m by (intro jobs_inv_upd [where a = "core_arm a"]) (simp_all add: core_inv_def)
  ultimately show ?thesis
    using assms(1) keys_put [OF assms(2), of a'] by (simp add: core_inv_def count_inv_def)
qed

lemma arms_inv_mono: "arms_inv m tok ld \<Longrightarrow> (ld \<longrightarrow> ld') \<Longrightarrow> arms_inv m tok ld'"
  by (auto simp: arms_inv_def arm_core_def)

lemma core_inv_cong:
  assumes "core_inv e" "arms e' = arms e" "nextArm e' = nextArm e" "callbacks (jobs e') = callbacks (jobs e)"
    "activeFires e' = activeFires e" "distinct (map jid (jobs e'))" "\<forall>j \<in> set (jobs e'). jid j < nextJob e'"
    "(running e \<longrightarrow> eloading e) \<longrightarrow> running e' \<longrightarrow> eloading e'"
  shows "core_inv e'"
proof -
  have "core e' = core e" "keys e' = keys e" using assms(2) by (simp_all add: core_def keys_def)
  then show ?thesis using assms by (auto simp: core_inv_def count_inv_def intro: arms_inv_mono)
qed

lemma core_inv_jobs:
  "core_inv e \<Longrightarrow> distinct (map jid (jobs e)) \<and> (\<forall>j \<in> set (jobs e). jid j < nextJob e)"
  by (simp add: core_inv_def count_inv_def)

text \<open>A change of fields that no invariant mentions.\<close>

lemma engine_inv_cong:
  assumes "engine_inv e" "arms e' = arms e" "pq e' = pq e" "scheduling e' = scheduling e"
    "running e' \<longrightarrow> running e" "nextArm e' = nextArm e" "jobs e' = jobs e" "nextJob e' = nextJob e"
    "activeFires e' = activeFires e" "eloading e \<longrightarrow> eloading e'" "storageIO e' = storageIO e"
    "load_busy e' = load_busy e"
  shows "engine_inv e'"
proof -
  have "core_inv e'" using assms core_inv_jobs [OF engine_invD(1) [OF assms(1)]]
    by (intro core_inv_cong [OF engine_invD(1) [OF assms(1)]]) auto
  moreover have "sched_ok e'" using assms by (intro sched_cong [OF engine_invD(2) [OF assms(1)]]) simp_all
  moreover have "storage_inv e'" using assms engine_invD(3) [OF assms(1)] by (simp add: storage_inv_def)
  ultimately show ?thesis by (simp add: engine_inv_def)
qed

text \<open>A change of one arm, followed by \<open>rescheduleLocked\<close>.\<close>

lemma put_reschedule_inv:
  assumes "engine_inv e" "arm_of e nm = Some a"
    "token a' = token a" "inst a' = inst a" "firing a' = firing a"
    "arm_core (nextArm e) (running e \<longrightarrow> eloading e) nm a'"
    "TName (aspec a') = TName (aspec a)" "item a' = item a" "gen a' = gen a"
  shows "engine_inv (rescheduleLocked cs clk nm (put_arm nm a' e))"
  using core_inv_put [OF engine_invD(1) [OF assms(1)] assms(2-6)]
    sched_put_resched [OF engine_invD(2) [OF assms(1)] assms(2,7-9), of cs clk] engine_invD(3) [OF assms(1)]
  by (simp add: engine_inv_def)

lemma reschedule_inv: "engine_inv e \<Longrightarrow> engine_inv (rescheduleLocked cs clk nm e)"
  using reschedule_sched [of nm "{}" e cs clk]
  by (auto simp: engine_inv_def sched_except_def)

lemma fold_keeps: "(\<And>x s. P s \<Longrightarrow> P (f x s)) \<Longrightarrow> P s \<Longrightarrow> P (fold f xs s)"
  by (induction xs arbitrary: s) simp_all

section \<open>Firing\<close>

lemma dropStale_id: "heap_ok e \<Longrightarrow> dropStaleLocked e = e"
proof -
  assume h: "heap_ok e"
  have "drop_stale (\<lambda>it. case arm_of e (pqName it) of None \<Rightarrow> False | Some a \<Rightarrow> pqGen it = gen a) (pq e) = pq e"
  proof (cases "pq e = []")
    case True
    then show ?thesis by (simp add: drop_stale.simps)
  next
    case False
    then have "heap_top (pq e) \<in> set (pq e)" by (rule heap_top_mem)
    then obtain a where "arm_of e (pqName (heap_top (pq e))) = Some a" "item a = Some (heap_top (pq e))"
      using heap_okD(5) [OF h] by blast
    with heap_okD(4) [OF h this] show ?thesis by (simp add: drop_stale.simps Let_def)
  qed
  then show ?thesis by (simp add: dropStaleLocked_def)
qed

lemma popDue_cases:
  assumes h: "heap_ok e" and pop: "popDueLocked clk e = (r, e')"
  obtains "r = None" "e' = e"
  | it a where
    "r = Some \<lparr>dueName = pqName it, dueInst = inst a, dueGen = gen a,
               dueScheduled = dueInstant clk it (a\<lparr>item := None\<rparr>)\<rparr>"
    "arm_of e (pqName it) = Some a" "item a = Some it" "\<not> firing a" "activeFires e < maxTimerCallbacks"
    "itemDueLocked clk a" "e' = put_arm (pqName it) (a\<lparr>item := None\<rparr>) (e\<lparr>pq := remove1 it (pq e)\<rparr>)"
proof (cases "bestDue clk e")
  case None
  then show ?thesis using that(1) pop by (simp add: popDueLocked_def dropStale_id [OF h] Let_def)
next
  case (Some it)
  from bestDue_Some [OF this] have mem: "it \<in> set (pq e)" and el: "eligible e it"
    and due: "itemDueLocked clk (the (arm_of e (pqName it)))" by auto
  obtain a where a: "arm_of e (pqName it) = Some a" "item a = Some it"
    using heap_okD(5) [OF h mem] by blast
  show ?thesis
    using that(2) [of it a] pop el due a
    by (simp add: popDueLocked_def dropStale_id [OF h] Some Let_def eligible_def)
qed

lemma popped_sched:
  assumes s: "sched_ok e" and a: "arm_of e (pqName it) = Some a" "item a = Some it"
  shows "sched_except {pqName it} (put_arm (pqName it) (a\<lparr>item := None\<rparr>) (e\<lparr>pq := remove1 it (pq e)\<rparr>))"
    (is "sched_except _ ?e")
proof -
  have h: "heap_ok e" by (rule sched_exceptD [OF s])
  have "heap_ok ?e"
    by (rule heap_replace [OF h a(1), where a' = "a\<lparr>item := None\<rparr>"])
       (use a heap_okD(3) [OF h a(1)] in \<open>simp_all add: put_arm_def\<close>)
  moreover have "arm_of ?e n = Some b \<Longrightarrow> n \<notin> {pqName it} \<Longrightarrow> arm_of e n = Some b" for n b by simp
  ultimately show ?thesis using s unfolding sched_except_def by simp
qed

lemma accept_rest:
  assumes "accept clk due actual e a = (ev, a', e')"
  shows "pq e' = pq e" "scheduling e' = scheduling e" "running e' = running e" "nextArm e' = nextArm e"
    "jobs e' = jobs e" "nextJob e' = nextJob e" "activeFires e' = activeFires e"
    "eloading e' = eloading e" "storageIO e' = storageIO e" "load e' = load e"
  using assms by (auto simp: accept_def Let_def split: option.splits if_splits)

lemma accept_event:
  assumes "accept clk due actual e a = (ev, a', e')" "arm_core tok ld nm a" "TName (aspec a) = nm"
  shows "FireToken ev = token a" "FireName ev = nm"
  using assms by (auto simp: accept_def Let_def arm_core_def split: option.splits if_splits)

lemma consume_popped_inv:
  assumes core: "core_inv e" and sched: "running e \<longrightarrow> sched_except {nm} e" "heap_ok e" and st: "storage_inv e"
    and a: "arm_of e nm = Some a" "\<not> firing a" "activeFires e < maxTimerCallbacks" "\<not> aloading a \<or> \<not> running e"
  shows "engine_inv (consumeLocked cs clk
           \<lparr>dueName = nm, dueInst = inst a, dueGen = gen a, dueScheduled = t\<rparr> actual e)"
proof (cases "running e")
  case False
  then show ?thesis using assms by (simp add: consumeLocked_def engine_inv_def sched_except_def)
next
  case True
  let ?due = "\<lparr>dueName = nm, dueInst = inst a, dueGen = gen a, dueScheduled = t\<rparr>"
  obtain ev a' e1 where acc: "accept clk ?due actual e a = (ev, a', e1)"
    by (cases "accept clk ?due actual e a")
  note ar = accept_arm [OF acc] and rst = accept_rest [OF acc]
  have ac: "arm_core (nextArm e) (running e \<longrightarrow> eloading e) nm a" by (rule core_inv_arm [OF core a(1)])
  have nm: "TName (aspec a) = nm" by (rule heap_okD(3) [OF sched(2) a(1)])
  note ev = accept_event [OF acc ac nm]
  let ?e2 = "spawn True ev (art a') (inst a') (e1\<lparr>activeFires := activeFires e1 + 1\<rparr>)"
  let ?j = "\<lparr>jid = nextJob e, jcallback = True, jevent = ev, jrt = art a', jinst = inst a', jphase = WaitStorage\<rparr>"
  let ?b = "a'\<lparr>firing := True\<rparr>"
  let ?e3 = "put_arm nm ?b ?e2"
  have eq: "consumeLocked cs clk ?due actual e = rescheduleLocked cs clk nm ?e3"
    using True a acc ar ev by (simp add: consumeLocked_def Let_def)
  have m: "core e nm = Some (core_arm a)" using a(1) by (simp add: core_def)
  have core2: "core ?e2 = core e" "keys ?e2 = keys e" using ar(11) by (simp_all add: spawn_def core_def keys_def)
  have "arms_inv ((core e)(nm \<mapsto> core_arm ?b)) (nextArm e) (running e \<longrightarrow> eloading e)"
    using core m ar ac a(4) True
    by (intro arms_inv_upd [where a = "core_arm a"]) (auto simp: core_inv_def arm_core_def)
  moreover have "jobs_inv ((core e)(nm \<mapsto> core_arm ?b)) (callbacks (jobs e) @ [?j]) (nextArm e)"
    using core m ar ac a(2) ev
    by (intro jobs_inv_start [where a = "core_arm a"]) (auto simp: core_inv_def arms_inv_def arm_core_def)
  moreover have "count_inv ?e3"
    using core a(1,3) rst ar(11) keys_put [of ?e2 nm a ?b] core2
    by (auto simp: core_inv_def count_inv_def spawn_def callbacks_def)
  ultimately have "core_inv ?e3"
    using rst core2 by (simp add: core_inv_def) (simp add: spawn_def callbacks_def)
  moreover have "sched_except {nm} ?e2"
    by (rule sched_cong [of _ e]) (use sched True rst ar(11) in \<open>simp_all add: spawn_def\<close>)
  then have "sched_except {nm} ?e3"
    using sched_put [of "{nm}" ?e2 nm a ?b] a(1) ar by (simp add: spawn_def)
  then have "sched_ok (rescheduleLocked cs clk nm ?e3)" by (rule reschedule_sched)
  moreover have "storage_inv ?e3"
    using st rst by (simp add: storage_inv_def load_busy_def spawn_def is_saving_def)
  ultimately show ?thesis by (simp add: eq engine_inv_def)
qed

text \<open>The engine between the pop of a deadline and its consumption.\<close>

lemma popped_inv:
  assumes inv: "engine_inv e" and a: "arm_of e (pqName it) = Some a" "item a = Some it"
  defines "e1 \<equiv> put_arm (pqName it) (a\<lparr>item := None\<rparr>) (e\<lparr>pq := remove1 it (pq e)\<rparr>)"
  shows "core_inv e1" "sched_except {pqName it} e1" "storage_inv e1" "heap_ok e1" "\<not> aloading a \<or> \<not> running e"
proof -
  note i = engine_invD [OF inv]
  show s: "sched_except {pqName it} e1" unfolding e1_def by (rule popped_sched [OF i(2) a])
  then show "heap_ok e1" by (rule sched_exceptD)
  have "core_inv (e\<lparr>pq := remove1 it (pq e)\<rparr>)"
    using core_inv_jobs [OF i(1)] by (intro core_inv_cong [OF i(1)]) simp_all
  then show "core_inv e1"
    unfolding e1_def using core_inv_arm [OF i(1) a(1)] a(1)
    by (intro core_inv_put [where a = a]) (simp_all add: arm_core_def)
  show "storage_inv e1" using i(3) by (simp add: e1_def storage_inv_def load_busy_def)
  show "\<not> aloading a \<or> \<not> running e" using i(2) a unfolding sched_except_def arm_sched_def by blast
qed

lemma pop_consume_inv:
  assumes inv: "engine_inv e" and a: "arm_of e (pqName it) = Some a" "item a = Some it"
    "\<not> firing a" "activeFires e < maxTimerCallbacks"
  shows "engine_inv (consumeLocked cs clk
           \<lparr>dueName = pqName it, dueInst = inst a, dueGen = gen a, dueScheduled = t\<rparr> actual
           (put_arm (pqName it) (a\<lparr>item := None\<rparr>) (e\<lparr>pq := remove1 it (pq e)\<rparr>)))"
  using consume_popped_inv [of "put_arm (pqName it) (a\<lparr>item := None\<rparr>) (e\<lparr>pq := remove1 it (pq e)\<rparr>)"
      "pqName it" "a\<lparr>item := None\<rparr>" cs clk t actual] popped_inv [OF inv a(1,2)] a(3,4)
  by simp

lemma fireDue_inv: "engine_inv e \<Longrightarrow> engine_inv (fireDueLocked cs clk e)"
proof (induction cs clk e rule: fireDueLocked.induct)
  case (1 cs clk e)
  obtain r e1 where pop: "popDueLocked clk e = (r, e1)" by (cases "popDueLocked clk e")
  from engine_invD(4) [OF "1.prems"] pop show ?case
  proof (cases rule: popDue_cases)
    case 1
    then show ?thesis using "1.prems" pop by (subst fireDueLocked.simps) simp
  next
    case (2 it a)
    have "engine_inv (consumeLocked cs clk (the r) (clk_now clk) e1)"
      unfolding 2(1,7) option.sel by (rule pop_consume_inv [OF "1.prems" 2(2-5)])
    then show ?thesis using "1.IH" [of r e1] pop 2(1) by (subst fireDueLocked.simps) simp
  qed
qed

end
