(* ===== verification/Timer_Runs.thy ===== *)
theory Timer_Runs
  imports Timer_Invariants
begin

text \<open>
  The operations of the timer engine keep its invariant, and what follows for every run.
\<close>

section \<open>The operations keep the invariant\<close>

lemma clock_arm_inv: "engine_inv e \<Longrightarrow> engine_inv (clock_arm cs clk nm e)"
proof -
  assume inv: "engine_inv e"
  have "engine_inv (put_arm nm (a\<lparr>schedGen := g\<rparr>) e)" if a: "arm_of e nm = Some a" for a g
  proof -
    note i = engine_invD [OF inv]
    have "core_inv (put_arm nm (a\<lparr>schedGen := g\<rparr>) e)"
      using core_inv_arm [OF i(1) a] by (intro core_inv_put [OF i(1) a]) (simp_all add: arm_core_def)
    moreover have "sched_except {nm} (put_arm nm (a\<lparr>schedGen := g\<rparr>) e)"
      by (rule sched_put [OF i(2) a]) simp_all
    then have "sched_ok (put_arm nm (a\<lparr>schedGen := g\<rparr>) e)"
      using i(2) a by (auto simp: sched_except_def arm_sched_def)
    ultimately show ?thesis using i(3) by (simp add: engine_inv_def)
  qed
  then show ?thesis using inv by (simp add: clock_arm_def reschedule_inv split: option.split)
qed

lemma ClockChanged_inv: "engine_inv e \<Longrightarrow> engine_inv (ClockChanged cs clk e)"
proof -
  assume "engine_inv e"
  then have "engine_inv (e\<lparr>clockGen := clockGen e + 1\<rparr>)"
    by (rule engine_inv_cong) (simp_all add: load_busy_def)
  then show ?thesis
    using \<open>engine_inv e\<close> by (simp add: ClockChanged_def Let_def fold_keeps clock_arm_inv fireDue_inv)
qed

lemma drop_arm_inv:
  assumes "engine_inv e"
  shows "engine_inv ((removeDeadlineLocked nm e)\<lparr>arms := AList.delete nm (arms (removeDeadlineLocked nm e))\<rparr>)"
    (is "engine_inv ?e")
proof -
  let ?r = "removeDeadlineLocked nm e"
  note i = engine_invD [OF assms]
  have arm: "arm_of ?e = (arm_of ?r)(nm := None)" by (rule ext) (simp add: delete_conv')
  have same: "arm_of ?e n = arm_of e n" if "n \<noteq> nm" for n
    using that unfolding arm by (simp add: removeDeadlineLocked_def split: option.split)
  have gone: "arm_of ?e nm = None" unfolding arm by simp
  have kept: "n \<noteq> nm" "arm_of e n = Some b" if "arm_of ?e n = Some b" for n b
  proof -
    show "n \<noteq> nm" using that gone by (metis option.distinct(1))
    then show "arm_of e n = Some b" using same that by metis
  qed
  have core: "core ?e = (core e)(nm := None)"
    using core_removeDeadline [of nm e] by (auto simp: core_def fun_eq_iff delete_conv')
  have "keys ?e = removeAll nm (keys ?r)" by (simp add: keys_def delete_keys)
  then have ks: "keys ?e = filter ((\<noteq>) nm) (keys e)" by (simp add: removeAll_filter_not_eq)
  then have "length (keys ?e) \<le> length (keys e)" by (metis length_filter_le)
  then have "core_inv ?e" using i(1)
    by (auto simp: core_inv_def count_inv_def core intro: arms_inv_delete jobs_inv_delete)
  moreover have "heap_ok ?e"
  proof (cases "arm_of e nm")
    case None
    then have r: "?r = e" by (simp add: removeDeadlineLocked_def)
    have "AList.delete nm (arms e) = arms e" using None by (simp add: delete_idem map_of_eq_None_iff)
    then show ?thesis using i(4) r by simp
  next
    case (Some a)
    have pq: "pq ?e = (case item a of None \<Rightarrow> pq e | Some i \<Rightarrow> remove1 i (pq e))"
      using Some by (simp add: removeDeadlineLocked_def split: option.split)
    note others = heap_others [OF i(4) Some, folded pq]
    have "TName (aspec b) = n \<and> (\<forall>it. item b = Some it \<longrightarrow> it \<in> set (pq ?e) \<and> pqName it = n \<and> pqGen it = gen b)"
      if "arm_of ?e n = Some b" for n b
      using heap_okD(3,4) [OF i(4) kept(2) [OF that]] kept(1) [OF that] unfolding others(2) by simp
    moreover have "\<exists>b. arm_of ?e (pqName it) = Some b \<and> item b = Some it" if "it \<in> set (pq ?e)" for it
    proof -
      have it: "it \<in> set (pq e)" "pqName it \<noteq> nm" using that unfolding others(2) by simp_all
      then show ?thesis using heap_okD(5) [OF i(4) it(1)] same by simp
    qed
    moreover have "distinct (keys ?e)" using ks heap_okD(1) [OF i(4)] by simp
    ultimately show ?thesis using others(1) unfolding heap_ok_def by blast
  qed
  moreover have "scheduling ?e = scheduling e" by (simp add: removeDeadlineLocked_def split: option.split)
  moreover have "arm_sched (scheduling e) b" if "running e" "arm_of ?e n = Some b" for n b
    using i(2) that(1) kept(2) [OF that(2)] unfolding sched_except_def by blast
  ultimately have "sched_ok ?e" unfolding sched_except_def by simp
  then show ?thesis using \<open>core_inv ?e\<close> i(3) by (simp add: engine_inv_def storage_inv_def load_busy_def)
qed

lemma Disarm_inv: "engine_inv e \<Longrightarrow> engine_inv (Disarm nm e)"
  by (simp add: Disarm_def Let_def drop_arm_inv split: option.split)

lemma Retain_inv: "engine_inv e \<Longrightarrow> engine_inv (Retain keep e)"
  unfolding Retain_def by (rule fold_keeps) (simp_all add: Let_def drop_arm_inv)

lemma UnitActive_inv: "engine_inv e \<Longrightarrow> engine_inv (UnitActive cs clk unit t e)"
proof -
  have "engine_inv s \<Longrightarrow> engine_inv (active_arm cs clk unit t nm s)" for s nm t
    using core_inv_arm [OF engine_invD(1), of s nm]
    by (auto simp: active_arm_def arm_core_def intro!: put_reschedule_inv split: option.splits)
  then show "engine_inv e \<Longrightarrow> ?thesis" by (simp add: UnitActive_def Let_def fold_keeps)
qed

lemma Retry_inv:
  assumes "engine_inv e"
  shows "engine_inv (Retry cs clk ev e)"
proof (cases "arm_of e (FireName ev)")
  case (Some a)
  let ?a = "a\<lparr>retry := Some (ev, sinceStart clk + admissionRetryDelay)\<rparr>"
  have "engine_inv (rescheduleLocked cs clk (FireName ev) (put_arm (FireName ev) ?a e))"
    if "token a = FireToken ev"
    by (rule put_reschedule_inv [OF assms Some])
       (use core_inv_arm [OF engine_invD(1) [OF assms] Some] that in \<open>simp_all add: arm_core_def\<close>)
  then show ?thesis using assms Some by (simp add: Retry_def)
qed (simp add: Retry_def assms)

lemma Stop_inv: "engine_inv e \<Longrightarrow> engine_inv (StopEngine e)"
  by (erule engine_inv_cong) (simp_all add: StopEngine_def load_busy_def)

lemma alist_update_new: "map_of xs k = None \<Longrightarrow> AList.update k v xs = xs @ [(k, v)]"
  by (induction xs) (auto split: if_splits)

lemma sched_new:
  assumes "sched_except B e" "arm_of e nm = None" "TName (aspec b) = nm" "item b = None"
  shows "sched_except (insert nm B) (put_arm nm b e)"
proof -
  have h: "heap_ok e" by (rule sched_exceptD [OF assms(1)])
  let ?e = "put_arm nm b e"
  have old: "arm_of e n = Some c" if "arm_of ?e n = Some c" "n \<noteq> nm" for n c using that by simp
  have "distinct (keys ?e)"
    using heap_okD(1) [OF h] assms(2) by (simp add: keys_def put_arm_def alist_update_new map_of_eq_None_iff)
  moreover have "TName (aspec c) = n \<and> (\<forall>it. item c = Some it \<longrightarrow> it \<in> set (pq e) \<and> pqName it = n \<and> pqGen it = gen c)"
    if "arm_of ?e n = Some c" for n c
  proof (cases "n = nm")
    case True
    then show ?thesis using that assms(3,4) by simp
  next
    case False
    then show ?thesis using heap_okD(3,4) [OF h old [OF that False]] by simp
  qed
  moreover have "\<exists>c. arm_of ?e (pqName it) = Some c \<and> item c = Some it" if "it \<in> set (pq e)" for it
    using heap_okD(5) [OF h that] assms(2) by (metis arms_put fun_upd_apply option.distinct(1))
  ultimately have "heap_ok ?e" using heap_okD(2) [OF h] unfolding heap_ok_def put_arm_sel by blast
  moreover have "arm_sched (scheduling e) c"
    if "running e" "n \<notin> insert nm B" "arm_of ?e n = Some c" for n c
    using assms(1) that old unfolding sched_except_def by blast
  ultimately show ?thesis unfolding sched_except_def put_arm_sel by blast
qed

text \<open>An arm under a new token, in a new entry of the table or in place of the old arm.\<close>

lemma rearm_inv:
  fixes e nm b el
  defines "e1 \<equiv> e\<lparr>nextArm := nextArm e + 1, eloading := el\<rparr>"
  assumes inv: "engine_inv e"
    and new: "nm \<noteq> []" "length (OnCalendar (aspec b)) \<le> timerMaxCalendars"
    and b: "token b = nextArm e + 1" "\<not> firing b" "retry b = None" "TName (aspec b) = nm"
    and el: "eloading e \<longrightarrow> el" "aloading b \<longrightarrow> el"
    and old: "if arm_of e nm = None then length (arms e) < MaxArmedTimers \<and> item b = None
              else item b = item (the (arm_of e nm)) \<and> gen b = gen (the (arm_of e nm))"
  shows "engine_inv (rescheduleLocked cs clk nm (put_arm nm b e1))"
proof -
  let ?tok = "nextArm e + 1" and ?p = "put_arm nm b e1"
  note i = engine_invD [OF inv]
  have core: "core e1 = core e" by (simp add: core_def e1_def)
  have ac: "arm_core ?tok (running e \<longrightarrow> el) nm (core_arm b)" using new b el by (simp add: arm_core_def)
  have "arms_inv ((core e)(nm \<mapsto> core_arm b)) ?tok (running e \<longrightarrow> el)"
    using i(1) ac b el(1)
    by (intro arms_inv_fresh [of _ _ "running e \<longrightarrow> eloading e"]) (auto simp: core_inv_def)
  moreover have "jobs_inv ((core e)(nm \<mapsto> core_arm b)) (callbacks (jobs e)) ?tok"
    using i(1) b by (intro jobs_inv_fresh) (simp_all add: core_inv_def)
  moreover have "length (keys ?p) \<le> MaxArmedTimers"
  proof (cases "arm_of e nm")
    case None
    then show ?thesis using old by (simp add: keys_def put_arm_def alist_update_new e1_def)
  next
    case (Some a)
    then have "keys ?p = keys e" by (simp add: keys_def put_arm_def keys_update e1_def)
    then show ?thesis using i(1) by (simp add: core_inv_def count_inv_def)
  qed
  ultimately have "core_inv ?p"
    using i(1) core by (simp add: core_inv_def count_inv_def) (simp add: e1_def)
  moreover have s: "sched_ok e1" by (rule sched_cong [OF i(2)]) (simp_all add: e1_def)
  have "sched_except {nm} ?p"
  proof (cases "arm_of e nm")
    case None
    then show ?thesis using old b(4) by (intro sched_new [OF s]) (simp_all add: e1_def)
  next
    case (Some a)
    have "TName (aspec a) = nm" by (rule heap_okD(3) [OF i(4) Some])
    then show ?thesis using Some old b(4) by (intro sched_put [OF s, of nm a]) (simp_all add: e1_def)
  qed
  then have "sched_ok (rescheduleLocked cs clk nm ?p)" by (rule reschedule_sched)
  moreover have "storage_inv ?p" using i(3) by (simp add: storage_inv_def load_busy_def e1_def)
  ultimately show ?thesis by (simp add: engine_inv_def)
qed

lemma Arm_inv:
  assumes inv: "engine_inv e"
  shows "engine_inv (snd (Arm cs clk spec e))"
proof (cases "TName spec = [] \<or> timerMaxCalendars < length (OnCalendar spec) \<or> \<not> running e
    \<or> (arm_of e (TName spec) = None \<and> MaxArmedTimers \<le> length (arms e))")
  case True
  then show ?thesis using inv by (auto simp: Arm_def Let_def)
next
  case False
  then have ok: "TName spec \<noteq> []" "length (OnCalendar spec) \<le> timerMaxCalendars" by simp_all
  note rearm = rearm_inv [OF inv ok(1), where cs = cs and clk = clk]
  show ?thesis
  proof (cases "arm_of e (TName spec)")
    case None
    let ?a = "\<lparr>inst = nextArm e + 1, item = None, planning = False, aloading = hasStore e,
        storageError = [], firing = False, retry = None, token = nextArm e + 1,
        aspec = spec, art = new_Runtime, nextAt = 0, wallNext = 0, aok = False, gen = 0, schedGen = 0\<rparr>"
    have "engine_inv (rescheduleLocked cs clk (TName spec)
        (put_arm (TName spec) ?a (e\<lparr>nextArm := nextArm e + 1, eloading := eloading e \<or> hasStore e\<rparr>)))"
      by (rule rearm) (use False None ok in auto)
    then show ?thesis using False None by (simp add: Arm_def Let_def)
  next
    case (Some a)
    let ?a = "a\<lparr>token := nextArm e + 1, firing := False, retry := None, aspec := spec\<rparr>"
    let ?b = "?a\<lparr>storageError := [], aloading := True\<rparr>"
    have core: "arm_core (nextArm e) (running e \<longrightarrow> eloading e) (TName spec) a"
      by (rule core_inv_arm [OF engine_invD(1) [OF inv] Some])
    have "engine_inv (rescheduleLocked cs clk (TName spec)
        (put_arm (TName spec) ?b (e\<lparr>nextArm := nextArm e + 1, eloading := True\<rparr>)))"
      by (rule rearm) (use Some ok in auto)
    moreover have "engine_inv (rescheduleLocked cs clk (TName spec)
        (put_arm (TName spec) ?a (e\<lparr>nextArm := nextArm e + 1, eloading := eloading e\<rparr>)))"
      by (rule rearm) (use Some ok core False in \<open>auto simp: arm_core_def\<close>)
    ultimately show ?thesis using False Some by (auto simp: Arm_def Let_def)
  qed
qed

text \<open>A change of one arm that its schedule does not depend on.\<close>

lemma sched_put_same:
  assumes "sched_ok e" "arm_of e nm = Some a" "TName (aspec a') = TName (aspec a)"
    "item a' = item a" "gen a' = gen a" "aok a' = aok a" "nextAt a' = nextAt a" "aloading a' = aloading a"
    "storageError a' = storageError a" "planning a' = planning a"
  shows "sched_ok (put_arm nm a' e)"
proof -
  have "sched_except {nm} (put_arm nm a' e)" by (rule sched_put [OF assms(1-5)])
  moreover have "arm_sched (scheduling e) a'" if "running e"
    using assms that by (auto simp: sched_except_def arm_sched_def)
  ultimately show ?thesis unfolding sched_except_def by (auto split: if_splits)
qed

subsection \<open>Jobs\<close>

lemma find_job_split:
  assumes "find_job k e = Some j" "core_inv e"
  obtains xs ys where "jobs e = xs @ j # ys" "jid j = k" "k \<notin> jid ` set (xs @ ys)"
proof -
  from assms(1) have "j \<in> set (jobs e)" "jid j = k"
    by (auto simp: find_job_def find_Some_iff)
  then obtain xs ys where xs: "jobs e = xs @ j # ys" by (meson split_list)
  moreover have "k \<notin> jid ` set (xs @ ys)"
    using core_inv_jobs [OF assms(2)] \<open>jid j = k\<close> by (auto simp: xs)
  ultimately show ?thesis using that \<open>jid j = k\<close> by blast
qed

lemma set_phase_jobs:
  assumes "jobs e = xs @ j # ys" "jid j = k" "k \<notin> jid ` set (xs @ ys)"
  shows "jobs (set_phase k p e) = xs @ j\<lparr>jphase := p\<rparr> # ys" "jobs (drop_job k e) = xs @ ys"
proof -
  have "map (\<lambda>j. if jid j = k then j\<lparr>jphase := p\<rparr> else j) zs = zs" if "k \<notin> jid ` set zs" for zs
    using that by (intro map_idI) auto
  from this [of xs] this [of ys] show "jobs (set_phase k p e) = xs @ j\<lparr>jphase := p\<rparr> # ys"
    using assms by (simp add: set_phase_def image_Un)
  have "filter (\<lambda>j. jid j \<noteq> k) zs = zs" if "k \<notin> jid ` set zs" for zs
    using that by (intro filter_True) auto
  from this [of xs] this [of ys] show "jobs (drop_job k e) = xs @ ys" using assms by (simp add: drop_job_def image_Un)
qed

lemma phase_rest [simp]:
  "arms (set_phase k p e) = arms e" "arms (drop_job k e) = arms e"
  "pq (set_phase k p e) = pq e" "pq (drop_job k e) = pq e"
  "running (set_phase k p e) = running e" "running (drop_job k e) = running e"
  "scheduling (set_phase k p e) = scheduling e" "scheduling (drop_job k e) = scheduling e"
  "eloading (set_phase k p e) = eloading e" "eloading (drop_job k e) = eloading e"
  "nextArm (set_phase k p e) = nextArm e" "nextArm (drop_job k e) = nextArm e"
  "nextJob (set_phase k p e) = nextJob e" "nextJob (drop_job k e) = nextJob e"
  "activeFires (set_phase k p e) = activeFires e" "activeFires (drop_job k e) = activeFires e"
  "storageIO (set_phase k p e) = storageIO e" "storageIO (drop_job k e) = storageIO e"
  "load (set_phase k p e) = load e" "load (drop_job k e) = load e"
  "hist (set_phase k p e) = hist e" "hist (drop_job k e) = hist e"
  "hasFire (set_phase k p e) = hasFire e" "namespace (set_phase k p e) = namespace e"
  "namespace (drop_job k e) = namespace e" "nextActivation (set_phase k p e) = nextActivation e"
  "nextActivation (drop_job k e) = nextActivation e"
  by (simp_all add: set_phase_def drop_job_def)

lemma callback_ok_phase [simp]: "callback_ok m tok (j\<lparr>jphase := p\<rparr>) = callback_ok m tok j"
  by (simp add: callback_ok_def)

lemma jobs_inv_phase:
  "jobs_inv m (callbacks (xs @ j\<lparr>jphase := p\<rparr> # ys)) tok = jobs_inv m (callbacks (xs @ j # ys)) tok"
  by (simp add: jobs_inv_def callbacks_def)

lemma set_phase_core:
  assumes "core_inv e" "find_job k e = Some j"
  shows "core_inv (set_phase k p e)"
proof -
  obtain xs ys where js: "jobs e = xs @ j # ys" "jid j = k" "k \<notin> jid ` set (xs @ ys)"
    using find_job_split [OF assms(2,1)] .
  have "core (set_phase k p e) = core e" "keys (set_phase k p e) = keys e"
    by (simp_all add: core_def keys_def)
  moreover have "count_inv (set_phase k p e)"
    using assms(1) by (auto simp: core_inv_def count_inv_def set_phase_jobs(1) [OF js] js(1) callbacks_def
        keys_def)
  ultimately show ?thesis using assms(1)
    by (simp add: core_inv_def set_phase_jobs(1) [OF js] js(1) jobs_inv_phase)
qed

lemma set_phase_sched: "sched_except B e \<Longrightarrow> sched_except B (set_phase k p e)"
  by (erule sched_cong) simp_all

lemma set_phase_storage:
  assumes "core_inv e" "find_job k e = Some j"
  shows "length (filter is_saving (jobs (set_phase k p e))) + of_bool (is_saving j) =
         length (filter is_saving (jobs e)) + of_bool (is_saving (j\<lparr>jphase := p\<rparr>))"
proof -
  obtain xs ys where js: "jobs e = xs @ j # ys" "jid j = k" "k \<notin> jid ` set (xs @ ys)"
    using find_job_split [OF assms(2,1)] .
  then show ?thesis unfolding set_phase_jobs(1) [OF js] by simp
qed

lemma drop_recorder_core:
  assumes "core_inv e" "find_job k e = Some j" "\<not> jcallback j"
  shows "core_inv (drop_job k e)"
proof -
  obtain xs ys where js: "jobs e = xs @ j # ys" "jid j = k" "k \<notin> jid ` set (xs @ ys)"
    using find_job_split [OF assms(2,1)] .
  show ?thesis
    using core_inv_jobs [OF assms(1)] assms(3)
    by (intro core_inv_cong [OF assms(1)]) (simp_all add: set_phase_jobs(2) [OF js] js(1) callbacks_def)
qed

lemma drop_sched: "sched_except B e \<Longrightarrow> sched_except B (drop_job k e)"
  by (erule sched_cong) simp_all

lemma drop_storage:
  assumes "core_inv e" "find_job k e = Some j"
  shows "length (filter is_saving (jobs (drop_job k e))) + of_bool (is_saving j) =
         length (filter is_saving (jobs e))"
proof -
  obtain xs ys where js: "jobs e = xs @ j # ys" "jid j = k" "k \<notin> jid ` set (xs @ ys)"
    using find_job_split [OF assms(2,1)] .
  then show ?thesis unfolding set_phase_jobs(2) [OF js] by simp
qed

text \<open>When \<open>persist\<close> returns false, the storage lock is released if the job was saving.\<close>

lemma persist_failed_inv:
  assumes "core_inv e" "sched_ok e" "find_job (jid j) e = Some j"
    and io: "length (filter is_saving (jobs e)) + of_bool (load_busy e) = (of_bool (storageIO e) :: nat) + of_bool (is_saving j)"
  shows "engine_inv (persist_failed j e)"
proof (cases "jcallback j")
  case True
  have "is_saving (j\<lparr>jphase := Finishing\<rparr>) = False" by (simp add: is_saving_def)
  then have "storage_inv (set_phase (jid j) Finishing e)"
    using set_phase_storage [OF assms(1,3), of Finishing] io
    by (simp add: storage_inv_def load_busy_def)
  then show ?thesis using True assms
    by (simp add: persist_failed_def engine_inv_def set_phase_core set_phase_sched)
next
  case False
  have "storage_inv (drop_job (jid j) e)"
    using drop_storage [OF assms(1,3)] io by (simp add: storage_inv_def load_busy_def)
  then show ?thesis using False assms
    by (simp add: persist_failed_def engine_inv_def drop_recorder_core drop_sched)
qed

lemma find_job_jid: "find_job k e = Some j \<Longrightarrow> jid j = k"
  by (auto simp: find_job_def find_Some_iff)

lemma persist_lock_inv:
  assumes inv: "engine_inv e"
  shows "engine_inv (persist_lock k e)"
proof (cases "find_job k e")
  case None
  then show ?thesis using inv by (simp add: persist_lock_def)
next
  case (Some j)
  note i = engine_invD [OF inv] and k = find_job_jid [OF Some]
  show ?thesis
  proof (cases "jphase j = WaitStorage \<and> \<not> storageIO e")
    case False
    then show ?thesis using inv Some by (auto simp: persist_lock_def)
  next
    case True
    then have ns: "\<not> is_saving j" by (simp add: is_saving_def)
    have fail: "engine_inv (persist_failed j e)"
      using i Some k ns by (intro persist_failed_inv) (simp_all add: storage_inv_def)
    have "engine_inv (set_phase k (Saving n) (e\<lparr>storageIO := True\<rparr>))" for n
    proof -
      have c: "core_inv (e\<lparr>storageIO := True\<rparr>)"
        using core_inv_jobs [OF i(1)] by (intro core_inv_cong [OF i(1)]) simp_all
      have f: "find_job k (e\<lparr>storageIO := True\<rparr>) = Some j" using Some by (simp add: find_job_def)
      have "sched_ok (e\<lparr>storageIO := True\<rparr>)" by (rule sched_cong [OF i(2)]) simp_all
      moreover have "storage_inv (set_phase k (Saving n) (e\<lparr>storageIO := True\<rparr>))"
        using set_phase_storage [OF c f, of "Saving n"] ns i(3) True
        by (simp add: storage_inv_def load_busy_def is_saving_def)
      ultimately show ?thesis using set_phase_core [OF c f] by (simp add: engine_inv_def set_phase_sched)
    qed
    then show ?thesis using Some fail inv by (simp add: persist_lock_def Let_def split: option.split)
  qed
qed

lemma persist_done_inv:
  assumes inv: "engine_inv e"
  shows "engine_inv (persist_done cs clk k answer e)"
proof (cases "find_job k e")
  case None
  then show ?thesis using inv by (simp add: persist_done_def)
next
  case (Some j)
  note i = engine_invD [OF inv] and k = find_job_jid [OF Some]
  show ?thesis
  proof (cases "jphase j")
    case (Saving n)
    let ?nm = "FireName (jevent j)"
    define h where "h = (if answer = None then Saved ?nm (jrt j) # hist e else hist e)"
    let ?e = "e\<lparr>storageIO := False, hist := h\<rparr>"
    have sv: "is_saving j" using Saving by (simp add: is_saving_def)
    have c: "core_inv ?e" using core_inv_jobs [OF i(1)] by (intro core_inv_cong [OF i(1)]) simp_all
    have s: "sched_ok ?e" by (rule sched_cong [OF i(2)]) simp_all
    have f: "find_job k ?e = Some j" using Some by (simp add: find_job_def)
    have "length (filter is_saving (jobs e)) > 0"
      using sv Some by (auto simp: find_job_def find_Some_iff filter_empty_conv)
    then have one: "length (filter is_saving (jobs e)) = 1 \<and> \<not> load_busy e"
      using i(3) by (cases "storageIO e"; cases "load_busy e") (simp_all add: storage_inv_def)
    then have io: "length (filter is_saving (jobs ?e)) + of_bool (load_busy ?e) =
        (of_bool (storageIO ?e) :: nat) + of_bool (is_saving j)"
      using sv by (simp add: load_busy_def)
    have fail: "engine_inv (persist_failed j ?e)" using c s f io k by (intro persist_failed_inv) simp_all
    have error: "engine_inv (persist_failed j (rescheduleLocked cs clk ?nm (put_arm ?nm (a\<lparr>storageError := msg\<rparr>) ?e)))"
      if a: "arm_of ?e ?nm = Some a" for a msg
    proof -
      let ?p = "put_arm ?nm (a\<lparr>storageError := msg\<rparr>) ?e"
      have "core_inv ?p" by (rule core_inv_put [OF c a]) (use core_inv_arm [OF c a] in \<open>simp_all add: arm_core_def\<close>)
      moreover have "sched_ok (rescheduleLocked cs clk ?nm ?p)" by (rule sched_put_resched [OF s a]) simp_all
      ultimately show ?thesis
        using f io k by (intro persist_failed_inv) (simp_all add: find_job_def load_busy_def)
    qed
    have "is_saving (j\<lparr>jphase := Persisted\<rparr>) = False" by (simp add: is_saving_def)
    then have "storage_inv (set_phase k Persisted ?e)"
      using set_phase_storage [OF c f, of Persisted] one sv by (simp add: storage_inv_def load_busy_def)
    then have "engine_inv (set_phase k Persisted ?e)"
      using set_phase_core [OF c f] s by (simp add: engine_inv_def set_phase_sched)
    moreover have "persist_done cs clk k answer e =
        (case arm_of ?e ?nm of None \<Rightarrow> persist_failed j ?e
         | Some a \<Rightarrow>
             if \<not> running ?e \<or> inst a \<noteq> n \<or> token a \<noteq> job_token j then persist_failed j ?e
             else case answer of
                 Some message \<Rightarrow> persist_failed j (rescheduleLocked cs clk ?nm
                   (put_arm ?nm (a\<lparr>storageError := message\<rparr>) ?e))
               | None \<Rightarrow> set_phase k Persisted ?e)"
      by (simp only: Some Saving persist_done_def Let_def h_def option.case phase.case)
    ultimately show ?thesis using fail error by (auto split: option.split)
  qed (use inv Some in \<open>simp_all add: persist_done_def\<close>)
qed

lemma phase_inv:
  assumes "engine_inv e" "find_job k e = Some j" "\<not> is_saving j" "\<not> is_saving (j\<lparr>jphase := p\<rparr>)"
  shows "engine_inv (set_phase k p e)"
  using set_phase_storage [OF engine_invD(1) [OF assms(1)] assms(2), of p] assms(3,4) engine_invD(3) [OF assms(1)]
    set_phase_core [OF engine_invD(1) [OF assms(1)] assms(2)] set_phase_sched [OF engine_invD(2) [OF assms(1)]]
  by (simp add: engine_inv_def storage_inv_def load_busy_def)

lemma deliver_inv:
  assumes inv: "engine_inv e"
  shows "engine_inv (deliver_event k e)"
proof (cases "find_job k e")
  case None
  then show ?thesis using inv by (simp add: deliver_event_def)
next
  case (Some j)
  have "engine_inv (e\<lparr>hist := h\<rparr>)" for h by (rule engine_inv_cong [OF inv]) (simp_all add: load_busy_def)
  moreover have "find_job k (e\<lparr>hist := h\<rparr>) = Some j" for h using Some by (simp add: find_job_def)
  moreover have "jphase j = Persisted \<Longrightarrow> \<not> is_saving j" "\<not> is_saving (j\<lparr>jphase := Finishing\<rparr>)"
    by (simp_all add: is_saving_def)
  ultimately show ?thesis using inv Some phase_inv by (simp add: deliver_event_def)
qed

lemma drop_recorder_inv:
  assumes "engine_inv e" "find_job k e = Some j" "\<not> jcallback j" "\<not> is_saving j"
  shows "engine_inv (drop_job k e)"
  using drop_recorder_core [OF engine_invD(1) [OF assms(1)] assms(2,3)] drop_sched [OF engine_invD(2) [OF assms(1)]]
    drop_storage [OF engine_invD(1) [OF assms(1)] assms(2)] assms(4) engine_invD(3) [OF assms(1)]
  by (simp add: engine_inv_def storage_inv_def load_busy_def)

lemma commit_inv:
  assumes inv: "engine_inv e"
  shows "engine_inv (commit k e)"
proof (cases "find_job k e")
  case None
  then show ?thesis using inv by (simp add: commit_def)
next
  case (Some j)
  show ?thesis
  proof (cases "jcallback j \<or> jphase j \<noteq> Persisted")
    case True
    then show ?thesis using inv Some by (simp add: commit_def)
  next
    case False
    let ?e = "drop_job k e"
    have d: "engine_inv ?e"
      using False by (intro drop_recorder_inv [OF inv Some]) (simp_all add: is_saving_def)
    note i = engine_invD [OF d]
    have "engine_inv (put_arm nm (a\<lparr>art := rt, retry := None\<rparr>) ?e)" if a: "arm_of ?e nm = Some a" for nm a rt
      using core_inv_put [OF i(1) a, of "a\<lparr>art := rt, retry := None\<rparr>"] core_inv_arm [OF i(1) a] i(3)
        sched_put_same [OF i(2) a, of "a\<lparr>art := rt, retry := None\<rparr>"]
      by (simp add: engine_inv_def arm_core_def)
    then show ?thesis using False Some d by (simp add: commit_def Let_def split: option.split)
  qed
qed

lemma RecordResult_inv:
  assumes inv: "engine_inv e"
  shows "engine_inv (RecordResult clk ev success e)"
proof -
  note i = engine_invD [OF inv]
  have "engine_inv (spawn False ev rt n e)" for rt n
  proof -
    have "core_inv (spawn False ev rt n e)"
      using core_inv_jobs [OF i(1)] by (intro core_inv_cong [OF i(1)]) (auto simp: spawn_def callbacks_def)
    moreover have "sched_ok (spawn False ev rt n e)" by (rule sched_cong [OF i(2)]) (simp_all add: spawn_def)
    ultimately show ?thesis
      using i(3) by (simp add: engine_inv_def storage_inv_def load_busy_def spawn_def is_saving_def)
  qed
  then show ?thesis using inv by (simp add: RecordResult_def Let_def split: option.split)
qed

lemma finish_inv:
  assumes inv: "engine_inv e"
  shows "engine_inv (finish_callback cs clk k e)"
proof (cases "find_job k e")
  case None
  then show ?thesis using inv by (simp add: finish_callback_def)
next
  case (Some j)
  show ?thesis
  proof (cases "jcallback j \<and> jphase j = Finishing")
    case False
    then show ?thesis using inv Some by (auto simp: finish_callback_def)
  next
    case True
    note i = engine_invD [OF inv]
    obtain xs ys where js: "jobs e = xs @ j # ys" "jid j = k" "k \<notin> jid ` set (xs @ ys)"
      using find_job_split [OF Some i(1)] .
    define e1 where "e1 = e\<lparr>activeFires := activeFires e - 1\<rparr>"
    let ?e = "drop_job k e1" and ?nm = "FireName (jevent j)"
    have jobs: "jobs ?e = xs @ ys" by (rule set_phase_jobs(2)) (use js in \<open>simp_all add: e1_def\<close>)
    have e1: "arms e1 = arms e" "pq e1 = pq e" "running e1 = running e" "scheduling e1 = scheduling e"
      "eloading e1 = eloading e" "nextArm e1 = nextArm e" "nextJob e1 = nextJob e" "load e1 = load e"
      "storageIO e1 = storageIO e" "activeFires e1 = activeFires e - 1" by (simp_all add: e1_def)
    have s: "sched_ok ?e" by (rule sched_cong [OF i(2)]) (simp_all add: e1)
    have st: "storage_inv ?e"
      using i(3) True unfolding storage_inv_def load_busy_def jobs by (simp add: js(1) is_saving_def e1)
    have ac: "arms_inv (core e) (nextArm e) (running e \<longrightarrow> eloading e)"
      and cj: "jobs_inv (core e) (callbacks xs @ j # callbacks ys) (nextArm e)" and cc: "count_inv e"
      using i(1) True by (simp_all add: core_inv_def js(1) callbacks_def)
    have core: "core ?e = core e" "keys ?e = keys e" by (simp_all add: core_def keys_def e1)
    have count: "count_inv ?e"
      using cc True core(2) unfolding count_inv_def jobs by (auto simp: js(1) callbacks_def e1)
    have j: "callback_ok (core e) (nextArm e) j" using cj by (simp add: jobs_inv_def)
    have done_core: "core_inv (put_arm ?nm b ?e)"
      if a: "arm_of e ?nm = Some a" "token a = job_token j"
        and b: "token b = token a" "inst b = inst a" "\<not> firing b" "aloading b = aloading a"
          "retry b = retry a" "aspec b = aspec a" for a b
    proof -
      have m: "core e ?nm = Some (core_arm a)" using a by (simp add: core_def)
      have "arms_inv ((core e)(?nm \<mapsto> core_arm b)) (nextArm e) (running e \<longrightarrow> eloading e)"
        using ac m b core_inv_arm [OF i(1) a(1)]
        by (intro arms_inv_upd [where a = "core_arm a"]) (simp_all add: arm_core_def)
      moreover have "jobs_inv ((core e)(?nm \<mapsto> core_arm b)) (callbacks xs @ callbacks ys) (nextArm e)"
        by (rule jobs_inv_finish [OF cj, where a' = "core_arm b"])
           (use ac m a b in \<open>simp_all add: arms_inv_def\<close>)
      moreover have "count_inv (put_arm ?nm b ?e)"
        using count keys_put [of ?e ?nm a b] a(1) by (simp add: count_inv_def e1)
      ultimately show ?thesis by (simp add: core_inv_def core jobs callbacks_def e1)
    qed
    have skip: "core_inv ?e" if "\<And>a. arm_of e ?nm = Some a \<Longrightarrow> inst a \<noteq> jinst j \<or> token a \<noteq> job_token j"
    proof -
      have "token a \<noteq> job_token j" if a: "core e n = Some a" for n a
        using j a \<open>\<And>a. arm_of e ?nm = Some a \<Longrightarrow> _ a\<close> unfolding callback_ok_def core_Some by fastforce
      then have "jobs_inv (core e) (callbacks xs @ callbacks ys) (nextArm e)"
        using cj by (auto simp: jobs_inv_def)
      then show ?thesis using ac count by (simp add: core_inv_def core jobs callbacks_def e1)
    qed
    show ?thesis
    proof (cases "\<exists>a. arm_of e ?nm = Some a \<and> inst a = jinst j \<and> token a = job_token j")
      case False
      then have "core_inv ?e" by (intro skip) auto
      moreover have "finish_callback cs clk k e = ?e"
        using True Some False by (auto simp: finish_callback_def Let_def e1_def split: option.split)
      ultimately show ?thesis using s st by (simp add: engine_inv_def)
    next
      case T: True
      then obtain a where a: "arm_of e ?nm = Some a" "inst a = jinst j" "token a = job_token j" by blast
      define b where "b = a\<lparr>firing := False, storageError := (if storageError a = [] \<and> retry a = None
           \<and> ActResult (RtActivation (art a)) = ''pending'' then unrecorded else storageError a)\<rparr>"
      have fin: "finish_callback cs clk k e = (let p = put_arm ?nm b ?e in if running p then rescheduleLocked cs clk ?nm p else p)"
        using True Some a by (simp add: finish_callback_def Let_def b_def e1_def)
      have c: "core_inv (put_arm ?nm b ?e)" by (rule done_core [OF a(1,3)]) (simp_all add: b_def)
      have "sched_except {?nm} (put_arm ?nm b ?e)"
        by (rule sched_put [OF s, of ?nm a]) (use a in \<open>simp_all add: b_def e1\<close>)
      then have "sched_ok (rescheduleLocked cs clk ?nm (put_arm ?nm b ?e))"
        "\<not> running e \<longrightarrow> sched_ok (put_arm ?nm b ?e)"
        by (simp_all add: reschedule_sched) (simp add: sched_except_def e1)
      then show ?thesis using c st by (simp add: fin Let_def engine_inv_def e1)
    qed
  qed
qed

subsection \<open>Planner and loader\<close>

lemma least_name_None: "least_name ns = None \<longleftrightarrow> ns = []"
proof -
  have "best \<noteq> None \<Longrightarrow>
      fold (\<lambda>nm best. case best of None \<Rightarrow> Some nm | Some b \<Rightarrow> if nm < b then Some nm else best) xs best \<noteq> None"
    for best :: "name option" and xs
    by (induction xs arbitrary: best) (simp_all split: option.split)
  from this [of "Some (hd ns)" "tl ns"] show ?thesis by (cases ns) (simp_all add: least_name_def)
qed

lemma plan_pick_inv:
  assumes inv: "engine_inv e"
  shows "engine_inv (plan_pick e)"
proof -
  note i = engine_invD [OF inv]
  have "engine_inv (e\<lparr>scheduling := False\<rparr>)" if none: "running e \<longrightarrow> planning_names e = []"
  proof -
    have idle: "\<not> planning a" if "running e" "arm_of e nm = Some a" for nm a
      using none that map_of_SomeD [OF that(2)] by (auto simp: planning_names_def filter_empty_conv)
    have "heap_ok (e\<lparr>scheduling := False\<rparr>)" using i(4) by (subst heap_ok_cong [where e = e]) simp_all
    then have "sched_ok (e\<lparr>scheduling := False\<rparr>)"
      using i(2) idle by (auto simp: sched_except_def arm_sched_def)
    moreover have "core_inv (e\<lparr>scheduling := False\<rparr>)"
      using core_inv_jobs [OF i(1)] by (intro core_inv_cong [OF i(1)]) simp_all
    ultimately show ?thesis using i(3) by (simp add: engine_inv_def storage_inv_def load_busy_def)
  qed
  moreover have "engine_inv (e\<lparr>scheduleCursor := nm, plan := p\<rparr>)" for nm p
    by (rule engine_inv_cong [OF inv]) (simp_all add: load_busy_def)
  ultimately show ?thesis using inv
    by (auto simp: plan_pick_def Let_def least_name_None split: option.split if_splits)
qed

lemma plan_publish_inv:
  assumes inv: "engine_inv e"
  shows "engine_inv (plan_publish cs clk e)"
proof (cases "plan e")
  case None
  then show ?thesis using inv by (simp add: plan_publish_def)
next
  case (Some p)
  obtain t wall ok where nd: "nextDeadline cs (pcSpec p) (pcRt p) clk = (t, wall, ok)"
    by (cases "nextDeadline cs (pcSpec p) (pcRt p) clk")
  define e1 where "e1 = e\<lparr>plan := None\<rparr>"
  have e1: "engine_inv e1"
    unfolding e1_def by (rule engine_inv_cong [OF inv]) (simp_all add: load_busy_def)
  note i = engine_invD [OF e1]
  let ?nm = "pcName p"
  have publish: "engine_inv (if ok then installDeadlineLocked ?nm t (pcGen p) (put_arm ?nm b e1) else put_arm ?nm b e1)"
    if a: "arm_of e1 ?nm = Some a" "gen a = pcGen p" "planning a" "running e1"
      and b: "b = a\<lparr>planning := False, nextAt := t, aok := ok, schedGen := pcClockGen p, wallNext := wall\<rparr>" for a b
  proof -
    have local_a: "arm_sched (scheduling e1) a" using i(2) a unfolding sched_except_def by blast
    then have no: "item a = None" "\<not> aloading a" "storageError a = []"
      using a(3) by (auto simp: arm_sched_def)
    have c: "core_inv (put_arm ?nm b e1)"
      by (rule core_inv_put [OF i(1) a(1)]) (use core_inv_arm [OF i(1) a(1)] in \<open>simp_all add: b arm_core_def\<close>)
    have s: "sched_except {?nm} (put_arm ?nm b e1)" by (rule sched_put [OF i(2) a(1)]) (simp_all add: b)
    let ?p = "put_arm ?nm b e1"
    let ?b = "b\<lparr>item := Some \<lparr>pqName = TName (aspec b), pqWhen = t, pqGen = pcGen p\<rparr>\<rparr>"
    let ?q = "installDeadlineLocked ?nm t (pcGen p) ?p"
    have pb: "arm_of ?p ?nm = Some b" by simp
    have nm: "TName (aspec b) = ?nm" using heap_okD(3) [OF i(4) a(1)] by (simp add: b)
    have gb: "gen b = pcGen p" using a(2) by (simp add: b)
    note eff = installDeadline_effect [OF pb, of t "pcGen p"]
    have arms: "arms ?q = AList.update ?nm ?b (arms ?p)" by (simp add: eff)
    have "heap_ok ?q"
      by (rule heap_replace [OF sched_exceptD [OF s] pb arms]) (use nm gb in \<open>auto simp: eff\<close>)
    moreover have "arm_of ?q = (arm_of ?p)(?nm \<mapsto> ?b)" by (rule ext) (simp add: arms update_conv')
    moreover have "arm_sched x ?b" if ok for x using that no by (simp add: arm_sched_def b)
    moreover have "scheduling ?q = scheduling ?p" by (simp add: eff)
    ultimately have "sched_ok ?q" if ok using that s unfolding sched_except_def by (auto split: if_splits)
    moreover have "arm_sched x b" if "\<not> ok" for x using that no by (simp add: arm_sched_def b)
    then have "sched_ok ?p" if "\<not> ok" using that s unfolding sched_except_def by (auto split: if_splits)
    moreover have "core_inv ?q" using c by (simp add: core_inv_def count_inv_def)
    ultimately show ?thesis using c i(3) by (simp add: engine_inv_def storage_inv_def load_busy_def)
  qed
  show ?thesis
  proof (cases "\<exists>a. arm_of e1 ?nm = Some a \<and> running e1 \<and> inst a = pcInst p \<and> gen a = pcGen p
      \<and> clockGen e1 = pcClockGen p \<and> planning a")
    case True
    then obtain a where "arm_of e1 ?nm = Some a" "running e1" "inst a = pcInst p" "gen a = pcGen p"
      "clockGen e1 = pcClockGen p" "planning a" by blast
    then show ?thesis using publish [of a, OF _ _ _ _ refl] Some nd
      by (simp add: plan_publish_def Let_def e1_def [symmetric])
  next
    case False
    then have "plan_publish cs clk e = e1"
      using Some nd by (auto simp: plan_publish_def Let_def e1_def [symmetric] split: option.split)
    then show ?thesis using e1 by simp
  qed
qed

lemma load_pick_inv:
  assumes inv: "engine_inv e"
  shows "engine_inv (load_pick nm e)"
proof -
  note i = engine_invD [OF inv]
  have "engine_inv (e\<lparr>eloading := False\<rparr>)" if none: "running e \<longrightarrow> \<not> list_ex (\<lambda>(n, a). aloading a) (arms e)"
  proof -
    have idle: "\<not> aloading a" if "running e" "core e n = Some a" for n a
      using none that by (fastforce simp: core_Some list_ex_iff dest: map_of_SomeD)
    then have "arms_inv (core e) (nextArm e) (running e \<longrightarrow> False)"
      using i(1) by (auto simp: core_inv_def arms_inv_def arm_core_def)
    moreover have "core (e\<lparr>eloading := False\<rparr>) = core e" "keys (e\<lparr>eloading := False\<rparr>) = keys e"
      by (simp_all add: core_def keys_def)
    ultimately have "core_inv (e\<lparr>eloading := False\<rparr>)" using i(1) by (simp add: core_inv_def count_inv_def)
    moreover have "sched_ok (e\<lparr>eloading := False\<rparr>)" by (rule sched_cong [OF i(2)]) simp_all
    ultimately show ?thesis using i(3) by (simp add: engine_inv_def storage_inv_def load_busy_def)
  qed
  moreover have "engine_inv (e\<lparr>load := Some (nm, n, False)\<rparr>)" if "load e = None" for n
    by (rule engine_inv_cong [OF inv]) (simp_all add: load_busy_def that)
  ultimately show ?thesis using inv by (cases "load e") (auto simp: load_pick_def split: option.split)
qed

lemma load_lock_inv:
  assumes inv: "engine_inv e"
  shows "engine_inv (load_lock e)"
proof (cases "\<exists>nm n. load e = Some (nm, n, False) \<and> \<not> storageIO e")
  case True
  then obtain nm n where l: "load e = Some (nm, n, False)" "\<not> storageIO e" by blast
  note i = engine_invD [OF inv]
  let ?e = "e\<lparr>load := Some (nm, n, True), storageIO := True\<rparr>"
  have "core_inv ?e" using core_inv_jobs [OF i(1)] by (intro core_inv_cong [OF i(1)]) simp_all
  moreover have "sched_ok ?e" by (rule sched_cong [OF i(2)]) simp_all
  moreover have "storage_inv ?e" using i(3) l by (simp add: storage_inv_def load_busy_def)
  ultimately have "engine_inv ?e" by (simp add: engine_inv_def)
  moreover have "engine_inv (e\<lparr>load := None\<rparr>)"
    by (rule engine_inv_cong [OF inv]) (simp_all add: load_busy_def l)
  ultimately show ?thesis using l by (simp add: load_lock_def)
next
  case False
  then have "load_lock e = e" by (auto simp: load_lock_def split: option.split bool.split)
  then show ?thesis using inv by simp
qed

lemma loaded_arm_sel [simp]:
  "inst (loaded_arm clk nm answer a) = inst a" "item (loaded_arm clk nm answer a) = item a"
  "firing (loaded_arm clk nm answer a) = firing a" "token (loaded_arm clk nm answer a) = token a"
  "aspec (loaded_arm clk nm answer a) = aspec a" "gen (loaded_arm clk nm answer a) = gen a"
  "aloading (loaded_arm clk nm answer a) = False"
  by (simp_all add: loaded_arm_def Let_def split: sum.split)

lemma loaded_arm_retry:
  "retry (loaded_arm clk nm answer a) = Some (ev, t) \<Longrightarrow>
     retry a = Some (ev, t) \<or> (FireToken ev = token a \<and> FireName ev = nm)"
  by (auto simp: loaded_arm_def Let_def split: sum.splits if_splits)

lemma load_done_inv:
  assumes inv: "engine_inv e"
  shows "engine_inv (load_done cs clk answer e)"
proof (cases "\<exists>nm n. load e = Some (nm, n, True)")
  case True
  then obtain nm n where l: "load e = Some (nm, n, True)" by blast
  note i = engine_invD [OF inv]
  let ?e = "e\<lparr>load := None, storageIO := False\<rparr>"
  have "core_inv ?e" using core_inv_jobs [OF i(1)] by (intro core_inv_cong [OF i(1)]) simp_all
  moreover have "sched_ok ?e" by (rule sched_cong [OF i(2)]) simp_all
  moreover have "storage_inv ?e"
    using i(3) l by (cases "storageIO e") (simp_all add: storage_inv_def load_busy_def)
  ultimately have e1: "engine_inv ?e" by (simp add: engine_inv_def)
  have "engine_inv (rescheduleLocked cs clk nm (put_arm nm (loaded_arm clk nm answer a) ?e))"
    if a: "arm_of ?e nm = Some a" for a
    by (rule put_reschedule_inv [OF e1 a])
       (use core_inv_arm [OF engine_invD(1) [OF e1] a] loaded_arm_retry [of clk nm answer a]
         in \<open>auto simp: arm_core_def\<close>)
  then show ?thesis using l e1
    by (auto simp: load_done_def Let_def load_current_def split: option.split)
next
  case False
  then have "load_done cs clk answer e = e" by (auto simp: load_done_def split: option.split bool.split)
  then show ?thesis using inv by simp
qed

section \<open>Every run keeps the invariant\<close>

lemma timer_step_inv: "engine_inv e \<Longrightarrow> engine_inv (timer_step cs clk act e)"
  by (cases act)
     (simp_all add: Arm_inv Disarm_inv Retain_inv UnitActive_inv RecordResult_inv Retry_inv ClockChanged_inv
       fireDue_def fireDue_inv Stop_inv plan_pick_inv plan_publish_inv load_pick_inv load_lock_inv
       load_done_inv persist_lock_inv persist_done_inv deliver_inv finish_inv commit_inv split: sum.split)

lemma NewEngine_inv: "engine_inv (NewEngine ns store fire)"
  by (simp add: engine_inv_def core_inv_def count_inv_def storage_inv_def sched_except_def heap_ok_def
      NewEngine_def arms_inv_def tokens_inj_def jobs_inv_def core_def keys_def callbacks_def load_busy_def)

interpretation timer_runs: invariant_system "\<lambda>e. \<exists>ns store fire. e = NewEngine ns store fire"
  "\<lambda>e e'. \<exists>cs clk act. e' = timer_step cs clk act e" engine_inv
  by unfold_locales (auto simp: NewEngine_inv timer_step_inv)

end
