(* ===== verification/Timer_History.thy ===== *)
theory Timer_History
  imports Timer_Runs
begin

text \<open>
  What the timer engine delivers: a persistent calendar occurrence is delivered only after its intent
  is on disk, an occurrence is accepted only when it is due, and an activation identifier names one
  accepted occurrence.
\<close>

section \<open>The invariant of the history\<close>

text \<open>
  An event carries an activation identifier exactly when the arm it was produced by is a persistent
  calendar timer.
\<close>

definition event_ok :: "(name \<Rightarrow> armed option) \<Rightarrow> nat \<Rightarrow> Fire \<Rightarrow> bool" where
  "event_ok m tok ev \<longleftrightarrow>
     FireToken ev \<le> tok
     \<and> (\<forall>nm a. m nm = Some a \<longrightarrow> token a = FireToken ev \<longrightarrow> (FireID ev = [] \<longleftrightarrow> \<not> persistentCal (aspec a)))"

definition on_disk :: "tevent list \<Rightarrow> Fire \<Rightarrow> bool" where
  "on_disk h ev \<longleftrightarrow> (\<exists>rt. Saved (FireName ev) rt \<in> set h \<and> ActID (RtActivation rt) = FireID ev)"

definition intent_ok :: "(name \<Rightarrow> armed option) \<Rightarrow> tevent list \<Rightarrow> job \<Rightarrow> bool" where
  "intent_ok m h j \<longleftrightarrow>
     (if \<not> jcallback j then ActID (RtActivation (jrt j)) = FireID (jevent j)
      else case jphase j of
          WaitStorage \<Rightarrow> \<forall>nm a. m nm = Some a \<longrightarrow> token a = job_token j \<longrightarrow>
             ActID (RtActivation (jrt j)) = ActID (RtActivation (art a))
        | Saving i \<Rightarrow> ActID (RtActivation (jrt j)) = FireID (jevent j)
        | Persisted \<Rightarrow> on_disk h (jevent j)
        | Finishing \<Rightarrow> True)"

fun durable :: "tevent list \<Rightarrow> bool" where
  "durable (Fired ev # h) \<longleftrightarrow> (FireID ev \<noteq> [] \<longrightarrow> on_disk h ev) \<and> durable h"
| "durable (x # h) \<longleftrightarrow> durable h"
| "durable [] \<longleftrightarrow> True"

definition job_hist :: "(name \<Rightarrow> armed option) \<Rightarrow> tevent list \<Rightarrow> nat \<Rightarrow> job \<Rightarrow> bool" where
  "job_hist m h tok j \<longleftrightarrow> event_ok m tok (jevent j) \<and> (FireID (jevent j) \<noteq> [] \<longrightarrow> intent_ok m h j)"

definition hist_inv :: "(name \<Rightarrow> armed option) \<Rightarrow> job list \<Rightarrow> tevent list \<Rightarrow> nat \<Rightarrow> bool" where
  "hist_inv m js h tok \<longleftrightarrow>
     (\<forall>j \<in> set js. job_hist m h tok j)
     \<and> (\<forall>ev. Fired ev \<in> set h \<longrightarrow> event_ok m tok ev)
     \<and> (\<forall>nm a ev t. m nm = Some a \<longrightarrow> retry a = Some (ev, t) \<longrightarrow> event_ok m tok ev)
     \<and> durable h"

definition hist_ok :: "engine \<Rightarrow> bool" where
  "hist_ok e \<longleftrightarrow> hist_inv (core e) (jobs e) (hist e) (nextArm e)"

lemma event_ok_put:
  "event_ok m tok ev \<Longrightarrow> m nm = Some a \<Longrightarrow> token b = token a \<Longrightarrow> aspec b = aspec a \<Longrightarrow>
     event_ok (m(nm \<mapsto> b)) tok ev"
  by (auto simp: event_ok_def)

lemma event_ok_fresh:
  "event_ok m tok ev \<Longrightarrow> token b = tok + 1 \<Longrightarrow> event_ok (m(nm \<mapsto> b)) (tok + 1) ev"
  by (auto simp: event_ok_def)

lemma event_ok_delete: "event_ok m tok ev \<Longrightarrow> event_ok (m(nm := None)) tok ev"
  by (auto simp: event_ok_def)

lemma on_disk_mono: "on_disk h ev \<Longrightarrow> set h \<subseteq> set h' \<Longrightarrow> on_disk h' ev"
  by (auto simp: on_disk_def)

lemma hist_put:
  assumes inv: "hist_inv m js h tok" and m: "m nm = Some a" "token b = token a" "aspec b = aspec a"
    and retry: "\<And>ev t. retry b = Some (ev, t) \<Longrightarrow> retry a = Some (ev, t) \<or> event_ok m tok ev"
    and same: "\<And>j. j \<in> set js \<Longrightarrow> jcallback j \<Longrightarrow> job_token j = token a \<Longrightarrow> FireID (jevent j) \<noteq> [] \<Longrightarrow>
                 ActID (RtActivation (art b)) = ActID (RtActivation (art a))"
  shows "hist_inv (m(nm \<mapsto> b)) js h tok"
proof -
  note ev_put = event_ok_put [of m _ _ nm a b, OF _ m]
  have jobs: "job_hist (m(nm \<mapsto> b)) h tok j" if j: "j \<in> set js" for j
  proof -
    have "job_hist m h tok j" using inv j by (simp add: hist_inv_def)
    then show ?thesis
      using ev_put same [OF j] m(1,2)
      by (auto simp: job_hist_def intent_ok_def split: phase.splits if_splits)
  qed
  have fired: "event_ok (m(nm \<mapsto> b)) tok ev" if "Fired ev \<in> set h" for ev
    using inv that ev_put by (simp add: hist_inv_def)
  have re: "event_ok (m(nm \<mapsto> b)) tok ev" if x: "(m(nm \<mapsto> b)) n = Some c" "retry c = Some (ev, t)" for n c ev t
  proof (cases "n = nm")
    case True
    then have "retry b = Some (ev, t)" using x by simp
    then have "event_ok m tok ev" using retry inv m(1) unfolding hist_inv_def by blast
    then show ?thesis by (rule ev_put)
  next
    case False
    then have "event_ok m tok ev" using x inv unfolding hist_inv_def by (metis fun_upd_apply)
    then show ?thesis by (rule ev_put)
  qed
  show ?thesis using jobs fired re inv unfolding hist_inv_def by blast
qed

lemma hist_fresh:
  assumes inv: "hist_inv m js h tok" and b: "token b = tok + 1" "retry b = None"
  shows "hist_inv (m(nm \<mapsto> b)) js h (tok + 1)"
proof -
  note fresh = event_ok_fresh [OF _ b(1)]
  have jobs: "job_hist (m(nm \<mapsto> b)) h (tok + 1) j" if "j \<in> set js" for j
  proof -
    have jm: "job_hist m h tok j" using inv that by (simp add: hist_inv_def)
    then have "job_token j \<noteq> tok + 1" by (auto simp: job_hist_def event_ok_def)
    then have "intent_ok m h j \<Longrightarrow> intent_ok (m(nm \<mapsto> b)) h j"
      using b(1) by (auto simp: intent_ok_def split: phase.splits if_splits)
    then show ?thesis using jm fresh by (auto simp: job_hist_def)
  qed
  have re: "event_ok (m(nm \<mapsto> b)) (tok + 1) ev" if x: "(m(nm \<mapsto> b)) n = Some c" "retry c = Some (ev, t)" for n c ev t
  proof -
    have "m n = Some c" using x b(2) by (auto split: if_splits)
    then have "event_ok m tok ev" using inv x(2) unfolding hist_inv_def by blast
    then show ?thesis by (rule fresh)
  qed
  have "event_ok (m(nm \<mapsto> b)) (tok + 1) ev" if "Fired ev \<in> set h" for ev
    using inv that fresh unfolding hist_inv_def by blast
  then show ?thesis using jobs re inv unfolding hist_inv_def by blast
qed

lemma hist_delete:
  assumes inv: "hist_inv m js h tok"
  shows "hist_inv (m(nm := None)) js h tok"
proof -
  have "job_hist (m(nm := None)) h tok j" if "j \<in> set js" for j
  proof -
    have "job_hist m h tok j" using inv that by (simp add: hist_inv_def)
    then show ?thesis by (auto simp: job_hist_def event_ok_delete intent_ok_def split: phase.splits)
  qed
  moreover have "event_ok (m(nm := None)) tok ev" if "(m(nm := None)) n = Some c" "retry c = Some (ev, t)" for n c ev t
  proof -
    have "m n = Some c" using that(1) by (auto split: if_splits)
    then show ?thesis using inv that(2) event_ok_delete unfolding hist_inv_def by blast
  qed
  moreover have "event_ok (m(nm := None)) tok ev" if "Fired ev \<in> set h" for ev
    using inv that event_ok_delete unfolding hist_inv_def by blast
  ultimately show ?thesis using inv unfolding hist_inv_def by blast
qed

lemma intent_mono: "intent_ok m h j \<Longrightarrow> set h \<subseteq> set h' \<Longrightarrow> intent_ok m h' j"
  by (auto simp: intent_ok_def on_disk_def split: phase.splits if_splits)

text \<open>New jobs, dropped jobs, and a longer history.\<close>

lemma hist_jobs:
  assumes inv: "hist_inv m js h tok" and h: "set h \<subseteq> set h'" "durable h'"
    and fired: "\<And>ev. Fired ev \<in> set h' \<Longrightarrow> Fired ev \<in> set h \<or> event_ok m tok ev"
    and js: "\<And>j. j \<in> set js' \<Longrightarrow> j \<in> set js \<or> job_hist m h' tok j"
  shows "hist_inv m js' h' tok"
proof -
  have "job_hist m h' tok j" if "j \<in> set js'" for j
  proof -
    have "job_hist m h tok j \<Longrightarrow> job_hist m h' tok j" using intent_mono [OF _ h(1)] by (auto simp: job_hist_def)
    then show ?thesis using js [OF that] inv by (auto simp: hist_inv_def)
  qed
  moreover have "event_ok m tok ev" if "Fired ev \<in> set h'" for ev
    using fired [OF that] inv unfolding hist_inv_def by blast
  ultimately show ?thesis using inv h(2) unfolding hist_inv_def by blast
qed

section \<open>The operations keep the history\<close>

lemma put_core: "arm_of e nm = Some a \<Longrightarrow> core e nm = Some (core_arm a)"
  by (simp add: core_def)

lemma hist_cong: "hist_ok e \<Longrightarrow> arms e' = arms e \<Longrightarrow> jobs e' = jobs e \<Longrightarrow> hist e' = hist e \<Longrightarrow>
    nextArm e' = nextArm e \<Longrightarrow> hist_ok e'"
  by (simp add: hist_ok_def core_def)

lemma hist_put_arm:
  assumes "hist_ok e" "arm_of e nm = Some a" "token b = token a" "aspec b = aspec a" "retry b = retry a"
    "ActID (RtActivation (art b)) = ActID (RtActivation (art a))"
  shows "hist_ok (put_arm nm b e)"
  using assms put_core [OF assms(2)]
    hist_put [of "core e" "jobs e" "hist e" "nextArm e" nm "core_arm a" "core_arm b"]
  by (simp add: hist_ok_def)

text \<open>No callback of the current token is in flight while the arm is idle.\<close>

lemma idle_no_callback:
  assumes "core_inv e" "arm_of e nm = Some a" "\<not> firing a" "j \<in> set (jobs e)" "jcallback j"
  shows "job_token j \<noteq> token a"
proof
  assume "job_token j = token a"
  have "callback_ok (core e) (nextArm e) j"
    using assms(1,4,5) by (simp add: core_inv_def jobs_inv_def callbacks_def)
  then show False
    using put_core [OF assms(2)] assms(3) \<open>job_token j = token a\<close> unfolding callback_ok_def by (metis core_arm_sel(4,6))
qed

lemma activation_id_not_Nil [simp]: "activation_id ns n \<noteq> []"
  by (simp add: activation_id_def)

lemma accept_hist:
  assumes acc: "accept clk due actual e a = (ev, b, e1)" and hi: "hist_ok e" and a: "arm_of e nm = Some a"
    and core: "core_inv e"
  shows "event_ok (core e) (nextArm e) ev" "hist_inv (core e) (jobs e) (hist e1) (nextArm e)"
proof -
  have inv: "hist_inv (core e) (jobs e) (hist e) (nextArm e)" using hi by (simp add: hist_ok_def)
  have tok: "token a \<le> nextArm e" using core_inv_arm [OF core a] by (simp add: arm_core_def)
  have inj: "tokens_inj (core e)" using core by (simp add: core_inv_def arms_inv_def)
  have mine: "aspec c = aspec a" if "core e n = Some c" "token c = token a" for n c
  proof -
    have "n = nm" using inj that put_core [OF a] unfolding tokens_inj_def by (metis core_arm_sel(6))
    then show ?thesis using that(1) put_core [OF a] by auto
  qed
  show "event_ok (core e) (nextArm e) ev"
  proof (cases "retry a")
    case None
    then have "FireToken ev = token a" "FireID ev = [] \<longleftrightarrow> \<not> persistentCal (aspec a)"
      using acc by (auto simp: accept_def Let_def split: if_splits)
    then show ?thesis using tok mine by (auto simp: event_ok_def)
  next
    case (Some r)
    then obtain t where "retry (core_arm a) = Some (ev, t)"
      using acc by (cases r) (auto simp: accept_def Let_def split: if_splits)
    then show ?thesis using inv put_core [OF a] unfolding hist_inv_def by blast
  qed
  have h: "hist e1 = hist e \<or> (\<exists>s t. hist e1 = Accepted ev s t # hist e)"
    using acc by (auto simp: accept_def Let_def split: option.splits if_splits)
  then have "durable (hist e1)" using inv by (auto simp: hist_inv_def)
  then show "hist_inv (core e) (jobs e) (hist e1) (nextArm e)"
    using h by (intro hist_jobs [OF inv]) auto
qed

lemma consume_hist:
  assumes inv: "hist_ok e" and core: "core_inv e" and h: "heap_ok e"
    and a: "arm_of e nm = Some a" "\<not> firing a" "activeFires e < maxTimerCallbacks"
  shows "hist_ok (consumeLocked cs clk
           \<lparr>dueName = nm, dueInst = inst a, dueGen = gen a, dueScheduled = t\<rparr> actual e)"
proof (cases "running e")
  case False
  then show ?thesis using inv by (simp add: consumeLocked_def)
next
  case True
  let ?due = "\<lparr>dueName = nm, dueInst = inst a, dueGen = gen a, dueScheduled = t\<rparr>"
  obtain ev b e1 where acc: "accept clk ?due actual e a = (ev, b, e1)"
    by (cases "accept clk ?due actual e a")
  note ar = accept_arm [OF acc] and rst = accept_rest [OF acc]
  have ev: "FireToken ev = token a" using accept_event [OF acc core_inv_arm [OF core a(1)]] heap_okD(3) [OF h a(1)] by simp
  let ?j = "\<lparr>jid = nextJob e, jcallback = True, jevent = ev, jrt = art b, jinst = inst b, jphase = WaitStorage\<rparr>"
  let ?m = "(core e)(nm \<mapsto> core_arm (b\<lparr>firing := True\<rparr>))"
  note m = put_core [OF a(1)]
  have 1: "hist_inv ?m (jobs e) (hist e1) (nextArm e)"
    using ar idle_no_callback [OF core a(1,2)]
    by (intro hist_put [OF accept_hist(2) [OF acc inv a(1) core] m]) auto
  have "event_ok ?m (nextArm e) ev"
    by (rule event_ok_put [OF accept_hist(1) [OF acc inv a(1) core] m]) (use ar in simp_all)
  moreover have "art c = art b" if c: "?m n = Some c" "token c = token a" for n c
  proof (cases "n = nm")
    case True
    then show ?thesis using c(1) by auto
  next
    case False
    then have "token c \<noteq> token (core_arm a)"
      using c(1) core m by (intro tokens_other [of "core e" nm _ n]) (simp_all add: core_inv_def arms_inv_def)
    then show ?thesis using c(2) by simp
  qed
  ultimately have "job_hist ?m (hist e1) (nextArm e) ?j"
    using ev unfolding job_hist_def intent_ok_def by fastforce
  then have "hist_inv ?m (jobs e @ [?j]) (hist e1) (nextArm e)"
    using 1 by (intro hist_jobs [OF 1]) (auto simp: hist_inv_def)
  moreover have "core (spawn True ev (art b) (inst b) (e1\<lparr>activeFires := activeFires e1 + 1\<rparr>)) = core e"
    using ar(11) by (simp add: spawn_def core_def)
  ultimately show ?thesis
    using True a acc ar ev rst by (simp add: hist_ok_def consumeLocked_def Let_def) (simp add: spawn_def)
qed

text \<open>One turn of the firing loop, for any invariant that the pop and the consumption keep.\<close>

lemma fireDue_keeps:
  assumes pop: "\<And>e it a. engine_inv e \<Longrightarrow> P e \<Longrightarrow> arm_of e (pqName it) = Some a \<Longrightarrow> item a = Some it \<Longrightarrow>
      \<not> firing a \<Longrightarrow> activeFires e < maxTimerCallbacks \<Longrightarrow> itemDueLocked clk a \<Longrightarrow>
      P (consumeLocked cs clk \<lparr>dueName = pqName it, dueInst = inst a, dueGen = gen a,
             dueScheduled = dueInstant clk it (a\<lparr>item := None\<rparr>)\<rparr> (clk_now clk)
           (put_arm (pqName it) (a\<lparr>item := None\<rparr>) (e\<lparr>pq := remove1 it (pq e)\<rparr>)))"
  shows "engine_inv e \<Longrightarrow> P e \<Longrightarrow> P (fireDueLocked cs clk e)"
  using pop
proof (induction cs clk e rule: fireDueLocked.induct)
  case (1 cs clk e)
  obtain r e1 where p: "popDueLocked clk e = (r, e1)" by (cases "popDueLocked clk e")
  from engine_invD(4) [OF "1.prems"(1)] p show ?case
  proof (cases rule: popDue_cases)
    case 1
    then show ?thesis using "1.prems" p by (subst fireDueLocked.simps) simp
  next
    case (2 it a)
    let ?e = "consumeLocked cs clk (the r) (clk_now clk) e1"
    have "engine_inv ?e" unfolding 2(1,7) option.sel by (rule pop_consume_inv [OF "1.prems"(1) 2(2-5)])
    moreover have "P ?e" unfolding 2(1,7) option.sel by (rule "1.prems"(3) [OF "1.prems"(1,2) 2(2-6)])
    ultimately show ?thesis
      using "1.IH" [of r e1] "1.prems"(3) p 2(1) by (subst fireDueLocked.simps) simp
  qed
qed

lemma fireDue_hist: "engine_inv e \<Longrightarrow> hist_ok e \<Longrightarrow> hist_ok (fireDueLocked cs clk e)"
proof (rule fireDue_keeps)
  fix e it a
  assume inv: "engine_inv e" and h: "hist_ok e" and a: "arm_of e (pqName it) = Some a" "item a = Some it"
    "\<not> firing a" "activeFires e < maxTimerCallbacks"
  let ?e = "put_arm (pqName it) (a\<lparr>item := None\<rparr>) (e\<lparr>pq := remove1 it (pq e)\<rparr>)"
  have "hist_ok (e\<lparr>pq := remove1 it (pq e)\<rparr>)" by (rule hist_cong [OF h]) simp_all
  then have "hist_ok ?e" using a by (intro hist_put_arm [where a = a]) simp_all
  then show "hist_ok (consumeLocked cs clk \<lparr>dueName = pqName it, dueInst = inst a, dueGen = gen a,
      dueScheduled = dueInstant clk it (a\<lparr>item := None\<rparr>)\<rparr> (clk_now clk) ?e)"
    using consume_hist [of ?e "pqName it" "a\<lparr>item := None\<rparr>" cs clk] a popped_inv [OF inv a(1,2)]
    by simp
qed

lemma fold_keeps2:
  "(\<And>x s. P s \<Longrightarrow> Q s \<Longrightarrow> P (f x s) \<and> Q (f x s)) \<Longrightarrow> P s \<Longrightarrow> Q s \<Longrightarrow> Q (fold f xs s)"
  by (induction xs arbitrary: s) simp_all

lemma hist_resched [simp]: "hist_ok (rescheduleLocked cs clk nm e) = hist_ok e"
  by (simp add: hist_ok_def)

lemma clock_arm_hist: "hist_ok e \<Longrightarrow> hist_ok (clock_arm cs clk nm e)"
  by (simp add: clock_arm_def hist_put_arm split: option.split)

lemma ClockChanged_hist: "engine_inv e \<Longrightarrow> hist_ok e \<Longrightarrow> hist_ok (ClockChanged cs clk e)"
proof -
  assume "engine_inv e" "hist_ok e"
  moreover from this have "engine_inv (e\<lparr>clockGen := clockGen e + 1\<rparr>)" "hist_ok (e\<lparr>clockGen := clockGen e + 1\<rparr>)"
    by (auto intro: engine_inv_cong hist_cong simp: load_busy_def)
  ultimately show ?thesis
    using fold_keeps [of hist_ok "clock_arm cs clk"] by (simp add: ClockChanged_def Let_def clock_arm_hist fireDue_hist)
qed

lemma core_drop_arm:
  "core ((removeDeadlineLocked nm e)\<lparr>arms := AList.delete nm (arms (removeDeadlineLocked nm e))\<rparr>) = (core e)(nm := None)"
  using core_removeDeadline [of nm e] by (auto simp: core_def fun_eq_iff delete_conv')

lemma drop_arm_hist:
  "hist_ok e \<Longrightarrow>
     hist_ok ((removeDeadlineLocked nm e)\<lparr>arms := AList.delete nm (arms (removeDeadlineLocked nm e))\<rparr>)"
  using hist_delete [of "core e" "jobs e" "hist e" "nextArm e" nm] by (simp add: hist_ok_def core_drop_arm)

lemma Disarm_hist: "hist_ok e \<Longrightarrow> hist_ok (Disarm nm e)"
  by (simp add: Disarm_def Let_def drop_arm_hist split: option.split)

lemma Retain_hist: "hist_ok e \<Longrightarrow> hist_ok (Retain keep e)"
  unfolding Retain_def by (rule fold_keeps [where P = hist_ok]) (simp_all add: Let_def drop_arm_hist)

lemma UnitActive_hist: "hist_ok e \<Longrightarrow> hist_ok (UnitActive cs clk unit t e)"
proof -
  have "hist_ok s \<Longrightarrow> hist_ok (active_arm cs clk unit t nm s)" for s nm t
    unfolding active_arm_def
    by (cases "arm_of s nm") (auto intro!: hist_put_arm)
  then show "hist_ok e \<Longrightarrow> ?thesis"
    using fold_keeps [of hist_ok "active_arm cs clk unit _"] by (simp add: UnitActive_def Let_def)
qed

lemma Arm_hist: "hist_ok e \<Longrightarrow> hist_ok (snd (Arm cs clk spec e))"
proof -
  assume inv: "hist_ok e"
  have "hist_inv ((core e)(TName spec \<mapsto> core_arm b)) (jobs e) (hist e) (nextArm e + 1)"
    if "token b = nextArm e + 1" "retry b = None" for b
    using that inv by (intro hist_fresh) (simp_all add: hist_ok_def)
  moreover have "core (e\<lparr>nextArm := t, eloading := l\<rparr>) = core e" "core (e\<lparr>nextArm := t\<rparr>) = core e" for t l
    by (simp_all add: core_def)
  ultimately show ?thesis using inv by (simp add: hist_ok_def Arm_def Let_def split: option.split)
qed

lemma hist_okD:
  assumes "hist_ok e"
  shows "j \<in> set (jobs e) \<Longrightarrow> job_hist (core e) (hist e) (nextArm e) j"
    "Fired ev \<in> set (hist e) \<Longrightarrow> event_ok (core e) (nextArm e) ev"
    "durable (hist e)"
  using assms by (simp_all add: hist_ok_def hist_inv_def)

lemma Retry_hist:
  assumes inv: "hist_ok e" and ev: "Fired ev \<in> set (hist e)"
  shows "hist_ok (Retry cs clk ev e)"
proof (cases "arm_of e (FireName ev)")
  case (Some a)
  let ?a = "a\<lparr>retry := Some (ev, sinceStart clk + admissionRetryDelay)\<rparr>"
  have "hist_ok (put_arm (FireName ev) ?a e)"
    using inv put_core [OF Some] hist_okD(2) [OF inv ev]
      hist_put [of "core e" "jobs e" "hist e" "nextArm e" "FireName ev" "core_arm a" "core_arm ?a"]
    by (simp add: hist_ok_def)
  then show ?thesis using inv Some by (simp add: Retry_def)
qed (simp add: Retry_def inv)

text \<open>A change of the jobs and of the history alone.\<close>

lemma hist_ok_jobs:
  assumes inv: "hist_ok e" and e': "arms e' = arms e" "nextArm e' = nextArm e"
    and h: "set (hist e) \<subseteq> set (hist e')" "durable (hist e')"
    and fired: "\<And>ev. Fired ev \<in> set (hist e') \<Longrightarrow> Fired ev \<in> set (hist e) \<or> event_ok (core e) (nextArm e) ev"
    and js: "\<And>j. j \<in> set (jobs e') \<Longrightarrow> j \<in> set (jobs e) \<or> job_hist (core e) (hist e') (nextArm e) j"
  shows "hist_ok e'"
proof -
  have "core e' = core e" using e'(1) by (simp add: core_def)
  then show ?thesis
    using inv hist_jobs [of "core e" "jobs e" "hist e" "nextArm e" "hist e'" "jobs e'"] h fired js e'(2)
    by (simp add: hist_ok_def)
qed

lemma RecordResult_hist:
  assumes inv: "hist_ok e" and ev: "Fired ev \<in> set (hist e)"
  shows "hist_ok (RecordResult clk ev success e)"
proof -
  have spawned: "hist_ok (spawn False ev rt n e)" if "FireID ev \<noteq> [] \<longrightarrow> ActID (RtActivation rt) = FireID ev" for rt n
    using hist_okD(2) [OF inv ev] hist_okD(3) [OF inv] that
    by (intro hist_ok_jobs [OF inv]) (auto simp: spawn_def job_hist_def intent_ok_def)
  show ?thesis using inv by (auto simp: RecordResult_def Let_def intro!: spawned split: option.split)
qed

lemma set_phase_mem:
  assumes "j' \<in> set (jobs (set_phase k p e))"
  shows "j' \<in> set (jobs e) \<or> (\<exists>j \<in> set (jobs e). jid j = k \<and> j' = j\<lparr>jphase := p\<rparr>)"
  using assms by (auto simp: set_phase_def)

lemma find_job_unique:
  "core_inv e \<Longrightarrow> find_job k e = Some j \<Longrightarrow> x \<in> set (jobs e) \<Longrightarrow> jid x = k \<Longrightarrow> x = j"
  by (elim find_job_split) auto

lemma find_job_mem: "find_job k e = Some j \<Longrightarrow> j \<in> set (jobs e)"
  by (auto simp: find_job_def find_Some_iff)

lemma set_phase_hist:
  assumes inv: "hist_ok e" and core: "core_inv e" and j: "find_job k e = Some j"
    and ok: "FireID (jevent j) \<noteq> [] \<Longrightarrow> intent_ok (core e) (hist e) (j\<lparr>jphase := p\<rparr>)"
  shows "hist_ok (set_phase k p e)"
proof (rule hist_ok_jobs [OF inv])
  fix x assume "x \<in> set (jobs (set_phase k p e))"
  then consider "x \<in> set (jobs e)" | "x = j\<lparr>jphase := p\<rparr>"
    using set_phase_mem find_job_unique [OF core j] by blast
  then show "x \<in> set (jobs e) \<or> job_hist (core e) (hist (set_phase k p e)) (nextArm e) x"
  proof cases
    case 2
    have "event_ok (core e) (nextArm e) (jevent j)"
      using hist_okD(1) [OF inv find_job_mem [OF j]] by (simp add: job_hist_def)
    then show ?thesis using ok 2 by (simp add: job_hist_def)
  qed simp
qed (use hist_okD(3) [OF inv] in auto)

lemma drop_job_hist:
  assumes "hist_ok e"
  shows "hist_ok (drop_job k e)"
  by (rule hist_ok_jobs [OF assms]) (use hist_okD(3) [OF assms] in \<open>auto simp: drop_job_def\<close>)

lemma persist_failed_hist:
  "hist_ok e \<Longrightarrow> core_inv e \<Longrightarrow> find_job (jid j) e = Some j \<Longrightarrow> hist_ok (persist_failed j e)"
  by (auto simp: persist_failed_def drop_job_hist intent_ok_def intro!: set_phase_hist)

lemma persist_lock_hist:
  assumes inv: "hist_ok e" and core: "core_inv e"
  shows "hist_ok (persist_lock k e)"
proof (cases "find_job k e")
  case None
  then show ?thesis using inv by (simp add: persist_lock_def)
next
  case (Some j)
  note k = find_job_jid [OF Some]
  have fail: "hist_ok (persist_failed j e)" using inv core Some k by (intro persist_failed_hist) simp_all
  have jh: "job_hist (core e) (hist e) (nextArm e) j" by (rule hist_okD(1) [OF inv find_job_mem [OF Some]])
  have save: "hist_ok (set_phase k (Saving n) (e\<lparr>storageIO := True\<rparr>))"
    if a: "arm_of e (FireName (jevent j)) = Some a" "token a = job_token j" "jphase j = WaitStorage"
      "FireID (jevent j) = [] \<or> ActID (RtActivation (art a)) = FireID (jevent j)" for a n
  proof -
    let ?e = "e\<lparr>storageIO := True\<rparr>"
    have "intent_ok (core ?e) (hist ?e) (j\<lparr>jphase := Saving n\<rparr>)" if "FireID (jevent j) \<noteq> []"
    proof (cases "jcallback j")
      case True
      have "intent_ok (core e) (hist e) j" using jh that by (simp add: job_hist_def)
      then have "ActID (RtActivation (jrt j)) = ActID (RtActivation (art (core_arm a)))"
        using True a put_core [OF a(1)] unfolding intent_ok_def by simp
      then show ?thesis using True a(4) that by (simp add: intent_ok_def)
    next
      case False
      then show ?thesis using jh that by (simp add: job_hist_def intent_ok_def)
    qed
    moreover have "hist_ok ?e" by (rule hist_cong [OF inv]) simp_all
    moreover have "core_inv ?e" using core_inv_jobs [OF core] by (intro core_inv_cong [OF core]) simp_all
    moreover have "find_job k ?e = Some j" using Some by (simp add: find_job_def)
    ultimately show ?thesis by (intro set_phase_hist) simp_all
  qed
  show ?thesis using Some fail inv save by (auto simp: persist_lock_def Let_def split: option.split)
qed

lemma persist_done_hist:
  assumes inv: "hist_ok e" and core: "core_inv e"
  shows "hist_ok (persist_done cs clk k answer e)"
proof (cases "find_job k e")
  case None
  then show ?thesis using inv by (simp add: persist_done_def)
next
  case (Some j)
  note k = find_job_jid [OF Some]
  have jh: "job_hist (core e) (hist e) (nextArm e) j" by (rule hist_okD(1) [OF inv find_job_mem [OF Some]])
  show ?thesis
  proof (cases "jphase j")
    case (Saving n)
    let ?nm = "FireName (jevent j)"
    define h where "h = (if answer = None then Saved ?nm (jrt j) # hist e else hist e)"
    let ?e = "e\<lparr>storageIO := False, hist := h\<rparr>"
    have hi: "hist_ok ?e"
      by (rule hist_ok_jobs [OF inv]) (use hist_okD(3) [OF inv] in \<open>auto simp: h_def split: if_splits\<close>)
    have c: "core_inv ?e" using core_inv_jobs [OF core] by (intro core_inv_cong [OF core]) simp_all
    have f: "find_job k ?e = Some j" using Some by (simp add: find_job_def)
    have "hist_ok (put_arm ?nm (a\<lparr>storageError := msg\<rparr>) ?e)" if "arm_of ?e ?nm = Some a" for a msg
      by (rule hist_put_arm [OF hi that]) simp_all
    moreover have "core_inv (put_arm ?nm (a\<lparr>storageError := msg\<rparr>) ?e)" if a: "arm_of ?e ?nm = Some a" for a msg
      by (rule core_inv_put [OF c a]) (use core_inv_arm [OF c a] in \<open>simp_all add: arm_core_def\<close>)
    ultimately have error: "hist_ok (persist_failed j (rescheduleLocked cs clk ?nm
        (put_arm ?nm (a\<lparr>storageError := msg\<rparr>) ?e)))" if "arm_of ?e ?nm = Some a" for a msg
      using that f k by (intro persist_failed_hist) (simp_all add: find_job_def)
    have fail: "hist_ok (persist_failed j ?e)" using hi c f k by (intro persist_failed_hist) simp_all
    have "FireID (jevent j) \<noteq> [] \<Longrightarrow> ActID (RtActivation (jrt j)) = FireID (jevent j)"
      using jh Saving by (cases "jcallback j") (simp_all add: job_hist_def intent_ok_def)
    then have "hist_ok (set_phase k Persisted ?e)" if "answer = None"
      using that by (intro set_phase_hist [OF hi c f]) (auto simp: intent_ok_def on_disk_def h_def)
    moreover have "persist_done cs clk k answer e =
        (case arm_of ?e ?nm of None \<Rightarrow> persist_failed j ?e
         | Some a \<Rightarrow>
             if \<not> running ?e \<or> inst a \<noteq> n \<or> token a \<noteq> job_token j then persist_failed j ?e
             else case answer of
                 Some message \<Rightarrow> persist_failed j (rescheduleLocked cs clk ?nm
                   (put_arm ?nm (a\<lparr>storageError := message\<rparr>) ?e))
               | None \<Rightarrow> set_phase k Persisted ?e)"
      by (simp only: Some Saving persist_done_def Let_def h_def option.case phase.case)
    ultimately show ?thesis using fail error by (auto split: option.split)
  qed (use inv Some in \<open>simp_all add: persist_done_def\<close>)
qed

lemma deliver_hist:
  assumes inv: "hist_ok e" and core: "core_inv e"
  shows "hist_ok (deliver_event k e)"
proof (cases "find_job k e")
  case None
  then show ?thesis using inv by (simp add: deliver_event_def)
next
  case (Some j)
  have jh: "job_hist (core e) (hist e) (nextArm e) j" by (rule hist_okD(1) [OF inv find_job_mem [OF Some]])
  show ?thesis
  proof (cases "jcallback j \<and> jphase j = Persisted")
    case True
    have "hist_ok (e\<lparr>hist := Fired (jevent j) # hist e\<rparr>)"
      using jh True hist_okD(3) [OF inv]
      by (intro hist_ok_jobs [OF inv]) (auto simp: job_hist_def intent_ok_def)
    moreover have "core_inv (e\<lparr>hist := Fired (jevent j) # hist e\<rparr>)"
      using core_inv_jobs [OF core] by (intro core_inv_cong [OF core]) simp_all
    moreover have "find_job k (e\<lparr>hist := h\<rparr>) = Some j" for h using Some by (simp add: find_job_def)
    ultimately show ?thesis using True Some inv core
      by (auto simp: deliver_event_def intent_ok_def intro!: set_phase_hist)
  next
    case False
    then show ?thesis using Some inv by (auto simp: deliver_event_def)
  qed
qed

lemma finish_hist:
  assumes inv: "hist_ok e"
  shows "hist_ok (finish_callback cs clk k e)"
proof (cases "find_job k e")
  case None
  then show ?thesis using inv by (simp add: finish_callback_def)
next
  case (Some j)
  let ?e = "drop_job k (e\<lparr>activeFires := activeFires e - 1\<rparr>)"
  have "hist_ok (e\<lparr>activeFires := activeFires e - 1\<rparr>)" by (rule hist_cong [OF inv]) simp_all
  then have d: "hist_ok ?e" by (rule drop_job_hist)
  have "hist_ok (put_arm nm (a\<lparr>firing := False, storageError := msg\<rparr>) ?e)" if "arm_of ?e nm = Some a" for nm a msg
    by (rule hist_put_arm [OF d that]) simp_all
  then show ?thesis using inv d Some by (simp add: finish_callback_def Let_def split: option.split)
qed

lemma commit_hist:
  assumes inv: "hist_ok e" and core: "core_inv e"
  shows "hist_ok (commit k e)"
proof (cases "find_job k e")
  case None
  then show ?thesis using inv by (simp add: commit_def)
next
  case (Some j)
  have jh: "job_hist (core e) (hist e) (nextArm e) j" by (rule hist_okD(1) [OF inv find_job_mem [OF Some]])
  let ?e = "drop_job k e" and ?ev = "jevent j"
  have d: "hist_ok ?e" by (rule drop_job_hist [OF inv])
  have "hist_ok (put_arm (FireName ?ev) b ?e)"
    if a: "arm_of e (FireName ?ev) = Some a" "\<not> jcallback j" "token a = FireToken ?ev"
      "FireID ?ev = [] \<or> ActID (RtActivation (art a)) = FireID ?ev"
      and b: "token b = token a" "aspec b = aspec a" "retry b = None" "RtActivation (art b) = RtActivation (jrt j)" for a b
  proof -
    have same: "ActID (RtActivation (art b)) = ActID (RtActivation (art a))"
      if x: "x \<in> set (jobs ?e)" "job_token x = token a" "FireID (jevent x) \<noteq> []" for x
    proof -
      have "event_ok (core e) (nextArm e) (jevent x)"
        using hist_okD(1) [OF inv, of x] x(1) by (simp add: drop_job_def job_hist_def)
      then have "persistentCal (aspec a)"
        using x(2,3) put_core [OF a(1)] unfolding event_ok_def by (metis core_arm_sel(6,7))
      moreover have "event_ok (core e) (nextArm e) ?ev" using jh by (simp add: job_hist_def)
      ultimately have "FireID ?ev \<noteq> []"
        using a(3) put_core [OF a(1)] unfolding event_ok_def by (metis core_arm_sel(6,7))
      then show ?thesis using jh a(2,4) b(4) by (simp add: job_hist_def intent_ok_def)
    qed
    have "core ?e = core e" by (simp add: core_def)
    then show ?thesis
      using d same b put_core [OF a(1)]
        hist_put [of "core e" "jobs ?e" "hist e" "nextArm e" "FireName ?ev" "core_arm a" "core_arm b"]
      by (simp add: hist_ok_def)
  qed
  then show ?thesis using inv d Some by (auto simp: commit_def Let_def split: option.split)
qed

lemma plan_pick_hist: "hist_ok e \<Longrightarrow> hist_ok (plan_pick e)"
  by (erule hist_cong) (simp_all add: plan_pick_def Let_def split: option.split)

lemma hist_ok_install [simp]: "hist_ok (installDeadlineLocked nm t g e) = hist_ok e"
  by (simp add: hist_ok_def)

lemma plan_publish_hist:
  assumes inv: "hist_ok e"
  shows "hist_ok (plan_publish cs clk e)"
proof -
  define e1 where "e1 = e\<lparr>plan := None\<rparr>"
  have e1: "hist_ok e1" by (rule hist_cong [OF inv]) (simp_all add: e1_def)
  have "hist_ok (put_arm nm (a\<lparr>planning := False, nextAt := t, aok := ok, schedGen := g, wallNext := w\<rparr>) e1)"
    if "arm_of e1 nm = Some a" for nm a t ok g w
    by (rule hist_put_arm [OF e1 that]) simp_all
  then show ?thesis
    using inv e1 unfolding plan_publish_def Let_def e1_def [symmetric]
    by (auto split: option.split prod.split)
qed

lemma load_pick_hist: "hist_ok e \<Longrightarrow> hist_ok (load_pick nm e)"
  by (erule hist_cong) (simp_all add: load_pick_def split: option.split)

lemma load_lock_hist: "hist_ok e \<Longrightarrow> hist_ok (load_lock e)"
  by (erule hist_cong) (simp_all add: load_lock_def split: option.split bool.split)

lemma loadable_pending:
  "loadable rt \<Longrightarrow> ActResult (RtActivation rt) = ''pending'' \<Longrightarrow> ActID (RtActivation rt) \<noteq> []"
  by (auto simp: loadable_def no_Activation_def validateActivation_def split: if_splits)

lemma load_done_hist:
  assumes inv: "hist_ok e" and core: "core_inv e" and answer: "\<And>rt. answer = Inr rt \<Longrightarrow> loadable rt"
  shows "hist_ok (load_done cs clk answer e)"
proof (cases "\<exists>nm n. load e = Some (nm, n, True)")
  case True
  then obtain nm n where l: "load e = Some (nm, n, True)" by blast
  let ?e = "e\<lparr>load := None, storageIO := False\<rparr>"
  have e1: "hist_ok ?e" by (rule hist_cong [OF inv]) simp_all
  have "hist_ok (put_arm nm (loaded_arm clk nm answer a) ?e)" if a: "arm_of e nm = Some a" "aloading a" for a
  proof -
    let ?b = "loaded_arm clk nm answer a"
    have ac: "arm_core (nextArm e) (running e \<longrightarrow> eloading e) nm a" by (rule core_inv_arm [OF core a(1)])
    then have idle: "\<not> firing a" "token a \<le> nextArm e" using a(2) by (auto simp: arm_core_def)
    have inj: "tokens_inj (core e)" using core by (simp add: core_inv_def arms_inv_def)
    have re: "retry a = Some (ev, t) \<or> event_ok (core e) (nextArm e) ev" if r: "retry ?b = Some (ev, t)" for ev t
    proof -
      have "retry a = Some (ev, t) \<or> (FireToken ev = token a \<and> persistentCal (aspec a) \<and> FireID ev \<noteq> [])"
        using r answer loadable_pending
        by (auto simp: loaded_arm_def Let_def persistentCal_def split: sum.splits if_splits)
      moreover have "aspec c = aspec a" if "core e n = Some c" "token c = token a" for n c
        using tokens_other [OF inj put_core [OF a(1)], of n c] that put_core [OF a(1)] by (cases "n = nm") auto
      ultimately show ?thesis using idle(2) by (auto simp: event_ok_def)
    qed
    have "core ?e = core e" by (simp add: core_def)
    then show ?thesis
      using e1 put_core [OF a(1)] re idle_no_callback [OF core a(1) idle(1)]
        hist_put [of "core e" "jobs e" "hist e" "nextArm e" nm "core_arm a" "core_arm ?b"]
      by (simp add: hist_ok_def)
  qed
  then show ?thesis using l e1
    by (auto simp: load_done_def Let_def load_current_def split: option.split)
next
  case False
  then have "load_done cs clk answer e = e" by (auto simp: load_done_def split: option.split bool.split)
  then show ?thesis using inv by simp
qed

lemma Stop_hist: "hist_ok e \<Longrightarrow> hist_ok (StopEngine e)"
  by (erule hist_cong) (simp_all add: StopEngine_def)

lemma timer_step_hist:
  "engine_inv e \<Longrightarrow> hist_ok e \<Longrightarrow> hist_ok (timer_step cs clk act e)"
  by (cases act)
     (auto simp: engine_invD(1) Arm_hist Disarm_hist Retain_hist UnitActive_hist RecordResult_hist Retry_hist
       ClockChanged_hist fireDue_def fireDue_hist Stop_hist plan_pick_hist plan_publish_hist load_pick_hist
       load_lock_hist persist_lock_hist persist_done_hist deliver_hist finish_hist commit_hist
       intro: load_done_hist split: sum.split)

section \<open>Accepted occurrences\<close>

text \<open>
  Every accepted occurrence was due when it was accepted, and the accepted persistent occurrences
  carry the identifiers of the engine's namespace in the order of their numbers.
\<close>

fun accepted_ids :: "tevent list \<Rightarrow> string list" where
  "accepted_ids (Accepted ev s t # h) = (if FireID ev = [] then [] else [FireID ev]) @ accepted_ids h"
| "accepted_ids (x # h) = accepted_ids h"
| "accepted_ids [] = []"

definition accepted_ok :: "engine \<Rightarrow> bool" where
  "accepted_ok e \<longleftrightarrow>
     (\<forall>ev s t. Accepted ev s t \<in> set (hist e) \<longrightarrow> s \<le> t)
     \<and> accepted_ids (hist e) = map (activation_id (namespace e)) (rev [1..<Suc (nextActivation e)])"

lemma dueInstant_due:
  assumes "itemDueLocked clk a" "retry a = None"
  shows "dueInstant clk it (a\<lparr>item := None\<rparr>) \<le> clk_now clk"
  using assms
  by (auto simp: engine_defs Let_def split: prod.splits if_splits)

fun is_accepted :: "tevent \<Rightarrow> bool" where
  "is_accepted (Accepted ev s t) = True"
| "is_accepted x = False"

text \<open>The part of the engine that \<open>accepted_ok\<close> depends on: only the firing loop changes it.\<close>

definition acc_view :: "engine \<Rightarrow> tevent list \<times> string \<times> nat" where
  "acc_view e = (filter is_accepted (hist e), namespace e, nextActivation e)"

lemma accepted_ids_filter: "accepted_ids (filter is_accepted h) = accepted_ids h"
  by (induction h rule: accepted_ids.induct) simp_all

lemma accepted_ok_view:
  assumes "acc_view e' = acc_view e"
  shows "accepted_ok e' = accepted_ok e"
proof -
  have f: "filter is_accepted (hist e') = filter is_accepted (hist e)" using assms by (simp add: acc_view_def)
  have "Accepted ev s t \<in> set h \<longleftrightarrow> Accepted ev s t \<in> set (filter is_accepted h)" for ev s t h by simp
  then have "Accepted ev s t \<in> set (hist e') \<longleftrightarrow> Accepted ev s t \<in> set (hist e)" for ev s t by (metis f)
  moreover have "accepted_ids (hist e') = accepted_ids (hist e)"
    by (metis f accepted_ids_filter)
  ultimately show ?thesis using assms by (simp add: accepted_ok_def acc_view_def)
qed

lemma view_put [simp]: "acc_view (put_arm nm a e) = acc_view e"
  and view_reschedule [simp]: "acc_view (rescheduleLocked cs clk nm e) = acc_view e"
  and view_remove [simp]: "acc_view (removeDeadlineLocked nm e) = acc_view e"
  and view_install [simp]: "acc_view (installDeadlineLocked nm t g e) = acc_view e"
  and view_phase [simp]: "acc_view (set_phase k p e) = acc_view e" "acc_view (drop_job k e) = acc_view e"
  by (simp_all add: acc_view_def)

lemma view_upd [simp]:
  "acc_view (e\<lparr>arms := x1\<rparr>) = acc_view e" "acc_view (e\<lparr>pq := x2\<rparr>) = acc_view e"
  "acc_view (e\<lparr>clockGen := x3\<rparr>) = acc_view e" "acc_view (e\<lparr>nextArm := x4\<rparr>) = acc_view e"
  "acc_view (e\<lparr>eloading := x5\<rparr>) = acc_view e" "acc_view (e\<lparr>running := x6\<rparr>) = acc_view e"
  "acc_view (e\<lparr>scheduling := x7\<rparr>) = acc_view e" "acc_view (e\<lparr>scheduleCursor := x8\<rparr>) = acc_view e"
  "acc_view (e\<lparr>plan := x9\<rparr>) = acc_view e" "acc_view (e\<lparr>load := y1\<rparr>) = acc_view e"
  "acc_view (e\<lparr>load := y1, storageIO := y2\<rparr>) = acc_view e" "acc_view (e\<lparr>storageIO := y2\<rparr>) = acc_view e"
  "acc_view (e\<lparr>activeFires := y3\<rparr>) = acc_view e" "acc_view (e\<lparr>jobs := y4, nextJob := y5\<rparr>) = acc_view e"
  "acc_view (e\<lparr>nextArm := x4, eloading := x5\<rparr>) = acc_view e"
  "acc_view (e\<lparr>hist := Fired ev # hist e\<rparr>) = acc_view e"
  "acc_view (e\<lparr>storageIO := y2, hist := Saved nm rt # hist e\<rparr>) = acc_view e"
  "acc_view (e\<lparr>storageIO := y2, hist := hist e\<rparr>) = acc_view e"
  by (simp_all add: acc_view_def)

lemma view_fold: "(\<And>x s. acc_view (f x s) = acc_view s) \<Longrightarrow> acc_view (fold f xs e) = acc_view e"
  by (induction xs arbitrary: e) simp_all

lemma view_ops:
  "acc_view (snd (Arm cs clk spec e)) = acc_view e"
  "acc_view (Disarm nm e) = acc_view e"
  "acc_view (Retry cs clk ev e) = acc_view e"
  "acc_view (RecordResult clk ev success e) = acc_view e"
  "acc_view (StopEngine e) = acc_view e"
  "acc_view (plan_pick e) = acc_view e"
  "acc_view (load_pick nm e) = acc_view e"
  "acc_view (load_lock e) = acc_view e"
  "acc_view (load_done cs clk answer e) = acc_view e"
  "acc_view (deliver_event k e) = acc_view e"
  "acc_view (finish_callback cs clk k e) = acc_view e"
  "acc_view (commit k e) = acc_view e"
  "acc_view (persist_failed j e) = acc_view e"
  "acc_view (clock_arm cs clk nm e) = acc_view e"
  "acc_view (active_arm cs clk unit t nm e) = acc_view e"
  by (simp_all add: Arm_def Disarm_def Retry_def RecordResult_def StopEngine_def plan_pick_def load_pick_def
      load_lock_def load_done_def deliver_event_def finish_callback_def commit_def persist_failed_def spawn_def Let_def
      clock_arm_def active_arm_def split: option.split bool.split)

lemma view_persist_lock: "acc_view (persist_lock k e) = acc_view e"
  by (simp add: persist_lock_def view_ops Let_def split: option.split)

lemma view_persist_done: "acc_view (persist_done cs clk k answer e) = acc_view e"
  by (simp add: persist_done_def view_ops Let_def split: option.split phase.split)

lemma view_plan_publish: "acc_view (plan_publish cs clk e) = acc_view e"
  by (simp add: plan_publish_def Let_def split: option.split prod.split)

lemma view_Retain: "acc_view (Retain keep e) = acc_view e"
  unfolding Retain_def by (rule view_fold) (simp add: Let_def)

lemma view_UnitActive: "acc_view (UnitActive cs clk unit t e) = acc_view e"
  by (simp add: UnitActive_def Let_def view_fold view_ops)

lemma accept_view:
  assumes acc: "accept clk due actual e a = (ev, b, e1)" and ok: "accepted_ok e"
    and due: "retry a = None \<longrightarrow> dueScheduled due \<le> actual"
  shows "accepted_ok e1"
proof (cases "retry a")
  case None
  then show ?thesis using acc ok due
    by (auto simp: accept_def accepted_ok_def Let_def split: if_splits)
next
  case (Some r)
  then have "e1 = e" using acc by (auto simp: accept_def Let_def split: prod.splits if_splits)
  then show ?thesis using ok by simp
qed

lemma consume_accepted:
  assumes ok: "accepted_ok e" and due: "\<And>a. arm_of e (dueName due) = Some a \<Longrightarrow> retry a = None \<Longrightarrow>
      dueScheduled due \<le> actual"
  shows "accepted_ok (consumeLocked cs clk due actual e)"
proof (cases "running e \<and> (\<exists>a. arm_of e (dueName due) = Some a \<and> inst a = dueInst due \<and> gen a = dueGen due
    \<and> \<not> firing a \<and> activeFires e < maxTimerCallbacks)")
  case True
  then obtain a where a: "running e" "arm_of e (dueName due) = Some a" "inst a = dueInst due"
    "gen a = dueGen due" "\<not> firing a" "activeFires e < maxTimerCallbacks" by blast
  obtain ev b e1 where acc: "accept clk due actual e a = (ev, b, e1)" by (cases "accept clk due actual e a")
  have "accepted_ok e1" by (rule accept_view [OF acc ok]) (use due a in simp)
  moreover have "acc_view (consumeLocked cs clk due actual e) = acc_view e1"
    using a acc by (simp add: consumeLocked_def Let_def spawn_def)
  ultimately show ?thesis using accepted_ok_view by blast
next
  case False
  then have "acc_view (consumeLocked cs clk due actual e) = acc_view e"
    by (auto simp: consumeLocked_def split: option.split)
  then show ?thesis using accepted_ok_view ok by blast
qed

lemma fireDue_accepted: "engine_inv e \<Longrightarrow> accepted_ok e \<Longrightarrow> accepted_ok (fireDueLocked cs clk e)"
proof (rule fireDue_keeps)
  fix e it a
  assume "accepted_ok e" and a: "itemDueLocked clk a"
  let ?e = "put_arm (pqName it) (a\<lparr>item := None\<rparr>) (e\<lparr>pq := remove1 it (pq e)\<rparr>)"
  have "acc_view ?e = acc_view e" by simp
  then have "accepted_ok ?e" using accepted_ok_view \<open>accepted_ok e\<close> by blast
  then show "accepted_ok (consumeLocked cs clk \<lparr>dueName = pqName it, dueInst = inst a, dueGen = gen a,
      dueScheduled = dueInstant clk it (a\<lparr>item := None\<rparr>)\<rparr> (clk_now clk) ?e)"
    by (rule consume_accepted) (use dueInstant_due [OF a] in auto)
qed

lemma ClockChanged_accepted: "engine_inv e \<Longrightarrow> accepted_ok e \<Longrightarrow> accepted_ok (ClockChanged cs clk e)"
proof -
  assume inv: "engine_inv e" and ok: "accepted_ok e"
  let ?e = "fireDueLocked cs clk (e\<lparr>clockGen := clockGen e + 1\<rparr>)"
  have "engine_inv (e\<lparr>clockGen := clockGen e + 1\<rparr>)"
    by (rule engine_inv_cong [OF inv]) (simp_all add: load_busy_def)
  moreover have "accepted_ok (e\<lparr>clockGen := clockGen e + 1\<rparr>)"
    using ok accepted_ok_view [of "e\<lparr>clockGen := clockGen e + 1\<rparr>" e] by simp
  ultimately have "accepted_ok ?e" by (rule fireDue_accepted)
  moreover have "acc_view (fold (clock_arm cs clk) xs ?e) = acc_view ?e" for xs
    by (rule view_fold) (rule view_ops)
  ultimately have "accepted_ok (fold (clock_arm cs clk) xs ?e)" for xs using accepted_ok_view by blast
  then show ?thesis using ok by (simp add: ClockChanged_def Let_def)
qed

lemma timer_step_accepted:
  assumes "engine_inv e" "accepted_ok e"
  shows "accepted_ok (timer_step cs clk act e)"
proof (cases "act = AClockChanged \<or> act = AFireDue")
  case True
  then show ?thesis using assms by (auto simp: ClockChanged_accepted fireDue_accepted fireDue_def)
next
  case False
  then have "acc_view (timer_step cs clk act e) = acc_view e"
    by (cases act) (simp_all add: view_ops view_persist_lock view_persist_done view_plan_publish view_Retain
        view_UnitActive split: sum.split)
  then show ?thesis using accepted_ok_view assms(2) by blast
qed

section \<open>Every run\<close>

definition timer_inv :: "engine \<Rightarrow> bool" where
  "timer_inv e \<longleftrightarrow> engine_inv e \<and> hist_ok e \<and> accepted_ok e"

lemma NewEngine_timer_inv: "timer_inv (NewEngine ns store fire)"
  using NewEngine_inv [of ns store fire]
  by (simp add: timer_inv_def hist_ok_def hist_inv_def accepted_ok_def NewEngine_def core_def)

lemma timer_step_timer_inv: "timer_inv e \<Longrightarrow> timer_inv (timer_step cs clk act e)"
  by (simp add: timer_inv_def timer_step_inv timer_step_hist timer_step_accepted)

interpretation timers: invariant_system "\<lambda>e. \<exists>ns store fire. e = NewEngine ns store fire"
  "\<lambda>e e'. \<exists>cs clk act. e' = timer_step cs clk act e" timer_inv
  by unfold_locales (auto simp: NewEngine_timer_inv timer_step_timer_inv)

lemma timer_run_steps:
  "(\<lambda>e e'. \<exists>cs clk act. e' = timer_step cs clk act e)\<^sup>*\<^sup>* e (timer_run cs acts e)"
proof (induction acts arbitrary: e)
  case (Cons x acts)
  obtain clk act where x: "x = (clk, act)" by (cases x)
  have "timer_run cs (x # acts) e = timer_run cs acts (timer_step cs clk act e)"
    by (simp add: timer_run_def x)
  then show ?case using Cons.IH [of "timer_step cs clk act e"]
    by (auto intro: converse_rtranclp_into_rtranclp)
qed (simp add: timer_run_def)

lemma timer_run_inv: "timer_inv (timer_run cs acts (NewEngine ns store fire))"
  by (rule timers.inv_reachable [OF _ timer_run_steps]) blast

end
