(* ===== verification/Timer_Properties.thy ===== *)
theory Timer_Properties
  imports Timer_History
begin

text \<open>
  The properties of the timer engine, for every run from a new engine: every order of the calls,
  the callbacks and the two workers, every clock reading and every answer of the store.
\<close>

section \<open>A timer with two triggers\<close>

text \<open>
  A persistent calendar timer that also has \<open>OnBootSec=\<close>: it is armed and fired at one instant, and
  refreshed at a later one while its activation is still pending.  The store answers the reload with
  what was saved.
\<close>

definition daily :: Calendar where
  "daily = \<lparr>CalRaw = ''*-*-* 00:00:00'', RestrictWeekdays = False, Weekdays = no_weekdays,
     Year = -1, Month = -1, Day = -1, Hour = 0, Minute = 0, Second = 0\<rparr>"

definition later_search :: cal_search where
  "later_search = \<lparr>Next = (\<lambda>c t. t + 1000), Previous = (\<lambda>c t. 0)\<rparr>"

definition boot_spec :: TSpec where
  "boot_spec = \<lparr>ConfigRevision = [], TName = ''a.timer'', TUnit = ''a.service'', OnBootSec = 10,
     OnStartupSec = 0, OnUnitActiveSec = 0, OnCalendar = [daily], TPersistent = True,
     OnBootSecSet = True, OnStartupSecSet = False, OnUnitActiveSecSet = False\<rparr>"

definition at_time :: "int \<Rightarrow> Clock" where
  "at_time t = \<lparr>clk_now = t, sinceBoot = t, sinceStart = t\<rparr>"

definition arm_acts :: "(Clock \<times> timer_act) list" where
  "arm_acts = map (Pair (at_time 100)) [AArm boot_spec, ALoadPick ''a.timer'', ALoadLock,
     ALoadDone (Inr new_Runtime), APlanPick, APlanPublish]"

definition fire_acts :: "(Clock \<times> timer_act) list" where
  "fire_acts = map (Pair (at_time 100)) [AFireDue, APersistLock 0, APersistDone 0 None, ADeliver 0]"


definition stored_rt :: Runtime where
  "stored_rt = \<lparr>RtActivation = \<lparr>ActID = ''n-1'', ActUnit = ''a.service'', ActResult = ''pending'',
       ActScheduled = 10, ActActual = 100\<rparr>,
     LastScheduled = 10, LastActual = 100, LastSuccess = 0, LastUnitActive = 0,
     FiredBoot = False, FiredStartup = False\<rparr>"

definition refresh_acts :: "(Clock \<times> timer_act) list" where
  "refresh_acts = map (Pair (at_time 200)) [AArm boot_spec, ALoadPick ''a.timer'', ALoadLock,
     ALoadDone (Inr stored_rt), AFinish 0, AFireDue, APersistLock 1, APersistDone 1 None, ADeliver 1,
     ARecord \<lparr>FireID = ''n-1'', FireName = ''a.timer'', FireUnit = ''a.service'', FireToken = 2\<rparr> True,
     APersistLock 2, APersistDone 2 None, ACommit 2, AFinish 1, APlanPick, APlanPublish, AFireDue]"

definition armed_engine :: engine where
  "armed_engine = timer_run later_search arm_acts (NewEngine ''n'' True True)"

definition saved_engine :: engine where
  "saved_engine = timer_run later_search (arm_acts @ butlast fire_acts) (NewEngine ''n'' True True)"

section \<open>Bounds\<close>

lemma distinct_map_filter_tokens:
  "timer_inv e \<Longrightarrow> distinct (map job_token (filter jcallback (jobs e)))"
  by (simp add: timer_inv_def engine_inv_def core_inv_def jobs_inv_def callbacks_def)

text \<open>
  C26: However the calls of the manager, the callbacks, the planner and the loader interleave, the
  engine never has more than 1024 armed timers, never more than 32 callbacks in flight, counts the
  callbacks in flight exactly, has at most one callback in flight for one arm of a timer, and never
  performs two operations of the store at the same time.
\<close>

theorem timer_engine_bounded:
  fixes cs acts ns store fire
  defines "e \<equiv> timer_run cs acts (NewEngine ns store fire)"
  shows "length (arms e) \<le> 1024
    \<and> activeFires e = length (filter jcallback (jobs e)) \<and> activeFires e \<le> 32
    \<and> distinct (map (\<lambda>j. FireToken (jevent j)) (filter jcallback (jobs e)))
    \<and> length (filter is_saving (jobs e)) + of_bool (load_busy e) \<le> 1"
proof -
  have inv: "timer_inv e" unfolding e_def by (rule timer_run_inv)
  then have "count_inv e" "storage_inv e" by (simp_all add: timer_inv_def engine_inv_def core_inv_def)
  then show ?thesis
    using distinct_map_filter_tokens [OF inv]
    by (simp add: count_inv_def storage_inv_def keys_def callbacks_def MaxArmedTimers_def maxTimerCallbacks_def)
qed

section \<open>Deadlines\<close>

lemma filter_one:
  assumes "distinct xs" "x \<in> set xs" "P x" "\<And>y. y \<in> set xs \<Longrightarrow> P y \<Longrightarrow> y = x"
  shows "filter P xs = [x]"
proof -
  obtain us vs where xs: "xs = us @ x # vs" using assms(2) by (meson split_list)
  then have "y \<in> set us \<union> set vs \<Longrightarrow> \<not> P y" for y using assms(1) assms(4) [of y] by auto
  then show ?thesis using assms(3) by (simp add: xs filter_False)
qed

text \<open>
  C27: While the engine runs, the heap holds for an armed timer exactly the deadline that the timer
  has accepted and that the status reports: one entry, with the time and the generation of the arm,
  and no entry if there is none.  A timer waiting for its state has a loader at work, a timer waiting
  for a calendar search has a planner at work, and a timer that is firing has a callback in flight, so
  that none of them waits for a worker that does not exist.
\<close>

theorem timer_deadline_exact:
  fixes cs acts ns store fire
  defines "e \<equiv> timer_run cs acts (NewEngine ns store fire)"
  assumes a: "arm_of e nm = Some a" and run: "running e"
  shows "filter (\<lambda>it. pqName it = nm) (pq e) =
           (if aok a then [\<lparr>pqName = nm, pqWhen = nextAt a, pqGen = gen a\<rparr>] else [])
         \<and> (aloading a \<longrightarrow> eloading e) \<and> (planning a \<longrightarrow> scheduling e)
         \<and> (firing a \<longrightarrow> (\<exists>j \<in> set (jobs e). jcallback j \<and> FireToken (jevent j) = token a))"
proof -
  have inv: "engine_inv e" using timer_run_inv unfolding e_def timer_inv_def by blast
  note i = engine_invD [OF inv]
  have s: "arm_sched (scheduling e) a" using i(2) a run unfolding sched_except_def by blast
  have mine: "item a = Some y" if "y \<in> set (pq e)" "pqName y = nm" for y
    using heap_okD(5) [OF i(4) that(1)] that(2) a by (metis option.inject)
  have "filter (\<lambda>it. pqName it = nm) (pq e) =
      (if aok a then [\<lparr>pqName = nm, pqWhen = nextAt a, pqGen = gen a\<rparr>] else [])"
  proof (cases "item a")
    case None
    then have "\<not> aok a" using s by (simp add: arm_sched_def)
    moreover have "pqName y \<noteq> nm" if "y \<in> set (pq e)" for y
    proof
      assume "pqName y = nm"
      then have "item a = Some y" by (rule mine [OF that])
      then show False using None by simp
    qed
    then have "filter (\<lambda>it. pqName it = nm) (pq e) = []" by (simp add: filter_empty_conv)
    ultimately show ?thesis by simp
  next
    case (Some it)
    note h = heap_okD(4) [OF i(4) a Some]
    have "aok a" "pqWhen it = nextAt a" using s Some by (simp_all add: arm_sched_def)
    then have it: "it = \<lparr>pqName = nm, pqWhen = nextAt a, pqGen = gen a\<rparr>" "aok a"
      using h by simp_all
    have "filter (\<lambda>it. pqName it = nm) (pq e) = [it]"
    proof (rule filter_one [OF heap_okD(2) [OF i(4)]])
      show "it \<in> set (pq e)" "pqName it = nm" using h by simp_all
      show "y = it" if "y \<in> set (pq e)" "pqName y = nm" for y using mine [OF that] Some by simp
    qed
    then show ?thesis using it by simp
  qed
  moreover have "aloading a \<longrightarrow> eloading e"
    using core_inv_arm [OF i(1) a] run by (simp add: arm_core_def)
  moreover have "planning a \<longrightarrow> scheduling e" using s by (simp add: arm_sched_def)
  moreover have "\<exists>j \<in> set (jobs e). jcallback j \<and> job_token j = token a" if "firing a"
  proof -
    have "core e nm = Some (core_arm a)" "firing (core_arm a)" using a that by (simp_all add: core_def)
    then have "token (core_arm a) \<in> job_token ` set (callbacks (jobs e))"
      using i(1) unfolding core_inv_def jobs_inv_def by blast
    then show ?thesis by (auto simp: callbacks_def)
  qed
  ultimately show ?thesis by blast
qed

theorem timer_deadline_exact_witness:
  "running armed_engine \<and> Armed armed_engine ''a.timer''
   \<and> filter (\<lambda>it. pqName it = ''a.timer'') (pq armed_engine) = [\<lparr>pqName = ''a.timer'', pqWhen = 100, pqGen = 2\<rparr>]"
proof -
  have "map_option (\<lambda>a. (aok a, nextAt a, gen a)) (arm_of armed_engine ''a.timer'') = Some (True, 100, 2)"
    by code_simp
  then obtain a where a: "arm_of armed_engine ''a.timer'' = Some a" "aok a" "nextAt a = 100" "gen a = 2"
    by auto
  have run: "running armed_engine" by code_simp
  show ?thesis
    using timer_deadline_exact [of later_search arm_acts "''n''" True True, folded armed_engine_def, OF a(1) run]
      a run by (simp add: Armed_def)
qed

section \<open>Firing on time\<close>

lemma bestDue_None:
  assumes "bestDue clk e = None" "it \<in> set (pq e)" "eligible e it"
  shows "\<not> itemDueLocked clk (the (arm_of e (pqName it)))"
proof
  assume due: "itemDueLocked clk (the (arm_of e (pqName it)))"
  let ?f = "\<lambda>it best. if eligible e it \<and> itemDueLocked clk (the (arm_of e (pqName it)))
      \<and> (case best of None \<Rightarrow> True | Some b \<Rightarrow> pqLess it b) then Some it else best"
  have stay: "b \<noteq> None \<Longrightarrow> fold ?f xs b \<noteq> None" for xs b
    by (induction xs arbitrary: b) auto
  have "it \<in> set xs \<Longrightarrow> fold ?f xs b \<noteq> None" for xs b
  proof (induction xs arbitrary: b)
    case (Cons x xs)
    show ?case
    proof (cases "it = x")
      case True
      then have "?f x b \<noteq> None" using assms(3) due by (cases b) auto
      then show ?thesis using stay [of "?f x b" xs] by simp
    next
      case False
      then show ?thesis using Cons by simp
    qed
  qed simp
  then show False using assms(1,2) unfolding bestDue_def by blast
qed

lemma fireDue_exhausts: "engine_inv e \<Longrightarrow> bestDue clk (fireDueLocked cs clk e) = None"
proof (induction cs clk e rule: fireDueLocked.induct)
  case (1 cs clk e)
  obtain r e1 where pop: "popDueLocked clk e = (r, e1)" by (cases "popDueLocked clk e")
  note h = engine_invD(4) [OF "1.prems"]
  from h pop show ?case
  proof (cases rule: popDue_cases)
    case 1
    then have "bestDue clk e = None"
      using pop by (auto simp: popDueLocked_def dropStale_id [OF h] Let_def split: option.splits)
    then show ?thesis using 1 pop by (subst fireDueLocked.simps) simp
  next
    case (2 it a)
    have "engine_inv (consumeLocked cs clk (the r) (clk_now clk) e1)"
      unfolding 2(1,7) option.sel by (rule pop_consume_inv [OF "1.prems" 2(2-5)])
    then show ?thesis using "1.IH" [of r e1] pop 2(1) by (subst fireDueLocked.simps) simp
  qed
qed

lemma wait_fold:
  fixes d0 :: int and f0 and w :: "pqItem \<Rightarrow> int" and P
  defines "g \<equiv> \<lambda>it (d, found). if \<not> P it then (d, found)
      else let x = max 0 (w it) in if \<not> found \<or> x < d then (x, True) else (d, found)"
  shows "fold g xs (d0, f0) = (d, f) \<Longrightarrow> 0 \<le> d0 \<Longrightarrow>
     0 \<le> d \<and> (f0 \<longrightarrow> f \<and> d \<le> d0) \<and> (\<forall>it \<in> set (filter P xs). f \<and> d \<le> max 0 (w it))"
proof (induction xs arbitrary: d0 f0)
  case (Cons x xs)
  obtain d1 f1 where 1: "g x (d0, f0) = (d1, f1)" by (cases "g x (d0, f0)")
  then have "0 \<le> d1" "f0 \<longrightarrow> f1 \<and> d1 \<le> d0" "P x \<longrightarrow> f1 \<and> d1 \<le> max 0 (w x)"
    using Cons.prems(2) by (auto simp: g_def Let_def split: if_splits)
  moreover have "0 \<le> d \<and> (f1 \<longrightarrow> f \<and> d \<le> d1) \<and> (\<forall>it \<in> set (filter P xs). f \<and> d \<le> max 0 (w it))"
    using Cons.IH [of d1 f1] Cons.prems(1) 1 \<open>0 \<le> d1\<close> by simp
  ultimately show ?case by (auto intro: order_trans)
qed simp

text \<open>
  C28: The engine's loop sleeps no longer than any timer that may fire has to wait, and when it
  wakes up and fires what is due, no timer that may fire is left behind with a due deadline.  A timer
  may fire when its deadline is current, it has no callback in flight and a callback slot is free.
\<close>

theorem timer_no_missed_deadline:
  fixes cs acts ns store fire changed clk
  defines "e \<equiv> timer_run cs acts (NewEngine ns store fire)"
  defines "w \<equiv> fst (waitDuration changed clk e)" and "e' \<equiv> fireDue cs clk e"
  shows "list_all (\<lambda>it. snd w \<and> 0 \<le> fst w \<and> fst w \<le> max 0 (itemWaitLocked clk (the (arm_of e (pqName it)))))
           (filter (eligible e) (pq e))
       \<and> list_all (\<lambda>it. \<not> itemDueLocked clk (the (arm_of e' (pqName it)))) (filter (eligible e') (pq e'))"
proof -
  have inv: "engine_inv e" using timer_run_inv unfolding e_def timer_inv_def by blast
  have id: "dropStaleLocked e = e" by (rule dropStale_id [OF engine_invD(4) [OF inv]])
  let ?w = "\<lambda>it. itemWaitLocked clk (the (arm_of e (pqName it)))"
  let ?g = "\<lambda>it (d, found). if \<not> eligible e it then (d, found)
      else let x = max 0 (?w it) in if \<not> found \<or> x < d then (x, True) else (d, found)"
  obtain d f where df: "fold ?g (pq e) (maxWait, False) = (d, f)" by (cases "fold ?g (pq e) (maxWait, False)")
  have b: "0 \<le> d" "\<And>it. it \<in> set (filter (eligible e) (pq e)) \<Longrightarrow> f \<and> d \<le> max 0 (?w it)"
    using wait_fold [OF df] by (simp_all add: maxWait_def)
  have w: "w = (if \<not> f then (if \<not> changed then (maxWait, True) else (0, False))
      else if \<not> changed \<and> maxWait < d then (maxWait, True) else (d, True))"
    using df by (simp add: w_def waitDuration_def Let_def id)
  have "snd w \<and> 0 \<le> fst w \<and> fst w \<le> max 0 (?w it)" if "it \<in> set (filter (eligible e) (pq e))" for it
    using b(2) [OF that] b(1) by (simp add: w maxWait_def)
  moreover have "bestDue clk e' = None" unfolding e'_def fireDue_def by (rule fireDue_exhausts [OF inv])
  ultimately show ?thesis by (auto simp: list_all_iff bestDue_None)
qed

section \<open>Delivery\<close>

lemma durable_split: "durable (xs @ Fired ev # ys) \<Longrightarrow> FireID ev \<noteq> [] \<Longrightarrow> on_disk ys ev"
  by (induction xs rule: durable.induct) auto

lemma activation_id_inj: "activation_id ns m = activation_id ns n \<longleftrightarrow> m = n"
proof
  assume "activation_id ns m = activation_id ns n"
  then have "digits_val 0 (Itoa m) = digits_val 0 (Itoa n)" by (simp add: activation_id_def)
  then show "m = n" by (simp add: digits_val_Itoa)
qed simp

text \<open>
  C29: An occurrence is delivered only for a timer that is armed under the occurrence's token; and if
  that timer is a persistent calendar timer, the occurrence has an identifier and the store has
  confirmed, in an earlier step, a record of that timer with this identifier.  So a crash after the
  delivery finds the intent on disk.
\<close>

theorem timer_intent_durable:
  fixes cs acts ns store fire
  defines "e \<equiv> timer_run cs acts (NewEngine ns store fire)"
  assumes delivered: "hist (deliver_event k e) = Fired ev # hist e"
  shows "\<exists>a. arm_of e (FireName ev) = Some a \<and> token a = FireToken ev
     \<and> (persistentCal (aspec a) \<longrightarrow>
          FireID ev \<noteq> [] \<and> (\<exists>rt. Saved (FireName ev) rt \<in> set (hist e) \<and> ActID (RtActivation rt) = FireID ev))"
proof -
  have ok: "hist_ok e" using timer_run_inv unfolding timer_inv_def e_def by blast
  obtain j where j: "find_job k e = Some j" "jcallback j" "jphase j = Persisted" "jevent j = ev"
    and c: "Current e (FireName ev) (FireToken ev)"
    using delivered by (auto simp: deliver_event_def split: option.splits if_splits)
  obtain a where a: "arm_of e (FireName ev) = Some a" "token a = FireToken ev"
    using c by (auto simp: Current_def split: option.splits)
  have jh: "job_hist (core e) (hist e) (nextArm e) j" by (rule hist_okD(1) [OF ok find_job_mem [OF j(1)]])
  have "core e (FireName ev) = Some (core_arm a)" by (simp add: core_def a(1))
  then have "FireID ev = [] \<longleftrightarrow> \<not> persistentCal (aspec a)"
    using jh a(2) unfolding job_hist_def event_ok_def j(4) by fastforce
  moreover have "FireID ev \<noteq> [] \<Longrightarrow> on_disk (hist e) ev"
    using jh j(2,3) unfolding job_hist_def intent_ok_def j(4) by simp
  ultimately show ?thesis using a unfolding on_disk_def by blast
qed

theorem timer_intent_durable_witness:
  "persistentCal boot_spec \<and> (\<exists>rt. Saved ''a.timer'' rt \<in> set (hist saved_engine) \<and> ActID (RtActivation rt) = ''n-1'')"
proof -
  let ?ev = "\<lparr>FireID = ''n-1'', FireName = ''a.timer'', FireUnit = ''a.service'', FireToken = 1\<rparr>"
  have p: "persistentCal boot_spec" by code_simp
  have "hist (deliver_event 0 saved_engine) = Fired ?ev # hist saved_engine" by code_simp
  from timer_intent_durable [of 0 later_search "arm_acts @ butlast fire_acts" "''n''" True True, folded saved_engine_def, OF this]
  obtain a where a: "arm_of saved_engine ''a.timer'' = Some a"
    "persistentCal (aspec a) \<longrightarrow> (\<exists>rt. Saved ''a.timer'' rt \<in> set (hist saved_engine) \<and> ActID (RtActivation rt) = ''n-1'')"
    by auto
  have "map_option aspec (arm_of saved_engine ''a.timer'') = Some boot_spec" by code_simp
  then show ?thesis using a p by simp
qed

text \<open>
  C30: No occurrence is accepted before it is due, and no activation identifier is given to two
  accepted occurrences.
\<close>

theorem timer_accepts_due_once:
  fixes cs acts ns store fire
  defines "h \<equiv> hist (timer_run cs acts (NewEngine ns store fire))"
  shows "list_all (\<lambda>x. case x of Accepted ev scheduled actual \<Rightarrow> scheduled \<le> actual | _ \<Rightarrow> True) h
         \<and> distinct (accepted_ids h)"
proof -
  let ?e = "timer_run cs acts (NewEngine ns store fire)"
  have ok: "accepted_ok ?e" using timer_run_inv unfolding timer_inv_def by blast
  have "inj (activation_id (namespace ?e))" by (rule injI) (simp add: activation_id_inj)
  then have "distinct (accepted_ids h)" using ok by (simp add: h_def accepted_ok_def distinct_map inj_on_def)
  then show ?thesis using ok by (auto simp: h_def accepted_ok_def list_all_iff split: tevent.split)
qed

text \<open>
  A refresh of a timer whose activation is pending fires its \<open>OnBootSec=\<close> trigger a second time.
  The refresh reloads the timer's state, the store does not hold \<open>FiredBoot\<close>, and the loader overwrites
  the flag in memory with the stored default; after the recovered activation has been recorded as
  successful, the trigger that fell due 10 after boot is accepted again at 200, although the calendar
  trigger is never due.
\<close>

theorem timer_refresh_refires_boot:
  "filter is_accepted (hist (timer_run later_search (arm_acts @ fire_acts @ refresh_acts) (NewEngine ''n'' True True))) =
     [Accepted \<lparr>FireID = ''n-2'', FireName = ''a.timer'', FireUnit = ''a.service'', FireToken = 2\<rparr> 10 200,
      Accepted \<lparr>FireID = ''n-1'', FireName = ''a.timer'', FireUnit = ''a.service'', FireToken = 1\<rparr> 10 100]
   \<and> OnBootSec boot_spec = 10 \<and> Next later_search daily 200 = 1200"
  by code_simp

end
