(* ===== verification/Manager_Launch.thy ===== *)
theory Manager_Launch
  imports Start_Limit Transaction
begin

text \<open>
  The launch decisions of the manager: \<open>internal/manager/lifecycle_launch.go\<close> (\<open>acceptLaunch\<close>,
  \<open>recordServiceLaunch\<close> and what they call), the admission of a recovery in \<open>lifecycle_events.go\<close>, the
  start limit of \<open>startlimit.go\<close> and the propagation of a lost peer in \<open>lifecycle_bound.go\<close>.  Every
  definition is one section under the manager's mutex.  A runtime record is known by a number, as the code
  compares pointers; a process is a number as well; handles that are only tested for nil are flags; the
  generation counters do not wrap.  A recorded diagnostic and the wake-up of start waiters are not part of
  the state.  The origin of an activation is an interface of the code and a record of functions here.
\<close>

section \<open>State\<close>

datatype cleanupResource = cleanupWorkload | cleanupNotify | cleanupWatch | cleanupHelper | cleanupJournal

record unitRuntime =
  rtId :: nat
  rtUnit :: "Unit option"
  invocationUnit :: "Unit option"
  configRevision :: string
  invocationRevision :: string
  unavailable :: bool
  operations :: int
  capturing :: bool
  rtState :: State
  rtSub :: Substate
  rtGen :: nat
  stopEpoch :: nat
  rtProc :: "nat option"
  rtNotify :: bool
  rtHub :: bool
  startCancel :: bool
  restartCancel :: bool
  restartAttempt :: "32 word"
  restartDelayOf :: int
  restartGeneration :: nat
  stopping :: bool
  cleanup :: "cleanupResource set"
  rtErr :: string
  startTimes :: "int list"
  health :: string
  probeFailures :: int
  nativeNextProbe :: int
  nativeProbeError :: string

record runtimeIdentity =
  idName :: name
  idRecord :: nat
  idGen :: nat

record boundStopMember =
  bsOwner :: runtimeIdentity
  bsEpoch :: nat
  bsUnit :: "Unit option"

record Manager =
  units :: "(name \<times> unitRuntime) list"
  mgrClosed :: bool
  AdmissionHold :: string
  boundStops :: "(name \<times> boundStopMember) list"
  boundWorker :: bool

abbreviation rt_of :: "Manager \<Rightarrow> name \<Rightarrow> unitRuntime option" where
  "rt_of m \<equiv> map_of (units m)"

definition put_rt :: "name \<Rightarrow> unitRuntime \<Rightarrow> Manager \<Rightarrow> Manager" where
  "put_rt nm rt m = m\<lparr>units := AList.update nm rt (units m)\<rparr>"

record activationOrigin =
  validLocked :: "Manager \<Rightarrow> bool"
  countsStartLimit :: bool
  isRestartOrigin :: bool

record plannedStart =
  origin :: "activationOrigin option"
  plUnit :: Unit
  plRevision :: string
  plRecord :: nat
  plStopEpoch :: nat
  plLaunched :: bool
  plGen :: nat
  plLaunchGen :: nat
  joiningOneshot :: bool

record launchEffect =
  efOwner :: runtimeIdentity
  efUnit :: "Unit option"
  efRevision :: string
  efPrevious :: "nat option"
  efPreviousUnit :: "Unit option"

text \<open>\<open>LaunchPanic\<close> is the panic of a nil dereference: a record without any definition.\<close>

datatype LaunchError = LaunchSkipped | LaunchMsg string | LaunchPanic

section \<open>Operations on one record\<close>

definition ownedUnit :: "unitRuntime \<Rightarrow> Unit option" where
  "ownedUnit rt = (case invocationUnit rt of Some u \<Rightarrow> Some u | None \<Rightarrow> rtUnit rt)"

definition rt_step :: "Event \<Rightarrow> unitRuntime \<Rightarrow> unitRuntime \<times> bool" where
  "rt_step ev rt =
     (case Step (rtState rt) (rtSub rt) ev of
        (st, sub, Some err) \<Rightarrow> (rt, False)
      | (st, sub, None) \<Rightarrow> (rt\<lparr>rtState := st, rtSub := sub\<rparr>, True))"

definition cancelRestart :: "unitRuntime \<Rightarrow> unitRuntime" where
  "cancelRestart rt = rt\<lparr>restartDelayOf := 0, restartCancel := False\<rparr>"

definition startLimitOf :: "Unit option \<Rightarrow> int \<times> int" where
  "startLimitOf uo = (case uo of None \<Rightarrow> (0, 0) | Some u \<Rightarrow> (StartLimitInterval u, StartLimitBurst u))"

definition startLimitHitLocked :: "int \<Rightarrow> unitRuntime \<Rightarrow> bool" where
  "startLimitHitLocked now rt =
     (case startLimitOf (ownedUnit rt) of (interval, burst) \<Rightarrow> StartLimitHit (startTimes rt) now interval burst)"

definition recordStartLocked :: "int \<Rightarrow> unitRuntime \<Rightarrow> unitRuntime" where
  "recordStartLocked now rt =
     (case startLimitOf (ownedUnit rt) of (interval, burst) \<Rightarrow>
        rt\<lparr>startTimes := RecordStart (startTimes rt) now interval burst\<rparr>)"

definition scmServiceName :: "Unit option \<Rightarrow> string" where
  "scmServiceName uo =
     (case uo of None \<Rightarrow> [] | Some u \<Rightarrow>
        (case Service u of None \<Rightarrow> [] | Some s \<Rightarrow> if SType s \<noteq> TypeSCM then [] else ServiceName s))"

definition scheduledTaskName :: "Unit option \<Rightarrow> string" where
  "scheduledTaskName uo =
     (case uo of None \<Rightarrow> [] | Some u \<Rightarrow>
        (case Service u of None \<Rightarrow> [] | Some s \<Rightarrow> if SType s \<noteq> TypeScheduledTask then [] else TaskName s))"

definition native_unit :: "Unit option \<Rightarrow> bool" where
  "native_unit uo \<longleftrightarrow> scmServiceName uo \<noteq> [] \<or> scheduledTaskName uo \<noteq> []"

definition retainWithoutConfig :: "unitRuntime \<Rightarrow> bool" where
  "retainWithoutConfig rt =
     (if capturing rt \<or> rtProc rt \<noteq> None \<or> rtNotify rt \<or> rtHub rt \<or> operations rt \<noteq> 0 \<or> cleanup rt \<noteq> {} then True
      else native_unit (ownedUnit rt) \<and> rtState rt \<noteq> Inactive)"

definition oneshot :: "Unit option \<Rightarrow> bool" where
  "oneshot uo = (case uo of None \<Rightarrow> False | Some u \<Rightarrow>
     (case Service u of None \<Rightarrow> False | Some s \<Rightarrow> SType s = TypeOneshot))"

definition remains :: "Unit option \<Rightarrow> bool" where
  "remains uo = (case uo of None \<Rightarrow> False | Some u \<Rightarrow>
     (case Service u of None \<Rightarrow> False | Some s \<Rightarrow> SType s = TypeOneshot \<and> RemainAfterExit s))"

section \<open>Bound peers\<close>

definition currentLocked :: "Manager \<Rightarrow> runtimeIdentity \<Rightarrow> bool" where
  "currentLocked m i = (case rt_of m (idName i) of None \<Rightarrow> False
     | Some rt \<Rightarrow> rtId rt = idRecord i \<and> rtGen rt = idGen i)"

definition containsBoundName :: "name list \<Rightarrow> name \<Rightarrow> bool" where
  "containsBoundName names nm \<longleftrightarrow> list_ex (\<lambda>candidate. NormalizeName candidate = nm) names"

definition boundPeersActiveLocked :: "Manager \<Rightarrow> Unit \<Rightarrow> bool" where
  "boundPeersActiveLocked m u \<longleftrightarrow>
     list_all (\<lambda>peer0. let peer = NormalizeName peer0 in
        \<not> containsBoundName (After u) peer
        \<or> (case rt_of m peer of None \<Rightarrow> False
           | Some rt \<Rightarrow> rtState rt = Active \<and> \<not> stopping rt \<and> cleanup rt = {})) (BindsTo u)"

definition disarmStartLocked :: "name \<Rightarrow> Manager \<Rightarrow> Manager" where
  "disarmStartLocked nm m =
     (case rt_of m nm of None \<Rightarrow> m
      | Some rt \<Rightarrow> put_rt nm (cancelRestart (rt\<lparr>stopping := True, stopEpoch := stopEpoch rt + 1\<rparr>)) m)"

definition stopGraphLocked :: "Manager \<Rightarrow> Graph res" where
  "stopGraphLocked m =
     Build (map Some (List.map_filter
       (\<lambda>(nm, rt). if rtState rt \<noteq> Inactive \<or> retainWithoutConfig rt \<or> restartCancel rt then ownedUnit rt else rtUnit rt)
       (units m)))"

definition bound_to :: "name \<Rightarrow> name \<times> unitRuntime \<Rightarrow> bool" where
  "bound_to peer = (\<lambda>(nm, rt). case ownedUnit rt of None \<Rightarrow> False
     | Some u \<Rightarrow> nm \<noteq> peer \<and> \<not> stopping rt \<and> (rtState rt = Active \<or> rtState rt = Activating)
         \<and> containsBoundName (BindsTo u) peer)"

definition plan_message :: "PlanError \<Rightarrow> string" where
  "plan_message e = (case e of PlanMsg s \<Rightarrow> s | PlanMissing x \<Rightarrow> MissingUnitError_Error (Some x)
     | PlanCycle c \<Rightarrow> CycleError_Error (Some c))"

definition bound_plan :: "name list \<Rightarrow> Manager \<Rightarrow> string + Transaction" where
  "bound_plan rs m =
     (case stopGraphLocked m of Inl e \<Rightarrow> Inl e
      | Inr g \<Rightarrow> (case PlanStop (Some g) rs of Inl e \<Rightarrow> Inl (plan_message e) | Inr tx \<Rightarrow> Inr tx))"

text \<open>The body of the loop over the plan's units: \<open>operations\<close> of the record an outdated entry holds is given back.\<close>

definition give_back :: "runtimeIdentity \<Rightarrow> Manager \<Rightarrow> Manager" where
  "give_back i m = (case rt_of m (idName i) of None \<Rightarrow> m
     | Some rt \<Rightarrow> if rtId rt = idRecord i then put_rt (idName i) (rt\<lparr>operations := operations rt - 1\<rparr>) m else m)"

definition enqueue_bound :: "name \<Rightarrow> Manager \<Rightarrow> Manager" where
  "enqueue_bound nm m0 =
     (let m = disarmStartLocked nm m0 in
      case rt_of m nm of None \<Rightarrow> m
      | Some rt \<Rightarrow> (put_rt nm (rt\<lparr>operations := operations rt + 1\<rparr>) m)
          \<lparr>boundStops := AList.update nm \<lparr>bsOwner = \<lparr>idName = nm, idRecord = rtId rt, idGen = rtGen rt\<rparr>,
              bsEpoch = stopEpoch rt, bsUnit = ownedUnit rt\<rparr> (boundStops m)\<rparr>)"

definition queue_member :: "name \<Rightarrow> Manager \<Rightarrow> Manager" where
  "queue_member nm m =
     (case rt_of m nm of None \<Rightarrow> m
      | Some rt \<Rightarrow>
          if rtState rt \<noteq> Active \<and> rtState rt \<noteq> Activating \<and> rtProc rt = None \<and> cleanup rt = {} then m
          else case map_of (boundStops m) nm of
                 None \<Rightarrow> enqueue_bound nm m
               | Some old \<Rightarrow>
                   if currentLocked m (bsOwner old) \<and> bsEpoch old = stopEpoch rt then m
                   else enqueue_bound nm (give_back (bsOwner old) m))"

definition fail_bound :: "string \<Rightarrow> name \<Rightarrow> Manager \<Rightarrow> Manager" where
  "fail_bound msg nm m0 =
     (let m = disarmStartLocked nm m0 in
      case rt_of m nm of None \<Rightarrow> m
      | Some rt \<Rightarrow> put_rt nm (rt\<lparr>rtErr := ''bound dependency stop plan: '' @ msg\<rparr>) m)"

definition queueBoundStopsLocked :: "name \<Rightarrow> Manager \<Rightarrow> Manager" where
  "queueBoundStopsLocked peer m =
     (if mgrClosed m then m
      else let rs = sort_strings (map fst (filter (bound_to peer) (units m))) in
           if rs = [] then m
           else case bound_plan rs m of
                  Inl msg \<Rightarrow> fold (fail_bound msg) rs m
                | Inr tx \<Rightarrow>
                    let m' = fold queue_member (Units (Some tx)) m in
                    if boundStops m' \<noteq> [] then m'\<lparr>boundWorker := True\<rparr> else m')"

section \<open>Launch\<close>

definition failStartLimitLocked :: "name \<Rightarrow> unitRuntime \<Rightarrow> Manager \<Rightarrow> Manager" where
  "failStartLimitLocked nm rt0 m =
     (let rt1 = (if rtState rt0 \<in> {Active, Activating, Inactive} then fst (rt_step EventMainExited rt0) else rt0);
          rt = rt1\<lparr>rtErr := ReasonStartLimit\<rparr>;
          m1 = put_rt nm rt m
      in case rtUnit rt of None \<Rightarrow> m1
         | Some u \<Rightarrow> if \<not> stopping rt then queueBoundStopsLocked (Name u) m1 else m1)"

type_synonym launch_result = "Manager \<times> plannedStart option \<times> (LaunchError + launchEffect option)"

text \<open>The last part of \<open>acceptLaunch\<close>: the launch is accepted under a new generation.\<close>

definition accept_effect :: "name \<Rightarrow> unitRuntime \<Rightarrow> bool \<Rightarrow> plannedStart option \<Rightarrow> Unit option \<Rightarrow> string \<Rightarrow> Manager \<Rightarrow> launch_result" where
  "accept_effect nm rt0 autoRestart planned definition0 revision0 m =
     (let owned = ownedUnit rt0;
          rt1 = rt0\<lparr>operations := operations rt0 + 1, rtGen := rtGen rt0 + 1, restartDelayOf := 0\<rparr>;
          planned' = map_option (\<lambda>p. p\<lparr>plLaunchGen := rtGen rt1\<rparr>) planned;
          evicted = rtProc rt1;
          rt = (if evicted \<noteq> None then rt1\<lparr>cleanup := insert cleanupWorkload (cleanup rt1)\<rparr> else rt1);
          u = (if autoRestart then owned else definition0);
          revision = (if autoRestart \<and> invocationUnit rt \<noteq> None then invocationRevision rt else revision0)
      in (put_rt nm rt m, planned',
          Inr (Some \<lparr>efOwner = \<lparr>idName = nm, idRecord = rtId rt, idGen = rtGen rt\<rparr>, efUnit = u, efRevision = revision,
             efPrevious = evicted, efPreviousUnit = owned\<rparr>)))"

text \<open>The start limit: a triggered or automatic launch is checked, an explicit one clears the history.\<close>

definition accept_limited :: "int \<Rightarrow> name \<Rightarrow> unitRuntime \<Rightarrow> bool \<Rightarrow> plannedStart option \<Rightarrow> Unit option \<Rightarrow> string \<Rightarrow> Manager \<Rightarrow> launch_result" where
  "accept_limited now nm rt autoRestart planned0 definition0 revision m =
     (let planned = map_option (\<lambda>p. p\<lparr>plLaunched := True\<rparr>) planned0;
          triggered = (case planned of None \<Rightarrow> False
                       | Some p \<Rightarrow> (case origin p of None \<Rightarrow> False | Some orig \<Rightarrow> countsStartLimit orig))
      in if triggered \<and> (case startLimitOf definition0 of (interval, burst) \<Rightarrow> StartLimitHit (startTimes rt) now interval burst)
         then (failStartLimitLocked nm (cancelRestart rt) m, planned, Inl (LaunchMsg ReasonStartLimit))
         else if \<not> autoRestart then
           (let rt1 = cancelRestart (rt\<lparr>stopping := False\<rparr>);
                rt2 = (if \<not> triggered then rt1\<lparr>restartAttempt := 0, startTimes := []\<rparr> else rt1)
            in accept_effect nm rt2 autoRestart planned definition0 revision m)
         else if startLimitHitLocked now rt then (failStartLimitLocked nm rt m, planned, Inr None)
         else accept_effect nm rt autoRestart planned definition0 revision m)"

definition joins_oneshot :: "unitRuntime \<Rightarrow> plannedStart option \<Rightarrow> bool" where
  "joins_oneshot rt planned = (case planned of None \<Rightarrow> False | Some p \<Rightarrow>
     oneshot (Some (plUnit p)) \<and> plRevision p = invocationRevision rt \<and> (joiningOneshot p \<or> plGen p \<noteq> rtGen rt)
     \<and> \<not> (case origin p of None \<Rightarrow> False | Some orig \<Rightarrow> isRestartOrigin orig))"

definition superseded :: "Manager \<Rightarrow> unitRuntime \<Rightarrow> plannedStart option \<Rightarrow> bool" where
  "superseded m rt planned = (case planned of None \<Rightarrow> False | Some p \<Rightarrow>
     plRecord p \<noteq> rtId rt \<or> plStopEpoch p \<noteq> stopEpoch rt
     \<or> (case origin p of None \<Rightarrow> False | Some orig \<Rightarrow> \<not> validLocked orig m))"

definition accept_loaded ::
  "int \<Rightarrow> name \<Rightarrow> unitRuntime \<Rightarrow> bool \<Rightarrow> plannedStart option \<Rightarrow> nat option \<times> nat option \<times> bool \<Rightarrow> Manager \<Rightarrow> launch_result" where
  "accept_loaded now nm rt autoRestart planned obs m =
     (case obs of (obsRecord, obsProcess, alive) \<Rightarrow>
      let refuse = (\<lambda>msg. (m, planned, Inl (LaunchMsg msg))); nothing = (m, planned, Inr None) in
      if autoRestart \<and> stopping rt then nothing
      else if superseded m rt planned then refuse (''unit '' @ Quote nm @ '' start superseded by stop'')
      else if cleanup rt \<noteq> {} then refuse (''unit '' @ Quote nm @ '' termination is unconfirmed; retry stop before starting'')
      else if obsRecord \<noteq> Some (rtId rt) \<or> rtProc rt \<noteq> obsProcess then refuse ''launch observation superseded''
      else if joins_oneshot rt planned then
        (if rtState rt = Inactive \<or> rtState rt = Active then nothing
         else if rtState rt = Failed then refuse (''shared oneshot failed: '' @ rtErr rt)
         else refuse ''shared oneshot is recovering; retry start after completion'')
      else if alive then nothing
      else if rtState rt = Active \<and> remains (ownedUnit rt) then nothing
      else if unavailable rt then refuse (''unit '' @ Quote nm @ '' has no valid configuration; reload a valid unit before starting'')
      else let owned = ownedUnit rt;
               definition0 = (case planned of Some p \<Rightarrow> Some (plUnit p) | None \<Rightarrow> rtUnit rt);
               revision = (case planned of Some p \<Rightarrow> plRevision p | None \<Rightarrow> configRevision rt)
           in case (if autoRestart then owned else definition0) of
                None \<Rightarrow> (m, planned, Inl LaunchPanic)
              | Some boundDefinition \<Rightarrow>
                  if \<not> boundPeersActiveLocked m boundDefinition then (m, planned, Inl LaunchSkipped)
                  else if \<not> autoRestart \<and> invocationUnit rt \<noteq> None \<and> native_unit owned
                    \<and> (scmServiceName owned \<noteq> scmServiceName definition0 \<or> scheduledTaskName owned \<noteq> scheduledTaskName definition0)
                  then refuse (''unit '' @ Quote nm @ '' still owns a previous native target; stop it before starting the new definition'')
                  else accept_limited now nm rt autoRestart planned definition0 revision m)"

definition acceptLaunch ::
  "int \<Rightarrow> bool \<Rightarrow> name \<Rightarrow> bool \<Rightarrow> plannedStart option \<Rightarrow> runtimeIdentity option \<Rightarrow> nat option \<times> nat option \<times> bool \<Rightarrow>
   Manager \<Rightarrow> launch_result" where
  "acceptLaunch now ctxErr nm autoRestart planned recovery obs m =
     (let nothing = (m, planned, Inr None); refuse = (\<lambda>msg. if autoRestart then nothing else (m, planned, Inl (LaunchMsg msg))) in
      if (case recovery of None \<Rightarrow> False | Some i \<Rightarrow> ctxErr \<or> \<not> currentLocked m i) then nothing
      else if mgrClosed m then refuse ''manager is shutting down or closed''
      else if AdmissionHold m \<noteq> [] then refuse (''admission is held: '' @ AdmissionHold m)
      else case rt_of m nm of
             None \<Rightarrow> refuse (''unit '' @ Quote nm @ '' is not loaded'')
           | Some rt \<Rightarrow> accept_loaded now nm rt autoRestart planned obs m)"

definition recordServiceLaunch :: "int \<Rightarrow> launchEffect \<Rightarrow> bool \<Rightarrow> Manager \<Rightarrow> Manager" where
  "recordServiceLaunch now effect native m =
     (if mgrClosed m \<or> \<not> currentLocked m (efOwner effect) then m
      else case rt_of m (idName (efOwner effect)) of None \<Rightarrow> m
        | Some rt0 \<Rightarrow>
            let rt1 = rt0\<lparr>health := ''unknown'', probeFailures := 0\<rparr>;
                rt2 = (if oneshot (efUnit effect) then fst (rt_step EventStartRequested rt1) else rt1);
                rt3 = (if native then rt2\<lparr>invocationUnit := efUnit effect, invocationRevision := efRevision effect,
                         nativeProbeError := [], nativeNextProbe := 0\<rparr> else rt2)
            in put_rt (idName (efOwner effect)) (recordStartLocked now rt3) m)"

definition restartDelay :: "ServiceSpec option \<Rightarrow> int" where
  "restartDelay so = (case so of None \<Rightarrow> 100000000 | Some s \<Rightarrow> if RestartSecSet s then RestartSec s else 100000000)"

definition acceptRecovery :: "int \<Rightarrow> runtimeIdentity \<Rightarrow> int \<Rightarrow> Manager \<Rightarrow> Manager \<times> (int \<times> runtimeIdentity) option" where
  "acceptRecovery now owner delay0 m =
     (case rt_of m (idName owner) of None \<Rightarrow> (m, None)
      | Some rt0 \<Rightarrow>
          if mgrClosed m \<or> \<not> currentLocked m owner \<or> stopping rt0 \<or> unavailable rt0 \<or> cleanup rt0 \<noteq> {} \<or> rtProc rt0 \<noteq> None
          then (m, None)
          else if rtSub rt0 = SubAutoRestart \<and> restartCancel rt0 \<and> restartGeneration rt0 = rtGen rt0 then (m, None)
          else if startLimitHitLocked now rt0 then (failStartLimitLocked (idName owner) rt0 m, None)
          else let nm = idName owner;
                   rt1 = (if rtState rt0 = Activating \<and> rtSub rt0 = SubStart \<and> oneshot (ownedUnit rt0)
                          then fst (rt_step EventStartFailed rt0) else rt0);
                   m1 = (case rt_step EventAutoRestart rt1 of
                           (rt2, True) \<Rightarrow> queueBoundStopsLocked nm (put_rt nm (rt2\<lparr>rtErr := []\<rparr>) m)
                         | (rt2, False) \<Rightarrow> put_rt nm rt2 m)
               in case rt_of m1 nm of None \<Rightarrow> (m1, None)
                  | Some rt3 \<Rightarrow>
                      if snd (rt_step EventAutoRestart rt1) \<and> stopping rt3 then (m1, None)
                      else let rt4 = (cancelRestart rt3)\<lparr>restartCancel := True, restartGeneration := rtGen rt3\<rparr>;
                               svc = (case ownedUnit rt4 of None \<Rightarrow> None | Some u \<Rightarrow> Service u);
                               delay = (case svc of
                                          Some s \<Rightarrow> if RestartBackoff s = ''exponential''
                                            then cappedRestartDelay (restartDelay svc) (RestartMaxDelaySec s) (restartAttempt rt4)
                                            else delay0
                                        | None \<Rightarrow> delay0);
                               rt5 = (if restartAttempt rt4 < 64 then rt4\<lparr>restartAttempt := restartAttempt rt4 + 1\<rparr> else rt4)
                           in (put_rt nm (rt5\<lparr>restartDelayOf := delay\<rparr>) m1, Some (delay, owner)))"

section \<open>Frame\<close>

lemma rt_of_put [simp]: "rt_of (put_rt nm rt m) x = (if x = nm then Some rt else rt_of m x)"
  by (simp add: put_rt_def update_conv')

lemma put_rt_fields [simp]:
  "mgrClosed (put_rt nm rt m) = mgrClosed m" "AdmissionHold (put_rt nm rt m) = AdmissionHold m"
  "boundStops (put_rt nm rt m) = boundStops m" "boundWorker (put_rt nm rt m) = boundWorker m"
  by (simp_all add: put_rt_def)

lemma rt_step_fields [simp]:
  "startTimes (fst (rt_step ev rt)) = startTimes rt" "stopping (fst (rt_step ev rt)) = stopping rt"
  "rtGen (fst (rt_step ev rt)) = rtGen rt" "rtId (fst (rt_step ev rt)) = rtId rt"
  "stopEpoch (fst (rt_step ev rt)) = stopEpoch rt" "rtUnit (fst (rt_step ev rt)) = rtUnit rt"
  "invocationUnit (fst (rt_step ev rt)) = invocationUnit rt"
  by (auto simp: rt_step_def split: prod.split option.split)

lemma cancelRestart_fields [simp]:
  "startTimes (cancelRestart rt) = startTimes rt" "stopping (cancelRestart rt) = stopping rt"
  "rtGen (cancelRestart rt) = rtGen rt" "rtId (cancelRestart rt) = rtId rt"
  "stopEpoch (cancelRestart rt) = stopEpoch rt" "rtUnit (cancelRestart rt) = rtUnit rt"
  "invocationUnit (cancelRestart rt) = invocationUnit rt" "ownedUnit (cancelRestart rt) = ownedUnit rt"
  by (simp_all add: cancelRestart_def ownedUnit_def split: option.split)

text \<open>The history of starts of a unit, which stopping other units does not touch.\<close>

definition starts_of :: "name \<Rightarrow> Manager \<Rightarrow> int list option" where
  "starts_of nm m = map_option startTimes (rt_of m nm)"

lemma starts_put: "starts_of nm (put_rt x rt m) = (if nm = x then Some (startTimes rt) else starts_of nm m)"
  by (simp add: starts_of_def)

lemma starts_bound_upd [simp]: "starts_of nm (m\<lparr>boundStops := bs\<rparr>) = starts_of nm m" "starts_of nm (m\<lparr>boundWorker := w\<rparr>) = starts_of nm m"
  by (simp_all add: starts_of_def)

lemma starts_disarm [simp]: "starts_of nm (disarmStartLocked x m) = starts_of nm m"
  by (auto simp: disarmStartLocked_def starts_put split: option.split) (simp add: starts_of_def)

lemma starts_members [simp]:
  "starts_of nm (give_back i m) = starts_of nm m" "starts_of nm (enqueue_bound x m) = starts_of nm m"
  "starts_of nm (fail_bound msg x m) = starts_of nm m"
proof -
  show "starts_of nm (give_back i m) = starts_of nm m"
    by (auto simp: give_back_def starts_put split: option.split) (simp add: starts_of_def)
  show "starts_of nm (enqueue_bound x m) = starts_of nm m"
    using starts_disarm [of nm x m, unfolded starts_of_def]
    by (auto simp: enqueue_bound_def Let_def starts_of_def split: option.split)
  show "starts_of nm (fail_bound msg x m) = starts_of nm m"
    using starts_disarm [of nm x m, unfolded starts_of_def]
    by (auto simp: fail_bound_def Let_def starts_of_def split: option.split)
qed

lemma starts_queue [simp]: "starts_of nm (queue_member x m) = starts_of nm m"
  by (auto simp: queue_member_def split: option.split)

lemma fold_starts: "(\<And>x m. starts_of nm (f x m) = starts_of nm m) \<Longrightarrow> starts_of nm (fold f xs m) = starts_of nm m"
  by (induction xs arbitrary: m) auto

lemma starts_queueBoundStops [simp]: "starts_of nm (queueBoundStopsLocked peer m) = starts_of nm m"
  by (auto simp: queueBoundStopsLocked_def Let_def fold_starts split: sum.split)

lemma starts_failStartLimit:
  assumes "rt_of m nm = Some rt'" "startTimes rt = startTimes rt'"
  shows "starts_of nm (failStartLimitLocked nm rt m) = starts_of nm m"
  using assms by (auto simp: failStartLimitLocked_def Let_def starts_put split: option.split) (simp_all add: starts_of_def)

section \<open>What an accepted launch means\<close>

definition triggered_plan :: "plannedStart option \<Rightarrow> bool" where
  "triggered_plan planned = (case planned of None \<Rightarrow> False
     | Some p \<Rightarrow> (case origin p of None \<Rightarrow> False | Some orig \<Rightarrow> countsStartLimit orig))"

definition launch_unit :: "unitRuntime \<Rightarrow> bool \<Rightarrow> plannedStart option \<Rightarrow> Unit option" where
  "launch_unit rt autoRestart planned =
     (if autoRestart then ownedUnit rt else case planned of Some p \<Rightarrow> Some (plUnit p) | None \<Rightarrow> rtUnit rt)"

definition limit_checked :: "int \<Rightarrow> unitRuntime \<Rightarrow> bool \<Rightarrow> plannedStart option \<Rightarrow> Unit option \<Rightarrow> bool" where
  "limit_checked now rt autoRestart planned definition0 \<longleftrightarrow>
     (triggered_plan planned \<longrightarrow> (case startLimitOf definition0 of (i, b) \<Rightarrow> \<not> StartLimitHit (startTimes rt) now i b))
     \<and> (autoRestart \<longrightarrow> \<not> startLimitHitLocked now rt)"

lemma accept_limited_effect:
  assumes "accept_limited now nm rt autoRestart planned definition0 revision m = (m', planned', Inr (Some eff))"
  shows "\<exists>rt'. m' = put_rt nm rt' m \<and> rtId rt' = rtId rt \<and> rtGen rt' = rtGen rt + 1 \<and> stopEpoch rt' = stopEpoch rt
      \<and> stopping rt' = (autoRestart \<and> stopping rt)
      \<and> startTimes rt' = (if autoRestart \<or> triggered_plan planned then startTimes rt else [])
      \<and> efOwner eff = \<lparr>idName = nm, idRecord = rtId rt, idGen = rtGen rt + 1\<rparr>
      \<and> efUnit eff = (if autoRestart then ownedUnit rt else definition0)
      \<and> limit_checked now rt autoRestart planned definition0"
proof -
  have t: "(case map_option (\<lambda>p. p\<lparr>plLaunched := True\<rparr>) planned of None \<Rightarrow> False
      | Some p \<Rightarrow> (case origin p of None \<Rightarrow> False | Some orig \<Rightarrow> countsStartLimit orig)) = triggered_plan planned"
    by (simp add: triggered_plan_def split: option.split)
  have e: "\<exists>rt''. m' = put_rt nm rt'' m \<and> rtId rt'' = rtId r \<and> rtGen rt'' = rtGen r + 1 \<and> stopEpoch rt'' = stopEpoch r
      \<and> stopping rt'' = stopping r \<and> startTimes rt'' = startTimes r
      \<and> efOwner eff = \<lparr>idName = nm, idRecord = rtId r, idGen = rtGen r + 1\<rparr>
      \<and> efUnit eff = (if autoRestart then ownedUnit r else definition0)"
    if "accept_effect nm r autoRestart p definition0 revision m = (m', planned', Inr (Some eff))" for r p
    using that by (cases "rtProc r") (auto simp: accept_effect_def Let_def intro!: exI)
  let ?p = "map_option (\<lambda>p. p\<lparr>plLaunched := True\<rparr>) planned"
  let ?hit = "triggered_plan planned \<and> (case startLimitOf definition0 of (i, b) \<Rightarrow> StartLimitHit (startTimes rt) now i b)"
  have h: "\<not> ?hit" using assms unfolding accept_limited_def Let_def t by (auto split: if_splits)
  show ?thesis
  proof (cases autoRestart)
    case True
    have l: "\<not> startLimitHitLocked now rt" using assms h True unfolding accept_limited_def Let_def t by (auto split: if_splits)
    then have "accept_effect nm rt autoRestart ?p definition0 revision m = (m', planned', Inr (Some eff))"
      using assms h True unfolding accept_limited_def Let_def t by (simp only: if_False simp_thms)
    from e [OF this] show ?thesis using h l True unfolding limit_checked_def by (auto simp: case_prod_beta)
  next
    case False
    let ?r1 = "cancelRestart (rt\<lparr>stopping := False\<rparr>)"
    let ?r = "if \<not> triggered_plan planned then ?r1\<lparr>restartAttempt := 0, startTimes := []\<rparr> else ?r1"
    have "accept_effect nm ?r autoRestart ?p definition0 revision m = (m', planned', Inr (Some eff))"
      using assms h False unfolding accept_limited_def Let_def t by (simp only: if_False if_True simp_thms)
    from e [OF this] show ?thesis using h False unfolding limit_checked_def
      by (cases "triggered_plan planned") (auto simp: case_prod_beta)
  qed
qed

lemma acceptLaunch_limited:
  assumes "acceptLaunch now ctxErr nm autoRestart planned recovery obs m = (m', planned', Inr (Some eff))"
  obtains rt u revision where "rt_of m nm = Some rt" "\<not> mgrClosed m" "AdmissionHold m = []" "cleanup rt = {}"
    "\<not> unavailable rt" "\<not> snd (snd obs)" "\<not> (autoRestart \<and> stopping rt)" "\<not> superseded m rt planned"
    "launch_unit rt autoRestart planned = Some u" "boundPeersActiveLocked m u"
    "accept_limited now nm rt autoRestart planned (case planned of Some p \<Rightarrow> Some (plUnit p) | None \<Rightarrow> rtUnit rt) revision m
       = (m', planned', Inr (Some eff))"
proof -
  obtain rt where rt: "rt_of m nm = Some rt" "\<not> mgrClosed m" "AdmissionHold m = []"
    and l: "accept_loaded now nm rt autoRestart planned obs m = (m', planned', Inr (Some eff))"
    using assms by (auto simp: acceptLaunch_def Let_def split: if_splits option.splits)
  obtain r p alive where obs: "obs = (r, p, alive)" by (cases obs)
  let ?def = "case planned of Some p \<Rightarrow> Some (plUnit p) | None \<Rightarrow> rtUnit rt"
  let ?rev = "case planned of Some p \<Rightarrow> plRevision p | None \<Rightarrow> configRevision rt"
  have g: "\<not> (autoRestart \<and> stopping rt)" "\<not> superseded m rt planned" "cleanup rt = {}" "\<not> joins_oneshot rt planned" "\<not> alive"
    "\<not> unavailable rt"
    using l unfolding accept_loaded_def obs Let_def by (auto split: if_splits)
  have "\<exists>u. (if autoRestart then ownedUnit rt else ?def) = Some u \<and> boundPeersActiveLocked m u
     \<and> accept_limited now nm rt autoRestart planned ?def ?rev m = (m', planned', Inr (Some eff))"
    using l unfolding accept_loaded_def obs Let_def
    by (cases "if autoRestart then ownedUnit rt else ?def") (simp_all split: if_split_asm)
  then show thesis using that rt g obs by (auto simp: launch_unit_def)
qed

text \<open>Whatever else \<open>acceptLaunch\<close> answers, it changes nothing or fails the unit on its start limit.\<close>

lemma acceptLaunch_refused:
  assumes "acceptLaunch now ctxErr nm autoRestart planned recovery obs m = (m', planned', res)" "\<nexists>eff. res = Inr (Some eff)"
  obtains "m' = m" | rt rt' where "rt_of m nm = Some rt" "rt' = rt \<or> rt' = cancelRestart rt" "m' = failStartLimitLocked nm rt' m"
proof -
  let ?P = "\<lambda>rt x. x = m \<or> x = failStartLimitLocked nm rt m \<or> x = failStartLimitLocked nm (cancelRestart rt) m"
  have lim: "?P rt m''" if "accept_limited now nm rt autoRestart planned d rev m = (m'', p, res)" for rt d rev p m''
    using that assms(2) by (auto simp: accept_limited_def accept_effect_def Let_def split: if_splits)
  have load: "?P rt m'" if "accept_loaded now nm rt autoRestart planned obs m = (m', planned', res)" for rt
  proof -
    obtain r p alive where obs: "obs = (r, p, alive)" by (cases obs)
    from that lim show ?thesis unfolding accept_loaded_def obs Let_def prod.case
      by (cases "if autoRestart then ownedUnit rt else case planned of Some p \<Rightarrow> Some (plUnit p) | None \<Rightarrow> rtUnit rt")
        (simp_all split: if_split_asm)
  qed
  have "m' = m \<or> (\<exists>rt. rt_of m nm = Some rt \<and> ?P rt m')"
    using assms(1) load by (auto simp: acceptLaunch_def Let_def split: if_split_asm option.split_asm)
  then show thesis using that by blast
qed

section \<open>The start limit\<close>

text \<open>
  Launches of one unit are serialised by its gate.  A state is the manager, the starts recorded since the
  last explicit launch, oldest first, and the time.  The definitions of the unit agree on the limit.
  Between the acceptance of a launch and its record, and between launches, any other part of the manager
  may change the state as long as it leaves the start history of the unit alone: only the definitions
  above write it.
\<close>

definition limited :: "int \<Rightarrow> int \<Rightarrow> unitRuntime \<Rightarrow> bool" where
  "limited i b rt \<longleftrightarrow> startLimitOf (ownedUnit rt) = (i, b) \<and> startLimitOf (rtUnit rt) = (i, b)"

definition plan_limited :: "int \<Rightarrow> int \<Rightarrow> plannedStart option \<Rightarrow> bool" where
  "plan_limited i b planned \<longleftrightarrow> (case planned of None \<Rightarrow> True | Some p \<Rightarrow> startLimitOf (Some (plUnit p)) = (i, b))"

type_synonym launch_state = "Manager \<times> int list \<times> int"

definition since_explicit :: "bool \<Rightarrow> plannedStart option \<Rightarrow> int list \<Rightarrow> int list" where
  "since_explicit autoRestart planned ts = (if autoRestart \<or> triggered_plan planned then ts else [])"

inductive launch_step :: "name \<Rightarrow> int \<Rightarrow> int \<Rightarrow> launch_state \<Rightarrow> launch_state \<Rightarrow> bool" for nm i b where
  launch: "\<lbrakk>c \<le> t; t \<le> t'; rt_of m nm = Some rt; limited i b rt; plan_limited i b planned;
      acceptLaunch t ctxErr nm autoRestart planned recovery obs m = (m1, planned', Inr (Some eff));
      starts_of nm m2 = starts_of nm m1; rt_of m2 nm = Some rt2; limited i b rt2;
      \<not> mgrClosed m2; currentLocked m2 (efOwner eff)\<rbrakk> \<Longrightarrow>
    launch_step nm i b (m, ts, c) (recordServiceLaunch t' eff native m2, since_explicit autoRestart planned ts @ [t'], t')"
| abandoned: "\<lbrakk>c \<le> t; acceptLaunch t ctxErr nm autoRestart planned recovery obs m = (m1, planned', Inr (Some eff))\<rbrakk> \<Longrightarrow>
    launch_step nm i b (m, ts, c) (m1, since_explicit autoRestart planned ts, t)"
| refused: "\<lbrakk>c \<le> t; acceptLaunch t ctxErr nm autoRestart planned recovery obs m = (m1, planned', res); \<nexists>eff. res = Inr (Some eff)\<rbrakk> \<Longrightarrow>
    launch_step nm i b (m, ts, c) (m1, ts, t)"
| other: "\<lbrakk>c \<le> t; starts_of nm m1 = starts_of nm m\<rbrakk> \<Longrightarrow> launch_step nm i b (m, ts, c) (m1, ts, t)"

definition starts_guarded :: "int \<Rightarrow> int \<Rightarrow> int list \<Rightarrow> bool" where
  "starts_guarded i b ts \<longleftrightarrow> (\<forall>as x bs. ts = as @ x # bs \<longrightarrow> count_from as (x - i) < b)"

definition launch_inv :: "name \<Rightarrow> int \<Rightarrow> int \<Rightarrow> launch_state \<Rightarrow> bool" where
  "launch_inv nm i b = (\<lambda>(m, ts, c). 0 < i \<and> 0 < b \<and> sorted (ts @ [c]) \<and> starts_guarded i b ts
     \<and> (case starts_of nm m of None \<Rightarrow> True | Some s \<Rightarrow> s = record_all i b ts []))"

definition launch_init :: "name \<Rightarrow> int \<Rightarrow> int \<Rightarrow> launch_state \<Rightarrow> bool" where
  "launch_init nm i b = (\<lambda>(m, ts, c). 0 < i \<and> 0 < b \<and> ts = [] \<and> starts_of nm m \<in> {None, Some []})"

lemma starts_guarded_snoc: "starts_guarded i b ts \<Longrightarrow> count_from ts (t - i) < b \<Longrightarrow> starts_guarded i b (ts @ [t])"
  unfolding starts_guarded_def
proof (intro allI impI)
  fix as x bs
  assume g: "\<forall>as x bs. ts = as @ x # bs \<longrightarrow> count_from as (x - i) < b" "count_from ts (t - i) < b" "ts @ [t] = as @ x # bs"
  then show "count_from as (x - i) < b" by (cases bs rule: rev_cases) auto
qed

lemma count_from_mono: "c \<le> c' \<Longrightarrow> count_from ts c' \<le> count_from ts c"
  by (induction ts) auto

lemma record_all_snoc: "RecordStart (record_all i b ts []) t i b = record_all i b (ts @ [t]) []"
  by (simp add: record_all_def)

text \<open>An accepted launch that is not explicit found room for one more start.\<close>

lemma accepted_room:
  assumes a: "acceptLaunch t ctxErr nm autoRestart planned recovery obs m = (m1, planned', Inr (Some eff))"
    and rt: "rt_of m nm = Some rt" "limited i b rt" "plan_limited i b planned" "startTimes rt = record_all i b ts []"
    and pos: "0 < i" "0 < b" "sorted (ts @ [t])"
  shows "count_from (since_explicit autoRestart planned ts) (t - i) < b"
    "starts_of nm m1 = Some (record_all i b (since_explicit autoRestart planned ts) [])"
    "startLimitOf (efUnit eff) = (i, b)" "idName (efOwner eff) = nm"
proof -
  let ?def = "case planned of Some p \<Rightarrow> Some (plUnit p) | None \<Rightarrow> rtUnit rt"
  obtain rev where l: "accept_limited t nm rt autoRestart planned ?def rev m = (m1, planned', Inr (Some eff))"
    using acceptLaunch_limited [OF a] rt(1) by (metis option.inject)
  have d: "startLimitOf ?def = (i, b)" using rt(2,3) by (auto simp: limited_def plan_limited_def split: option.splits)
  note e = accept_limited_effect [OF l]
  have lim: "limit_checked t rt autoRestart planned ?def" using e by blast
  have "count_from ts (t - i) < b" if "autoRestart \<or> triggered_plan planned"
  proof -
    have "\<not> StartLimitHit (startTimes rt) t i b"
      using lim that d rt(2) by (auto simp: limit_checked_def startLimitHitLocked_def limited_def)
    then show ?thesis
      using record_all_count [OF _ pos(3), of i b "[]"] pos(1,2)
      by (simp add: rt(4) StartLimitHit_def StartLimitDisabled_def countStartsInWindow_def)
  qed
  then show "count_from (since_explicit autoRestart planned ts) (t - i) < b" using pos(2) by (simp add: since_explicit_def)
  show "starts_of nm m1 = Some (record_all i b (since_explicit autoRestart planned ts) [])"
    using e by (auto simp: starts_put since_explicit_def rt(4) record_all_def)
  have "efUnit eff = (if autoRestart then ownedUnit rt else ?def)" using e by blast
  then show "startLimitOf (efUnit eff) = (i, b)" using d rt(2) by (cases autoRestart) (simp_all add: limited_def)
  show "idName (efOwner eff) = nm" using e by auto
qed

lemma recordServiceLaunch_starts:
  assumes "\<not> mgrClosed m" "currentLocked m (efOwner eff)" "idName (efOwner eff) = nm" "rt_of m nm = Some rt" "limited i b rt"
    "startLimitOf (efUnit eff) = (i, b)" "0 < i"
  shows "starts_of nm (recordServiceLaunch t eff native m) = Some (RecordStart (startTimes rt) t i b)"
proof -
  have "efUnit eff \<noteq> None" using assms(6,7) by (cases "efUnit eff") (auto simp: startLimitOf_def)
  then have "startLimitOf (ownedUnit r) = (i, b)"
    if "invocationUnit r = (if native then efUnit eff else invocationUnit rt)" "rtUnit r = rtUnit rt" for r
    using that assms(5,6) by (cases native) (auto simp: ownedUnit_def limited_def split: option.splits)
  then show ?thesis using assms(1-4) by (simp add: recordServiceLaunch_def Let_def starts_put recordStartLocked_def)
qed

interpretation launches: invariant_system "launch_init nm i b" "launch_step nm i b" "launch_inv nm i b" for nm i b
proof
  show "launch_init nm i b s \<Longrightarrow> launch_inv nm i b s" for s
    by (auto simp: launch_init_def launch_inv_def starts_guarded_def record_all_def split: option.split)
  fix s s' assume "launch_step nm i b s s'" "launch_inv nm i b s"
  then show "launch_inv nm i b s'"
  proof (induction rule: launch_step.induct)
    case (launch c t t' m rt planned ctxErr autoRestart recovery obs m1 planned' eff m2 rt2 ts native)
    let ?ts = "since_explicit autoRestart planned ts"
    have inv: "sorted (ts @ [c])" "starts_guarded i b ts" "startTimes rt = record_all i b ts []"
      and pos: "0 < i" "0 < b"
      using launch(12) launch(3) by (simp_all add: launch_inv_def starts_of_def)
    have srt: "sorted (ts @ [t])" using inv(1) launch(1) by (auto simp: sorted_append)
    note room = accepted_room [OF launch(6,3,4,5) inv(3) pos srt]
    have ts: "starts_guarded i b ?ts" "sorted (?ts @ [t'])"
      using inv(2) srt launch(2) by (auto simp: since_explicit_def starts_guarded_def sorted_append)
    have "count_from ?ts (t' - i) < b" using room(1) count_from_mono [of "t - i" "t' - i" ?ts] launch(2) by simp
    then have g: "starts_guarded i b (?ts @ [t'])" by (rule starts_guarded_snoc [OF ts(1)])
    have "startTimes rt2 = record_all i b ?ts []" using room(2) launch(7,8) by (auto simp: starts_of_def)
    then have "starts_of nm (recordServiceLaunch t' eff native m2) = Some (record_all i b (?ts @ [t']) [])"
      using recordServiceLaunch_starts [OF launch(10,11) room(4) launch(8,9) room(3) pos(1)] record_all_snoc by simp
    then show ?case using g ts(2) pos by (simp add: launch_inv_def sorted_append)
  next
    case (abandoned c t ctxErr autoRestart planned recovery obs m m1 planned' eff ts)
    obtain rt u rev where l: "rt_of m nm = Some rt"
      "accept_limited t nm rt autoRestart planned (case planned of Some p \<Rightarrow> Some (plUnit p) | None \<Rightarrow> rtUnit rt) rev m = (m1, planned', Inr (Some eff))"
      by (rule acceptLaunch_limited [OF abandoned(2)]) blast
    have "starts_of nm m1 = Some (if autoRestart \<or> triggered_plan planned then startTimes rt else [])"
      using accept_limited_effect [OF l(2)] by (auto simp: starts_put)
    then show ?case using abandoned(1,3) l(1)
      by (auto simp: launch_inv_def starts_of_def since_explicit_def sorted_append starts_guarded_def record_all_def)
  next
    case (refused c t ctxErr autoRestart planned recovery obs m m1 planned' res ts)
    have "starts_of nm m1 = starts_of nm m"
      by (rule acceptLaunch_refused [OF refused(2,3)]) (auto intro: starts_failStartLimit)
    then show ?case using refused(1,4) by (auto simp: launch_inv_def sorted_append)
  next
    case (other c t m1 m ts)
    then show ?case by (auto simp: launch_inv_def sorted_append)
  qed
qed

text \<open>
  C33: the start limit of a unit is a true bound on the rate of its starts.  In every sequence of
  launches of a unit whose definitions keep the limit, explicit ones, ones by timers and watches and
  automatic restarts, interleaved with anything else the manager does, no window of length \<open>interval\<close>,
  wherever it ends, contains more than \<open>burst\<close> starts made since the last explicit launch, that launch's
  own start included.
\<close>

theorem start_rate_bounded:
  assumes "0 < interval" and "0 < burst"
    and "(launch_step nm interval burst)\<^sup>*\<^sup>* (m, [], 0) (m', ts, now)" and "starts_of nm m = Some []"
  shows "int (length (window interval until ts)) \<le> burst"
proof -
  have "launch_inv nm interval burst (m', ts, now)"
    using launches.inv_reachable [OF _ assms(3)] assms(1,2,4) by (simp add: launch_init_def)
  then have "sorted ts" "\<And>as x bs. ts = as @ x # bs \<Longrightarrow> count_from as (x - interval) < burst"
    by (auto simp: launch_inv_def sorted_append starts_guarded_def)
  then show ?thesis by (rule window_bound [OF _ _ assms(2)])
qed

section \<open>Fresh generations\<close>


section \<open>Bound units are stopped\<close>

text \<open>
  The key of a queued stop is the name of its owner.  A queued stop is never ahead of its unit, and if
  record, generation and stop epoch are still those of the unit, the unit is stopping.
\<close>

definition member_ok :: "boundStopMember \<Rightarrow> unitRuntime \<Rightarrow> bool" where
  "member_ok mem rt \<longleftrightarrow> (rtId rt = idRecord (bsOwner mem) \<longrightarrow>
     idGen (bsOwner mem) \<le> rtGen rt \<and> bsEpoch mem \<le> stopEpoch rt
     \<and> (rtGen rt = idGen (bsOwner mem) \<and> stopEpoch rt = bsEpoch mem \<longrightarrow> stopping rt))"

definition bound_inv :: "Manager \<Rightarrow> bool" where
  "bound_inv m \<longleftrightarrow> (\<forall>nm mem. map_of (boundStops m) nm = Some mem \<longrightarrow>
     idName (bsOwner mem) = nm \<and> (\<forall>rt. rt_of m nm = Some rt \<longrightarrow> member_ok mem rt))"

text \<open>A record only grows older, and does not stop stopping without growing older.\<close>

definition evolves :: "unitRuntime \<Rightarrow> unitRuntime \<Rightarrow> bool" where
  "evolves rt rt' \<longleftrightarrow> rtId rt' = rtId rt \<and> rtGen rt \<le> rtGen rt' \<and> stopEpoch rt \<le> stopEpoch rt'
     \<and> (rtGen rt' = rtGen rt \<and> stopEpoch rt' = stopEpoch rt \<and> stopping rt \<longrightarrow> stopping rt')"

lemma member_ok_evolves: "member_ok mem rt \<Longrightarrow> evolves rt rt' \<Longrightarrow> member_ok mem rt'"
  by (auto simp: member_ok_def evolves_def)

lemma bound_inv_put:
  assumes "bound_inv m" "rt_of m nm = Some rt" "evolves rt rt'"
  shows "bound_inv (put_rt nm rt' m)"
proof -
  have "member_ok mem rt'" if "map_of (boundStops m) nm = Some mem" for mem
    using assms that member_ok_evolves unfolding bound_inv_def by blast
  then show ?thesis using assms(1) by (simp add: bound_inv_def)
qed

lemma bound_inv_upd [simp]: "bound_inv (m\<lparr>boundWorker := w\<rparr>) = bound_inv m" "bound_inv (m\<lparr>boundStops := []\<rparr>)"
  by (simp_all add: bound_inv_def)

lemma disarm_rt: "rt_of (disarmStartLocked nm m) x =
    (if x = nm then map_option (\<lambda>rt. cancelRestart (rt\<lparr>stopping := True, stopEpoch := stopEpoch rt + 1\<rparr>)) (rt_of m nm) else rt_of m x)"
  by (simp add: disarmStartLocked_def split: option.split)

lemma disarm_boundStops [simp]: "boundStops (disarmStartLocked nm m) = boundStops m"
  by (simp add: disarmStartLocked_def split: option.split)

lemma bound_inv_disarm: "bound_inv m \<Longrightarrow> bound_inv (disarmStartLocked nm m)"
  by (auto simp: disarmStartLocked_def evolves_def intro: bound_inv_put split: option.split)

lemma bound_inv_give_back: "bound_inv m \<Longrightarrow> bound_inv (give_back i m)"
  by (auto simp: give_back_def evolves_def intro: bound_inv_put split: option.split)

lemma bound_inv_fail: "bound_inv m \<Longrightarrow> bound_inv (fail_bound msg nm m)"
  by (auto simp: fail_bound_def Let_def evolves_def intro: bound_inv_put bound_inv_disarm split: option.split)

lemma bound_inv_enqueue:
  assumes "bound_inv m"
  shows "bound_inv (enqueue_bound nm m)"
proof (cases "rt_of m nm")
  case None
  then show ?thesis using bound_inv_disarm [OF assms] by (simp add: enqueue_bound_def disarm_rt)
next
  case (Some rt)
  have "bound_inv (disarmStartLocked nm m)" by (rule bound_inv_disarm [OF assms])
  then show ?thesis using Some
    by (auto simp: bound_inv_def enqueue_bound_def Let_def disarm_rt member_ok_def update_conv' split: if_splits)
qed

lemma bound_inv_member: "bound_inv m \<Longrightarrow> bound_inv (queue_member nm m)"
  by (auto simp: queue_member_def intro: bound_inv_enqueue bound_inv_give_back split: option.split)

lemma bound_inv_fold: "(\<And>x m. bound_inv m \<Longrightarrow> bound_inv (f x m)) \<Longrightarrow> bound_inv m \<Longrightarrow> bound_inv (fold f xs m)"
  by (induction xs arbitrary: m) auto

lemma bound_inv_queue: "bound_inv m \<Longrightarrow> bound_inv (queueBoundStopsLocked peer m)"
  by (auto simp: queueBoundStopsLocked_def Let_def intro: bound_inv_fold bound_inv_fail bound_inv_member split: sum.split)

lemma bound_inv_failStartLimit:
  "bound_inv m \<Longrightarrow> rt_of m nm = Some rt \<Longrightarrow> evolves rt rt' \<Longrightarrow> bound_inv (failStartLimitLocked nm rt' m)"
  by (auto simp: failStartLimitLocked_def Let_def evolves_def intro!: bound_inv_queue bound_inv_put split: option.split)

lemma bound_inv_accept:
  assumes inv: "bound_inv m" and a: "acceptLaunch now ctxErr nm autoRestart planned recovery obs m = (m', planned', res)"
  shows "bound_inv m'"
proof (cases "\<exists>eff. res = Inr (Some eff)")
  case True
  then obtain eff where "res = Inr (Some eff)" by blast
  then obtain rt rt' where "rt_of m nm = Some rt" "m' = put_rt nm rt' m" "rtId rt' = rtId rt" "rtGen rt' = rtGen rt + 1"
    "stopEpoch rt' = stopEpoch rt"
    using a acceptLaunch_limited accept_limited_effect by (metis (lifting))
  then show ?thesis using bound_inv_put [OF inv] by (simp add: evolves_def)
next
  case False
  show ?thesis
  proof (rule acceptLaunch_refused [OF a False])
    fix rt rt' assume "rt_of m nm = Some rt" "rt' = rt \<or> rt' = cancelRestart rt" "m' = failStartLimitLocked nm rt' m"
    then show ?thesis using bound_inv_failStartLimit [OF inv] by (auto simp: evolves_def)
  qed (simp add: inv)
qed

lemma bound_inv_record: "bound_inv m \<Longrightarrow> bound_inv (recordServiceLaunch now eff native m)"
  by (cases native; cases "oneshot (efUnit eff)")
    (simp_all add: recordServiceLaunch_def Let_def evolves_def recordStartLocked_def case_prod_beta bound_inv_put split: option.split)

lemma bound_inv_recovery:
  assumes inv: "bound_inv m"
  shows "bound_inv (fst (acceptRecovery now owner delay m))"
proof (cases "rt_of m (idName owner)")
  case (Some rt)
  let ?nm = "idName owner"
  let ?rt1 = "if rtState rt = Activating \<and> rtSub rt = SubStart \<and> oneshot (ownedUnit rt) then fst (rt_step EventStartFailed rt) else rt"
  define m1 where "m1 = (case rt_step EventAutoRestart ?rt1 of
      (rt2, True) \<Rightarrow> queueBoundStopsLocked ?nm (put_rt ?nm (rt2\<lparr>rtErr := []\<rparr>) m) | (rt2, False) \<Rightarrow> put_rt ?nm rt2 m)"
  obtain rt2 ok where s: "rt_step EventAutoRestart ?rt1 = (rt2, ok)" by fastforce
  have "evolves rt rt2" using arg_cong [OF s, of fst] rt_step_fields [of EventAutoRestart ?rt1] by (auto simp: evolves_def)
  then have "bound_inv m1" unfolding m1_def s using inv Some
    by (cases ok) (auto simp: evolves_def intro!: bound_inv_queue bound_inv_put)
  let ?rt4 = "\<lambda>rt3. (cancelRestart rt3)\<lparr>restartCancel := True, restartGeneration := rtGen rt3\<rparr>"
  have fin: "bound_inv (put_rt ?nm ((if small then (?rt4 rt3)\<lparr>restartAttempt := n\<rparr> else ?rt4 rt3)\<lparr>restartDelayOf := d\<rparr>) m1)"
    if "rt_of m1 ?nm = Some rt3" for rt3 small n d
    by (rule bound_inv_put [OF \<open>bound_inv m1\<close> that]) (cases small; simp add: evolves_def)
  have fail: "bound_inv (failStartLimitLocked ?nm rt m)" by (rule bound_inv_failStartLimit [OF inv Some]) (simp add: evolves_def)
  show ?thesis
    unfolding acceptRecovery_def Some option.case Let_def m1_def [symmetric]
    using inv fail fin \<open>bound_inv m1\<close> by (simp split: option.split)
qed (simp add: acceptRecovery_def inv)

text \<open>
  The steps of the manager: the sections above, the worker of \<open>runBoundStops\<close> taking the queued stops, and
  every other section of the manager, which leaves the queued stops alone, lets records only evolve, and
  registers new records under new addresses.
\<close>

inductive mgr_step :: "Manager \<Rightarrow> Manager \<Rightarrow> bool" where
  accept: "acceptLaunch now ctxErr nm autoRestart planned recovery obs m = (m', planned', res) \<Longrightarrow> mgr_step m m'"
| recorded: "mgr_step m (recordServiceLaunch now eff native m)"
| recover: "mgr_step m (fst (acceptRecovery now owner delay m))"
| peer: "mgr_step m (queueBoundStopsLocked nm m)"
| disarm: "mgr_step m (disarmStartLocked nm m)"
| take: "mgr_step m (m\<lparr>boundStops := []\<rparr>)"
| elsewhere: "boundStops m' = boundStops m \<Longrightarrow>
    (\<And>nm rt'. rt_of m' nm = Some rt' \<Longrightarrow> (\<exists>rt. rt_of m nm = Some rt \<and> evolves rt rt')
       \<or> (\<forall>mem. map_of (boundStops m) nm = Some mem \<longrightarrow> idRecord (bsOwner mem) \<noteq> rtId rt')) \<Longrightarrow> mgr_step m m'"

interpretation mgr: invariant_system "\<lambda>m. boundStops m = []" mgr_step bound_inv
proof
  show "boundStops m = [] \<Longrightarrow> bound_inv m" for m by (simp add: bound_inv_def)
  fix m m' assume "mgr_step m m'" "bound_inv m"
  then show "bound_inv m'"
  proof (induction rule: mgr_step.induct)
    case (elsewhere m' m)
    show ?case unfolding bound_inv_def
    proof (intro allI impI)
      fix nm mem assume mem: "map_of (boundStops m') nm = Some mem"
      have old: "idName (bsOwner mem) = nm" "\<And>rt. rt_of m nm = Some rt \<Longrightarrow> member_ok mem rt"
        using mem elsewhere(1,3) by (simp_all add: bound_inv_def)
      have "member_ok mem rt'" if "rt_of m' nm = Some rt'" for rt'
      proof (cases "\<exists>rt. rt_of m nm = Some rt \<and> evolves rt rt'")
        case True
        then show ?thesis using old(2) member_ok_evolves by blast
      next
        case False
        then have "idRecord (bsOwner mem) \<noteq> rtId rt'" using elsewhere(2) [OF that] mem elsewhere(1) by auto
        then show ?thesis by (simp add: member_ok_def)
      qed
      then show "idName (bsOwner mem) = nm \<and> (\<forall>rt. rt_of m' nm = Some rt \<longrightarrow> member_ok mem rt)" using old(1) by blast
    qed
  qed (auto intro: bound_inv_accept bound_inv_record bound_inv_recovery bound_inv_queue bound_inv_disarm)
qed

text \<open>What is claimed of a unit whose peer was lost: it is stopping under a new epoch, and its stop is queued or could not be planned.\<close>

definition bound_stopped :: "name \<Rightarrow> unitRuntime \<Rightarrow> Manager \<Rightarrow> bool" where
  "bound_stopped nm rt m \<longleftrightarrow> (\<exists>rt'. rt_of m nm = Some rt' \<and> stopping rt' \<and> stopEpoch rt < stopEpoch rt'
     \<and> (prefix ''bound dependency stop plan: '' (rtErr rt')
        \<or> (\<exists>mem. map_of (boundStops m) nm = Some mem \<and> currentLocked m (bsOwner mem) \<and> bsEpoch mem = stopEpoch rt')))"

lemma queue_member_other:
  assumes "bound_inv m" "x \<noteq> nm"
  shows "rt_of (queue_member x m) nm = rt_of m nm" "map_of (boundStops (queue_member x m)) nm = map_of (boundStops m) nm"
proof -
  have e: "rt_of (enqueue_bound x k) nm = rt_of k nm" "map_of (boundStops (enqueue_bound x k)) nm = map_of (boundStops k) nm" for k
    using assms(2) by (simp_all add: enqueue_bound_def Let_def disarm_rt update_conv' split: option.split)
  have g: "rt_of (give_back i m) nm = rt_of m nm" "boundStops (give_back i m) = boundStops m" if "idName i = x" for i
    using assms(2) that by (auto simp: give_back_def split: option.split)
  have "idName (bsOwner old) = x" if "map_of (boundStops m) x = Some old" for old using assms(1) that by (simp add: bound_inv_def)
  then show "rt_of (queue_member x m) nm = rt_of m nm" "map_of (boundStops (queue_member x m)) nm = map_of (boundStops m) nm"
    using e g by (auto simp: queue_member_def split: option.split)
qed

lemma give_back_epoch: "rt_of m nm = Some rt \<Longrightarrow> \<exists>r. rt_of (give_back i m) nm = Some r \<and> stopEpoch r = stopEpoch rt"
  by (cases "idName i = nm") (auto simp: give_back_def split: option.split)

lemma enqueue_bound_stopped:
  "rt_of m nm = Some r \<Longrightarrow> stopEpoch rt \<le> stopEpoch r \<Longrightarrow> bound_stopped nm rt (enqueue_bound nm m)"
  by (auto simp: bound_stopped_def enqueue_bound_def Let_def disarm_rt update_conv' currentLocked_def)

text \<open>Queueing a unit changes nothing or puts it into the queue.\<close>

lemma queue_member_stopped:
  assumes "rt_of m nm = Some r" "stopEpoch rt \<le> stopEpoch r"
  shows "queue_member nm m = m \<or> bound_stopped nm rt (queue_member nm m)"
proof -
  have "bound_stopped nm rt (enqueue_bound nm (give_back i m))" for i
    using give_back_epoch [OF assms(1), of i] enqueue_bound_stopped assms(2) by metis
  then show ?thesis using enqueue_bound_stopped [OF assms] by (simp add: queue_member_def split: option.split)
qed

lemma queue_member_self:
  assumes inv: "bound_inv m" and rt: "rt_of m nm = Some rt" "\<not> stopping rt" "rtState rt = Active \<or> rtState rt = Activating"
  shows "bound_stopped nm rt (queue_member nm m)"
proof (cases "map_of (boundStops m) nm")
  case None
  then show ?thesis using enqueue_bound_stopped [OF rt(1)] rt by (auto simp: queue_member_def)
next
  case (Some old)
  have "idName (bsOwner old) = nm" "member_ok old rt" using inv Some rt(1) by (simp_all add: bound_inv_def)
  then have "\<not> (currentLocked m (bsOwner old) \<and> bsEpoch old = stopEpoch rt)"
    using rt(1,2) by (auto simp: currentLocked_def member_ok_def)
  then have "queue_member nm m = enqueue_bound nm (give_back (bsOwner old) m)" using rt Some by (auto simp: queue_member_def)
  then show ?thesis using give_back_epoch [OF rt(1), of "bsOwner old"] enqueue_bound_stopped by force
qed

lemma queue_member_keeps:
  assumes inv: "bound_inv m" and b: "bound_stopped nm rt m"
  shows "bound_stopped nm rt (queue_member x m)"
proof (cases "x = nm")
  case False
  note o = queue_member_other [OF inv False]
  show ?thesis using b inv unfolding bound_stopped_def o currentLocked_def by (auto simp: o bound_inv_def)
next
  case True
  obtain r where "rt_of m nm = Some r" "stopEpoch rt < stopEpoch r" using b by (auto simp: bound_stopped_def)
  then show ?thesis using queue_member_stopped [of m nm r rt] b True by auto
qed

lemma queue_all:
  assumes "bound_inv m" "nm \<in> set xs" "rt_of m nm = Some rt" "\<not> stopping rt" "rtState rt = Active \<or> rtState rt = Activating"
  shows "bound_stopped nm rt (fold queue_member xs m)"
  using assms(1-3)
proof (induction xs arbitrary: m)
  case (Cons x xs)
  have keep: "bound_stopped nm rt (fold queue_member ys k)" if "bound_inv k" "bound_stopped nm rt k" for ys k
    using that by (induction ys arbitrary: k) (auto intro: queue_member_keeps bound_inv_member)
  show ?case
  proof (cases "x = nm")
    case True
    then show ?thesis using keep [OF bound_inv_member [OF Cons.prems(1)] queue_member_self [OF Cons.prems(1,3) assms(4,5)]] by simp
  next
    case False
    then show ?thesis
      using Cons.IH [OF bound_inv_member [OF Cons.prems(1)]] Cons.prems queue_member_other(1) [OF Cons.prems(1) False] by simp
  qed
qed simp

lemma fail_all:
  assumes "nm \<in> set xs" "rt_of m nm = Some rt"
  shows "bound_stopped nm rt (fold (fail_bound msg) xs m)"
proof -
  define P where "P k \<longleftrightarrow> (\<exists>r. rt_of k nm = Some r \<and> stopping r \<and> stopEpoch rt < stopEpoch r
      \<and> prefix ''bound dependency stop plan: '' (rtErr r))" for k
  have f: "P (fail_bound msg nm k)" if "rt_of k nm = Some r" "stopEpoch rt \<le> stopEpoch r" for k r
    using that by (auto simp: P_def fail_bound_def Let_def disarm_rt)
  have o: "rt_of (fail_bound msg x k) nm = rt_of k nm" if "x \<noteq> nm" for x k
    using that by (simp add: fail_bound_def Let_def disarm_rt split: option.split)
  have keep: "P (fold (fail_bound msg) ys k)" if "P k" for ys k
    using that
  proof (induction ys arbitrary: k)
    case (Cons y ys)
    then have "P (fail_bound msg y k)" using f o by (cases "y = nm") (auto simp: P_def)
    then show ?case using Cons.IH by simp
  qed simp
  have "P (fold (fail_bound msg) xs m)" using assms
  proof (induction xs arbitrary: m)
    case (Cons x xs)
    then show ?case using keep [OF f, of m rt] o by (cases "x = nm") auto
  qed simp
  then show ?thesis by (auto simp: P_def bound_stopped_def)
qed


section \<open>Sample launches\<close>

definition sample_rt :: "nat \<Rightarrow> Unit \<Rightarrow> unitRuntime" where
  "sample_rt k u = \<lparr>rtId = k, rtUnit = Some u, invocationUnit = None, configRevision = [], invocationRevision = [],
     unavailable = False, operations = 0, capturing = False, rtState = Active, rtSub = SubRunning, rtGen = 0, stopEpoch = 0,
     rtProc = None, rtNotify = False, rtHub = False, startCancel = False, restartCancel = False, restartAttempt = 0,
     restartDelayOf = 0, restartGeneration = 0, stopping = False, cleanup = {}, rtErr = [], startTimes = [], health = [],
     probeFailures = 0, nativeNextProbe = 0, nativeProbeError = []\<rparr>"

definition bound_unit :: Unit where
  "bound_unit = (new_Unit 1 ''web.service'' ''C:/web.service'' KindService)
     \<lparr>BindsTo := [''db.service''], After := [''db.service''], StartLimitInterval := 10, StartLimitBurst := 2\<rparr>"

definition sample_mgr :: Manager where
  "sample_mgr = \<lparr>units = [(''web.service'', sample_rt 1 bound_unit),
      (''db.service'', sample_rt 2 (new_Unit 1 ''db.service'' ''C:/db.service'' KindService))],
     mgrClosed = False, AdmissionHold = [], boundStops = [], boundWorker = False\<rparr>"

definition sample_effect :: "launch_result \<Rightarrow> launchEffect" where
  "sample_effect r = the (projr (snd (snd r)))"

definition launch1 :: launch_result where
  "launch1 = acceptLaunch 5 False ''web.service'' False None None (Some 1, None, False) sample_mgr"

definition mgr1 :: Manager where
  "mgr1 = recordServiceLaunch 6 (sample_effect launch1) False (fst launch1)"

definition launch2 :: launch_result where
  "launch2 = acceptLaunch 7 False ''web.service'' True None None (Some 1, None, False) mgr1"

definition mgr2 :: Manager where
  "mgr2 = recordServiceLaunch 7 (sample_effect launch2) False (fst launch2)"

definition accepted :: "launch_result \<Rightarrow> bool" where
  "accepted r = (case snd (snd r) of Inl _ \<Rightarrow> False | Inr eff \<Rightarrow> \<not> Option.is_none eff)"

lemma accepted_eq: "accepted r \<Longrightarrow> r = (fst r, fst (snd r), Inr (Some (sample_effect r)))"
  by (cases r) (auto simp: accepted_def sample_effect_def Option.is_none_def split: sum.splits)

lemma sample_accepted: "accepted launch1" "accepted launch2"
  by code_simp+

lemma sample_step:
  assumes "c \<le> t" "t \<le> t'" "rt_of m nm = Some (the (rt_of m nm))" "limited i b (the (rt_of m nm))"
    "r = acceptLaunch t False nm autoRestart None None obs m" "accepted r"
    "rt_of (fst r) nm = Some (the (rt_of (fst r) nm))" "limited i b (the (rt_of (fst r) nm))"
    "\<not> mgrClosed (fst r)" "currentLocked (fst r) (efOwner (sample_effect r))"
  shows "launch_step nm i b (m, ts, c) (recordServiceLaunch t' (sample_effect r) False (fst r), since_explicit autoRestart None ts @ [t'], t')"
proof -
  have "acceptLaunch t False nm autoRestart None None obs m = (fst r, fst (snd r), Inr (Some (sample_effect r)))"
    unfolding assms(5) [symmetric] by (rule accepted_eq [OF assms(6)])
  moreover have "plan_limited i b None" by (simp add: plan_limited_def)
  ultimately show ?thesis using launch [OF assms(1-4) _ _ refl assms(7-10)] by blast
qed

lemma sample_run: "(launch_step ''web.service'' 10 2)\<^sup>*\<^sup>* (sample_mgr, [], 0) (mgr2, [6, 7], 7)"
proof -
  let ?some = "\<lambda>m. \<not> Option.is_none (rt_of m ''web.service'')" and ?lim = "\<lambda>m. limited 10 2 (the (rt_of m ''web.service''))"
  have f: "?some sample_mgr" "?lim sample_mgr" "?some (fst launch1)" "?lim (fst launch1)" "?some mgr1" "?lim mgr1"
    "?some (fst launch2)" "?lim (fst launch2)" "\<not> mgrClosed (fst launch1)" "\<not> mgrClosed (fst launch2)"
    "currentLocked (fst launch1) (efOwner (sample_effect launch1))" "currentLocked (fst launch2) (efOwner (sample_effect launch2))"
    by code_simp+
  have "launch_step ''web.service'' 10 2 (sample_mgr, [], 0) (mgr1, [6], 6)"
    using sample_step [of 0 5 6 sample_mgr "''web.service''" 10 2 launch1 False "(Some 1, None, False)" "[]"] f sample_accepted(1)
    by (simp add: launch1_def mgr1_def since_explicit_def triggered_plan_def Option.is_none_def)
  moreover have "launch_step ''web.service'' 10 2 (mgr1, [6], 6) (mgr2, [6, 7], 7)"
    using sample_step [of 6 7 7 mgr1 "''web.service''" 10 2 launch2 True "(Some 1, None, False)" "[6]"] f sample_accepted(2)
    by (simp add: launch2_def mgr2_def since_explicit_def Option.is_none_def)
  ultimately show ?thesis by auto
qed

theorem start_rate_bounded_witness: "int (length (window 10 8 [6, 7])) \<le> 2"
proof (rule start_rate_bounded [OF _ _ sample_run])
  have "starts_of ''web.service'' sample_mgr = Some (the (starts_of ''web.service'' sample_mgr))"
    "the (starts_of ''web.service'' sample_mgr) = []" by code_simp+
  then show "starts_of ''web.service'' sample_mgr = Some []" by simp
qed simp_all



end
