(* ===== verification/Spec2Isabelle.thy ===== *)
theory Spec2Isabelle
  imports Prelude Watch_Specs Calendar_Parse Unit_Types Unit_Names Lifecycle Start_Limit
    Walk Dep_Graph Cycle Closures Transaction Run_State Executor Execute_Start Stop_Executor
    Ini Exec_Line Duration Resource Endpoint Unit_Builder Service_Finish Service_Checks Service_Accepted
    Unit_Parse Unit_Report Unit_Verify
    Journal_Buffer Journal_Stats Journal_Queue Journal_Fair Journal_Names Journal_File Journal_Records
    Timer_Schedule Timer_Engine Timer_Invariants Timer_Runs Timer_History Timer_Properties
    Manager_Launch
begin

text \<open>
  \<^bold>\<open>winunitd\<close> is a service manager for Windows in the style of systemd.  This development models its
  platform-independent logic and proves what makes it correct.  Its parts work together as follows.  Unit files are read
  (\<open>internal/unit\<close>) into units; the dependency graph of the loaded units (\<open>internal/core/graph.go\<close>) is
  checked for ordering cycles and planned into transactions (\<open>transaction.go\<close>), which the executor
  (\<open>execute.go\<close>) runs with a bounded number of workers; each unit follows the lifecycle of \<open>state.go\<close>, is launched by
  decisions of the manager (\<open>internal/manager\<close>), restarts within the limits of \<open>restart.go\<close> and \<open>startlimit.go\<close>, is started by triggers
  (\<open>internal/timers\<close>, \<open>registry\<close>, \<open>eventlog\<close>, \<open>pathwatch\<close>), and its output is captured into the journal
  (\<open>internal/journal\<close>).

  \<^bold>\<open>Conventions.\<close>  Go strings are byte strings (\<open>string\<close>); a \<open>time.Time\<close> or \<open>time.Duration\<close> is an \<open>int\<close> in
  nanoseconds; \<open>uint64\<close> counters that may wrap are words; other machine integers are \<open>int\<close> or \<open>nat\<close> with the bounds
  proved.  Errors are values (\<open>string + 'a\<close> or \<open>string option\<close>).  What the operating system, the clock, an adapter or a
  callback answers is an argument of the definition that calls it, and the theorems hold for all answers.  Code under a
  lock is one step; concurrency is the order of the steps.  The order in which Go ranges over a map is an argument where
  it can matter.

  \<^bold>\<open>Theories, and the sources they model.\<close>

  \<^item> \<open>Prelude\<close>: the string functions of Go, numbers and their printing, and the locale \<open>invariant_system\<close> for
    invariants of step relations.
  \<^item> \<open>Unit_Types\<close>, \<open>Unit_Names\<close> (\<open>unit/types.go\<close>, \<open>unit/path.go\<close>, \<open>core/names.go\<close>): units, names and link names.
  \<^item> \<open>Ini\<close>, \<open>Exec_Line\<close>, \<open>Duration\<close>, \<open>Resource\<close>, \<open>Endpoint\<close>, \<open>Watch_Specs\<close>, \<open>Calendar_Parse\<close>: the reader and the
    value parsers; round trips, exactness and bounds.
  \<^item> \<open>Unit_Builder\<close>, \<open>Service_Finish\<close>, \<open>Service_Checks\<close>, \<open>Service_Accepted\<close>, \<open>Unit_Parse\<close>, \<open>Unit_Report\<close>,
    \<open>Unit_Verify\<close> (\<open>unit/parse.go\<close>, \<open>readiness.go\<close>, \<open>watchdog.go\<close>, \<open>user.go\<close>, \<open>format.go\<close>, \<open>verify.go\<close>,
    \<open>migrate.go\<close>): the parser.  Every check is a stage on the service and the report; the locale \<open>stage_order\<close> shows
    once that a composition of stages only adds errors and keeps what it does not set.  The result: an error-free unit
    can be run.
  \<^item> \<open>Walk\<close>, \<open>Closures\<close>, \<open>Dep_Graph\<close>, \<open>Cycle\<close>, \<open>Transaction\<close> (\<open>core/graph.go\<close>, \<open>core/transaction.go\<close>): the graph,
    the cycle search and the plans, each shown equal to its relational meaning.
  \<^item> \<open>Run_State\<close>, \<open>Executor\<close>, \<open>Execute_Start\<close>, \<open>Stop_Executor\<close> (\<open>core/execute.go\<close>, \<open>core/skip.go\<close>): the executors
    as step relations (all interleavings) and as functions (the loop), with safety, termination, failure propagation and
    the refinement of an abstract scheduler.
  \<^item> \<open>Lifecycle\<close>, \<open>Start_Limit\<close> (\<open>core/state.go\<close>, \<open>restart.go\<close>, \<open>startlimit.go\<close>): the unit state machine, restart
    decisions and the start-rate limit.
  \<^item> \<open>Manager_Launch\<close> (\<open>manager/lifecycle_launch.go\<close>, \<open>lifecycle_bound.go\<close>, \<open>lifecycle_events.go\<close>, \<open>startlimit.go\<close> and
    the record of \<open>unitruntime.go\<close>): the sections under the manager's mutex that admit a launch or a recovery, record a
    start, and stop the units bound to a lost peer.  A launch makes every older identity of its unit stale, the start
    limit bounds the starts since the last explicit launch, and bound units are always stopped.  The other sections of
    the manager are an environment step that may change anything but what only these sections write.
  \<^item> \<open>Timer_Schedule\<close>, \<open>Timer_Engine\<close>, \<open>Timer_Invariants\<close>, \<open>Timer_Runs\<close>, \<open>Timer_History\<close>, \<open>Timer_Properties\<close>
    (\<open>timers/schedule.go\<close>, \<open>engine.go\<close>, \<open>calendar_work.go\<close>, \<open>storage_work.go\<close>, the types of \<open>state.go\<close> and the clock
    interface of \<open>clock.go\<close>): the deadline of one timer and the engine that serves all of them.  \<open>Timer_Schedule\<close> has
    \<open>nextDeadline\<close>; \<open>Timer_Engine\<close> the engine's struct and each of its critical sections, including those of the callback,
    loader and planner goroutines, whose work in flight is a list of jobs; \<open>timer_step\<close> is one section at one clock
    reading, \<open>timer_run\<close> any interleaving of them.  \<open>Timer_Invariants\<close>, \<open>Timer_Runs\<close> and \<open>Timer_History\<close> prove that every
    section keeps the bounds of the engine, the agreement of the deadline heap with the armed timers, the exclusive use of
    the store, and the history of accepted, stored and delivered occurrences, a record the code does not have.
    \<open>Timer_Properties\<close> states what follows: bounds, exact deadlines, no missed deadline, durable intents, no early and no
    repeated acceptance; and a run that shows the \<open>OnBootSec=\<close> trigger of a pending timer firing again after a refresh.
  \<^item> \<open>Journal_Buffer\<close>, \<open>Journal_Stats\<close>, \<open>Journal_Queue\<close>, \<open>Journal_Fair\<close>, \<open>Journal_Names\<close>, \<open>Journal_File\<close>,
    \<open>Journal_Records\<close> (\<open>journal/buffer.go\<close>, \<open>retention.go\<close>, \<open>queue.go\<close>, \<open>fair_queue.go\<close>, \<open>name.go\<close>, \<open>id.go\<close>,
    \<open>store.go\<close>, \<open>recovery.go\<close>): from captured output to files.  The queue keeps its limits, counts every loss, keeps the
    order of each invocation and serves the invocations in turn; a file keeps whole records in order under any storage
    errors; file names identify their unit.  Contracts with separate postconditions for success and error
    (\<open>contract\<close>) carry the proofs about files.

  \<^bold>\<open>Bounds and fuel.\<close>  Loops are structural or have a termination proof: the command-line and duration scanners
  consume input, the graph walks consume the finite set of nodes, the executors the unfinished jobs, the eviction loop of
  the capture queue the pending records, a rotation its remaining steps, and a timer section fires each due item once.  The start and stop loops take the sequence in
  which workers report as an argument and are shown to settle every job.  No definition uses fuel that a theorem does not
  show to be enough.

  \<^bold>\<open>Not modelled.\<close>  System calls and everything that is only glue around them: named pipes, peer tokens and JSON
  encoding (\<open>internal/protocol\<close>, \<open>internal/notify\<close> transport), processes, job objects, accounts and sessions
  (\<open>internal/runtime\<close>), watch handles, the installer state (\<open>internal/servicing\<close>), the command-line programs
  (\<open>cmd\<close>), build tools, test fixtures and the vendored \<open>go-winio\<close>.  Of the manager (\<open>internal/manager\<close>) the launch
  decisions are modelled; the rest is mostly goroutines and locks around the modelled parts and the operating system.  Of
  the timers, the search for the next calendar instant is the parameter \<open>cal_search\<close>, the store is given by its answers,
  and the loop that waits for an operating-system timer is not modelled; a section reads the clock once, redelivered
  occurrences are not logged as accepted, and the counters do not wrap.  Of the journal, queries, the disk quota and its
  pruning are not modelled, and the final close of a file, which is, is not a step of the runs.  Rune iteration,
  \<open>TrimSpace\<close> and \<open>Fields\<close> are modelled on UTF-8 with Unicode's white space; \<open>ToLower\<close>, \<open>ToUpper\<close>, \<open>EqualFold\<close> and \<open>%q\<close> on
  ASCII, where other bytes are carried along unchanged: two unit names that differ only in the case of a letter outside
  ASCII are one name for the code and two for the model.
\<close>

end
